(* ===== verification/Olog_Prelude.thy ===== *)
theory Olog_Prelude
  imports Complex_Main "HOL-Library.Word"
begin

text \<open>
  Shared ground of the development: the faults a C or C++ operation can run into, the
  result type of an operation that may fault, two's-complement wrap-around of signed
  machine integers, and the generic list lemmas the components use.
\<close>

named_theorems res_simps \<open>evaluation and inversion of fallible operations\<close>

section \<open>Faults and fallible operations\<close>

text \<open>
  What a C or C++ program does outside its defined behaviour, or by a failing assertion.
  An operation of the model that would do one of these returns the fault as its result.
\<close>

datatype fault =
    Null_Deref          \<comment> \<open>dereference of a null pointer\<close>
  | Use_After_Free      \<comment> \<open>dereference of a pointer whose object was deleted\<close>
  | Out_Of_Bounds       \<comment> \<open>access outside an array, vector or string\<close>
  | Buffer_Overflow     \<comment> \<open>write past the end of a fixed-size array\<close>
  | Indeterminate       \<comment> \<open>use of a variable that was never assigned\<close>
  | Assert_Failed       \<comment> \<open>a failing assert or rd_assert\<close>
  | Logic_Error         \<comment> \<open>std::logic_error, e.g. a std::string made from a null pointer\<close>
  | Div_By_Zero         \<comment> \<open>integer division or remainder by zero\<close>
  | Exit_Failure        \<comment> \<open>the process calls exit(1)\<close>
  | Bad_Shift           \<comment> \<open>shift by at least the width of the operand\<close>
  | Bad_Free            \<comment> \<open>free of a pointer that malloc did not return\<close>
  | Int_Overflow        \<comment> \<open>signed overflow of a loop counter, after which the loop has no end\<close>

type_synonym 'a res = "fault + 'a"

definition bindR :: "'a res \<Rightarrow> ('a \<Rightarrow> 'b res) \<Rightarrow> 'b res" where
  "bindR m f = (case m of Inl e \<Rightarrow> Inl e | Inr x \<Rightarrow> f x)"

definition check :: "fault \<Rightarrow> bool \<Rightarrow> unit res" where
  "check e b = (if b then Inr () else Inl e)"

definition derefR :: "fault \<Rightarrow> 'a option \<Rightarrow> 'a res" where
  "derefR e p = (case p of None \<Rightarrow> Inl e | Some x \<Rightarrow> Inr x)"

lemma bindR_Inr [simp, res_simps]: "bindR (Inr x) f = f x"
  by (simp add: bindR_def)

lemma bindR_Inl [simp, res_simps]: "bindR (Inl e) f = Inl e"
  by (simp add: bindR_def)

lemma bindR_eq_Inr [res_simps]: "bindR m f = Inr y \<longleftrightarrow> (\<exists>x. m = Inr x \<and> f x = Inr y)"
  by (cases m) (auto simp: bindR_def)

lemma bindR_eq_Inl [res_simps]:
  "bindR m f = Inl e \<longleftrightarrow> m = Inl e \<or> (\<exists>x. m = Inr x \<and> f x = Inl e)"
  by (cases m) (auto simp: bindR_def)

lemma bindR_assoc [res_simps]: "bindR (bindR m f) g = bindR m (\<lambda>x. bindR (f x) g)"
  by (cases m) (auto simp: bindR_def)

lemma check_True [simp, res_simps]: "check e True = Inr ()"
  and check_False [simp, res_simps]: "check e False = Inl e"
  by (simp_all add: check_def)

lemma check_eq_Inr [simp, res_simps]: "check e b = Inr u \<longleftrightarrow> b"
  by (simp add: check_def)

lemma check_eq_Inl [simp, res_simps]: "check e b = Inl f \<longleftrightarrow> \<not> b \<and> f = e"
  by (auto simp: check_def)

lemma derefR_None [simp, res_simps]: "derefR e None = Inl e"
  and derefR_Some [simp, res_simps]: "derefR e (Some x) = Inr x"
  by (simp_all add: derefR_def)

lemma derefR_eq_Inr [simp, res_simps]: "derefR e p = Inr x \<longleftrightarrow> p = Some x"
  by (cases p) auto

lemma derefR_eq_Inl [simp, res_simps]: "derefR e p = Inl f \<longleftrightarrow> p = None \<and> f = e"
  by (cases p) auto

lemma bindR_cong [fundef_cong]:
  "m = m' \<Longrightarrow> (\<And>x. m' = Inr x \<Longrightarrow> f x = f' x) \<Longrightarrow> bindR m f = bindR m' f'"
  by (cases m') (auto simp: bindR_def)


section \<open>Signed machine integers\<close>

text \<open>
  Signed integers are integers kept in the range of their width. An addition or a
  multiplication of the source goes through \<open>swrap\<close>, which is what the compiled code does;
  inside the range it is the identity.
\<close>

definition swrap :: "nat \<Rightarrow> int \<Rightarrow> int" where
  "swrap w x = (x + 2 ^ (w - 1)) mod 2 ^ w - 2 ^ (w - 1)"

definition in_range :: "nat \<Rightarrow> int \<Rightarrow> bool" where
  "in_range w x \<longleftrightarrow> - (2 ^ (w - 1)) \<le> x \<and> x < 2 ^ (w - 1)"

abbreviation s32 :: "int \<Rightarrow> int" where
  "s32 \<equiv> swrap 32"

abbreviation s64 :: "int \<Rightarrow> int" where
  "s64 \<equiv> swrap 64"

lemma two_pow_pred: "0 < w \<Longrightarrow> (2::int) ^ w = 2 * 2 ^ (w - 1)"
  by (cases w) auto

lemma swrap_in_range: "0 < w \<Longrightarrow> in_range w (swrap w x)"
proof -
  assume "0 < w"
  have "0 \<le> (x + 2 ^ (w - 1)) mod 2 ^ w" and "(x + 2 ^ (w - 1)) mod 2 ^ w < 2 ^ w"
    by simp_all
  then show ?thesis
    using two_pow_pred [OF \<open>0 < w\<close>] by (simp add: swrap_def in_range_def)
qed

lemma swrap_id: "0 < w \<Longrightarrow> in_range w x \<Longrightarrow> swrap w x = x"
  using two_pow_pred [of w] by (simp add: swrap_def in_range_def)

lemma s64_id: "- 9223372036854775808 \<le> x \<Longrightarrow> x < 9223372036854775808 \<Longrightarrow> s64 x = x"
  by (rule swrap_id) (simp_all add: in_range_def)

lemma s32_id: "- 2147483648 \<le> x \<Longrightarrow> x < 2147483648 \<Longrightarrow> s32 x = x"
  by (rule swrap_id) (simp_all add: in_range_def)


text \<open>A byte of memory.\<close>

type_synonym byte = "8 word"

lemma unat_of_nat_small: "n < 2 ^ LENGTH('a) \<Longrightarrow> unat (word_of_nat n :: 'a::len word) = n"
  by (simp add: unsigned_of_nat take_bit_nat_eq_self)

lemma bit_unat_iff: "bit (unat w) i \<longleftrightarrow> bit w i"
  using bit_imp_le_length [of w i] by (auto simp: bit_unsigned_iff)

unbundle bit_operations_syntax

lemma flag_or_iff: "(f OR g) AND h \<noteq> 0 \<longleftrightarrow> f AND h \<noteq> 0 \<or> g AND h \<noteq> (0 :: 'a::len word)"
proof -
  have "(f OR g) AND h = (f AND h) OR (g AND h)" by (rule bit_word_eqI) (auto simp: bit_and_iff bit_or_iff)
  then show ?thesis by (simp only: or_eq_0_iff de_Morgan_conj)
qed

lemma sint_small: "unat w < 2 ^ (LENGTH('a) - 1) \<Longrightarrow> sint (w :: 'a::len word) = int (unat w)"
proof -
  assume small: "unat w < 2 ^ (LENGTH('a) - 1)"
  have u: "uint w = int (unat w)" by simp
  have "int (unat w) < 2 ^ (LENGTH('a) - 1)" using small by (metis of_nat_less_iff of_nat_numeral of_nat_power)
  moreover have "- (2 ^ (LENGTH('a) - 1)) \<le> int (unat w)" by (rule order_trans [of _ 0]) simp_all
  ultimately show ?thesis unfolding sint_uint u by (intro signed_take_bit_int_eq_self) (simp_all only: One_nat_def)
qed


section \<open>Lists\<close>

lemma takeWhile_append_stop:
  "(\<And>x. x \<in> set xs \<Longrightarrow> P x) \<Longrightarrow> ys = [] \<or> \<not> P (hd ys) \<Longrightarrow> takeWhile P (xs @ ys) = xs"
  by (induction xs) (cases ys; simp)+

lemma dropWhile_append_stop:
  "(\<And>x. x \<in> set xs \<Longrightarrow> P x) \<Longrightarrow> ys = [] \<or> \<not> P (hd ys) \<Longrightarrow> dropWhile P (xs @ ys) = ys"
  by (induction xs) (cases ys; simp)+

lemma dropWhile_head: "xs = [] \<or> \<not> P (hd xs) \<Longrightarrow> dropWhile P xs = xs"
  by (cases xs) auto

lemma list_update_append_right:
  "length xs \<le> i \<Longrightarrow> (xs @ ys)[i := v] = xs @ ys[i - length xs := v]"
  by (simp add: list_update_append)

end
