(* ===== verification/Cxx_Text.thy ===== *)
theory Cxx_Text
  imports Olog_Prelude "HOL-Library.Log_Nat"
begin

text \<open>
  What the monitor uses of the C++ library for text: decimal printing of integers and
  of doubles (\<open>std::to_string\<close>, the \<open>%d\<close>, \<open>%lld\<close> and \<open>%f\<close> conversions of \<open>sprintf\<close>),
  \<open>sprintf\<close> into a fixed array, and the extraction operators of \<open>std::istringstream\<close>.

  A finite double is the rational number it denotes; \<open>dbl\<close> rounds a rational to the
  nearest double, ties to even. The values of the program come from stream extraction,
  which never yields a NaN or an infinity. The sign of a zero is not represented.
\<close>

section \<open>Decimal digits\<close>

definition digit_char :: "nat \<Rightarrow> char" where
  "digit_char d = char_of (48 + d)"

definition digit_val :: "char \<Rightarrow> nat" where
  "digit_val c = of_char c - 48"

definition is_digit :: "char \<Rightarrow> bool" where
  "is_digit c \<longleftrightarrow> 48 \<le> (of_char c :: nat) \<and> (of_char c :: nat) \<le> 57"

fun show_nat :: "nat \<Rightarrow> string" where
  "show_nat n = (if n < 10 then [digit_char n] else show_nat (n div 10) @ [digit_char (n mod 10)])"

declare show_nat.simps [simp del]

definition read_nat :: "string \<Rightarrow> nat" where
  "read_nat s = foldl (\<lambda>a c. a * 10 + digit_val c) 0 s"

definition show_int :: "int \<Rightarrow> string" where
  "show_int i = (if i < 0 then CHR ''-'' # show_nat (nat (- i)) else show_nat (nat i))"

lemma of_char_digit_char: "d < 10 \<Longrightarrow> (of_char (digit_char d) :: nat) = 48 + d"
  by (simp add: digit_char_def)

lemma digit_val_digit_char [simp]: "d < 10 \<Longrightarrow> digit_val (digit_char d) = d"
  by (simp add: digit_val_def of_char_digit_char)

lemma is_digit_digit_char [simp]: "d < 10 \<Longrightarrow> is_digit (digit_char d)"
  by (simp add: is_digit_def of_char_digit_char)

lemma digit_char_simps [simp]:
  "digit_char 0 = CHR ''0''" "digit_char 1 = CHR ''1''" "digit_char 2 = CHR ''2''"
  "digit_char 3 = CHR ''3''" "digit_char 4 = CHR ''4''" "digit_char 5 = CHR ''5''"
  "digit_char 6 = CHR ''6''" "digit_char 7 = CHR ''7''" "digit_char 8 = CHR ''8''"
  "digit_char 9 = CHR ''9''" "digit_char (Suc 0) = CHR ''1''"
  by code_simp+

lemma show_nat_nonempty [simp]: "show_nat n \<noteq> []"
  by (subst show_nat.simps) simp

lemma show_nat_digits: "c \<in> set (show_nat n) \<Longrightarrow> is_digit c"
proof (induction n rule: show_nat.induct)
  case (1 n)
  then show ?case
    by (cases "n < 10") (auto simp: show_nat.simps [of n])
qed

lemma read_nat_snoc: "read_nat (s @ [c]) = read_nat s * 10 + digit_val c"
  by (simp add: read_nat_def)

lemma read_show_nat [simp]: "read_nat (show_nat n) = n"
proof (induction n rule: show_nat.induct)
  case (1 n)
  show ?case
  proof (cases "n < 10")
    case True
    then show ?thesis by (simp add: show_nat.simps [of n] read_nat_def)
  next
    case False
    with 1 have "read_nat (show_nat (n div 10)) = n div 10" by simp
    with False show ?thesis by (simp add: show_nat.simps [of n] read_nat_snoc)
  qed
qed

lemma show_nat_inj: "show_nat m = show_nat n \<Longrightarrow> m = n"
  by (metis read_show_nat)


section \<open>Doubles\<close>

type_synonym double = rat

definition pow2 :: "int \<Rightarrow> rat" where
  "pow2 e = (if 0 \<le> e then 2 ^ nat e else 1 / 2 ^ nat (- e))"

text \<open>The largest \<open>e\<close> with \<open>2 ^ e \<le> q\<close>, for a positive \<open>q\<close>.\<close>

definition ilog2 :: "rat \<Rightarrow> int" where
  "ilog2 q =
     (let (n, d) = quotient_of q;
          e = int (floorlog 2 (nat n)) - int (floorlog 2 (nat d))
      in if pow2 e \<le> q then e else e - 1)"

definition round_half_even :: "rat \<Rightarrow> int" where
  "round_half_even q =
     (let f = \<lfloor>q\<rfloor>; r = q - of_int f
      in if r < 1 / 2 then f else if 1 / 2 < r then f + 1 else if even f then f else f + 1)"

definition dbl :: "rat \<Rightarrow> double" where
  "dbl q =
     (if q = 0 then 0
      else let e = max (ilog2 \<bar>q\<bar> - 52) (- 1074) in of_int (round_half_even (q / pow2 e)) * pow2 e)"

definition DBL_MAX :: double where
  "DBL_MAX = (2 ^ 53 - 1) * 2 ^ 971"

lemma pow2_pos [simp]: "0 < pow2 e"
  by (simp add: pow2_def)

lemma pow2_neq_0 [simp]: "pow2 e \<noteq> 0"
  by (simp add: pow2_def)

lemma pow2_add: "pow2 (a + b) = pow2 a * pow2 b"
proof -
  have eq: "pow2 e = 2 powi e" for e
    by (simp add: pow2_def power_int_def field_simps)
  show ?thesis by (simp add: eq power_int_add)
qed

lemma pow2_mono: "a \<le> b \<Longrightarrow> pow2 a \<le> pow2 b"
proof -
  assume "a \<le> b"
  have "pow2 b = pow2 (a + (b - a))" by simp
  also have "\<dots> = pow2 a * pow2 (b - a)" by (rule pow2_add)
  also have "\<dots> \<ge> pow2 a * 1"
    by (rule mult_left_mono) (use \<open>a \<le> b\<close> in \<open>simp_all add: pow2_def less_imp_le\<close>)
  finally show ?thesis by simp
qed

lemma pow2_of_nat: "pow2 (int n) = 2 ^ n"
  by (simp add: pow2_def)

lemma floorlog_pow2:
  assumes "0 < k"
  shows "pow2 (int (floorlog 2 k) - 1) \<le> of_nat k \<and> of_nat k < pow2 (int (floorlog 2 k))"
proof -
  have b: "2 ^ (floorlog 2 k - 1) \<le> k" "k < 2 ^ floorlog 2 k" and p: "0 < floorlog 2 k"
    using floorlog_bounds [of k 2] assms by (auto simp: floorlog_def)
  have "(of_nat (2 ^ (floorlog 2 k - 1)) :: rat) \<le> of_nat k"
    using b(1) by (rule of_nat_mono)
  moreover have "(of_nat k :: rat) < of_nat (2 ^ floorlog 2 k)"
    using b(2) by (simp only: of_nat_less_iff)
  moreover have "pow2 (int (floorlog 2 k) - 1) = 2 ^ (floorlog 2 k - 1)"
    using p by (simp add: pow2_def nat_diff_distrib')
  ultimately show ?thesis by (simp add: pow2_of_nat)
qed

lemma ilog2_bounds:
  assumes "0 < q"
  shows "pow2 (ilog2 q) \<le> q \<and> q < pow2 (ilog2 q + 1)"
proof -
  obtain n d where nd: "quotient_of q = (n, d)" by (cases "quotient_of q")
  have d: "0 < d" using quotient_of_denom_pos [OF nd] .
  have q: "q = of_int n / of_int d" using quotient_of_div [OF nd] .
  have n: "0 < n" using assms q d by (simp add: zero_less_divide_iff)
  define a b where ab: "a = int (floorlog 2 (nat n))" "b = int (floorlog 2 (nat d))"
  have rn: "(of_nat (nat n) :: rat) = of_int n" and rd: "(of_nat (nat d) :: rat) = of_int d"
    using n d by simp_all
  have N: "pow2 (a - 1) \<le> of_int n" "of_int n < pow2 a"
    using floorlog_pow2 [of "nat n"] n rn by (simp_all add: ab)
  have D: "pow2 (b - 1) \<le> of_int d" "of_int d < pow2 b"
    using floorlog_pow2 [of "nat d"] d rd by (simp_all add: ab)
  have lo: "pow2 (a - b - 1) \<le> q"
  proof -
    have "pow2 (a - b - 1) * of_int d \<le> pow2 (a - b - 1) * pow2 b"
      using D(2) by (intro mult_left_mono) (simp_all add: less_imp_le)
    also have "\<dots> = pow2 (a - 1)" by (simp add: pow2_add [symmetric])
    finally show ?thesis using N(1) d by (simp add: q pos_le_divide_eq)
  qed
  have hi: "q < pow2 (a - b + 1)"
  proof -
    have "of_int n < pow2 a" by (rule N(2))
    also have "pow2 a = pow2 (a - b + 1) * pow2 (b - 1)" by (simp add: pow2_add [symmetric])
    also have "\<dots> \<le> pow2 (a - b + 1) * of_int d"
      using D(1) by (intro mult_left_mono) (simp_all add: less_imp_le)
    finally show ?thesis using d by (simp add: q pos_divide_less_eq)
  qed
  show ?thesis using lo hi by (auto simp: ilog2_def nd ab [symmetric] Let_def)
qed

lemma round_half_even_of_int [simp]: "round_half_even (of_int m) = m"
  by (simp add: round_half_even_def)

text \<open>A rational that is a double is not changed by rounding.\<close>

lemma dbl_exact:
  assumes "q = of_int m * pow2 e" and "\<bar>m\<bar> < 2 ^ 53" and "- 1074 \<le> e"
  shows "dbl q = q"
proof (cases "q = 0")
  case False
  define k where "k = max (ilog2 \<bar>q\<bar> - 52) (- 1074)"
  have m0: "m \<noteq> 0" using False assms(1) by auto
  have abs: "\<bar>q\<bar> = of_int \<bar>m\<bar> * pow2 e" using assms(1) by (simp add: abs_mult abs_of_pos)
  have "k \<le> e"
  proof (rule ccontr)
    assume "\<not> k \<le> e"
    then have k: "k = ilog2 \<bar>q\<bar> - 52" and lt: "e + 1 \<le> k" using assms(3) by (auto simp: k_def)
    have "pow2 (ilog2 \<bar>q\<bar>) \<le> \<bar>q\<bar>" using ilog2_bounds [of "\<bar>q\<bar>"] False by simp
    moreover have "pow2 (e + 53) \<le> pow2 (ilog2 \<bar>q\<bar>)" using lt k by (intro pow2_mono) simp
    ultimately have "pow2 (e + 53) \<le> of_int \<bar>m\<bar> * pow2 e"
      unfolding abs by (rule order_trans [rotated])
    then have "2 ^ 53 * pow2 e \<le> of_int \<bar>m\<bar> * pow2 e"
      by (simp add: pow2_add pow2_def [of 53] mult.commute)
    then have "(2 ^ 53 :: rat) \<le> of_int \<bar>m\<bar>" by (simp add: mult_le_cancel_right)
    then have "(of_int (2 ^ 53) :: rat) \<le> of_int \<bar>m\<bar>" by simp
    then have "2 ^ 53 \<le> \<bar>m\<bar>" unfolding of_int_le_iff .
    with assms(2) show False by simp
  qed
  then have "q / pow2 k = of_int (m * 2 ^ nat (e - k))"
    using pow2_add [of "e - k" k] by (simp add: assms(1) pow2_def [of "e - k"])
  then have "dbl q = of_int (m * 2 ^ nat (e - k)) * pow2 k"
    using False by (simp add: dbl_def k_def [symmetric] Let_def del: of_int_mult of_int_power)
  also have "\<dots> = q"
    using \<open>k \<le> e\<close> pow2_add [of "e - k" k] by (simp add: assms(1) pow2_def [of "e - k"])
  finally show ?thesis .
qed (simp add: dbl_def)

lemma dbl_of_int: "\<bar>m\<bar> < 2 ^ 53 \<Longrightarrow> dbl (of_int m) = of_int m"
  by (rule dbl_exact [of _ m 0]) (simp_all add: pow2_def)

text \<open>The \<open>%f\<close> conversion: six decimals, the exact value rounded to nearest, ties to even.\<close>

definition pad6 :: "nat \<Rightarrow> string" where
  "pad6 n = (let s = show_nat n in replicate (6 - length s) (CHR ''0'') @ s)"

definition fmt_f :: "double \<Rightarrow> string" where
  "fmt_f q =
     (let n = nat (round_half_even (\<bar>q\<bar> * 1000000))
      in (if q < 0 then [CHR ''-''] else []) @
         show_nat (n div 1000000) @ CHR ''.'' # pad6 (n mod 1000000))"

text \<open>Bounds on the length of the printed numbers.\<close>

lemma length_show_nat: "n < 10 ^ k \<Longrightarrow> 0 < k \<Longrightarrow> length (show_nat n) \<le> k"
proof (induction k arbitrary: n)
  case (Suc k)
  show ?case
  proof (cases "n < 10")
    case False
    then have "0 < k" using Suc.prems by (cases k) auto
    moreover have "n div 10 < 10 ^ k" using Suc.prems(1) by (simp add: less_mult_imp_div_less mult.commute)
    ultimately show ?thesis using Suc.IH False by (subst show_nat.simps) simp
  qed (simp add: show_nat.simps)
qed simp

lemma length_show_int: "\<bar>i\<bar> < 10 ^ k \<Longrightarrow> 0 < k \<Longrightarrow> length (show_int i) \<le> Suc k"
  using length_show_nat [of "nat \<bar>i\<bar>" k] by (auto simp: show_int_def nat_less_iff abs_if split: if_splits)

lemma length_pad6: "n < 1000000 \<Longrightarrow> length (pad6 n) = 6"
  using length_show_nat [of n 6] by (simp add: pad6_def Let_def)

lemma round_half_even_le: "q \<le> of_int n \<Longrightarrow> round_half_even q \<le> n"
proof -
  assume q: "q \<le> of_int n"
  have f: "\<lfloor>q\<rfloor> \<le> n" using q by (metis floor_mono floor_of_int)
  show ?thesis
  proof (cases "\<lfloor>q\<rfloor> = n")
    case True
    then have "q = of_int n" using q by linarith
    then show ?thesis by simp
  qed (use f in \<open>simp add: round_half_even_def Let_def\<close>)
qed

lemma round_half_even_ge: "of_int n \<le> q \<Longrightarrow> n \<le> round_half_even q"
proof -
  assume "of_int n \<le> q"
  then have "n \<le> \<lfloor>q\<rfloor>" by (simp add: le_floor_iff)
  then show ?thesis by (simp add: round_half_even_def Let_def)
qed

lemma length_fmt_f:
  assumes "\<bar>q\<bar> \<le> of_nat N" and "N < 10 ^ k" and "0 < k"
  shows "length (fmt_f q) \<le> k + 8"
proof -
  define n where "n = nat (round_half_even (\<bar>q\<bar> * 1000000))"
  have "\<bar>q\<bar> * 1000000 \<le> of_int (int N * 1000000)" using assms(1) by simp
  then have "round_half_even (\<bar>q\<bar> * 1000000) \<le> int N * 1000000" by (rule round_half_even_le)
  then have "n \<le> N * 1000000" by (simp add: n_def nat_le_iff)
  then have "n div 1000000 \<le> N" by (metis div_le_mono nonzero_mult_div_cancel_right zero_neq_numeral)
  then have "length (show_nat (n div 1000000)) \<le> k"
    using assms(2,3) by (intro length_show_nat) simp_all
  then show ?thesis
    by (simp add: fmt_f_def n_def [symmetric] Let_def length_pad6)
qed

lemma length_show_nat_ge: "1 \<le> length (show_nat n)"
  using show_nat_nonempty [of n] by (cases "show_nat n") auto

lemma length_show_int_ge: "1 \<le> length (show_int i)"
  using length_show_nat_ge by (simp add: show_int_def)

lemma length_fmt_f_ge: "8 \<le> length (fmt_f q)"
proof -
  define n where "n = nat (round_half_even (\<bar>q\<bar> * 1000000))"
  have "length (show_nat (n div 1000000)) + 7 \<le> length (fmt_f q)"
    using length_pad6 [of "n mod 1000000"] by (simp add: fmt_f_def Let_def n_def [symmetric])
  with length_show_nat_ge [of "n div 1000000"] show ?thesis by linarith
qed

text \<open>Rounding does not cross a power of two.\<close>

lemma dbl_bound:
  assumes "\<bar>q\<bar> \<le> pow2 k" and "- 1074 \<le> k"
  shows "\<bar>dbl q\<bar> \<le> pow2 k"
proof (cases "q = 0")
  case False
  define e where "e = max (ilog2 \<bar>q\<bar> - 52) (- 1074)"
  define n where "n = (2::int) ^ nat (k - e)"
  have "ilog2 \<bar>q\<bar> \<le> k"
  proof (rule ccontr)
    assume "\<not> ilog2 \<bar>q\<bar> \<le> k"
    then have "pow2 (k + 1) \<le> pow2 (ilog2 \<bar>q\<bar>)" by (intro pow2_mono) simp
    also have "\<dots> \<le> \<bar>q\<bar>" using ilog2_bounds [of "\<bar>q\<bar>"] False by simp
    also have "\<dots> \<le> pow2 k" by (rule assms(1))
    finally show False using pow2_pos [of k] by (simp add: pow2_add pow2_def [of 1] del: pow2_pos)
  qed
  then have "e \<le> k" using assms(2) by (simp add: e_def)
  then have k: "pow2 k = of_int n * pow2 e"
    using pow2_add [of "k - e" e] by (simp add: n_def pow2_def [of "k - e"])
  have "\<bar>q\<bar> \<le> of_int n * pow2 e" using assms(1) by (simp only: k)
  then have "\<bar>q / pow2 e\<bar> \<le> of_int n"
    by (simp add: abs_divide abs_of_pos pos_divide_le_eq)
  then have "q / pow2 e \<le> of_int n" and "of_int (- n) \<le> q / pow2 e" unfolding abs_le_iff of_int_minus by linarith+
  then have "\<bar>round_half_even (q / pow2 e)\<bar> \<le> n"
    using round_half_even_le [of "q / pow2 e" n] round_half_even_ge [of "- n" "q / pow2 e"] by simp
  then have "of_int \<bar>round_half_even (q / pow2 e)\<bar> * pow2 e \<le> of_int n * pow2 e"
    by (intro mult_right_mono) (simp_all add: less_imp_le del: of_int_abs)
  then show ?thesis
    using False by (simp add: dbl_def e_def [symmetric] Let_def abs_mult abs_of_pos k)
qed (simp add: dbl_def less_imp_le)


section \<open>C strings and \<open>sprintf\<close> into a fixed array\<close>

text \<open>\<open>c_str\<close> read back as a C string ends at the first NUL character.\<close>

definition c_str :: "string \<Rightarrow> string" where
  "c_str s = takeWhile (\<lambda>c. c \<noteq> CHR 0x00) s"

text \<open>
  \<open>char r[n]; sprintf(r, ...); string(r)\<close>: the formatted text and its terminating NUL have
  to fit the array, otherwise the call writes past its end.
\<close>

definition sprintf_to :: "nat \<Rightarrow> string \<Rightarrow> string res" where
  "sprintf_to n s = bindR (check Buffer_Overflow (length s < n)) (\<lambda>_. Inr s)"

lemma sprintf_to_eq_Inr [simp, res_simps]:
  "sprintf_to n s = Inr r \<longleftrightarrow> length s < n \<and> r = s"
  by (auto simp: sprintf_to_def res_simps)

lemma sprintf_to_eq_Inl [simp, res_simps]:
  "sprintf_to n s = Inl e \<longleftrightarrow> n \<le> length s \<and> e = Buffer_Overflow"
  by (auto simp: sprintf_to_def res_simps)


section \<open>Extraction from a string stream\<close>

text \<open>
  The state of an input string stream: the characters not yet read, and whether a previous
  extraction failed (failbit). The end-of-file bit holds exactly when nothing is left.
\<close>

record istream =
  is_rest :: string
  is_fail :: bool

definition isspace :: "char \<Rightarrow> bool" where
  "isspace c \<longleftrightarrow> c \<in> {CHR '' '', CHR 0x09, CHR 0x0A, CHR 0x0B, CHR 0x0C, CHR 0x0D}"

text \<open>
  The sentry: nothing is done on a failed stream; leading white space is skipped, and a
  stream at its end fails. When the sentry fails the variable keeps its old value.
\<close>

definition sentry :: "istream \<Rightarrow> istream" where
  "sentry s =
     (if is_fail s then s
      else let r = dropWhile isspace (is_rest s)
           in \<lparr>is_rest = r, is_fail = (r = [])\<rparr>)"

definition extract_string :: "string \<Rightarrow> istream \<Rightarrow> string \<times> istream" where
  "extract_string old s =
     (let t = sentry s
      in if is_fail t then (old, t)
         else (takeWhile (\<lambda>c. \<not> isspace c) (is_rest t),
               t\<lparr>is_rest := dropWhile (\<lambda>c. \<not> isspace c) (is_rest t)\<rparr>))"

fun read_sign :: "string \<Rightarrow> bool \<times> string" where
  "read_sign [] = (False, [])"
| "read_sign (c # cs) =
     (if c = CHR ''-'' then (True, cs) else if c = CHR ''+'' then (False, cs) else (False, c # cs))"

text \<open>
  Extraction of a signed integer of the given width: an optional sign and the longest run
  of digits. Without digits the value is 0 and the stream fails; out of range the value is
  the nearest bound and the stream fails.
\<close>

definition extract_signed :: "nat \<Rightarrow> int \<Rightarrow> istream \<Rightarrow> int \<times> istream" where
  "extract_signed w old s =
     (let t = sentry s
      in if is_fail t then (old, t)
         else
           let (neg, r) = read_sign (is_rest t);
               ds = takeWhile is_digit r;
               v = (if neg then - int (read_nat ds) else int (read_nat ds));
               rest = dropWhile is_digit r
           in if ds = [] then (0, \<lparr>is_rest = rest, is_fail = True\<rparr>)
              else if v < - (2 ^ (w - 1)) then (- (2 ^ (w - 1)), \<lparr>is_rest = rest, is_fail = True\<rparr>)
              else if 2 ^ (w - 1) \<le> v then (2 ^ (w - 1) - 1, \<lparr>is_rest = rest, is_fail = True\<rparr>)
              else (v, \<lparr>is_rest = rest, is_fail = False\<rparr>))"

text \<open>
  Extraction of an unsigned integer: a minus sign is accepted and negates modulo the width;
  a magnitude out of range gives the maximum and fails.
\<close>

definition extract_unsigned :: "nat \<Rightarrow> int \<Rightarrow> istream \<Rightarrow> int \<times> istream" where
  "extract_unsigned w old s =
     (let t = sentry s
      in if is_fail t then (old, t)
         else
           let (neg, r) = read_sign (is_rest t);
               ds = takeWhile is_digit r;
               v = int (read_nat ds);
               rest = dropWhile is_digit r
           in if ds = [] then (0, \<lparr>is_rest = rest, is_fail = True\<rparr>)
              else if 2 ^ w \<le> v then (2 ^ w - 1, \<lparr>is_rest = rest, is_fail = True\<rparr>)
              else (if neg then (- v) mod 2 ^ w else v, \<lparr>is_rest = rest, is_fail = False\<rparr>))"

text \<open>
  Extraction of a double: sign, digits with at most one point, and an exponent that is only
  looked for after a digit. The accumulated text has to be a complete number, otherwise the
  value is 0 and the stream fails; beyond the largest double the value is that bound and the
  stream fails.
\<close>

definition read_exponent :: "string \<Rightarrow> int option \<times> string" where
  "read_exponent r =
     (case r of
        c # cs \<Rightarrow>
          if c = CHR ''e'' \<or> c = CHR ''E''
          then let (neg, q) = read_sign cs; ds = takeWhile is_digit q
               in (if ds = [] then None
                   else Some (if neg then - int (read_nat ds) else int (read_nat ds)),
                   dropWhile is_digit q)
          else (Some 0, r)
      | [] \<Rightarrow> (Some 0, r))"

definition scan_mantissa :: "string \<Rightarrow> string \<times> string \<times> string" where
  "scan_mantissa r =
     (let ip = takeWhile is_digit r; q = dropWhile is_digit r
      in case q of
           c # cs \<Rightarrow> if c = CHR ''.'' then (ip, takeWhile is_digit cs, dropWhile is_digit cs) else (ip, [], q)
         | [] \<Rightarrow> (ip, [], []))"

definition decimal_value :: "string \<Rightarrow> string \<Rightarrow> int \<Rightarrow> rat" where
  "decimal_value ip fp e =
     of_nat (read_nat (ip @ fp)) *
       (let k = e - int (length fp) in if 0 \<le> k then 10 ^ nat k else 1 / 10 ^ nat (- k))"

definition finish_double :: "bool \<Rightarrow> double \<Rightarrow> string \<Rightarrow> double \<times> istream" where
  "finish_double neg v r =
     (let over = DBL_MAX < v; a = (if over then DBL_MAX else v)
      in (if neg then - a else a, \<lparr>is_rest = r, is_fail = over\<rparr>))"

definition extract_double :: "double \<Rightarrow> istream \<Rightarrow> double \<times> istream" where
  "extract_double old s =
     (let t = sentry s
      in if is_fail t then (old, t)
         else
           let (neg, r) = read_sign (is_rest t);
               (ip, fp, r2) = scan_mantissa r
           in if ip @ fp = [] then (0, \<lparr>is_rest = r2, is_fail = True\<rparr>)
              else case read_exponent r2 of
                     (None, r3) \<Rightarrow> (0, \<lparr>is_rest = r3, is_fail = True\<rparr>)
                   | (Some e, r3) \<Rightarrow> finish_double neg (dbl (decimal_value ip fp e)) r3)"


section \<open>Reading one token\<close>

text \<open>
  A token is a non-empty run of characters other than white space. A token that an
  extraction reads completely when it stands alone is read the same way in front of any
  text that starts with white space.
\<close>

definition token :: "string \<Rightarrow> bool" where
  "token s \<longleftrightarrow> s \<noteq> [] \<and> list_all (\<lambda>c. \<not> isspace c) s"

definition stops :: "string \<Rightarrow> bool" where
  "stops r \<longleftrightarrow> r = [] \<or> isspace (hd r)"

definition reads :: "('v \<Rightarrow> istream \<Rightarrow> 'v \<times> istream) \<Rightarrow> string \<Rightarrow> 'v \<Rightarrow> bool" where
  "reads ex tok v \<longleftrightarrow>
     token tok \<and> (\<forall>old. ex old \<lparr>is_rest = tok, is_fail = False\<rparr> = (v, \<lparr>is_rest = [], is_fail = False\<rparr>))"

lemma isspace_not_digit: "isspace c \<Longrightarrow> \<not> is_digit c"
  by (auto simp: isspace_def is_digit_def)

lemma isspace_not_special:
  "isspace c \<Longrightarrow> c \<noteq> CHR ''.'' \<and> c \<noteq> CHR ''e'' \<and> c \<noteq> CHR ''E'' \<and> c \<noteq> CHR ''-'' \<and> c \<noteq> CHR ''+''"
  by (auto simp: isspace_def)

lemma stops_cases: "stops r \<Longrightarrow> (r = [] \<Longrightarrow> P) \<Longrightarrow> (\<And>c cs. r = c # cs \<Longrightarrow> isspace c \<Longrightarrow> P) \<Longrightarrow> P"
  by (cases r) (auto simp: stops_def)

lemma takeWhile_digit_stops [simp]:
  "stops r \<Longrightarrow> takeWhile is_digit (xs @ r) = takeWhile is_digit xs"
  by (induction xs) (auto elim!: stops_cases dest: isspace_not_digit)

lemma dropWhile_digit_stops [simp]:
  "stops r \<Longrightarrow> dropWhile is_digit (xs @ r) = dropWhile is_digit xs @ r"
  by (induction xs) (auto elim!: stops_cases dest: isspace_not_digit)

lemma sentry_token:
  "token tok \<Longrightarrow> sentry \<lparr>is_rest = tok @ r, is_fail = False\<rparr> = \<lparr>is_rest = tok @ r, is_fail = False\<rparr>"
  by (cases tok) (auto simp: sentry_def token_def)

lemma sentry_token_alone:
  "token tok \<Longrightarrow> sentry \<lparr>is_rest = tok, is_fail = False\<rparr> = \<lparr>is_rest = tok, is_fail = False\<rparr>"
  using sentry_token [of tok "[]"] by simp

lemma read_sign_append: "t \<noteq> [] \<Longrightarrow> read_sign (t @ r) = (fst (read_sign t), snd (read_sign t) @ r)"
  by (cases t) auto

lemma read_sign_stops: "stops r \<Longrightarrow> read_sign r = (False, r)"
  by (auto elim!: stops_cases dest: isspace_not_special)

lemma read_exponent_append:
  assumes "stops r"
  shows "read_exponent (t @ r) = (fst (read_exponent t), snd (read_exponent t) @ r)"
proof (cases t)
  case Nil
  with assms show ?thesis
    by (auto simp: read_exponent_def elim!: stops_cases dest: isspace_not_special)
next
  case (Cons c cs)
  have "read_sign (cs @ r) = (fst (read_sign cs), snd (read_sign cs) @ r)"
    using assms by (cases "cs = []") (simp_all add: read_sign_append read_sign_stops)
  with assms Cons show ?thesis
    by (auto simp: read_exponent_def Let_def split: prod.splits)
qed

lemma extract_string_token:
  assumes "token tok" and "stops r"
  shows "extract_string old \<lparr>is_rest = tok @ r, is_fail = False\<rparr> = (tok, \<lparr>is_rest = r, is_fail = False\<rparr>)"
proof -
  have ns: "\<And>c. c \<in> set tok \<Longrightarrow> \<not> isspace c"
    using assms(1) by (auto simp: token_def list_all_iff)
  have st: "r = [] \<or> \<not> \<not> isspace (hd r)"
    using assms(2) by (simp add: stops_def)
  show ?thesis
    using takeWhile_append_stop [of tok "\<lambda>c. \<not> isspace c" r, OF ns st]
      dropWhile_append_stop [of tok "\<lambda>c. \<not> isspace c" r, OF ns st]
    by (simp add: extract_string_def sentry_token [OF assms(1)])
qed

lemma extract_signed_local:
  assumes "token tok" and "stops r"
  shows "extract_signed w old \<lparr>is_rest = tok @ r, is_fail = False\<rparr> =
    (case extract_signed w old \<lparr>is_rest = tok, is_fail = False\<rparr> of (v, s) \<Rightarrow> (v, s\<lparr>is_rest := is_rest s @ r\<rparr>))"
  using assms
  by (auto simp: extract_signed_def sentry_token sentry_token_alone read_sign_append token_def Let_def
      split: prod.splits)

lemma extract_unsigned_local:
  assumes "token tok" and "stops r"
  shows "extract_unsigned w old \<lparr>is_rest = tok @ r, is_fail = False\<rparr> =
    (case extract_unsigned w old \<lparr>is_rest = tok, is_fail = False\<rparr> of (v, s) \<Rightarrow> (v, s\<lparr>is_rest := is_rest s @ r\<rparr>))"
  using assms
  by (auto simp: extract_unsigned_def sentry_token sentry_token_alone read_sign_append token_def Let_def
      split: prod.splits)

lemma scan_mantissa_append:
  assumes "stops r"
  shows "scan_mantissa (t @ r) = (case scan_mantissa t of (ip, fp, q) \<Rightarrow> (ip, fp, q @ r))"
proof (cases "dropWhile is_digit t")
  case Nil
  with assms show ?thesis
    by (auto simp: scan_mantissa_def Let_def simp del: dropWhile_eq_Nil_conv takeWhile.simps dropWhile.simps
        elim!: stops_cases dest: isspace_not_special isspace_not_digit)
next
  case (Cons c cs)
  with assms show ?thesis by (auto simp: scan_mantissa_def Let_def)
qed

lemma finish_double_append:
  "finish_double neg v (q @ r) = (case finish_double neg v q of (x, s) \<Rightarrow> (x, s\<lparr>is_rest := is_rest s @ r\<rparr>))"
  by (simp add: finish_double_def Let_def)

lemma finish_double_small:
  "v \<le> 2 ^ 53 \<Longrightarrow> finish_double neg v r = (if neg then - v else v, \<lparr>is_rest = r, is_fail = False\<rparr>)"
proof -
  assume "v \<le> 2 ^ 53"
  moreover have "(2::rat) ^ 53 \<le> DBL_MAX" by (simp add: DBL_MAX_def)
  ultimately have "\<not> DBL_MAX < v" by simp
  then show ?thesis by (simp add: finish_double_def)
qed

lemma extract_double_local:
  assumes "token tok" and "stops r"
  shows "extract_double old \<lparr>is_rest = tok @ r, is_fail = False\<rparr> =
    (case extract_double old \<lparr>is_rest = tok, is_fail = False\<rparr> of (v, s) \<Rightarrow> (v, s\<lparr>is_rest := is_rest s @ r\<rparr>))"
proof -
  obtain neg q where sg: "read_sign tok = (neg, q)" by (cases "read_sign tok")
  obtain ip fp r2 where sm: "scan_mantissa q = (ip, fp, r2)" by (cases "scan_mantissa q")
  obtain ex r3 where se: "read_exponent r2 = (ex, r3)" by (cases "read_exponent r2")
  have "tok \<noteq> []" using assms(1) by (simp add: token_def)
  then have "read_sign (tok @ r) = (neg, q @ r)" by (simp add: read_sign_append sg)
  then show ?thesis
    by (cases ex)
      (simp_all add: extract_double_def sentry_token [OF assms(1)] sentry_token_alone [OF assms(1)]
        sg sm se scan_mantissa_append [OF assms(2)] read_exponent_append [OF assms(2)]
        finish_double_append)
qed

text \<open>
  What an extraction operator promises its callers: it reads a token the same way whatever
  follows it, skips leading white space, and leaves a failed stream alone.
\<close>

locale extractor =
  fixes ex :: "'v \<Rightarrow> istream \<Rightarrow> 'v \<times> istream"
  assumes local_token: "token tok \<Longrightarrow> stops r \<Longrightarrow>
      ex old \<lparr>is_rest = tok @ r, is_fail = False\<rparr> =
        (case ex old \<lparr>is_rest = tok, is_fail = False\<rparr> of (v, s) \<Rightarrow> (v, s\<lparr>is_rest := is_rest s @ r\<rparr>))"
    and skips_space: "isspace c \<Longrightarrow>
      ex old \<lparr>is_rest = c # r, is_fail = False\<rparr> = ex old \<lparr>is_rest = r, is_fail = False\<rparr>"
    and failed_sticks: "ex old \<lparr>is_rest = r, is_fail = True\<rparr> = (old, \<lparr>is_rest = r, is_fail = True\<rparr>)"
begin

lemma reads_first:
  "reads ex tok v \<Longrightarrow> stops r \<Longrightarrow>
   ex old \<lparr>is_rest = tok @ r, is_fail = False\<rparr> = (v, \<lparr>is_rest = r, is_fail = False\<rparr>)"
  by (simp add: reads_def local_token)

lemma reads_next:
  "reads ex tok v \<Longrightarrow> stops r \<Longrightarrow>
   ex old \<lparr>is_rest = CHR '' '' # tok @ r, is_fail = False\<rparr> = (v, \<lparr>is_rest = r, is_fail = False\<rparr>)"
  by (simp add: skips_space [of "CHR '' ''"] isspace_def reads_first)

lemma reads_last:
  "reads ex tok v \<Longrightarrow>
   ex old \<lparr>is_rest = CHR '' '' # tok, is_fail = False\<rparr> = (v, \<lparr>is_rest = [], is_fail = False\<rparr>)"
  using reads_next [of tok v "[]"] by (simp add: stops_def)

end

lemma sentry_space:
  "isspace c \<Longrightarrow> sentry \<lparr>is_rest = c # r, is_fail = False\<rparr> = sentry \<lparr>is_rest = r, is_fail = False\<rparr>"
  by (simp add: sentry_def)

lemma sentry_failed: "sentry \<lparr>is_rest = r, is_fail = True\<rparr> = \<lparr>is_rest = r, is_fail = True\<rparr>"
  by (simp add: sentry_def)

lemma extract_string_local:
  "token tok \<Longrightarrow> stops r \<Longrightarrow>
   extract_string old \<lparr>is_rest = tok @ r, is_fail = False\<rparr> =
    (case extract_string old \<lparr>is_rest = tok, is_fail = False\<rparr> of (v, s) \<Rightarrow> (v, s\<lparr>is_rest := is_rest s @ r\<rparr>))"
  using extract_string_token [of tok "[]" old] by (simp add: extract_string_token stops_def)

interpretation ex_string: extractor extract_string
  by unfold_locales
    (simp_all add: extract_string_local, simp_all add: extract_string_def sentry_space sentry_failed)

interpretation ex_signed: extractor "extract_signed w" for w
  by unfold_locales
    (simp_all add: extract_signed_local, simp_all add: extract_signed_def sentry_space sentry_failed)

interpretation ex_unsigned: extractor "extract_unsigned w" for w
  by unfold_locales
    (simp_all add: extract_unsigned_local, simp_all add: extract_unsigned_def sentry_space sentry_failed)

interpretation ex_double: extractor extract_double
  by unfold_locales
    (simp_all add: extract_double_local, simp_all add: extract_double_def sentry_space sentry_failed)

text \<open>The printed form of an integer is a token that reads back as the integer.\<close>

lemma digit_not_space: "is_digit c \<Longrightarrow> \<not> isspace c"
  using isspace_not_digit by blast

lemma takeWhile_show_nat [simp]: "takeWhile is_digit (show_nat n) = show_nat n"
  using show_nat_digits by (simp add: takeWhile_eq_all_conv)

lemma dropWhile_show_nat [simp]: "dropWhile is_digit (show_nat n) = []"
  using show_nat_digits by simp

lemma read_sign_show_nat [simp]: "read_sign (show_nat n) = (False, show_nat n)"
proof (cases "show_nat n")
  case (Cons c cs)
  then have "is_digit c" using show_nat_digits [of c n] by simp
  then have "c \<noteq> CHR ''-'' \<and> c \<noteq> CHR ''+''" by (auto simp: is_digit_def)
  with Cons show ?thesis by simp
qed simp

lemma token_show_nat [simp]: "token (show_nat n)"
  using show_nat_digits digit_not_space by (auto simp: token_def list_all_iff)

lemma token_show_int [simp]: "token (show_int i)"
  using token_show_nat by (auto simp: show_int_def token_def isspace_def)

lemma reads_show_string: "token s \<Longrightarrow> reads extract_string s s"
  using extract_string_token [of s "[]"] by (simp add: reads_def stops_def)

lemma reads_show_signed: "0 < w \<Longrightarrow> in_range w i \<Longrightarrow> reads (extract_signed w) (show_int i) i"
  using token_show_int [of i] by (auto simp: reads_def extract_signed_def sentry_token_alone show_int_def in_range_def Let_def)

lemma reads_show_unsigned: "int n < 2 ^ w \<Longrightarrow> reads (extract_unsigned w) (show_nat n) (int n)"
  by (auto simp: reads_def extract_unsigned_def sentry_token_alone Let_def)

end
