(* ===== verification/Feeds.thy ===== *)
theory Feeds
  imports Cxx_Text
begin

text \<open>
  The two market-data feeds of \<open>utils.h\<close> and their parsers in \<open>utils.cpp\<close>. A feed is a
  record with the fields of the C++ class, in its order. \<open>build\<close> replaces every comma of
  the body by a space and then extracts the fields one after the other.
\<close>

section \<open>Feed data\<close>

datatype feedtype = FT_NONE | FT_Statistics | FT_Price

datatype status = OK | ERROR | WARN

record StatisticsFeed =
  sf_TIMESTAMP :: int
  sf_FEEDCODE :: string
  sf_INSTRUMENT_ID :: int
  sf_HIGH_PRICE :: double
  sf_LOW_PRICE :: double
  sf_OPENING_PRICE :: double
  sf_CLOSING_PRICE :: double
  sf_CLOSING_PRICE_TYPE :: string
  sf_LAST_PRICE :: double
  sf_LAST_VOLUME :: int
  sf_TURNOVER_VALUE :: double
  sf_TURNOVER_VOLUME :: int
  sf_TURNOVER_TRADE_COUNT :: int
  sf_SETTLEMENT_PRICE :: double
  sf_STREAM_ID :: int
  sf_EVENT_TIME :: int
  sf_UPPER_PRICE_LIMIT :: double
  sf_LOWER_PRICE_LIMIT :: double
  sf_OPEN_INTEREST :: int
  sf_EXCHANGE_TIMESTAMP :: int

record PriceFeed =
  pf_TIMESTAMP :: int
  pf_FEEDCODE :: string
  pf_INSTRUMENT_ID :: int
  pf_SEQUENCE :: int
  pf_BID_PRICE :: double
  pf_BID_VOLUME :: int
  pf_BID_COUNT :: int
  pf_ASK_PRICE :: double
  pf_ASK_VOLUME :: int
  pf_ASK_COUNT :: int
  pf_LAST_TRADE_TICK :: int
  pf_STREAM_ID :: int
  pf_EVENT_TIME :: int
  pf_EXCHANGE_TIMESTAMP :: int

text \<open>
  \<open>new StatisticsFeed()\<close> and \<open>new PriceFeed()\<close> value-initialise: the classes have no
  constructor of their own, so every number starts as 0 and every string empty.
\<close>

definition new_StatisticsFeed :: StatisticsFeed where
  "new_StatisticsFeed =
    \<lparr>sf_TIMESTAMP = 0, sf_FEEDCODE = [], sf_INSTRUMENT_ID = 0, sf_HIGH_PRICE = 0, sf_LOW_PRICE = 0,
     sf_OPENING_PRICE = 0, sf_CLOSING_PRICE = 0, sf_CLOSING_PRICE_TYPE = [], sf_LAST_PRICE = 0,
     sf_LAST_VOLUME = 0, sf_TURNOVER_VALUE = 0, sf_TURNOVER_VOLUME = 0, sf_TURNOVER_TRADE_COUNT = 0,
     sf_SETTLEMENT_PRICE = 0, sf_STREAM_ID = 0, sf_EVENT_TIME = 0, sf_UPPER_PRICE_LIMIT = 0,
     sf_LOWER_PRICE_LIMIT = 0, sf_OPEN_INTEREST = 0, sf_EXCHANGE_TIMESTAMP = 0\<rparr>"

definition new_PriceFeed :: PriceFeed where
  "new_PriceFeed =
    \<lparr>pf_TIMESTAMP = 0, pf_FEEDCODE = [], pf_INSTRUMENT_ID = 0, pf_SEQUENCE = 0, pf_BID_PRICE = 0,
     pf_BID_VOLUME = 0, pf_BID_COUNT = 0, pf_ASK_PRICE = 0, pf_ASK_VOLUME = 0, pf_ASK_COUNT = 0,
     pf_LAST_TRADE_TICK = 0, pf_STREAM_ID = 0, pf_EVENT_TIME = 0, pf_EXCHANGE_TIMESTAMP = 0\<rparr>"

section \<open>Parsing\<close>

definition commas_to_spaces :: "string \<Rightarrow> string" where
  "commas_to_spaces body = map (\<lambda>c. if c = CHR '','' then CHR '' '' else c) body"

definition StatisticsFeed_build :: "StatisticsFeed \<Rightarrow> string \<Rightarrow> StatisticsFeed" where
  "StatisticsFeed_build f body =
    (let s = \<lparr>is_rest = commas_to_spaces body, is_fail = False\<rparr>;
         (feedcode, s) = extract_string (sf_FEEDCODE f) s;
         (instrument, s) = extract_signed 64 (sf_INSTRUMENT_ID f) s;
         (high, s) = extract_double (sf_HIGH_PRICE f) s;
         (low, s) = extract_double (sf_LOW_PRICE f) s;
         (opening, s) = extract_double (sf_OPENING_PRICE f) s;
         (closing, s) = extract_double (sf_CLOSING_PRICE f) s;
         (closing_type, s) = extract_string (sf_CLOSING_PRICE_TYPE f) s;
         (last_price, s) = extract_double (sf_LAST_PRICE f) s;
         (last_volume, s) = extract_signed 32 (sf_LAST_VOLUME f) s;
         (turnover_value, s) = extract_double (sf_TURNOVER_VALUE f) s;
         (turnover_volume, s) = extract_signed 32 (sf_TURNOVER_VOLUME f) s;
         (trade_count, s) = extract_unsigned 32 (sf_TURNOVER_TRADE_COUNT f) s;
         (settlement, s) = extract_double (sf_SETTLEMENT_PRICE f) s;
         (stream_id, s) = extract_unsigned 32 (sf_STREAM_ID f) s;
         (event_time, s) = extract_signed 64 (sf_EVENT_TIME f) s;
         (upper, s) = extract_double (sf_UPPER_PRICE_LIMIT f) s;
         (lower, s) = extract_double (sf_LOWER_PRICE_LIMIT f) s;
         (interest, s) = extract_signed 64 (sf_OPEN_INTEREST f) s;
         (exchange_ts, s) = extract_signed 64 (sf_EXCHANGE_TIMESTAMP f) s
     in f\<lparr>sf_FEEDCODE := feedcode, sf_INSTRUMENT_ID := instrument, sf_HIGH_PRICE := high,
          sf_LOW_PRICE := low, sf_OPENING_PRICE := opening, sf_CLOSING_PRICE := closing,
          sf_CLOSING_PRICE_TYPE := closing_type, sf_LAST_PRICE := last_price,
          sf_LAST_VOLUME := last_volume, sf_TURNOVER_VALUE := turnover_value,
          sf_TURNOVER_VOLUME := turnover_volume, sf_TURNOVER_TRADE_COUNT := trade_count,
          sf_SETTLEMENT_PRICE := settlement, sf_STREAM_ID := stream_id, sf_EVENT_TIME := event_time,
          sf_UPPER_PRICE_LIMIT := upper, sf_LOWER_PRICE_LIMIT := lower,
          sf_OPEN_INTEREST := interest, sf_EXCHANGE_TIMESTAMP := exchange_ts\<rparr>)"

definition PriceFeed_build :: "PriceFeed \<Rightarrow> string \<Rightarrow> PriceFeed" where
  "PriceFeed_build f body =
    (let s = \<lparr>is_rest = commas_to_spaces body, is_fail = False\<rparr>;
         (feedcode, s) = extract_string (pf_FEEDCODE f) s;
         (instrument, s) = extract_signed 64 (pf_INSTRUMENT_ID f) s;
         (sequence, s) = extract_unsigned 32 (pf_SEQUENCE f) s;
         (bid_price, s) = extract_double (pf_BID_PRICE f) s;
         (bid_volume, s) = extract_signed 32 (pf_BID_VOLUME f) s;
         (bid_count, s) = extract_unsigned 32 (pf_BID_COUNT f) s;
         (ask_price, s) = extract_double (pf_ASK_PRICE f) s;
         (ask_volume, s) = extract_signed 32 (pf_ASK_VOLUME f) s;
         (ask_count, s) = extract_unsigned 32 (pf_ASK_COUNT f) s;
         (tick, s) = extract_unsigned 32 (pf_LAST_TRADE_TICK f) s;
         (stream_id, s) = extract_unsigned 32 (pf_STREAM_ID f) s;
         (event_time, s) = extract_signed 64 (pf_EVENT_TIME f) s;
         (exchange_ts, s) = extract_signed 64 (pf_EXCHANGE_TIMESTAMP f) s
     in f\<lparr>pf_FEEDCODE := feedcode, pf_INSTRUMENT_ID := instrument, pf_SEQUENCE := sequence,
          pf_BID_PRICE := bid_price, pf_BID_VOLUME := bid_volume, pf_BID_COUNT := bid_count,
          pf_ASK_PRICE := ask_price, pf_ASK_VOLUME := ask_volume, pf_ASK_COUNT := ask_count,
          pf_LAST_TRADE_TICK := tick, pf_STREAM_ID := stream_id, pf_EVENT_TIME := event_time,
          pf_EXCHANGE_TIMESTAMP := exchange_ts\<rparr>)"

text \<open>The comma-separated body the producers of the feed send.\<close>

fun csv :: "string list \<Rightarrow> string" where
  "csv [] = []"
| "csv [t] = t"
| "csv (t # u # ts) = t @ CHR '','' # csv (u # ts)"

fun spaced :: "string list \<Rightarrow> string" where
  "spaced [] = []"
| "spaced [t] = t"
| "spaced (t # u # ts) = t @ CHR '' '' # spaced (u # ts)"

lemma commas_to_spaces_append [simp]:
  "commas_to_spaces (a @ b) = commas_to_spaces a @ commas_to_spaces b"
  by (simp add: commas_to_spaces_def)

lemma commas_to_spaces_comma [simp]: "commas_to_spaces (CHR '','' # b) = CHR '' '' # commas_to_spaces b"
  by (simp add: commas_to_spaces_def)

lemma commas_to_spaces_id: "CHR '','' \<notin> set t \<Longrightarrow> commas_to_spaces t = t"
  by (induction t) (auto simp: commas_to_spaces_def)

lemma commas_to_spaces_csv: "(\<And>t. t \<in> set ts \<Longrightarrow> CHR '','' \<notin> set t) \<Longrightarrow> commas_to_spaces (csv ts) = spaced ts"
  by (induction ts rule: csv.induct) (auto simp: commas_to_spaces_id)

lemma stops_space [simp]: "stops (CHR '' '' # r)"
  by (simp add: stops_def isspace_def)

section \<open>Printed feeds read back\<close>

text \<open>
  The body of a feed with the given printer for doubles. A feed is printable when its
  numbers are in the range of their C++ types, its strings are tokens without commas, and
  the printer gives, for each of its doubles, a comma-free token that reads back as it.
\<close>

definition plain :: "string \<Rightarrow> bool" where
  "plain t \<longleftrightarrow> token t \<and> CHR '','' \<notin> set t"

definition prints :: "(double \<Rightarrow> string) \<Rightarrow> double \<Rightarrow> bool" where
  "prints p x \<longleftrightarrow> reads extract_double (p x) x \<and> CHR '','' \<notin> set (p x)"

definition u32_range :: "int \<Rightarrow> bool" where
  "u32_range i \<longleftrightarrow> 0 \<le> i \<and> i < 2 ^ 32"

definition StatisticsFeed_body :: "(double \<Rightarrow> string) \<Rightarrow> StatisticsFeed \<Rightarrow> string" where
  "StatisticsFeed_body p f =
     csv [sf_FEEDCODE f, show_int (sf_INSTRUMENT_ID f), p (sf_HIGH_PRICE f), p (sf_LOW_PRICE f),
          p (sf_OPENING_PRICE f), p (sf_CLOSING_PRICE f), sf_CLOSING_PRICE_TYPE f,
          p (sf_LAST_PRICE f), show_int (sf_LAST_VOLUME f), p (sf_TURNOVER_VALUE f),
          show_int (sf_TURNOVER_VOLUME f), show_int (sf_TURNOVER_TRADE_COUNT f),
          p (sf_SETTLEMENT_PRICE f), show_int (sf_STREAM_ID f), show_int (sf_EVENT_TIME f),
          p (sf_UPPER_PRICE_LIMIT f), p (sf_LOWER_PRICE_LIMIT f), show_int (sf_OPEN_INTEREST f),
          show_int (sf_EXCHANGE_TIMESTAMP f)]"

definition StatisticsFeed_printable :: "(double \<Rightarrow> string) \<Rightarrow> StatisticsFeed \<Rightarrow> bool" where
  "StatisticsFeed_printable p f \<longleftrightarrow>
     plain (sf_FEEDCODE f) \<and> plain (sf_CLOSING_PRICE_TYPE f) \<and>
     list_all (in_range 64) [sf_INSTRUMENT_ID f, sf_EVENT_TIME f, sf_OPEN_INTEREST f, sf_EXCHANGE_TIMESTAMP f] \<and>
     list_all (in_range 32) [sf_LAST_VOLUME f, sf_TURNOVER_VOLUME f] \<and>
     list_all u32_range [sf_TURNOVER_TRADE_COUNT f, sf_STREAM_ID f] \<and>
     list_all (prints p)
       [sf_HIGH_PRICE f, sf_LOW_PRICE f, sf_OPENING_PRICE f, sf_CLOSING_PRICE f, sf_LAST_PRICE f,
        sf_TURNOVER_VALUE f, sf_SETTLEMENT_PRICE f, sf_UPPER_PRICE_LIMIT f, sf_LOWER_PRICE_LIMIT f]"

definition PriceFeed_body :: "(double \<Rightarrow> string) \<Rightarrow> PriceFeed \<Rightarrow> string" where
  "PriceFeed_body p f =
     csv [pf_FEEDCODE f, show_int (pf_INSTRUMENT_ID f), show_int (pf_SEQUENCE f), p (pf_BID_PRICE f),
          show_int (pf_BID_VOLUME f), show_int (pf_BID_COUNT f), p (pf_ASK_PRICE f),
          show_int (pf_ASK_VOLUME f), show_int (pf_ASK_COUNT f), show_int (pf_LAST_TRADE_TICK f),
          show_int (pf_STREAM_ID f), show_int (pf_EVENT_TIME f), show_int (pf_EXCHANGE_TIMESTAMP f)]"

definition PriceFeed_printable :: "(double \<Rightarrow> string) \<Rightarrow> PriceFeed \<Rightarrow> bool" where
  "PriceFeed_printable p f \<longleftrightarrow>
     plain (pf_FEEDCODE f) \<and>
     list_all (in_range 64) [pf_INSTRUMENT_ID f, pf_EVENT_TIME f, pf_EXCHANGE_TIMESTAMP f] \<and>
     list_all (in_range 32) [pf_BID_VOLUME f, pf_ASK_VOLUME f] \<and>
     list_all u32_range
       [pf_SEQUENCE f, pf_BID_COUNT f, pf_ASK_COUNT f, pf_LAST_TRADE_TICK f, pf_STREAM_ID f] \<and>
     list_all (prints p) [pf_BID_PRICE f, pf_ASK_PRICE f]"

lemma comma_notin_show_nat: "CHR '','' \<notin> set (show_nat n)"
  using show_nat_digits [of "CHR '',''" n] by (auto simp: is_digit_def)

lemma comma_notin_show_int [simp]: "CHR '','' \<notin> set (show_int i)"
  by (simp add: show_int_def comma_notin_show_nat)

lemma reads_show_int_unsigned: "u32_range i \<Longrightarrow> reads (extract_unsigned 32) (show_int i) i"
  using reads_show_unsigned [of "nat i" 32] by (simp add: u32_range_def show_int_def)

text \<open>The extraction steps over a printed body, as rewrite rules.\<close>

lemma extract_plain: "plain t \<Longrightarrow> stops r \<Longrightarrow>
    extract_string old \<lparr>is_rest = t @ r, is_fail = False\<rparr> = (t, \<lparr>is_rest = r, is_fail = False\<rparr>)"
  by (simp add: plain_def ex_string.reads_first [OF reads_show_string])

lemma extract_next_plain: "plain t \<Longrightarrow> stops r \<Longrightarrow>
    extract_string old \<lparr>is_rest = CHR '' '' # t @ r, is_fail = False\<rparr> = (t, \<lparr>is_rest = r, is_fail = False\<rparr>)"
  by (simp add: plain_def ex_string.reads_next [OF reads_show_string])

lemma extract_next_signed: "0 < w \<Longrightarrow> in_range w i \<Longrightarrow> stops r \<Longrightarrow>
    extract_signed w old \<lparr>is_rest = CHR '' '' # show_int i @ r, is_fail = False\<rparr> =
      (i, \<lparr>is_rest = r, is_fail = False\<rparr>)"
  by (simp add: ex_signed.reads_next [OF reads_show_signed])

lemma extract_last_signed: "0 < w \<Longrightarrow> in_range w i \<Longrightarrow>
    extract_signed w old \<lparr>is_rest = CHR '' '' # show_int i, is_fail = False\<rparr> =
      (i, \<lparr>is_rest = [], is_fail = False\<rparr>)"
  by (simp add: ex_signed.reads_last [OF reads_show_signed])

lemma extract_next_unsigned: "u32_range i \<Longrightarrow> stops r \<Longrightarrow>
    extract_unsigned 32 old \<lparr>is_rest = CHR '' '' # show_int i @ r, is_fail = False\<rparr> =
      (i, \<lparr>is_rest = r, is_fail = False\<rparr>)"
  by (simp add: ex_unsigned.reads_next [OF reads_show_int_unsigned])

lemma extract_next_double: "prints p x \<Longrightarrow> stops r \<Longrightarrow>
    extract_double old \<lparr>is_rest = CHR '' '' # p x @ r, is_fail = False\<rparr> =
      (x, \<lparr>is_rest = r, is_fail = False\<rparr>)"
  by (simp add: prints_def ex_double.reads_next)

lemma extract_double_token_old:
  "token t \<Longrightarrow> extract_double old \<lparr>is_rest = t, is_fail = False\<rparr> = extract_double 0 \<lparr>is_rest = t, is_fail = False\<rparr>"
  by (simp add: extract_double_def sentry_token_alone)

lemma prints_eval:
  "plain (p x) \<Longrightarrow> extract_double 0 \<lparr>is_rest = p x, is_fail = False\<rparr> = (x, \<lparr>is_rest = [], is_fail = False\<rparr>) \<Longrightarrow>
   prints p x"
  unfolding prints_def reads_def plain_def by (metis extract_double_token_old)

lemmas extract_steps =
  extract_plain extract_next_plain extract_next_signed extract_last_signed extract_next_unsigned

lemma StatisticsFeed_overwrite:
  "new_StatisticsFeed\<lparr>sf_FEEDCODE := sf_FEEDCODE f, sf_INSTRUMENT_ID := sf_INSTRUMENT_ID f, sf_HIGH_PRICE := sf_HIGH_PRICE f,
     sf_LOW_PRICE := sf_LOW_PRICE f, sf_OPENING_PRICE := sf_OPENING_PRICE f, sf_CLOSING_PRICE := sf_CLOSING_PRICE f,
     sf_CLOSING_PRICE_TYPE := sf_CLOSING_PRICE_TYPE f, sf_LAST_PRICE := sf_LAST_PRICE f, sf_LAST_VOLUME := sf_LAST_VOLUME f,
     sf_TURNOVER_VALUE := sf_TURNOVER_VALUE f, sf_TURNOVER_VOLUME := sf_TURNOVER_VOLUME f, sf_TURNOVER_TRADE_COUNT := sf_TURNOVER_TRADE_COUNT f,
     sf_SETTLEMENT_PRICE := sf_SETTLEMENT_PRICE f, sf_STREAM_ID := sf_STREAM_ID f, sf_EVENT_TIME := sf_EVENT_TIME f,
     sf_UPPER_PRICE_LIMIT := sf_UPPER_PRICE_LIMIT f, sf_LOWER_PRICE_LIMIT := sf_LOWER_PRICE_LIMIT f, sf_OPEN_INTEREST := sf_OPEN_INTEREST f,
     sf_EXCHANGE_TIMESTAMP := sf_EXCHANGE_TIMESTAMP f\<rparr> = f\<lparr>sf_TIMESTAMP := 0\<rparr>"
  by (cases f) (simp add: new_StatisticsFeed_def)

lemma PriceFeed_overwrite:
  "new_PriceFeed\<lparr>pf_FEEDCODE := pf_FEEDCODE f, pf_INSTRUMENT_ID := pf_INSTRUMENT_ID f, pf_SEQUENCE := pf_SEQUENCE f,
     pf_BID_PRICE := pf_BID_PRICE f, pf_BID_VOLUME := pf_BID_VOLUME f, pf_BID_COUNT := pf_BID_COUNT f,
     pf_ASK_PRICE := pf_ASK_PRICE f, pf_ASK_VOLUME := pf_ASK_VOLUME f, pf_ASK_COUNT := pf_ASK_COUNT f,
     pf_LAST_TRADE_TICK := pf_LAST_TRADE_TICK f, pf_STREAM_ID := pf_STREAM_ID f, pf_EVENT_TIME := pf_EVENT_TIME f,
     pf_EXCHANGE_TIMESTAMP := pf_EXCHANGE_TIMESTAMP f\<rparr> = f\<lparr>pf_TIMESTAMP := 0\<rparr>"
  by (cases f) (simp add: new_PriceFeed_def)

text \<open>Whole numbers printed with \<open>%f\<close> read back as themselves.\<close>

lemma pad6_0 [simp]: "pad6 0 = ''000000''"
  by (simp add: pad6_def show_nat.simps eval_nat_numeral)

lemma fmt_f_of_nat: "fmt_f (of_nat n) = show_nat n @ ''.000000''"
proof -
  have "round_half_even (of_nat n * 1000000) = int n * 1000000"
    using round_half_even_of_int [of "int n * 1000000"] by simp
  then show ?thesis by (simp add: fmt_f_def nat_mult_distrib)
qed

lemma read_nat_zeros: "read_nat (s @ ''000000'') = read_nat s * 1000000"
  by (simp add: read_nat_def digit_val_def)

lemma scan_fmt_f_of_nat: "scan_mantissa (show_nat n @ ''.000000'') = (show_nat n, ''000000'', [])"
  using takeWhile_append_stop [of "show_nat n" is_digit "''.000000''"]
    dropWhile_append_stop [of "show_nat n" is_digit "''.000000''"] show_nat_digits
  by (simp add: scan_mantissa_def is_digit_def)

lemma prints_fmt_f_of_nat:
  assumes "n < 2 ^ 53"
  shows "prints fmt_f (of_nat n)"
proof (rule prints_eval)
  have tok: "token (show_nat n @ ''.000000'')"
    using token_show_nat [of n] by (simp add: token_def isspace_def)
  then show "plain (fmt_f (of_nat n))"
    by (simp add: plain_def fmt_f_of_nat comma_notin_show_nat)
  have sg: "read_sign (show_nat n @ ''.000000'') = (False, show_nat n @ ''.000000'')"
    by (simp add: read_sign_append)
  have "int n < 2 ^ 53" using assms by (simp flip: of_nat_less_iff)
  then have db: "dbl (of_nat n) = of_nat n" using dbl_of_int [of "int n"] by simp
  have "(of_nat n :: rat) \<le> of_nat (2 ^ 53)" using assms by (intro of_nat_mono) simp
  then have le: "(of_nat n :: rat) \<le> 2 ^ 53" by simp
  have dv: "decimal_value (show_nat n) ''000000'' 0 = of_nat n"
    by (simp add: decimal_value_def read_nat_zeros)
  show "extract_double 0 \<lparr>is_rest = fmt_f (of_nat n), is_fail = False\<rparr> =
      (of_nat n, \<lparr>is_rest = [], is_fail = False\<rparr>)"
    by (simp add: extract_double_def fmt_f_of_nat sentry_token_alone [OF tok] sg scan_fmt_f_of_nat
        read_exponent_def dv db finish_double_small [OF le])
qed

definition sample_StatisticsFeed :: StatisticsFeed where
  "sample_StatisticsFeed =
    \<lparr>sf_TIMESTAMP = 7, sf_FEEDCODE = ''000001.SZ'', sf_INSTRUMENT_ID = 1, sf_HIGH_PRICE = 12, sf_LOW_PRICE = 10,
     sf_OPENING_PRICE = 11, sf_CLOSING_PRICE = 12, sf_CLOSING_PRICE_TYPE = ''A'', sf_LAST_PRICE = 12,
     sf_LAST_VOLUME = 100, sf_TURNOVER_VALUE = 1200, sf_TURNOVER_VOLUME = 100, sf_TURNOVER_TRADE_COUNT = 3,
     sf_SETTLEMENT_PRICE = 0, sf_STREAM_ID = 9, sf_EVENT_TIME = -1, sf_UPPER_PRICE_LIMIT = 13,
     sf_LOWER_PRICE_LIMIT = 9, sf_OPEN_INTEREST = 0, sf_EXCHANGE_TIMESTAMP = 500000000\<rparr>"

lemma sample_StatisticsFeed_printable: "StatisticsFeed_printable fmt_f sample_StatisticsFeed"
  using prints_fmt_f_of_nat [of 12] prints_fmt_f_of_nat [of 10] prints_fmt_f_of_nat [of 11]
    prints_fmt_f_of_nat [of 1200] prints_fmt_f_of_nat [of 0] prints_fmt_f_of_nat [of 13]
    prints_fmt_f_of_nat [of 9]
  by (simp add: StatisticsFeed_printable_def sample_StatisticsFeed_def plain_def token_def isspace_def
      in_range_def u32_range_def)

lemma StatisticsFeed_build_reads:
  assumes "StatisticsFeed_printable p f"
  shows "StatisticsFeed_build new_StatisticsFeed (StatisticsFeed_body p f) = f\<lparr>sf_TIMESTAMP := 0\<rparr>"
proof -
  have "commas_to_spaces (StatisticsFeed_body p f) =
    spaced [sf_FEEDCODE f, show_int (sf_INSTRUMENT_ID f), p (sf_HIGH_PRICE f), p (sf_LOW_PRICE f),
          p (sf_OPENING_PRICE f), p (sf_CLOSING_PRICE f), sf_CLOSING_PRICE_TYPE f,
          p (sf_LAST_PRICE f), show_int (sf_LAST_VOLUME f), p (sf_TURNOVER_VALUE f),
          show_int (sf_TURNOVER_VOLUME f), show_int (sf_TURNOVER_TRADE_COUNT f),
          p (sf_SETTLEMENT_PRICE f), show_int (sf_STREAM_ID f), show_int (sf_EVENT_TIME f),
          p (sf_UPPER_PRICE_LIMIT f), p (sf_LOWER_PRICE_LIMIT f), show_int (sf_OPEN_INTEREST f),
          show_int (sf_EXCHANGE_TIMESTAMP f)]"
    unfolding StatisticsFeed_body_def
    by (rule commas_to_spaces_csv)
      (use assms in \<open>auto simp: StatisticsFeed_printable_def prints_def plain_def\<close>)
  then show ?thesis
    using assms
    by (simp add: StatisticsFeed_build_def StatisticsFeed_printable_def StatisticsFeed_overwrite
        extract_steps extract_next_double [of p])
qed

definition sample_at :: "int \<Rightarrow> StatisticsFeed" where
  "sample_at t = sample_StatisticsFeed\<lparr>sf_EXCHANGE_TIMESTAMP := t\<rparr>"

lemma sample_at_printable: "in_range 64 t \<Longrightarrow> StatisticsFeed_printable fmt_f (sample_at t)"
  using sample_StatisticsFeed_printable by (simp add: StatisticsFeed_printable_def sample_at_def)

text \<open>
  C12: a printable statistics feed sent as a comma-separated body is read back field by
  field by \<open>StatisticsFeed::build\<close> on a new object; only \<open>TIMESTAMP\<close>, which \<open>build\<close> does not
  read, is 0 whatever was sent.
\<close>

theorem StatisticsFeed_build_body:
  assumes "StatisticsFeed_printable p f"
  shows "StatisticsFeed_build new_StatisticsFeed (StatisticsFeed_body p f) = f\<lparr>sf_TIMESTAMP := 0\<rparr>"
  using assms by (rule StatisticsFeed_build_reads)

theorem StatisticsFeed_build_body_witness:
  "StatisticsFeed_printable fmt_f sample_StatisticsFeed \<and>
   sf_EXCHANGE_TIMESTAMP
     (StatisticsFeed_build new_StatisticsFeed (StatisticsFeed_body fmt_f sample_StatisticsFeed)) = 500000000"
  using sample_StatisticsFeed_printable StatisticsFeed_build_body [OF sample_StatisticsFeed_printable]
  by (simp add: sample_StatisticsFeed_def)

lemma PriceFeed_build_reads:
  assumes "PriceFeed_printable p f"
  shows "PriceFeed_build new_PriceFeed (PriceFeed_body p f) = f\<lparr>pf_TIMESTAMP := 0\<rparr>"
proof -
  have "commas_to_spaces (PriceFeed_body p f) =
     spaced [pf_FEEDCODE f, show_int (pf_INSTRUMENT_ID f), show_int (pf_SEQUENCE f), p (pf_BID_PRICE f),
          show_int (pf_BID_VOLUME f), show_int (pf_BID_COUNT f), p (pf_ASK_PRICE f),
          show_int (pf_ASK_VOLUME f), show_int (pf_ASK_COUNT f), show_int (pf_LAST_TRADE_TICK f),
          show_int (pf_STREAM_ID f), show_int (pf_EVENT_TIME f), show_int (pf_EXCHANGE_TIMESTAMP f)]"
    unfolding PriceFeed_body_def
    by (rule commas_to_spaces_csv)
      (use assms in \<open>auto simp: PriceFeed_printable_def prints_def plain_def\<close>)
  then show ?thesis
    using assms
    by (simp add: PriceFeed_build_def PriceFeed_printable_def PriceFeed_overwrite
        extract_steps extract_next_double [of p])
qed

end
