(* ===== verification/Messages.thy ===== *)
theory Messages
  imports Feeds
begin

text \<open>
  \<open>myMessage.cpp\<close>: a Kafka message with its parsed feed and a counter of the processors
  that still need it. Messages live in a heap and are named by their address; the feed
  object is allocated by the message's constructor and owned by it, so the address of a
  feed is written as the address of its message.

  The JSON reader is jsoncpp, whose code is not part of the repository: it is a parameter
  \<open>rd\<close> of the model. \<open>rd text\<close> is \<open>None\<close> when \<open>reader.parse\<close> returns false; otherwise it
  gives, for a key, the string \<open>value[key].asString()\<close> or \<open>None\<close> when that call throws.
\<close>

type_synonym json_reader = "string \<Rightarrow> (string \<Rightarrow> string option) option"

type_synonym mid = nat

text \<open>
  What the monitor uses of a consumed \<open>RdKafka::Message\<close>: its partition, its offset and the
  C string at its payload pointer, which is null for a message without a payload.
\<close>

record rk_message =
  rk_partition :: int
  rk_offset :: int
  rk_payload :: "string option"

datatype feed = SFeed StatisticsFeed | PFeed PriceFeed

text \<open>
  The constructor assigns \<open>_feed\<close> and \<open>_type\<close> on two branches only; a member that was never
  assigned is \<open>None\<close>, and reading it is a fault.
\<close>

record MyMessage =
  mm_message :: rk_message
  mm_live :: int
  mm_feed :: "feed option"
  mm_type :: "feedtype option"

type_synonym heap = "mid \<Rightarrow> MyMessage option"

definition string_index :: "string \<Rightarrow> nat \<Rightarrow> char res" where
  "string_index s i =
     (if i < length s then Inr (s ! i) else if i = length s then Inr (CHR 0x00) else Inl Out_Of_Bounds)"

text \<open>A \<open>std::string\<close> made from a null pointer throws, outside the \<open>try\<close> block.\<close>

definition MyMessage_new :: "json_reader \<Rightarrow> rk_message \<Rightarrow> MyMessage res" where
  "MyMessage_new rd message =
     (let bare = \<lparr>mm_message = message, mm_live = 0, mm_feed = None, mm_type = None\<rparr>
      in bindR (derefR Logic_Error (rk_payload message)) (\<lambda>text.
         case rd text of
           None \<Rightarrow> Inr bare
         | Some js \<Rightarrow>
             (case js ''MessageType'' of
                None \<Rightarrow> Inr bare
              | Some msg_type \<Rightarrow>
                  bindR (string_index msg_type 6) (\<lambda>c.
                    if c = CHR ''P'' then
                      (case js ''detail'' of
                         None \<Rightarrow> Inr bare
                       | Some d \<Rightarrow>
                           Inr (bare\<lparr>mm_feed := Some (PFeed (PriceFeed_build new_PriceFeed d)),
                                     mm_type := Some FT_Price\<rparr>))
                    else if c = CHR ''S'' then
                      (case js ''detail'' of
                         None \<Rightarrow> Inr bare
                       | Some d \<Rightarrow>
                           Inr (bare\<lparr>mm_feed := Some (SFeed (StatisticsFeed_build new_StatisticsFeed d)),
                                     mm_type := Some FT_Statistics\<rparr>))
                    else Inr bare))))"

definition MyMessage_live :: "MyMessage \<Rightarrow> MyMessage" where
  "MyMessage_live mm = mm\<lparr>mm_live := mm_live mm + 1\<rparr>"

definition MyMessage_kill :: "MyMessage \<Rightarrow> MyMessage res" where
  "MyMessage_kill mm =
     bindR (check Assert_Failed (0 < mm_live mm)) (\<lambda>_. Inr (mm\<lparr>mm_live := mm_live mm - 1\<rparr>))"

definition MyMessage_free :: "MyMessage \<Rightarrow> bool" where
  "MyMessage_free mm \<longleftrightarrow> mm_live mm = 0"

definition MyMessage_type :: "MyMessage \<Rightarrow> feedtype res" where
  "MyMessage_type mm = derefR Indeterminate (mm_type mm)"

definition MyMessage_feed :: "MyMessage \<Rightarrow> feed res" where
  "MyMessage_feed mm = derefR Indeterminate (mm_feed mm)"

text \<open>The destructor deletes the feed pointer: a fault when it was never assigned.\<close>

definition MyMessage_delete :: "heap \<Rightarrow> mid \<Rightarrow> heap res" where
  "MyMessage_delete h m =
     bindR (derefR Use_After_Free (h m)) (\<lambda>mm.
     bindR (MyMessage_feed mm) (\<lambda>_. Inr (h(m := None))))"

text \<open>A message whose constructor found a feed.\<close>

definition parsed :: "MyMessage \<Rightarrow> bool" where
  "parsed mm \<longleftrightarrow>
     (case mm_feed mm of
        None \<Rightarrow> False
      | Some (SFeed _) \<Rightarrow> mm_type mm = Some FT_Statistics
      | Some (PFeed _) \<Rightarrow> mm_type mm = Some FT_Price)"

lemma parsed_live [simp]: "parsed (mm\<lparr>mm_live := n\<rparr>) = parsed mm"
  by (simp add: parsed_def split: option.split feed.split)

text \<open>\<open>(StatisticsFeed*) message->feed()\<close> and the like: the feed behind a pointer.\<close>

definition sf_at :: "heap \<Rightarrow> mid \<Rightarrow> StatisticsFeed res" where
  "sf_at h m =
     bindR (derefR Use_After_Free (h m)) (\<lambda>mm.
     bindR (MyMessage_feed mm) (\<lambda>f.
       case f of SFeed sf \<Rightarrow> Inr sf | PFeed _ \<Rightarrow> Inl Indeterminate))"

definition pf_at :: "heap \<Rightarrow> mid \<Rightarrow> PriceFeed res" where
  "pf_at h m =
     bindR (derefR Use_After_Free (h m)) (\<lambda>mm.
     bindR (MyMessage_feed mm) (\<lambda>f.
       case f of PFeed pf \<Rightarrow> Inr pf | SFeed _ \<Rightarrow> Inl Indeterminate))"

lemma MyMessage_new_cases:
  assumes "MyMessage_new rd msg = Inr mm"
  obtains "mm = \<lparr>mm_message = msg, mm_live = 0, mm_feed = None, mm_type = None\<rparr>"
  | pf where "mm = \<lparr>mm_message = msg, mm_live = 0, mm_feed = Some (PFeed pf), mm_type = Some FT_Price\<rparr>"
  | sf where "mm = \<lparr>mm_message = msg, mm_live = 0, mm_feed = Some (SFeed sf), mm_type = Some FT_Statistics\<rparr>"
proof -
  obtain body where body: "rk_payload msg = Some body" using assms by (cases "rk_payload msg") (simp_all add: MyMessage_new_def)
  show thesis
  proof (cases "rd body")
    case None
    then show ?thesis using assms body that(1) by (simp add: MyMessage_new_def)
  next
    case (Some js)
    then show ?thesis using assms body that
      by (auto simp: MyMessage_new_def Let_def bindR_def split: option.splits sum.splits if_splits)
  qed
qed

lemma MyMessage_new_live: "MyMessage_new rd msg = Inr mm \<Longrightarrow> mm_live mm = 0 \<and> mm_message mm = msg"
  by (elim MyMessage_new_cases) auto

lemma MyMessage_new_feed_type:
  "MyMessage_new rd msg = Inr mm \<Longrightarrow> parsed mm \<or> (mm_feed mm = None \<and> mm_type mm = None)"
  by (elim MyMessage_new_cases) (auto simp: parsed_def)

lemma MyMessage_delete_eq_Inr:
  "MyMessage_delete h m = Inr h' \<longleftrightarrow> (\<exists>mm f. h m = Some mm \<and> mm_feed mm = Some f \<and> h' = h(m := None))"
  by (auto simp: MyMessage_delete_def MyMessage_feed_def res_simps)

lemma sf_at_eq_Inr:
  "sf_at h m = Inr sf \<longleftrightarrow> (\<exists>mm. h m = Some mm \<and> mm_feed mm = Some (SFeed sf))"
  unfolding sf_at_def MyMessage_feed_def
  by (cases "h m") (auto simp: res_simps split: feed.split_asm)

lemma pf_at_eq_Inr:
  "pf_at h m = Inr pf \<longleftrightarrow> (\<exists>mm. h m = Some mm \<and> mm_feed mm = Some (PFeed pf))"
  unfolding pf_at_def MyMessage_feed_def
  by (cases "h m") (auto simp: res_simps split: feed.split_asm)

end
