(* ===== verification/Contexts.thy ===== *)
theory Contexts
  imports Messages "HOL-Library.Multiset" "HOL-Library.Char_ord" "HOL-Library.List_Lexorder"
begin

text \<open>
  \<open>Context.h\<close>, \<open>Context.cpp\<close>, \<open>ContextMap.cpp\<close>: the per-feedcode state of the deficiency
  check (a priority queue of waiting statistics feeds, the expected timestamp and the last
  turnover figures, behind a mutex), and the ordered map from feedcodes to contexts.
\<close>

section \<open>Priority queues\<close>

text \<open>
  What the source uses of \<open>std::priority_queue\<close> with \<open>feedcmp\<close>: \<open>top\<close> has a least key, \<open>push\<close>
  and \<open>pop\<close> add and remove one element. The key of an element is read through a pointer.
\<close>

locale keyed_queue =
  fixes push :: "('a \<Rightarrow> int) \<Rightarrow> 'a \<Rightarrow> 'q \<Rightarrow> 'q"
    and top :: "'q \<Rightarrow> 'a"
    and pop :: "'q \<Rightarrow> 'q"
    and elems :: "'q \<Rightarrow> 'a multiset"
    and ordered :: "('a \<Rightarrow> int) \<Rightarrow> 'q \<Rightarrow> bool"
  assumes push_elems: "elems (push k x q) = add_mset x (elems q)"
    and push_ordered: "ordered k q \<Longrightarrow> ordered k (push k x q)"
    and pop_elems: "elems q \<noteq> {#} \<Longrightarrow> elems (pop q) = elems q - {#top q#}"
    and pop_ordered: "ordered k q \<Longrightarrow> ordered k (pop q)"
    and top_in: "elems q \<noteq> {#} \<Longrightarrow> top q \<in># elems q"
    and top_least: "ordered k q \<Longrightarrow> x \<in># elems q \<Longrightarrow> k (top q) \<le> k x"
begin

lemma all_above: "ordered k q \<Longrightarrow> b < k (top q) \<Longrightarrow> x \<in># elems q \<Longrightarrow> b < k x"
  using top_least by fastforce

lemma pop_subset: "x \<in># elems (pop q) \<Longrightarrow> elems q \<noteq> {#} \<Longrightarrow> x \<in># elems q"
  by (metis in_diffD pop_elems)

lemma push_size: "size (elems (push k x q)) = Suc (size (elems q))"
  by (simp add: push_elems)

lemma pop_size: "elems q \<noteq> {#} \<Longrightarrow> Suc (size (elems (pop q))) = size (elems q)"
  by (simp add: pop_elems top_in size_Diff_singleton Suc_pred' nonempty_has_size)

end

type_synonym pq = "mid list"

definition pq_push :: "(mid \<Rightarrow> int) \<Rightarrow> mid \<Rightarrow> pq \<Rightarrow> pq" where
  "pq_push k x q = insort_key k x q"

definition pq_top :: "pq \<Rightarrow> mid" where
  "pq_top q = hd q"

definition pq_pop :: "pq \<Rightarrow> pq" where
  "pq_pop q = tl q"

definition pq_ordered :: "(mid \<Rightarrow> int) \<Rightarrow> pq \<Rightarrow> bool" where
  "pq_ordered k q \<longleftrightarrow> sorted (map k q)"

interpretation feed_pq: keyed_queue pq_push pq_top pq_pop mset pq_ordered
proof
  fix k :: "mid \<Rightarrow> int" and x q
  show "mset (pq_push k x q) = add_mset x (mset q)" by (simp add: pq_push_def)
  show "pq_ordered k q \<Longrightarrow> pq_ordered k (pq_push k x q)"
    by (simp add: pq_ordered_def pq_push_def sorted_insort_key)
  show "mset q \<noteq> {#} \<Longrightarrow> mset (pq_pop q) = mset q - {#pq_top q#}"
    by (cases q) (simp_all add: pq_pop_def pq_top_def)
  show "pq_ordered k q \<Longrightarrow> pq_ordered k (pq_pop q)"
    by (cases q) (simp_all add: pq_ordered_def pq_pop_def)
  show "mset q \<noteq> {#} \<Longrightarrow> pq_top q \<in># mset q"
    by (cases q) (simp_all add: pq_top_def)
  show "pq_ordered k q \<Longrightarrow> x \<in># mset q \<Longrightarrow> k (pq_top q) \<le> k x"
    by (cases q) (auto simp: pq_ordered_def pq_top_def)
qed


section \<open>Contexts\<close>

text \<open>
  A context starts with no queue and with its three numbers never assigned (\<open>None\<close>). The
  mutex is a flag; unlocking a mutex that is not held is undefined in C++ and is counted.
\<close>

record Context =
  ctx_queue :: "pq option"
  ctx_expectTimestamp :: "int option"
  ctx_preValue :: "double option"
  ctx_preVolume :: "int option"
  ctx_locked :: bool
  ctx_bad_unlocks :: nat

definition Context_new :: Context where
  "Context_new = \<lparr>ctx_queue = None, ctx_expectTimestamp = None, ctx_preValue = None,
     ctx_preVolume = None, ctx_locked = False, ctx_bad_unlocks = 0\<rparr>"

definition Context_lock :: "Context \<Rightarrow> Context" where
  "Context_lock c = c\<lparr>ctx_locked := True\<rparr>"

definition Context_unlock :: "Context \<Rightarrow> Context" where
  "Context_unlock c =
     (if ctx_locked c then c\<lparr>ctx_locked := False\<rparr>
      else c\<lparr>ctx_bad_unlocks := Suc (ctx_bad_unlocks c)\<rparr>)"

definition Context_getQueue :: "Context \<Rightarrow> pq \<times> Context" where
  "Context_getQueue c =
     (case ctx_queue c of None \<Rightarrow> ([], c\<lparr>ctx_queue := Some []\<rparr>) | Some q \<Rightarrow> (q, c))"

definition Context_getExpectTimestamp :: "Context \<Rightarrow> int res" where
  "Context_getExpectTimestamp c = derefR Indeterminate (ctx_expectTimestamp c)"

definition Context_setExpectTimestamp :: "int \<Rightarrow> Context \<Rightarrow> Context" where
  "Context_setExpectTimestamp t c = c\<lparr>ctx_expectTimestamp := Some t\<rparr>"

definition Context_getPreValue :: "Context \<Rightarrow> double res" where
  "Context_getPreValue c = derefR Indeterminate (ctx_preValue c)"

definition Context_setPreValue :: "double \<Rightarrow> Context \<Rightarrow> Context" where
  "Context_setPreValue v c = c\<lparr>ctx_preValue := Some v\<rparr>"

definition Context_getPreVolume :: "Context \<Rightarrow> int res" where
  "Context_getPreVolume c = derefR Indeterminate (ctx_preVolume c)"

definition Context_setPreVolume :: "int \<Rightarrow> Context \<Rightarrow> Context" where
  "Context_setPreVolume v c = c\<lparr>ctx_preVolume := Some v\<rparr>"

lemmas Context_defs =
  Context_lock_def Context_unlock_def Context_getExpectTimestamp_def Context_setExpectTimestamp_def
  Context_getPreValue_def Context_setPreValue_def Context_getPreVolume_def Context_setPreVolume_def


section \<open>Ordered maps\<close>

text \<open>
  \<open>std::map\<close> as an association list kept in increasing order of its keys, which is the order
  its iterators visit.
\<close>

fun map_put :: "'k::linorder \<Rightarrow> 'v \<Rightarrow> ('k \<times> 'v) list \<Rightarrow> ('k \<times> 'v) list" where
  "map_put k v [] = [(k, v)]"
| "map_put k v ((a, b) # m) =
     (if k < a then (k, v) # (a, b) # m else if k = a then (k, v) # m else (a, b) # map_put k v m)"

definition map_sorted :: "('k::linorder \<times> 'v) list \<Rightarrow> bool" where
  "map_sorted m \<longleftrightarrow> sorted_wrt (<) (map fst m)"

locale ordered_map =
  fixes put :: "'k \<Rightarrow> 'v \<Rightarrow> 'm \<Rightarrow> 'm"
    and find :: "'m \<Rightarrow> 'k \<Rightarrow> 'v option"
    and keys :: "'m \<Rightarrow> 'k set"
    and wf :: "'m \<Rightarrow> bool"
  assumes find_put: "find (put k v m) = (find m)(k \<mapsto> v)"
    and put_wf: "wf m \<Longrightarrow> wf (put k v m)"
    and keys_find: "k \<in> keys m \<longleftrightarrow> find m k \<noteq> None"
begin

lemma find_same: "find (put k v m) k = Some v"
  by (simp add: find_put)

lemma find_other: "j \<noteq> k \<Longrightarrow> find (put k v m) j = find m j"
  by (simp add: find_put)

lemma keys_put: "keys (put k v m) = insert k (keys m)"
  by (auto simp: keys_find find_put split: if_split_asm)

end

lemma map_of_map_put: "map_of (map_put k v m) = (map_of m)(k \<mapsto> v)"
  by (induction k v m rule: map_put.induct) (auto simp: fun_eq_iff)

lemma set_map_put_keys: "fst ` set (map_put k v m) = insert k (fst ` set m)"
  by (induction k v m rule: map_put.induct) auto

lemma map_sorted_put: "map_sorted m \<Longrightarrow> map_sorted (map_put k v m)"
proof (induction k v m rule: map_put.induct)
  case (2 k v a b m)
  have "x \<in> fst ` set (map_put k v m) \<Longrightarrow> x = k \<or> x \<in> fst ` set m" for x
    using set_map_put_keys [of k v m] by auto
  with 2 show ?case by (fastforce simp: map_sorted_def)
qed (simp add: map_sorted_def)

lemma map_put_same: "map_sorted m \<Longrightarrow> map_of m k = Some v \<Longrightarrow> map_put k v m = m"
proof (induction k v m rule: map_put.induct)
  case (2 k v a b m)
  have "a < k" if "k \<noteq> a" using 2 that by (force simp: map_sorted_def dest: map_of_SomeD)
  then show ?case using 2 by (cases "k = a") (auto simp: map_sorted_def)
qed simp

interpretation cxx_map: ordered_map map_put map_of "\<lambda>m. fst ` set m" map_sorted
  by unfold_locales
    (simp_all add: map_of_map_put map_sorted_put map_of_eq_None_iff del: not_None_eq)


section \<open>The context map\<close>

text \<open>
  \<open>myMap\<close>: a null pointer is \<open>None\<close>. \<open>getContext\<close> reads with \<open>operator[]\<close>, which enters a
  null pointer for a key that is missing.
\<close>

type_synonym ctx_map = "(string \<times> Context option) list"

definition ContextMap_create :: "string \<Rightarrow> ctx_map \<Rightarrow> ctx_map" where
  "ContextMap_create feedcode m = map_put feedcode (Some Context_new) m"

definition ContextMap_has :: "ctx_map \<Rightarrow> string \<Rightarrow> bool" where
  "ContextMap_has m feedcode \<longleftrightarrow> map_of m feedcode \<noteq> None"

definition ContextMap_getContext :: "ctx_map \<Rightarrow> string \<Rightarrow> Context option \<times> ctx_map" where
  "ContextMap_getContext m feedcode =
     (case map_of m feedcode of Some p \<Rightarrow> (p, m) | None \<Rightarrow> (None, map_put feedcode None m))"

text \<open>One entry of the backup text, and the whole text in the order of the map.\<close>

definition backup_entry :: "string \<Rightarrow> Context \<Rightarrow> string res" where
  "backup_entry feedcode c =
     bindR (Context_getExpectTimestamp c) (\<lambda>et.
     bindR (Context_getPreValue c) (\<lambda>pv.
     bindR (Context_getPreVolume c) (\<lambda>pvol.
       Inr (''feedcode:'' @ feedcode @ '','' @ ''expectTimestamp:'' @ show_int et @ '','' @
            ''preValue:'' @ fmt_f pv @ '','' @ ''preVolume:'' @ show_int pvol @ '';''))))"

fun backup_text :: "ctx_map \<Rightarrow> string res" where
  "backup_text [] = Inr []"
| "backup_text ((feedcode, p) # m) =
     bindR (derefR Null_Deref p) (\<lambda>c.
     bindR (backup_entry feedcode c) (\<lambda>e.
     bindR (backup_text m) (\<lambda>rest. Inr (e @ rest))))"

end
