(* ===== verification/Deficiency.thy ===== *)
theory Deficiency
  imports Contexts
begin

text \<open>
  \<open>DeficiencyProcessor.cpp\<close>: for every feedcode the processor expects a statistics feed each
  \<open>INTERVAL\<close> nanoseconds. A feed with the expected timestamp advances the expectation; a
  later one waits in the context's queue, holding its message alive; an earlier one is
  reported as delayed.
\<close>

definition INTERVAL :: int where
  "INTERVAL = 500000000"

text \<open>\<open>sf_to_m\<close>: the message that owns a feed; a missing key reads as a null pointer.\<close>

type_synonym sf_map = "mid \<Rightarrow> mid option"

record Pro_res =
  pr_json :: "string list"
  pr_code :: status

record DeficiencyProcessor =
  dp_sf_to_m :: sf_map
  dp_res :: Pro_res
  dp_tags :: string

definition DeficiencyProcessor_new :: DeficiencyProcessor where
  "DeficiencyProcessor_new =
     \<lparr>dp_sf_to_m = (\<lambda>_. None), dp_res = \<lparr>pr_json = [], pr_code = OK\<rparr>, dp_tags = []\<rparr>"

definition DeficiencyProcessor_getResult :: "DeficiencyProcessor \<Rightarrow> Pro_res" where
  "DeficiencyProcessor_getResult dp = dp_res dp"

definition DeficiencyProcessor_set_tag :: "string \<Rightarrow> DeficiencyProcessor \<Rightarrow> DeficiencyProcessor" where
  "DeficiencyProcessor_set_tag t dp = dp\<lparr>dp_tags := t\<rparr>"

definition DeficiencyProcessor_tag :: "DeficiencyProcessor \<Rightarrow> string" where
  "DeficiencyProcessor_tag dp = dp_tags dp"

definition checkTime :: "int \<Rightarrow> int \<Rightarrow> bool" where
  "checkTime t expect_t = (if t = expect_t then True else False)"


section \<open>The reports\<close>

definition turnover_report :: "string \<Rightarrow> StatisticsFeed \<Rightarrow> string \<Rightarrow> string" where
  \<open>turnover_report feedcode sf lg =
     ''{"FEEDCODE":"'' @ c_str feedcode @ ''", "TIMESTAMP":'' @ show_int (sf_TIMESTAMP sf) @
     '', "TURNOVER_VOLUME":'' @ show_int (sf_TURNOVER_VOLUME sf) @
     '', "TURNOVER_VALUE":'' @ fmt_f (sf_TURNOVER_VALUE sf) @ '', "LOG":"'' @ lg @ ''"}''\<close>

definition delay_report :: "string \<Rightarrow> int \<Rightarrow> int \<Rightarrow> string" where
  \<open>delay_report feedcode et t =
     ''{"FEEDCODE":"'' @ c_str feedcode @ ''", "TIMESTAMP": '' @ show_int t @
     '', "LOG":"delay '' @ fmt_f (dbl (dbl (of_int (s64 (et - t))) / 1000000000)) @ ''s"}''\<close>

definition miss_report :: "string \<Rightarrow> int \<Rightarrow> string" where
  \<open>miss_report feedcode et =
     ''{"FEEDCODE":"'' @ c_str feedcode @ ''", "TIMESTAMP":'' @ show_int et @
     '', "LOG":"miss"}''\<close>

definition invalid_log :: string where
  "invalid_log = ''Invalid turnover value or turnover volume''"

definition monotone_log :: string where
  "monotone_log = ''Turnover value or turnover volume should be monotonically increase''"

section \<open>Steps of the check\<close>

text \<open>\<open>((MyMessage* ) sf_to_m[fp])->kill(); sf_to_m.erase(fp);\<close>\<close>

definition kill_feed :: "mid \<Rightarrow> heap \<times> sf_map \<Rightarrow> (heap \<times> sf_map) res" where
  "kill_feed fp = (\<lambda>(h, s2m).
     bindR (derefR Null_Deref (s2m fp)) (\<lambda>m.
     bindR (derefR Use_After_Free (h m)) (\<lambda>mm.
     bindR (MyMessage_kill mm) (\<lambda>mm'. Inr (h(m \<mapsto> mm'), s2m(fp := None))))))"

text \<open>
  The queue's comparator reads the timestamp of the feeds it compares. The model asks that
  every feed of the queue is still allocated, whichever of them the heap algorithm compares.
\<close>

definition ts_key :: "heap \<Rightarrow> mid \<Rightarrow> int" where
  "ts_key h x = (case sf_at h x of Inr sf \<Rightarrow> sf_EXCHANGE_TIMESTAMP sf | Inl _ \<Rightarrow> 0)"

definition pq_readable :: "heap \<Rightarrow> pq \<Rightarrow> bool" where
  "pq_readable h q \<longleftrightarrow> list_all (\<lambda>x. \<not> isl (sf_at h x)) q"

definition push_feed :: "heap \<Rightarrow> mid \<Rightarrow> pq \<Rightarrow> pq res" where
  "push_feed h x q =
     bindR (check Use_After_Free (pq_readable h (x # q))) (\<lambda>_. Inr (pq_push (ts_key h) x q))"

definition report_to :: "string \<Rightarrow> string list \<Rightarrow> string list res" where
  "report_to s json = bindR (sprintf_to 200 s) (\<lambda>r. Inr (json @ [r]))"

text \<open>The continuity check of the drain loop: it compares the feed just received.\<close>

definition continuity ::
  "string \<Rightarrow> StatisticsFeed \<Rightarrow> Context \<times> string list \<Rightarrow> (Context \<times> string list) res" where
  "continuity feedcode sf = (\<lambda>(c, json).
     bindR (Context_getPreValue c) (\<lambda>pv.
     bindR (Context_getPreVolume c) (\<lambda>pvol.
       if sf_TURNOVER_VALUE sf < pv \<or> sf_TURNOVER_VOLUME sf < pvol then
         bindR (report_to (turnover_report feedcode sf monotone_log) json) (\<lambda>json'. Inr (c, json'))
       else
         Inr (Context_setPreVolume (sf_TURNOVER_VOLUME sf)
               (Context_setPreValue (sf_TURNOVER_VALUE sf) c), json))))"

record drain_state =
  dr_heap :: heap
  dr_s2m :: sf_map
  dr_ctx :: Context
  dr_json :: "string list"
  dr_et :: int

lemma pq_pop_shrinks [termination_simp]: "q \<noteq> [] \<Longrightarrow> length (pq_pop q) < length q"
  by (simp add: pq_pop_def)

text \<open>
  The loop \<open>while (sf_pq->size() > 0)\<close>. The context's queue is the argument \<open>q\<close> while the
  loop runs and is stored back when it ends. The last branch unlocks the context.
\<close>

fun drain :: "string \<Rightarrow> StatisticsFeed \<Rightarrow> pq \<Rightarrow> drain_state \<Rightarrow> drain_state res" where
  "drain feedcode sf q d =
     (if q = [] then Inr (d\<lparr>dr_ctx := (dr_ctx d)\<lparr>ctx_queue := Some []\<rparr>\<rparr>)
      else
        bindR (sf_at (dr_heap d) (pq_top q)) (\<lambda>tf.
        let t = sf_EXCHANGE_TIMESTAMP tf in
        if t = dr_et d then
          bindR (continuity feedcode sf (dr_ctx d, dr_json d)) (\<lambda>(c, json).
          bindR (kill_feed (pq_top q) (dr_heap d, dr_s2m d)) (\<lambda>(h, s2m).
          bindR (check Use_After_Free (pq_readable h q)) (\<lambda>_.
            drain feedcode sf (pq_pop q)
              \<lparr>dr_heap = h, dr_s2m = s2m, dr_ctx = c, dr_json = json,
               dr_et = s64 (dr_et d + INTERVAL)\<rparr>)))
        else if t < dr_et d then
          bindR (kill_feed (pq_top q) (dr_heap d, dr_s2m d)) (\<lambda>(h, s2m).
          bindR (check Use_After_Free (pq_readable h q)) (\<lambda>_.
            drain feedcode sf (pq_pop q) (d\<lparr>dr_heap := h, dr_s2m := s2m\<rparr>)))
        else Inr (d\<lparr>dr_ctx := Context_unlock ((dr_ctx d)\<lparr>ctx_queue := Some q\<rparr>)\<rparr>)))"

declare drain.simps [simp del]

section \<open>The whole handler\<close>

text \<open>The test for invalid turnover figures.\<close>

definition invalid_turnover :: "StatisticsFeed \<Rightarrow> bool" where
  "invalid_turnover sf \<longleftrightarrow> sf_TURNOVER_VALUE sf \<le> 0 \<or> sf_TURNOVER_VOLUME sf \<le> 0"

definition check_turnover :: "string \<Rightarrow> StatisticsFeed \<Rightarrow> Pro_res \<Rightarrow> Pro_res res" where
  "check_turnover feedcode sf r =
     (if invalid_turnover sf then
        bindR (report_to (turnover_report feedcode sf invalid_log) (pr_json r)) (\<lambda>json.
          Inr \<lparr>pr_json = json, pr_code = WARN\<rparr>)
      else Inr r)"

text \<open>A feedcode seen for the first time gets a context that expects this very feed.\<close>

definition first_context :: "StatisticsFeed \<Rightarrow> Context \<Rightarrow> Context" where
  "first_context sf c =
     Context_unlock
       (Context_setPreVolume (if sf_TURNOVER_VOLUME sf > 0 then sf_TURNOVER_VOLUME sf else 0)
       (Context_setPreValue (if sf_TURNOVER_VALUE sf > 0 then sf_TURNOVER_VALUE sf else 0)
       (Context_setExpectTimestamp (sf_EXCHANGE_TIMESTAMP sf) (Context_lock c))))"

definition ensure_context :: "string \<Rightarrow> StatisticsFeed \<Rightarrow> ctx_map \<Rightarrow> ctx_map res" where
  "ensure_context feedcode sf cm =
     (if \<not> ContextMap_has cm feedcode then
        let (p, cm') = ContextMap_getContext (ContextMap_create feedcode cm) feedcode
        in bindR (derefR Null_Deref p) (\<lambda>c. Inr (map_put feedcode (Some (first_context sf c)) cm'))
      else Inr cm)"

text \<open>
  What follows once the context \<open>c\<close> is locked: its three outcomes, each with the heap, the
  map \<open>sf_to_m\<close>, the context and the result.
\<close>

definition insert_and_drain ::
  "string \<Rightarrow> mid \<Rightarrow> StatisticsFeed \<Rightarrow> int \<Rightarrow> heap \<Rightarrow> sf_map \<Rightarrow> Context \<Rightarrow> Pro_res
    \<Rightarrow> (heap \<times> sf_map \<times> Context \<times> Pro_res) res" where
  "insert_and_drain feedcode m sf et h s2m c r =
     (let (q, c1) = Context_getQueue c
      in bindR (push_feed h m q) (\<lambda>q1.
         bindR (drain feedcode sf q1
                  \<lparr>dr_heap = h, dr_s2m = s2m, dr_ctx = c1, dr_json = pr_json r, dr_et = et\<rparr>) (\<lambda>d.
           let c2 = Context_setExpectTimestamp (dr_et d) (dr_ctx d)
           in if 120 < length (fst (Context_getQueue c2)) then
                bindR (Context_getExpectTimestamp c2) (\<lambda>et2.
                bindR (report_to (miss_report feedcode et2) (dr_json d)) (\<lambda>json.
                  Inr (dr_heap d, dr_s2m d,
                       Context_unlock (Context_setExpectTimestamp (s64 (et2 + INTERVAL)) c2),
                       \<lparr>pr_json = json, pr_code = WARN\<rparr>)))
              else Inr (dr_heap d, dr_s2m d, Context_unlock c2, r\<lparr>pr_json := dr_json d\<rparr>))))"

definition locked_step ::
  "string \<Rightarrow> mid \<Rightarrow> StatisticsFeed \<Rightarrow> heap \<Rightarrow> sf_map \<Rightarrow> Context \<Rightarrow> Pro_res
    \<Rightarrow> (heap \<times> sf_map \<times> Context \<times> Pro_res) res" where
  "locked_step feedcode m sf h s2m c r =
     bindR (Context_getExpectTimestamp c) (\<lambda>et.
       if et = sf_EXCHANGE_TIMESTAMP sf then
         bindR (kill_feed m (h, s2m)) (\<lambda>(h', s2m').
           Inr (h', s2m', Context_unlock (Context_setExpectTimestamp (s64 (et + INTERVAL)) c), r))
       else if sf_EXCHANGE_TIMESTAMP sf < et then
         bindR (report_to (delay_report feedcode et (sf_EXCHANGE_TIMESTAMP sf)) (pr_json r)) (\<lambda>json.
           Inr (h, s2m, Context_unlock c, \<lparr>pr_json = json, pr_code = WARN\<rparr>))
       else insert_and_drain feedcode m sf et h s2m c r)"

definition exec_statistics ::
  "mid \<Rightarrow> heap \<Rightarrow> ctx_map \<Rightarrow> DeficiencyProcessor \<Rightarrow> (heap \<times> ctx_map \<times> DeficiencyProcessor) res" where
  "exec_statistics m h cm dp =
     bindR (derefR Use_After_Free (h m)) (\<lambda>mm.
     bindR (sf_at h m) (\<lambda>sf.
       let h1 = h(m \<mapsto> MyMessage_live mm);
           s1 = (dp_sf_to_m dp)(m \<mapsto> m);
           feedcode = sf_FEEDCODE sf
       in bindR (check_turnover feedcode sf (dp_res dp)) (\<lambda>r.
          bindR (ensure_context feedcode sf cm) (\<lambda>cm1.
          let (p, cm2) = ContextMap_getContext cm1 feedcode
          in bindR (derefR Null_Deref p) (\<lambda>c.
             bindR (locked_step feedcode m sf h1 s1 (Context_lock c) r) (\<lambda>(h2, s2, c2, r2).
               Inr (h2, map_put feedcode (Some c2) cm2,
                    dp\<lparr>dp_sf_to_m := s2, dp_res := r2\<rparr>)))))))"

definition DeficiencyProcessor_exec ::
  "mid \<Rightarrow> heap \<Rightarrow> ctx_map \<Rightarrow> DeficiencyProcessor \<Rightarrow> (heap \<times> ctx_map \<times> DeficiencyProcessor) res" where
  "DeficiencyProcessor_exec m h cm dp =
     (let dp0 = dp\<lparr>dp_res := (dp_res dp)\<lparr>pr_json := []\<rparr>\<rparr>
      in bindR (derefR Use_After_Free (h m)) (\<lambda>mm.
         bindR (MyMessage_type mm) (\<lambda>ty.
           case ty of
             FT_Price \<Rightarrow> Inr (h, cm, dp0)
           | FT_Statistics \<Rightarrow> exec_statistics m h cm dp0
           | FT_NONE \<Rightarrow> Inr (h, cm, dp0))))"

end
