(* ===== verification/Deficiency_Invariant.thy ===== *)
theory Deficiency_Invariant
  imports Deficiency
begin

text \<open>
  The invariant of the deficiency check and its preservation: which messages are alive,
  what the queues hold, and that the handler faults on no branch for feeds whose reports
  fit the arrays they are printed to.
\<close>

section \<open>The reports fit their array\<close>

text \<open>
  The reports are printed into arrays of 200 characters. They fit for feeds with a short
  feedcode and a turnover value below \<open>10 ^ 15\<close>; the other bounds are those of the types.
\<close>

definition modest :: "StatisticsFeed \<Rightarrow> bool" where
  "modest sf \<longleftrightarrow>
     length (sf_FEEDCODE sf) \<le> 16 \<and> sf_TIMESTAMP sf = 0 \<and> in_range 32 (sf_TURNOVER_VOLUME sf) \<and>
     in_range 64 (sf_EXCHANGE_TIMESTAMP sf) \<and> \<bar>sf_TURNOVER_VALUE sf\<bar> < 1000000000000000"

lemma length_c_str: "length (c_str s) \<le> length s"
  by (simp add: c_str_def length_takeWhile_le)

lemma length_show_s64: "in_range 64 i \<Longrightarrow> length (show_int i) \<le> 20"
  using length_show_int [of i 19] by (simp add: in_range_def abs_less_iff)

lemma length_show_s32: "in_range 32 i \<Longrightarrow> length (show_int i) \<le> 11"
  using length_show_int [of i 10] by (simp add: in_range_def abs_less_iff)

lemma turnover_fits:
  assumes "modest sf" and "length lg \<le> 66"
  shows "length (turnover_report (sf_FEEDCODE sf) sf lg) < 200"
proof -
  have "length (fmt_f (sf_TURNOVER_VALUE sf)) \<le> 24"
  proof -
    define N :: nat where "N = nat \<lceil>\<bar>sf_TURNOVER_VALUE sf\<bar>\<rceil>"
    have "\<bar>sf_TURNOVER_VALUE sf\<bar> \<le> of_nat N" by (simp add: N_def of_nat_ceiling)
    moreover have "N \<le> 1000000000000000"
      using assms(1) by (simp add: modest_def N_def nat_le_iff ceiling_le_iff less_imp_le)
    ultimately show ?thesis
      using length_fmt_f [of "sf_TURNOVER_VALUE sf" N 16] by simp
  qed
  moreover have "length (show_int (sf_TURNOVER_VOLUME sf)) \<le> 11"
    using assms(1) by (simp add: modest_def length_show_s32)
  moreover have "length (c_str (sf_FEEDCODE sf)) \<le> 16"
    using assms(1) length_c_str [of "sf_FEEDCODE sf"] by (simp add: modest_def)
  moreover have "show_int (sf_TIMESTAMP sf) = ''0''"
    using assms(1) by (simp add: modest_def show_int_def show_nat.simps)
  ultimately show ?thesis using assms(2) by (simp add: turnover_report_def)
qed

lemma delay_fits:
  assumes "length feedcode \<le> 16" and "in_range 64 t"
  shows "length (delay_report feedcode et t) < 200"
proof -
  define d where "d = dbl (dbl (of_int (s64 (et - t))) / 1000000000)"
  have "in_range 64 (s64 (et - t))" by (rule swrap_in_range) simp
  then have "\<bar>s64 (et - t)\<bar> \<le> 2 ^ 63" by (simp add: in_range_def abs_le_iff)
  then have "(of_int \<bar>s64 (et - t)\<bar> :: rat) \<le> of_int (2 ^ 63)" by (simp only: of_int_le_iff)
  then have "\<bar>of_int (s64 (et - t)) :: rat\<bar> \<le> pow2 63" by (simp add: pow2_def)
  then have "\<bar>dbl (of_int (s64 (et - t)))\<bar> \<le> pow2 63" by (rule dbl_bound) simp
  then have "\<bar>dbl (of_int (s64 (et - t))) / 1000000000\<bar> \<le> pow2 34" by (simp add: pow2_def)
  then have "\<bar>d\<bar> \<le> pow2 34" unfolding d_def by (rule dbl_bound) simp
  then have "length (fmt_f d) \<le> 19" using length_fmt_f [of d "2 ^ 34" 11] by (simp add: pow2_def)
  moreover have "length (show_int t) \<le> 20" using assms(2) by (rule length_show_s64)
  moreover have "length (c_str feedcode) \<le> 16"
    using assms(1) length_c_str [of feedcode] by simp
  ultimately show ?thesis by (simp add: delay_report_def d_def [symmetric])
qed

lemma miss_fits: "length feedcode \<le> 16 \<Longrightarrow> in_range 64 et \<Longrightarrow> length (miss_report feedcode et) < 200"
  using length_c_str [of feedcode] length_show_s64 [of et] by (simp add: miss_report_def)

lemma report_to_fits: "length s < 200 \<Longrightarrow> report_to s json = Inr (json @ [s])"
  by (simp add: report_to_def sprintf_to_def)

section \<open>The invariant\<close>

text \<open>
  A message that a feed of \<open>sf_to_m\<close> points to is alive, every other message is free; a
  waiting feed is registered in \<open>sf_to_m\<close> and belongs to the feedcode of its context; queues
  are ordered by timestamp, and no context is null, locked or only partly assigned.
\<close>

definition counted :: "heap \<Rightarrow> sf_map \<Rightarrow> bool" where
  "counted h s2m \<longleftrightarrow>
     (\<forall>m. s2m m \<noteq> None \<longrightarrow> s2m m = Some m \<and> (\<exists>sf. sf_at h m = Inr sf)) \<and>
     (\<forall>m mm. h m = Some mm \<longrightarrow> mm_live mm = (if s2m m = None then 0 else 1))"

definition queue_wf :: "heap \<Rightarrow> sf_map \<Rightarrow> string \<Rightarrow> pq \<Rightarrow> bool" where
  "queue_wf h s2m fc q \<longleftrightarrow>
     distinct q \<and> pq_ordered (ts_key h) q \<and>
     (\<forall>x \<in> set q. s2m x \<noteq> None \<and> (\<exists>sf. sf_at h x = Inr sf \<and> sf_FEEDCODE sf = fc))"

definition assigned :: "Context \<Rightarrow> bool" where
  "assigned c \<longleftrightarrow>
     (\<exists>et. ctx_expectTimestamp c = Some et \<and> in_range 64 et) \<and>
     ctx_preValue c \<noteq> None \<and> ctx_preVolume c \<noteq> None"

definition ctx_wf :: "heap \<Rightarrow> sf_map \<Rightarrow> string \<Rightarrow> Context \<Rightarrow> bool" where
  "ctx_wf h s2m fc c \<longleftrightarrow>
     assigned c \<and> \<not> ctx_locked c \<and> (\<forall>q. ctx_queue c = Some q \<longrightarrow> queue_wf h s2m fc q)"

definition deficiency_inv :: "heap \<Rightarrow> ctx_map \<Rightarrow> sf_map \<Rightarrow> bool" where
  "deficiency_inv h cm s2m \<longleftrightarrow>
     counted h s2m \<and> map_sorted cm \<and>
     (\<forall>fc p. map_of cm fc = Some p \<longrightarrow> (\<exists>c. p = Some c \<and> ctx_wf h s2m fc c))"

text \<open>Two heaps that differ only in the counters of their messages.\<close>

definition same_messages :: "heap \<Rightarrow> heap \<Rightarrow> bool" where
  "same_messages h h' \<longleftrightarrow>
     (\<forall>m. case h m of None \<Rightarrow> h' m = None | Some mm \<Rightarrow> \<exists>n. h' m = Some (mm\<lparr>mm_live := n\<rparr>))"

lemma same_messages_cases:
  assumes "same_messages h h'"
  obtains "h m = None" "h' m = None" | mm n where "h m = Some mm" "h' m = Some (mm\<lparr>mm_live := n\<rparr>)"
  using assms by (fastforce simp: same_messages_def split: option.split_asm)

lemma live_self: "\<exists>n. mm = mm\<lparr>mm_live := n\<rparr>"
  by (rule exI [of _ "mm_live mm"]) simp

lemma same_messages_refl [simp]: "same_messages h h"
  by (auto simp: same_messages_def live_self split: option.split)

lemma same_messages_trans [trans]:
  assumes "same_messages a b" and "same_messages b c"
  shows "same_messages a c"
  unfolding same_messages_def
proof
  fix m
  show "case a m of None \<Rightarrow> c m = None | Some mm \<Rightarrow> \<exists>n. c m = Some (mm\<lparr>mm_live := n\<rparr>)"
    by (rule same_messages_cases [OF assms(1), of m]; rule same_messages_cases [OF assms(2), of m]) auto
qed

lemma same_messages_update:
  "h m = Some mm \<Longrightarrow> same_messages h (h(m \<mapsto> mm\<lparr>mm_live := n\<rparr>))"
  by (auto simp: same_messages_def live_self split: option.split)

lemma same_messages_at:
  assumes "same_messages h h'"
  shows "sf_at h' = sf_at h" and "pf_at h' = pf_at h"
proof -
  show "sf_at h' = sf_at h"
  proof
    fix m show "sf_at h' m = sf_at h m"
      by (rule same_messages_cases [OF assms, of m]) (simp_all add: sf_at_def MyMessage_feed_def)
  qed
  show "pf_at h' = pf_at h"
  proof
    fix m show "pf_at h' m = pf_at h m"
      by (rule same_messages_cases [OF assms, of m]) (simp_all add: pf_at_def MyMessage_feed_def)
  qed
qed

lemma ts_key_same: "same_messages h h' \<Longrightarrow> ts_key h' = ts_key h"
  by (simp add: ts_key_def fun_eq_iff same_messages_at)

lemma pq_readable_same: "same_messages h h' \<Longrightarrow> pq_readable h' = pq_readable h"
  by (simp add: pq_readable_def fun_eq_iff same_messages_at)

lemma queue_wf_readable: "queue_wf h s2m fc q \<Longrightarrow> pq_readable h q"
  by (auto simp: queue_wf_def pq_readable_def list_all_iff)

lemma queue_wf_frame:
  "queue_wf h s2m fc q \<Longrightarrow> same_messages h h' \<Longrightarrow> (\<And>x. x \<in> set q \<Longrightarrow> s2m' x \<noteq> None) \<Longrightarrow>
   queue_wf h' s2m' fc q"
  by (simp add: queue_wf_def ts_key_same same_messages_at)

lemma kill_feed_counted:
  assumes "counted h s2m" and "s2m x \<noteq> None"
  obtains h' where "kill_feed x (h, s2m) = Inr (h', s2m(x := None))" and
    "counted h' (s2m(x := None))" and "same_messages h h'"
proof -
  obtain sf mm where x: "s2m x = Some x" "h x = Some mm" "mm_feed mm = Some (SFeed sf)" "mm_live mm = 1"
  proof -
    from assms have "s2m x = Some x" and "\<exists>sf. sf_at h x = Inr sf" by (auto simp: counted_def)
    then obtain mm sf where "h x = Some mm" "mm_feed mm = Some (SFeed sf)" by (auto simp: sf_at_eq_Inr)
    moreover from this assms have "mm_live mm = 1" by (auto simp: counted_def)
    ultimately show thesis using that \<open>s2m x = Some x\<close> by blast
  qed
  define h' where "h' = h(x \<mapsto> mm\<lparr>mm_live := 0\<rparr>)"
  have same: "same_messages h h'" using x by (simp add: h'_def same_messages_update)
  show thesis
  proof
    show "kill_feed x (h, s2m) = Inr (h', s2m(x := None))"
      by (simp add: kill_feed_def x MyMessage_kill_def h'_def check_def)
    show "counted h' (s2m(x := None))"
      using assms(1) unfolding counted_def same_messages_at [OF same]
      by (simp add: h'_def)
  qed (rule same)
qed

section \<open>The drain loop\<close>

text \<open>
  What the loop leaves behind: the feeds that were due are released, the ones that remain
  are all later than the new expectation, and the context is still locked exactly when none
  remains.
\<close>

definition drain_pre :: "string \<Rightarrow> pq \<Rightarrow> drain_state \<Rightarrow> bool" where
  "drain_pre fc q d \<longleftrightarrow>
     counted (dr_heap d) (dr_s2m d) \<and> queue_wf (dr_heap d) (dr_s2m d) fc q \<and> in_range 64 (dr_et d) \<and>
     ctx_preValue (dr_ctx d) \<noteq> None \<and> ctx_preVolume (dr_ctx d) \<noteq> None \<and> ctx_locked (dr_ctx d)"

definition drain_post :: "string \<Rightarrow> pq \<Rightarrow> drain_state \<Rightarrow> drain_state \<Rightarrow> pq \<Rightarrow> bool" where
  "drain_post fc q d d' q' \<longleftrightarrow>
     counted (dr_heap d') (dr_s2m d') \<and> queue_wf (dr_heap d') (dr_s2m d') fc q' \<and>
     in_range 64 (dr_et d') \<and> ctx_preValue (dr_ctx d') \<noteq> None \<and> ctx_preVolume (dr_ctx d') \<noteq> None \<and>
     same_messages (dr_heap d) (dr_heap d') \<and> ctx_queue (dr_ctx d') = Some q' \<and>
     (ctx_locked (dr_ctx d') \<longleftrightarrow> q' = []) \<and>
     ctx_bad_unlocks (dr_ctx d') = ctx_bad_unlocks (dr_ctx d) \<and> set q' \<subseteq> set q \<and>
     (\<forall>x \<in> set q'. dr_et d' < ts_key (dr_heap d) x) \<and>
     (\<forall>x. dr_s2m d' x = (if x \<in> set q \<and> x \<notin> set q' then None else dr_s2m d x))"

lemma queue_wf_pop:
  assumes "queue_wf h s2m fc q" and "q \<noteq> []" and "same_messages h h'"
  shows "queue_wf h' (s2m(pq_top q := None)) fc (pq_pop q)"
  using assms feed_pq.pop_ordered [of "ts_key h" q]
  by (cases q) (auto simp: queue_wf_def pq_top_def pq_pop_def ts_key_same [OF assms(3)] same_messages_at [OF assms(3)])

lemma drain_post_step:
  assumes "drain_post fc (pq_pop q) d1 d' q'" and "q \<noteq> []" and "distinct q"
    and "same_messages (dr_heap d) (dr_heap d1)" and "dr_s2m d1 = (dr_s2m d)(pq_top q := None)"
    and "ctx_bad_unlocks (dr_ctx d1) = ctx_bad_unlocks (dr_ctx d)"
  shows "drain_post fc q d d' q'"
  using assms same_messages_trans [OF assms(4)]
  by (cases q) (auto simp: drain_post_def pq_top_def pq_pop_def ts_key_same [OF assms(4)])

lemma continuity_ok:
  assumes "modest sf" and "ctx_preValue c \<noteq> None" and "ctx_preVolume c \<noteq> None"
  obtains c' json' where "continuity (sf_FEEDCODE sf) sf (c, json) = Inr (c', json')"
    and "ctx_preValue c' \<noteq> None" and "ctx_preVolume c' \<noteq> None"
    and "ctx_locked c' = ctx_locked c" and "ctx_bad_unlocks c' = ctx_bad_unlocks c"
proof -
  obtain pv pvol where p: "ctx_preValue c = Some pv" "ctx_preVolume c = Some pvol"
    using assms by auto
  have "length (turnover_report (sf_FEEDCODE sf) sf monotone_log) < 200"
    using assms(1) by (rule turnover_fits) (simp add: monotone_log_def)
  then have "continuity (sf_FEEDCODE sf) sf (c, json) =
      (if sf_TURNOVER_VALUE sf < pv \<or> sf_TURNOVER_VOLUME sf < pvol
       then Inr (c, json @ [turnover_report (sf_FEEDCODE sf) sf monotone_log])
       else Inr (c\<lparr>ctx_preValue := Some (sf_TURNOVER_VALUE sf),
                  ctx_preVolume := Some (sf_TURNOVER_VOLUME sf)\<rparr>, json))"
    using p by (simp add: continuity_def Context_defs report_to_fits)
  with assms(2,3) show thesis
    by (cases "sf_TURNOVER_VALUE sf < pv \<or> sf_TURNOVER_VOLUME sf < pvol") (auto intro: that)
qed

lemma drain_ok:
  assumes "modest sf" and "drain_pre (sf_FEEDCODE sf) q d"
  shows "\<exists>d' q'. drain (sf_FEEDCODE sf) sf q d = Inr d' \<and> drain_post (sf_FEEDCODE sf) q d d' q'"
  using assms(2)
proof (induction "length q" arbitrary: q d rule: less_induct)
  case less
  let ?fc = "sf_FEEDCODE sf"
  note pre = less.prems [unfolded drain_pre_def]
  show ?case
  proof (cases "q = []")
    case True
    then show ?thesis using pre
      by (subst drain.simps) (auto simp: drain_post_def queue_wf_def pq_ordered_def)
  next
    case False
    then have top: "pq_top q \<in> set q" using feed_pq.top_in [of q] by simp
    then obtain tf where tf: "sf_at (dr_heap d) (pq_top q) = Inr tf" and reg: "dr_s2m d (pq_top q) \<noteq> None"
      using pre by (auto simp: queue_wf_def)
    have shorter: "length (pq_pop q) < length q" using False by (rule pq_pop_shrinks)
    obtain h where k: "kill_feed (pq_top q) (dr_heap d, dr_s2m d) = Inr (h, (dr_s2m d)(pq_top q := None))"
      "counted h ((dr_s2m d)(pq_top q := None))" "same_messages (dr_heap d) h"
      using kill_feed_counted [of "dr_heap d" "dr_s2m d" "pq_top q"] pre reg by blast
    have read: "pq_readable h q"
      using pre queue_wf_readable by (auto simp: pq_readable_same [OF k(3)])
    have pop: "queue_wf h ((dr_s2m d)(pq_top q := None)) ?fc (pq_pop q)"
      using pre False k(3) by (intro queue_wf_pop) auto
    have dist: "distinct q" using pre by (simp add: queue_wf_def)
    obtain c json where c: "continuity ?fc sf (dr_ctx d, dr_json d) = Inr (c, json)"
      "ctx_preValue c \<noteq> None" "ctx_preVolume c \<noteq> None" "ctx_locked c = ctx_locked (dr_ctx d)"
      "ctx_bad_unlocks c = ctx_bad_unlocks (dr_ctx d)"
      using continuity_ok [OF assms(1), of "dr_ctx d" "dr_json d"] pre by blast
    consider "sf_EXCHANGE_TIMESTAMP tf = dr_et d" | "sf_EXCHANGE_TIMESTAMP tf < dr_et d"
      | "dr_et d < sf_EXCHANGE_TIMESTAMP tf" by linarith
    then show ?thesis
    proof cases
      case 1
      let ?d = "\<lparr>dr_heap = h, dr_s2m = (dr_s2m d)(pq_top q := None), dr_ctx = c, dr_json = json,
                 dr_et = s64 (dr_et d + INTERVAL)\<rparr>"
      have "drain_pre ?fc (pq_pop q) ?d"
        using k c pop pre by (simp add: drain_pre_def swrap_in_range)
      from less.hyps [OF shorter this] obtain d' q' where
        IH: "drain ?fc sf (pq_pop q) ?d = Inr d'" "drain_post ?fc (pq_pop q) ?d d' q'" by blast
      have "drain ?fc sf q d = Inr d'"
        using False tf 1 c(1) k(1) read IH(1) by (subst drain.simps) simp
      then show ?thesis using drain_post_step [OF IH(2) False dist] k(3) c(5) by auto
    next
      case 2
      let ?d = "d\<lparr>dr_heap := h, dr_s2m := (dr_s2m d)(pq_top q := None)\<rparr>"
      have "drain_pre ?fc (pq_pop q) ?d"
        using k pop pre by (simp add: drain_pre_def)
      from less.hyps [OF shorter this] obtain d' q' where
        IH: "drain ?fc sf (pq_pop q) ?d = Inr d'" "drain_post ?fc (pq_pop q) ?d d' q'" by blast
      have "drain ?fc sf q d = Inr d'"
        using False tf 2 k(1) read IH(1) by (subst drain.simps) simp
      then show ?thesis using drain_post_step [OF IH(2) False dist] k(3) by auto
    next
      case 3
      have "dr_et d < ts_key (dr_heap d) x" if "x \<in> set q" for x
        using feed_pq.all_above [of "ts_key (dr_heap d)" q "dr_et d" x] that 3 tf pre
        by (simp add: ts_key_def queue_wf_def)
      then show ?thesis using False tf 3 pre
        by (subst drain.simps) (auto simp: drain_post_def Context_unlock_def)
    qed
  qed
qed
section \<open>The handler keeps the invariant\<close>

definition waiting :: "Context \<Rightarrow> mid set" where
  "waiting c = (case ctx_queue c of None \<Rightarrow> {} | Some q \<Rightarrow> set q)"

definition step_post ::
  "string \<Rightarrow> mid \<Rightarrow> heap \<Rightarrow> sf_map \<Rightarrow> Context \<Rightarrow> heap \<Rightarrow> sf_map \<Rightarrow> Context \<Rightarrow> bool" where
  "step_post fc m h s2m c h' s2m' c' \<longleftrightarrow>
     counted h' s2m' \<and> same_messages h h' \<and> ctx_wf h' s2m' fc c' \<and>
     waiting c' \<subseteq> insert m (waiting c) \<and>
     (\<forall>x. x \<noteq> m \<and> x \<notin> waiting c \<longrightarrow> s2m' x = s2m x)"

definition step_pre :: "string \<Rightarrow> mid \<Rightarrow> StatisticsFeed \<Rightarrow> heap \<Rightarrow> sf_map \<Rightarrow> Context \<Rightarrow> bool" where
  "step_pre fc m sf h s2m c \<longleftrightarrow>
     counted h s2m \<and> s2m m \<noteq> None \<and> sf_at h m = Inr sf \<and> sf_FEEDCODE sf = fc \<and> modest sf \<and>
     assigned c \<and> ctx_locked c \<and>
     (\<forall>q. ctx_queue c = Some q \<longrightarrow> queue_wf h s2m fc q \<and> m \<notin> set q)"

lemma queue_wf_push:
  assumes "queue_wf h s2m fc q" and "m \<notin> set q" and "s2m m \<noteq> None"
    and "sf_at h m = Inr sf" and "sf_FEEDCODE sf = fc"
  shows "push_feed h m q = Inr (pq_push (ts_key h) m q)" and
    "queue_wf h s2m fc (pq_push (ts_key h) m q)"
proof -
  have "pq_readable h (m # q)"
    using queue_wf_readable [OF assms(1)] assms(4) by (simp add: pq_readable_def)
  then show "push_feed h m q = Inr (pq_push (ts_key h) m q)" by (simp add: push_feed_def check_def)
  show "queue_wf h s2m fc (pq_push (ts_key h) m q)"
    using assms feed_pq.push_ordered [of "ts_key h" q m]
    by (auto simp: queue_wf_def pq_push_def distinct_insort set_insort_key)
qed

lemma drain_started:
  assumes "step_pre (sf_FEEDCODE sf) m sf h s2m c" and "in_range 64 et"
  obtains q c1 q1 d q' where "Context_getQueue c = (q, c1)" and "push_feed h m q = Inr q1"
    and "drain (sf_FEEDCODE sf) sf q1
          \<lparr>dr_heap = h, dr_s2m = s2m, dr_ctx = c1, dr_json = json, dr_et = et\<rparr> = Inr d"
    and "drain_post (sf_FEEDCODE sf) q1
          \<lparr>dr_heap = h, dr_s2m = s2m, dr_ctx = c1, dr_json = json, dr_et = et\<rparr> d q'"
    and "set q1 = insert m (waiting c)" and "ctx_bad_unlocks c1 = ctx_bad_unlocks c"
    and "q1 = pq_push (ts_key h) m q" and "set q = waiting c"
proof -
  let ?fc = "sf_FEEDCODE sf"
  note pre = assms(1) [unfolded step_pre_def]
  obtain q c1 where q: "Context_getQueue c = (q, c1)" by (cases "Context_getQueue c")
  have wf: "queue_wf h s2m ?fc q" "m \<notin> set q" and c1: "ctx_preValue c1 = ctx_preValue c"
    "ctx_preVolume c1 = ctx_preVolume c" "ctx_locked c1" "ctx_bad_unlocks c1 = ctx_bad_unlocks c"
    using q pre by (auto simp: Context_getQueue_def queue_wf_def pq_ordered_def split: option.split_asm)
  define q1 where "q1 = pq_push (ts_key h) m q"
  have push: "push_feed h m q = Inr q1" "queue_wf h s2m ?fc q1"
    using queue_wf_push [OF wf] pre by (auto simp: q1_def)
  let ?d = "\<lparr>dr_heap = h, dr_s2m = s2m, dr_ctx = c1, dr_json = json, dr_et = et\<rparr>"
  have "drain_pre ?fc q1 ?d"
    using pre push(2) c1 assms(2) by (simp add: drain_pre_def assigned_def)
  then obtain d q' where d: "drain ?fc sf q1 ?d = Inr d" "drain_post ?fc q1 ?d d q'"
    using drain_ok pre by blast
  have "set q = waiting c"
    using q by (auto simp: waiting_def Context_getQueue_def split: option.split_asm)
  moreover from this have "set q1 = insert m (waiting c)"
    by (simp add: q1_def pq_push_def set_insort_key)
  ultimately show thesis using that [OF q push(1) d _ c1(4) q1_def] by simp
qed

lemma insert_and_drain_ok:
  assumes "step_pre (sf_FEEDCODE sf) m sf h s2m c" and "in_range 64 et"
  shows "\<exists>h' s2m' c' r'. insert_and_drain (sf_FEEDCODE sf) m sf et h s2m c r = Inr (h', s2m', c', r') \<and>
      step_post (sf_FEEDCODE sf) m h s2m c h' s2m' c'"
proof -
  let ?fc = "sf_FEEDCODE sf"
  obtain q c1 q1 d q' where run: "Context_getQueue c = (q, c1)" "push_feed h m q = Inr q1"
      "drain ?fc sf q1 \<lparr>dr_heap = h, dr_s2m = s2m, dr_ctx = c1, dr_json = pr_json r, dr_et = et\<rparr> = Inr d"
    and post: "drain_post ?fc q1
      \<lparr>dr_heap = h, dr_s2m = s2m, dr_ctx = c1, dr_json = pr_json r, dr_et = et\<rparr> d q'"
    and q1: "set q1 = insert m (waiting c)"
    using drain_started [OF assms] by metis
  let ?h = "dr_heap d" and ?s = "dr_s2m d"
  let ?c = "\<lambda>e. Context_unlock (Context_setExpectTimestamp e
      (Context_setExpectTimestamp (dr_et d) (dr_ctx d)))"
  have fits: "length (miss_report ?fc (dr_et d)) < 200"
    using post assms(1) by (intro miss_fits) (simp_all add: drain_post_def modest_def step_pre_def)
  have "ctx_wf ?h ?s ?fc (?c e)" if "in_range 64 e" for e
    using post that by (auto simp: drain_post_def ctx_wf_def assigned_def Context_defs)
  moreover have "?s x = s2m x" if "x \<noteq> m" "x \<notin> waiting c" for x
    using post that q1 by (simp add: drain_post_def)
  moreover have "waiting (?c e) \<subseteq> insert m (waiting c)" for e
    using post q1 by (auto simp: drain_post_def waiting_def Context_defs)
  ultimately have end_of: "step_post ?fc m h s2m c ?h ?s (?c e)" if "in_range 64 e" for e
    using post that by (simp add: step_post_def drain_post_def)
  have keep: "Context_setExpectTimestamp e (Context_setExpectTimestamp e c) =
      Context_setExpectTimestamp e c" for e c by (simp add: Context_setExpectTimestamp_def)
  from end_of [of "dr_et d"] end_of [of "s64 (dr_et d + INTERVAL)"] show ?thesis
    using post fits
    by (simp add: insert_and_drain_def run Let_def report_to_fits keep drain_post_def
        Context_getExpectTimestamp_def Context_setExpectTimestamp_def swrap_in_range)
qed

lemma locked_step_ok:
  assumes "step_pre (sf_FEEDCODE sf) m sf h s2m c"
  shows "\<exists>h' s2m' c' r'. locked_step (sf_FEEDCODE sf) m sf h s2m c r = Inr (h', s2m', c', r') \<and>
      step_post (sf_FEEDCODE sf) m h s2m c h' s2m' c'"
proof -
  let ?fc = "sf_FEEDCODE sf" and ?t = "sf_EXCHANGE_TIMESTAMP sf"
  note pre = assms [unfolded step_pre_def]
  obtain et where et: "ctx_expectTimestamp c = Some et" "in_range 64 et"
    using pre by (auto simp: assigned_def)
  consider "et = ?t" | "?t < et" | "et < ?t" by linarith
  then show ?thesis
  proof cases
    case 1
    obtain h' where k: "kill_feed m (h, s2m) = Inr (h', s2m(m := None))"
      "counted h' (s2m(m := None))" "same_messages h h'"
      using kill_feed_counted pre by blast
    have "queue_wf h' (s2m(m := None)) ?fc q" if "ctx_queue c = Some q" for q
    proof (rule queue_wf_frame [of h s2m])
      show "queue_wf h s2m ?fc q" using pre that by blast
      show "(s2m(m := None)) x \<noteq> None" if "x \<in> set q" for x
        using pre that \<open>ctx_queue c = Some q\<close> by (auto simp: queue_wf_def)
    qed (rule k(3))
    then have "step_post ?fc m h s2m c h' (s2m(m := None))
        (Context_unlock (Context_setExpectTimestamp (s64 (et + INTERVAL)) c))"
      using pre k by (auto simp: step_post_def ctx_wf_def assigned_def Context_defs swrap_in_range waiting_def)
    then show ?thesis
      using 1 et k by (auto simp: locked_step_def Context_getExpectTimestamp_def)
  next
    case 2
    have "length (delay_report ?fc et ?t) < 200"
      using pre by (intro delay_fits) (simp_all add: modest_def)
    moreover have "step_post ?fc m h s2m c h s2m (Context_unlock c)"
      using pre by (auto simp: step_post_def ctx_wf_def assigned_def Context_unlock_def waiting_def)
    ultimately show ?thesis
      using 2 et by (simp add: locked_step_def Context_getExpectTimestamp_def report_to_fits)
  next
    case 3
    then show ?thesis
      using insert_and_drain_ok [OF assms et(2)] et
      by (simp add: locked_step_def Context_getExpectTimestamp_def)
  qed
qed

text \<open>The first steps of the handler: the message is taken, the context made.\<close>

lemma counted_live:
  assumes "counted h s2m" and "s2m m = None" and "h m = Some mm" and "mm_feed mm = Some (SFeed sf)"
  shows "counted (h(m \<mapsto> MyMessage_live mm)) (s2m(m \<mapsto> m))"
    and "same_messages h (h(m \<mapsto> MyMessage_live mm))"
proof -
  show same: "same_messages h (h(m \<mapsto> MyMessage_live mm))"
    using assms(3) by (simp add: MyMessage_live_def same_messages_update)
  have "sf_at h m = Inr sf" using assms(3,4) by (simp add: sf_at_eq_Inr)
  moreover have "mm_live mm = 0" using assms by (simp add: counted_def)
  ultimately show "counted (h(m \<mapsto> MyMessage_live mm)) (s2m(m \<mapsto> m))"
    using assms(1) unfolding counted_def same_messages_at [OF same]
    by (simp add: MyMessage_live_def)
qed

lemma check_turnover_ok:
  "modest sf \<Longrightarrow> check_turnover (sf_FEEDCODE sf) sf r =
     Inr (if invalid_turnover sf
          then \<lparr>pr_json = pr_json r @ [turnover_report (sf_FEEDCODE sf) sf invalid_log], pr_code = WARN\<rparr>
          else r)"
  using turnover_fits [of sf invalid_log]
  by (simp add: check_turnover_def report_to_fits invalid_log_def)

definition fresh_context :: "StatisticsFeed \<Rightarrow> Context" where
  "fresh_context sf = first_context sf Context_new"

lemma ensure_context_eq:
  "ensure_context feedcode sf cm =
     Inr (if ContextMap_has cm feedcode then cm
          else map_put feedcode (Some (fresh_context sf)) (map_put feedcode (Some Context_new) cm))"
  by (simp add: ensure_context_def ContextMap_getContext_def ContextMap_create_def map_of_map_put
      fresh_context_def)

lemma fresh_context_wf: "modest sf \<Longrightarrow> ctx_wf h s2m fc (fresh_context sf) \<and> waiting (fresh_context sf) = {}"
  by (simp add: ctx_wf_def assigned_def fresh_context_def first_context_def Context_new_def Context_defs
      modest_def waiting_def)

lemma ctx_wf_frame:
  assumes "ctx_wf h s2m fc c" and "same_messages h h'" and "\<And>x. x \<in> waiting c \<Longrightarrow> s2m' x \<noteq> None"
  shows "ctx_wf h' s2m' fc c"
proof -
  have "queue_wf h' s2m' fc q" if "ctx_queue c = Some q" for q
    using assms that by (intro queue_wf_frame [of h s2m fc q h' s2m']) (auto simp: ctx_wf_def waiting_def)
  with assms(1) show ?thesis by (simp add: ctx_wf_def)
qed

lemma ctx_wf_waiting:
  "ctx_wf h s2m fc c \<Longrightarrow> x \<in> waiting c \<Longrightarrow>
   s2m x \<noteq> None \<and> (\<exists>sf. sf_at h x = Inr sf \<and> sf_FEEDCODE sf = fc)"
  by (auto simp: ctx_wf_def waiting_def queue_wf_def split: option.split_asm)

text \<open>The invariant lets one context be replaced after a step on it.\<close>

lemma deficiency_inv_put:
  assumes inv: "deficiency_inv h cm s2m" and at: "map_of cm fc = Some (Some c)"
    and post: "step_post fc m h s2m c h' s2m' c'" and m: "sf_at h m = Inr sf" "sf_FEEDCODE sf = fc"
  shows "deficiency_inv h' (map_put fc (Some c') cm) s2m'"
proof -
  have "\<exists>d. p = Some d \<and> ctx_wf h' s2m' k d" if k: "map_of (map_put fc (Some c') cm) k = Some p" for k p
  proof (cases "k = fc")
    case True
    with k post show ?thesis by (auto simp: map_of_map_put step_post_def)
  next
    case False
    with k inv obtain d where d: "p = Some d" "ctx_wf h s2m k d"
      by (auto simp: map_of_map_put deficiency_inv_def)
    have wc: "ctx_wf h s2m fc c" using inv at by (auto simp: deficiency_inv_def)
    have "s2m' x \<noteq> None" if xw: "x \<in> waiting d" for x
    proof -
      obtain xf where x: "s2m x \<noteq> None" "sf_at h x = Inr xf" "sf_FEEDCODE xf = k"
        using ctx_wf_waiting [OF d(2) xw] by blast
      have "x \<noteq> m" using x m False by auto
      moreover have "x \<notin> waiting c" using ctx_wf_waiting [OF wc, of x] x False by auto
      ultimately have "s2m' x = s2m x" using post by (simp add: step_post_def)
      with x(1) show ?thesis by simp
    qed
    with d post show ?thesis by (auto intro: ctx_wf_frame simp: step_post_def)
  qed
  with inv post show ?thesis by (simp add: deficiency_inv_def step_post_def map_sorted_put)
qed

definition all_waiting :: "ctx_map \<Rightarrow> mid set" where
  "all_waiting cm = {x. \<exists>fc c. map_of cm fc = Some (Some c) \<and> x \<in> waiting c}"

lemma inv_waiting: "deficiency_inv h cm s2m \<Longrightarrow> x \<in> all_waiting cm \<Longrightarrow> s2m x \<noteq> None"
  unfolding deficiency_inv_def all_waiting_def using ctx_wf_waiting by fastforce

lemma inv_live:
  assumes "deficiency_inv h cm s2m" and "s2m m = None" and "h m = Some mm"
    and "mm_feed mm = Some (SFeed sf)"
  shows "deficiency_inv (h(m \<mapsto> MyMessage_live mm)) cm (s2m(m \<mapsto> m))"
proof -
  have c: "counted h s2m" using assms(1) by (simp add: deficiency_inv_def)
  note live = counted_live [OF c assms(2-4)]
  have "\<exists>c. p = Some c \<and> ctx_wf (h(m \<mapsto> MyMessage_live mm)) (s2m(m \<mapsto> m)) fc c"
    if at: "map_of cm fc = Some p" for fc p
  proof -
    from assms(1) at obtain c where c: "p = Some c" "ctx_wf h s2m fc c"
      by (auto simp: deficiency_inv_def)
    have "ctx_wf (h(m \<mapsto> MyMessage_live mm)) (s2m(m \<mapsto> m)) fc c"
      by (rule ctx_wf_frame [OF c(2) live(2)]) (use ctx_wf_waiting [OF c(2)] in auto)
    with c(1) show ?thesis by simp
  qed
  with assms(1) live(1) show ?thesis by (simp add: deficiency_inv_def)
qed

lemma all_waiting_new:
  assumes "map_of cm fc = None" and "waiting c = {}"
  shows "all_waiting (map_put fc (Some c) cm) = all_waiting cm"
proof (rule set_eqI)
  fix x
  show "x \<in> all_waiting (map_put fc (Some c) cm) \<longleftrightarrow> x \<in> all_waiting cm"
  proof
    assume "x \<in> all_waiting cm"
    then obtain k d where "map_of cm k = Some (Some d)" "x \<in> waiting d" by (auto simp: all_waiting_def)
    moreover from this assms(1) have "k \<noteq> fc" by auto
    ultimately show "x \<in> all_waiting (map_put fc (Some c) cm)"
      by (auto simp: all_waiting_def map_of_map_put intro!: exI [of _ k])
  qed (use assms in \<open>auto simp: all_waiting_def map_of_map_put split: if_splits\<close>)
qed

lemma inv_ensure:
  assumes "deficiency_inv h cm s2m" and "modest sf" and "ensure_context fc sf cm = Inr cm'"
  shows "deficiency_inv h cm' s2m" and "all_waiting cm' = all_waiting cm"
    and "\<exists>c. map_of cm' fc = Some (Some c)"
proof -
  have "deficiency_inv h cm' s2m \<and> all_waiting cm' = all_waiting cm \<and> (\<exists>c. map_of cm' fc = Some (Some c))"
  proof (cases "ContextMap_has cm fc")
    case True
    then have "cm' = cm" using assms(3) by (simp add: ensure_context_eq)
    with True assms(1) show ?thesis by (fastforce simp: ContextMap_has_def deficiency_inv_def)
  next
    case False
    then have cm': "cm' = map_put fc (Some (fresh_context sf)) (map_put fc (Some Context_new) cm)"
      using assms(3) by (simp add: ensure_context_eq)
    have new: "map_of cm fc = None" using False by (simp add: ContextMap_has_def)
    have "deficiency_inv h cm' s2m"
      using assms(1) fresh_context_wf [OF assms(2), of h s2m fc]
      by (auto simp: deficiency_inv_def cm' map_of_map_put map_sorted_put)
    moreover have "all_waiting cm' = all_waiting cm"
      using fresh_context_wf [OF assms(2), of h s2m fc] new all_waiting_new
      by (simp add: all_waiting_def cm' map_of_map_put)
    ultimately show ?thesis by (simp add: cm' map_of_map_put)
  qed
  then show "deficiency_inv h cm' s2m" and "all_waiting cm' = all_waiting cm"
    and "\<exists>c. map_of cm' fc = Some (Some c)" by blast+
qed

lemma all_waiting_put:
  assumes "map_of cm fc = Some (Some c)" and "waiting c' \<subseteq> insert m (waiting c)"
  shows "all_waiting (map_put fc (Some c') cm) \<subseteq> insert m (all_waiting cm)"
  using assms by (auto simp: all_waiting_def map_of_map_put split: if_splits)

text \<open>
  What one run of the handler keeps: the invariant, the messages, and the registration of
  every feed that neither waits nor is the one being handled.
\<close>

definition exec_post ::
  "mid \<Rightarrow> heap \<Rightarrow> ctx_map \<Rightarrow> sf_map \<Rightarrow> heap \<Rightarrow> ctx_map \<Rightarrow> sf_map \<Rightarrow> bool" where
  "exec_post m h cm s2m h' cm' s2m' \<longleftrightarrow>
     deficiency_inv h' cm' s2m' \<and> same_messages h h' \<and>
     all_waiting cm' \<subseteq> insert m (all_waiting cm) \<and>
     (\<forall>x. x \<noteq> m \<and> x \<notin> all_waiting cm \<longrightarrow> s2m' x = s2m x)"

lemma exec_statistics_ok:
  assumes inv: "deficiency_inv h cm (dp_sf_to_m dp)" and m: "dp_sf_to_m dp m = None" "h m = Some mm"
    and sf: "mm_feed mm = Some (SFeed sf)" "modest sf"
  shows "\<exists>h' cm' dp'. exec_statistics m h cm dp = Inr (h', cm', dp') \<and>
      exec_post m h cm (dp_sf_to_m dp) h' cm' (dp_sf_to_m dp')"
proof -
  let ?fc = "sf_FEEDCODE sf" and ?s = "dp_sf_to_m dp"
  define h1 where "h1 = h(m \<mapsto> MyMessage_live mm)"
  define s1 where "s1 = ?s(m \<mapsto> m)"
  have at: "sf_at h m = Inr sf" using m sf by (simp add: sf_at_eq_Inr)
  have inv1: "deficiency_inv h1 cm s1" using inv_live [OF inv m sf(1)] by (simp add: h1_def s1_def)
  have same1: "same_messages h h1"
    using m(2) by (simp add: h1_def MyMessage_live_def same_messages_update)
  obtain r where r: "check_turnover ?fc sf (dp_res dp) = Inr r"
    using check_turnover_ok [OF sf(2)] by blast
  obtain cm1 where cm1: "ensure_context ?fc sf cm = Inr cm1" by (simp add: ensure_context_eq)
  note ens = inv_ensure [OF inv1 sf(2) cm1]
  obtain c where c: "map_of cm1 ?fc = Some (Some c)" using ens(3) by blast
  have wf: "ctx_wf h1 s1 ?fc c" using ens(1) c by (auto simp: deficiency_inv_def)
  have notin: "m \<notin> waiting c"
  proof
    assume "m \<in> waiting c"
    then have "m \<in> all_waiting cm1" using c by (auto simp: all_waiting_def)
    then show False using inv_waiting [OF inv, of m] m(1) ens(2) by simp
  qed
  have "step_pre ?fc m sf h1 s1 (Context_lock c)"
    using ens(1) wf notin at sf(2) same_messages_at(1) [OF same1]
    by (auto simp: step_pre_def deficiency_inv_def ctx_wf_def assigned_def Context_lock_def s1_def
        waiting_def)
  from locked_step_ok [OF this, of r] obtain h2 s2 c2 r2
    where step: "locked_step ?fc m sf h1 s1 (Context_lock c) r = Inr (h2, s2, c2, r2)"
      and post: "step_post ?fc m h1 s1 (Context_lock c) h2 s2 c2" by blast
  have wl: "waiting (Context_lock c) = waiting c" by (simp add: waiting_def Context_lock_def)
  have post': "step_post ?fc m h1 s1 c h2 s2 c2" using post wl by (simp add: step_post_def)
  have "deficiency_inv h2 (map_put ?fc (Some c2) cm1) s2"
    by (rule deficiency_inv_put [OF ens(1) c post'])
      (use at same_messages_at(1) [OF same1] in simp_all)
  moreover have "same_messages h h2"
    using same1 post by (auto simp: step_post_def intro: same_messages_trans)
  moreover have "all_waiting (map_put ?fc (Some c2) cm1) \<subseteq> insert m (all_waiting cm)"
    using all_waiting_put [OF c] post' ens(2) by (auto simp: step_post_def)
  moreover have "s2 x = ?s x" if "x \<noteq> m" "x \<notin> all_waiting cm" for x
  proof -
    have "waiting c \<subseteq> all_waiting cm1" using c by (auto simp: all_waiting_def)
    then have "x \<notin> waiting c" using that(2) ens(2) by auto
    then show ?thesis using post' that(1) by (simp add: step_post_def s1_def)
  qed
  moreover have "exec_statistics m h cm dp =
      Inr (h2, map_put ?fc (Some c2) cm1, dp\<lparr>dp_sf_to_m := s2, dp_res := r2\<rparr>)"
    using m(2) at r cm1 c step
    by (simp add: exec_statistics_def Let_def ContextMap_getContext_def h1_def s1_def)
  ultimately show ?thesis by (auto simp: exec_post_def)
qed

definition modest_feed :: "feed \<Rightarrow> bool" where
  "modest_feed f = (case f of SFeed sf \<Rightarrow> modest sf | PFeed _ \<Rightarrow> True)"

lemma DeficiencyProcessor_exec_ok:
  assumes "deficiency_inv h cm (dp_sf_to_m dp)" and "dp_sf_to_m dp m = None"
    and "h m = Some mm" and "parsed mm" and "modest_feed (the (mm_feed mm))"
  shows "\<exists>h' cm' dp'. DeficiencyProcessor_exec m h cm dp = Inr (h', cm', dp') \<and>
      exec_post m h cm (dp_sf_to_m dp) h' cm' (dp_sf_to_m dp')"
proof -
  let ?dp = "dp\<lparr>dp_res := (dp_res dp)\<lparr>pr_json := []\<rparr>\<rparr>"
  obtain f where f: "mm_feed mm = Some f" using assms(4) by (auto simp: parsed_def split: option.splits)
  show ?thesis
  proof (cases f)
    case (SFeed sf)
    then have "DeficiencyProcessor_exec m h cm dp = exec_statistics m h cm ?dp"
      using assms(3,4) f by (simp add: DeficiencyProcessor_exec_def MyMessage_type_def parsed_def Let_def)
    then show ?thesis using exec_statistics_ok [of h cm ?dp m mm sf] assms f SFeed
      by (simp add: modest_feed_def)
  next
    case (PFeed pf)
    then have "DeficiencyProcessor_exec m h cm dp = Inr (h, cm, ?dp)"
      using assms(3,4) f by (simp add: DeficiencyProcessor_exec_def MyMessage_type_def parsed_def Let_def)
    then show ?thesis using assms(1) by (auto simp: exec_post_def)
  qed
qed

end
