(* ===== verification/Deficiency_Behaviour.thy ===== *)
theory Deficiency_Behaviour
  imports Deficiency_Invariant
begin

text \<open>
  What the deficiency check computes: the drain loop refines a function on timestamps that
  stops at the first gap, and each branch of the handler has an exact result.
\<close>

section \<open>What the drain loop computes\<close>

text \<open>
  The loop seen on timestamps alone: from the expectation \<open>et\<close> and the waiting timestamps it
  computes the next expectation and the timestamps that keep waiting.
\<close>

fun advance :: "int \<Rightarrow> int list \<Rightarrow> int \<times> int list" where
  "advance et [] = (et, [])"
| "advance et (t # ts) =
     (if t = et then advance (s64 (et + INTERVAL)) ts
      else if t < et then advance et ts
      else (et, t # ts))"

lemma kill_feed_same: "kill_feed x (h, s2m) = Inr (h', s2m') \<Longrightarrow> same_messages h h'"
  by (auto simp: kill_feed_def MyMessage_kill_def res_simps intro: same_messages_update)

lemma pq_split: "q \<noteq> [] \<Longrightarrow> map k q = k (pq_top q) # map k (pq_pop q)"
  by (cases q) (simp_all add: pq_top_def pq_pop_def)

lemma drain_advance:
  "drain fc sf q d = Inr d' \<Longrightarrow>
   \<exists>q'. ctx_queue (dr_ctx d') = Some q' \<and>
     advance (dr_et d) (map (ts_key (dr_heap d)) q) = (dr_et d', map (ts_key (dr_heap d)) q')"
proof (induction "length q" arbitrary: q d rule: less_induct)
  case less
  show ?case
  proof (cases "q = []")
    case True
    then show ?thesis using less.prems by (subst (asm) drain.simps) auto
  next
    case False
    then have run: "bindR (sf_at (dr_heap d) (pq_top q)) (\<lambda>tf.
        let t = sf_EXCHANGE_TIMESTAMP tf in
        if t = dr_et d then
          bindR (continuity fc sf (dr_ctx d, dr_json d)) (\<lambda>(c, json).
          bindR (kill_feed (pq_top q) (dr_heap d, dr_s2m d)) (\<lambda>(h, s2m).
          bindR (check Use_After_Free (pq_readable h q)) (\<lambda>_.
            drain fc sf (pq_pop q)
              \<lparr>dr_heap = h, dr_s2m = s2m, dr_ctx = c, dr_json = json,
               dr_et = s64 (dr_et d + INTERVAL)\<rparr>)))
        else if t < dr_et d then
          bindR (kill_feed (pq_top q) (dr_heap d, dr_s2m d)) (\<lambda>(h, s2m).
          bindR (check Use_After_Free (pq_readable h q)) (\<lambda>_.
            drain fc sf (pq_pop q) (d\<lparr>dr_heap := h, dr_s2m := s2m\<rparr>)))
        else Inr (d\<lparr>dr_ctx := Context_unlock ((dr_ctx d)\<lparr>ctx_queue := Some q\<rparr>)\<rparr>)) = Inr d'"
      using less.prems by (subst (asm) drain.simps) simp
    have shorter: "length (pq_pop q) < length q" using False by (rule pq_pop_shrinks)
    obtain tf where tf: "sf_at (dr_heap d) (pq_top q) = Inr tf" using run by (auto simp: res_simps)
    then have key: "ts_key (dr_heap d) (pq_top q) = sf_EXCHANGE_TIMESTAMP tf" by (simp add: ts_key_def)
    consider "sf_EXCHANGE_TIMESTAMP tf = dr_et d" | "sf_EXCHANGE_TIMESTAMP tf < dr_et d"
      | "dr_et d < sf_EXCHANGE_TIMESTAMP tf" by linarith
    then show ?thesis
    proof cases
      case 1
      with run tf obtain c json h s2m where
        k: "kill_feed (pq_top q) (dr_heap d, dr_s2m d) = Inr (h, s2m)" and
        rec: "drain fc sf (pq_pop q) \<lparr>dr_heap = h, dr_s2m = s2m, dr_ctx = c, dr_json = json,
               dr_et = s64 (dr_et d + INTERVAL)\<rparr> = Inr d'"
        by (auto simp: res_simps)
      from less.hyps [OF shorter rec] show ?thesis
        using 1 key by (simp add: pq_split [OF False] ts_key_same [OF kill_feed_same [OF k]])
    next
      case 2
      with run tf obtain h s2m where
        k: "kill_feed (pq_top q) (dr_heap d, dr_s2m d) = Inr (h, s2m)" and
        rec: "drain fc sf (pq_pop q) (d\<lparr>dr_heap := h, dr_s2m := s2m\<rparr>) = Inr d'"
        by (auto simp: res_simps)
      from less.hyps [OF shorter rec] show ?thesis
        using 2 key by (simp add: pq_split [OF False] ts_key_same [OF kill_feed_same [OF k]])
    next
      case 3
      with run tf have "d' = d\<lparr>dr_ctx := Context_unlock ((dr_ctx d)\<lparr>ctx_queue := Some q\<rparr>)\<rparr>" by simp
      then show ?thesis
        using 3 key by (auto simp: pq_split [OF False] Context_unlock_def intro!: exI [of _ q])
    qed
  qed
qed

text \<open>
  On an ordered list, and while the sum stays in range, the new expectation is the first
  multiple of the interval that no waiting feed carries; what is later keeps waiting.
\<close>

lemma advance_first_gap:
  assumes "sorted ts" and "0 \<le> et" and "et + int (length ts) * INTERVAL < 2 ^ 63"
    and "advance et ts = (et', rest)"
  shows "\<exists>k. et' = et + int k * INTERVAL \<and> (\<forall>i < k. et + int i * INTERVAL \<in> set ts) \<and>
      et' \<notin> set ts \<and> rest = filter (\<lambda>t. et' < t) ts"
  using assms
proof (induction et ts arbitrary: et' rest rule: advance.induct)
  case (2 et t ts)
  have I: "0 < INTERVAL" by (simp add: INTERVAL_def)
  have tl: "0 \<le> int (length ts) * INTERVAL" using I by simp
  consider "t = et" | "t < et" | "et < t" by linarith
  then show ?case
  proof cases
    case 1
    have b: "et + INTERVAL + int (length ts) * INTERVAL < 2 ^ 63"
      using "2.prems"(3) by (simp add: algebra_simps)
    then have "et + INTERVAL < 2 ^ 63" using tl by linarith
    then have s: "s64 (et + INTERVAL) = et + INTERVAL"
      using "2.prems"(2) I by (intro s64_id) simp_all
    from 1 "2.prems" I obtain k where k: "et' = (et + INTERVAL) + int k * INTERVAL"
      "\<forall>i < k. (et + INTERVAL) + int i * INTERVAL \<in> set ts" "et' \<notin> set ts"
      "rest = filter (\<lambda>t. et' < t) ts"
      using "2.IH"(1) [OF 1, of et' rest] s by (auto simp: algebra_simps)
    have "et + int i * INTERVAL \<in> set (t # ts)" if "i < Suc k" for i
      using that k(2) 1 by (cases i) (auto simp: algebra_simps)
    moreover have "et < et'" using k(1) I by (simp add: add_pos_nonneg)
    ultimately show ?thesis using k 1
      by (intro exI [of _ "Suc k"]) (auto simp: algebra_simps)
  next
    case 2
    with "2.prems" I have "advance et ts = (et', rest)" "et + int (length ts) * INTERVAL < 2 ^ 63"
      by (auto simp: algebra_simps)
    with 2 "2.prems" obtain k where k: "et' = et + int k * INTERVAL"
      "\<forall>i < k. et + int i * INTERVAL \<in> set ts" "et' \<notin> set ts" "rest = filter (\<lambda>t. et' < t) ts"
      using "2.IH"(2) [of et' rest] by auto
    have "et \<le> et'" using k(1) I by simp
    with k 2 show ?thesis by (intro exI [of _ k]) auto
  next
    case 3
    then have r: "et' = et" "rest = t # ts" using "2.prems"(4) by auto
    have all: "\<forall>x \<in> set ts. et < x" using "2.prems"(1) 3 by fastforce
    then have "filter (\<lambda>x. et < x) ts = ts" by (simp add: filter_id_conv)
    with r 3 all show ?thesis by (intro exI [of _ 0]) auto
  qed
qed (auto intro: exI [of _ 0])

section \<open>The branches of the handler\<close>

text \<open>The result of the handler before the context is looked at.\<close>

definition turnover_result :: "StatisticsFeed \<Rightarrow> Pro_res \<Rightarrow> Pro_res" where
  "turnover_result sf r =
     (if invalid_turnover sf
      then \<lparr>pr_json = pr_json r @ [turnover_report (sf_FEEDCODE sf) sf invalid_log], pr_code = WARN\<rparr>
      else r)"

lemma exec_statistics_known:
  assumes inv: "deficiency_inv h cm (dp_sf_to_m dp)" and m: "h m = Some mm"
    "mm_feed mm = Some (SFeed sf)" "modest sf" and c: "map_of cm (sf_FEEDCODE sf) = Some (Some c)"
  shows "exec_statistics m h cm dp =
     bindR (locked_step (sf_FEEDCODE sf) m sf (h(m \<mapsto> MyMessage_live mm)) ((dp_sf_to_m dp)(m \<mapsto> m))
              (Context_lock c) (turnover_result sf (dp_res dp)))
       (\<lambda>(h2, s2, c2, r2). Inr (h2, map_put (sf_FEEDCODE sf) (Some c2) cm, dp\<lparr>dp_sf_to_m := s2, dp_res := r2\<rparr>))"
proof -
  have "sf_at h m = Inr sf" using m by (simp add: sf_at_eq_Inr)
  then show ?thesis using m c
    by (simp add: exec_statistics_def Let_def check_turnover_ok ensure_context_eq ContextMap_has_def
        ContextMap_getContext_def turnover_result_def)
qed

lemma exec_statistics_new:
  assumes m: "h m = Some mm" "mm_feed mm = Some (SFeed sf)" "modest sf"
    and c: "map_of cm (sf_FEEDCODE sf) = None"
  shows "exec_statistics m h cm dp =
    exec_statistics m h (map_put (sf_FEEDCODE sf) (Some (fresh_context sf))
      (map_put (sf_FEEDCODE sf) (Some Context_new) cm)) dp"
proof -
  have "sf_at h m = Inr sf" using m by (simp add: sf_at_eq_Inr)
  then show ?thesis using m c
    by (simp add: exec_statistics_def Let_def ensure_context_eq ContextMap_has_def map_of_map_put)
qed

lemma exec_statistics_on_time:
  assumes inv: "deficiency_inv h cm (dp_sf_to_m dp)" and m: "dp_sf_to_m dp m = None" "h m = Some mm"
    "mm_feed mm = Some (SFeed sf)" "modest sf" and c: "map_of cm (sf_FEEDCODE sf) = Some (Some c)"
    and et: "ctx_expectTimestamp c = Some (sf_EXCHANGE_TIMESTAMP sf)"
  shows "exec_statistics m h cm dp =
    Inr (h, map_put (sf_FEEDCODE sf)
           (Some (c\<lparr>ctx_expectTimestamp := Some (s64 (sf_EXCHANGE_TIMESTAMP sf + INTERVAL))\<rparr>)) cm,
         dp\<lparr>dp_res := turnover_result sf (dp_res dp)\<rparr>)"
proof -
  have l: "mm_live mm = 0" "\<not> ctx_locked c"
    using inv m c by (auto simp: deficiency_inv_def counted_def ctx_wf_def)
  then have "mm\<lparr>mm_live := 0\<rparr> = mm" by (cases mm) simp
  then have "h(m \<mapsto> mm\<lparr>mm_live := 0\<rparr>) = h" using m by (auto simp: fun_upd_idem)
  moreover have "(dp_sf_to_m dp)(m := None) = dp_sf_to_m dp" using m by (auto simp: fun_upd_idem)
  moreover have "Context_unlock (Context_setExpectTimestamp e (Context_lock c)) =
      c\<lparr>ctx_expectTimestamp := Some e\<rparr>" for e using l(2) by (cases c) (simp add: Context_defs)
  moreover have "Context_getExpectTimestamp (Context_lock c) = Inr (sf_EXCHANGE_TIMESTAMP sf)"
    using et by (simp add: Context_defs)
  ultimately show ?thesis
    using l by (simp add: exec_statistics_known [OF inv m(2-4) c] locked_step_def kill_feed_def
        MyMessage_live_def MyMessage_kill_def check_def)
qed

lemma exec_statistics_delayed:
  assumes inv: "deficiency_inv h cm (dp_sf_to_m dp)" and m: "h m = Some mm"
    "mm_feed mm = Some (SFeed sf)" "modest sf" and c: "map_of cm (sf_FEEDCODE sf) = Some (Some c)"
    and et: "ctx_expectTimestamp c = Some et" "sf_EXCHANGE_TIMESTAMP sf < et"
  shows "exec_statistics m h cm dp =
    Inr (h(m \<mapsto> MyMessage_live mm), cm,
         dp\<lparr>dp_sf_to_m := (dp_sf_to_m dp)(m \<mapsto> m),
            dp_res := \<lparr>pr_json = pr_json (turnover_result sf (dp_res dp)) @
                         [delay_report (sf_FEEDCODE sf) et (sf_EXCHANGE_TIMESTAMP sf)],
                       pr_code = WARN\<rparr>\<rparr>)"
proof -
  have l: "\<not> ctx_locked c" and s: "map_sorted cm"
    using inv c by (auto simp: deficiency_inv_def ctx_wf_def)
  have "length (delay_report (sf_FEEDCODE sf) et (sf_EXCHANGE_TIMESTAMP sf)) < 200"
    using m(3) by (intro delay_fits) (simp_all add: modest_def)
  moreover have "Context_unlock (Context_lock c) = c" using l by (cases c) (simp add: Context_defs)
  moreover have "map_put (sf_FEEDCODE sf) (Some c) cm = cm" using s c by (rule map_put_same)
  moreover have "ctx_expectTimestamp (Context_lock c) = Some et" using et by (simp add: Context_lock_def)
  ultimately show ?thesis
    using et by (simp add: exec_statistics_known [OF inv m c] locked_step_def report_to_fits
        Context_getExpectTimestamp_def)
qed

text \<open>Feeds left waiting: the context has been unlocked twice.\<close>

lemma insert_and_drain_double_unlock:
  assumes "step_pre (sf_FEEDCODE sf) m sf h s2m c" and "in_range 64 et"
    and run: "insert_and_drain (sf_FEEDCODE sf) m sf et h s2m c r = Inr (h', s2m', c', r')"
  shows "ctx_bad_unlocks c' = (if waiting c' = {} then ctx_bad_unlocks c else Suc (ctx_bad_unlocks c))"
proof -
  let ?fc = "sf_FEEDCODE sf"
  obtain q c1 q1 d q' where start: "Context_getQueue c = (q, c1)" "push_feed h m q = Inr q1"
      "drain ?fc sf q1 \<lparr>dr_heap = h, dr_s2m = s2m, dr_ctx = c1, dr_json = pr_json r, dr_et = et\<rparr> = Inr d"
    and post: "drain_post ?fc q1
      \<lparr>dr_heap = h, dr_s2m = s2m, dr_ctx = c1, dr_json = pr_json r, dr_et = et\<rparr> d q'"
    and c1: "ctx_bad_unlocks c1 = ctx_bad_unlocks c"
    using drain_started [OF assms(1,2)] by metis
  obtain e where "c' = Context_unlock (Context_setExpectTimestamp e (dr_ctx d))"
    using run by (auto simp: insert_and_drain_def start Let_def res_simps
        Context_setExpectTimestamp_def split: if_splits)
  with post c1 show ?thesis
    by (auto simp: drain_post_def waiting_def Context_unlock_def Context_setExpectTimestamp_def)
qed

end
