(* ===== verification/Validity.thy ===== *)
theory Validity
  imports Deficiency
begin

text \<open>
  \<open>ValidityProcessor.cpp\<close>: a price feed is reported when its prices or volumes are out of
  bounds. The report is printed for every price feed; the result code says whether the
  event loop sends it.
\<close>

record ValidityProcessor =
  vp_res :: Pro_res
  vp_tags :: string

definition ValidityProcessor_new :: ValidityProcessor where
  "ValidityProcessor_new = \<lparr>vp_res = \<lparr>pr_json = [], pr_code = OK\<rparr>, vp_tags = []\<rparr>"

definition invalid_price :: "PriceFeed \<Rightarrow> bool" where
  "invalid_price pf \<longleftrightarrow>
     pf_BID_PRICE pf \<ge> pf_ASK_PRICE pf \<or> pf_BID_PRICE pf \<le> 0 \<or> pf_BID_PRICE pf \<ge> 1000000000000000 \<or>
     pf_ASK_PRICE pf \<le> 0 \<or> pf_ASK_PRICE pf \<ge> 1000000000000000"

text \<open>The volumes are 32-bit integers, converted to \<open>double\<close> for the comparison with \<open>1e15\<close>.\<close>

definition invalid_volume :: "PriceFeed \<Rightarrow> bool" where
  "invalid_volume pf \<longleftrightarrow>
     pf_BID_VOLUME pf < 0 \<or> (of_int (pf_BID_VOLUME pf) :: double) > 1000000000000000 \<or>
     pf_ASK_VOLUME pf < 0 \<or> (of_int (pf_ASK_VOLUME pf) :: double) > 1000000000000000"

definition validity_log :: "PriceFeed \<Rightarrow> string" where
  "validity_log pf =
     (if invalid_price pf then ''Invalid price '' else []) @
     (if invalid_volume pf then ''Invalid volume'' else [])"

definition validity_report :: "PriceFeed \<Rightarrow> string" where
  \<open>validity_report pf =
     ''{"FEEDCODE":"'' @ c_str (pf_FEEDCODE pf) @
     ''", "TIMESTAMP":'' @ show_int (pf_EXCHANGE_TIMESTAMP pf) @
     '', "BID_PRICE":'' @ fmt_f (pf_BID_PRICE pf) @ '', "ASK_PRICE":'' @ fmt_f (pf_ASK_PRICE pf) @
     '',"BID_VOLUME":'' @ show_int (pf_BID_VOLUME pf) @
     '', "ASK_VOLUME":'' @ show_int (pf_ASK_VOLUME pf) @
     '', "LOG":"'' @ validity_log pf @ ''"}''\<close>

definition exec_price :: "PriceFeed \<Rightarrow> ValidityProcessor \<Rightarrow> ValidityProcessor res" where
  "exec_price pf vp =
     bindR (sprintf_to 200 (validity_report pf)) (\<lambda>r.
       Inr (vp\<lparr>vp_res := \<lparr>pr_json = pr_json (vp_res vp) @ [r],
                          pr_code = (if validity_log pf \<noteq> [] then WARN else pr_code (vp_res vp))\<rparr>\<rparr>))"

definition ValidityProcessor_exec :: "mid \<Rightarrow> heap \<Rightarrow> ValidityProcessor \<Rightarrow> ValidityProcessor res" where
  "ValidityProcessor_exec m h vp =
     (let vp0 = vp\<lparr>vp_res := \<lparr>pr_json = [], pr_code = OK\<rparr>\<rparr>
      in bindR (derefR Use_After_Free (h m)) (\<lambda>mm.
         bindR (MyMessage_type mm) (\<lambda>ty.
           case ty of
             FT_Price \<Rightarrow> bindR (pf_at h m) (\<lambda>pf. exec_price pf vp0)
           | FT_Statistics \<Rightarrow> Inr vp0
           | FT_NONE \<Rightarrow> Inr vp0)))"

definition ValidityProcessor_getResult :: "ValidityProcessor \<Rightarrow> Pro_res" where
  "ValidityProcessor_getResult vp = vp_res vp"

definition ValidityProcessor_set_tag :: "string \<Rightarrow> ValidityProcessor \<Rightarrow> ValidityProcessor" where
  "ValidityProcessor_set_tag t vp = vp\<lparr>vp_tags := t\<rparr>"

definition ValidityProcessor_tag :: "ValidityProcessor \<Rightarrow> string" where
  "ValidityProcessor_tag vp = vp_tags vp"

lemma invalid_volume_s32:
  "in_range 32 (pf_BID_VOLUME pf) \<Longrightarrow> in_range 32 (pf_ASK_VOLUME pf) \<Longrightarrow>
   invalid_volume pf \<longleftrightarrow> pf_BID_VOLUME pf < 0 \<or> pf_ASK_VOLUME pf < 0"
proof -
  have "\<not> (1000000000000000 :: double) < of_int v" if "in_range 32 v" for v
  proof -
    have "v \<le> 2147483648" using that by (simp add: in_range_def)
    then have "(of_int v :: double) \<le> of_int 2147483648" by (simp only: of_int_le_iff)
    then show ?thesis by simp
  qed
  then show "in_range 32 (pf_BID_VOLUME pf) \<Longrightarrow> in_range 32 (pf_ASK_VOLUME pf) \<Longrightarrow> ?thesis"
    by (auto simp: invalid_volume_def)
qed

lemma validity_log_empty: "validity_log pf = [] \<longleftrightarrow> \<not> invalid_price pf \<and> \<not> invalid_volume pf"
  by (simp add: validity_log_def)

lemma ValidityProcessor_exec_parsed:
  assumes "h m = Some mm" and "parsed mm"
    and "\<And>pf. mm_feed mm = Some (PFeed pf) \<Longrightarrow> length (validity_report pf) < 200"
  shows "ValidityProcessor_exec m h vp =
    Inr (vp\<lparr>vp_res :=
      (case mm_feed mm of
         Some (PFeed pf) \<Rightarrow> \<lparr>pr_json = [validity_report pf],
                            pr_code = (if invalid_price pf \<or> invalid_volume pf then WARN else OK)\<rparr>
       | _ \<Rightarrow> \<lparr>pr_json = [], pr_code = OK\<rparr>)\<rparr>)"
  using assms
  by (auto simp: ValidityProcessor_exec_def MyMessage_type_def parsed_def Let_def pf_at_def MyMessage_feed_def
      exec_price_def sprintf_to_def validity_log_empty split: option.splits feed.splits)

end
