(* ===== verification/Event_Loop.thy ===== *)
theory Event_Loop
  imports Deficiency_Behaviour Validity
begin

text \<open>
  \<open>EventLoop.cpp\<close>, \<open>Backuper.cpp\<close>, the consumption part of \<open>myConsumer.cpp\<close> and \<open>main.cpp\<close>:
  the loop that turns consumed messages into reports, the release of finished messages with
  the commit of their offsets, and the two threads of the monitor.

  A call into librdkafka is recorded: the messages handed to \<open>commitAsync\<close>, and the strings
  handed to a producer.
\<close>

section \<open>Processors\<close>

datatype ProcessorType = Validity | Deficiency

datatype Processor = PValidity ValidityProcessor | PDeficiency DeficiencyProcessor

definition processor_exec ::
  "mid \<Rightarrow> heap \<Rightarrow> ctx_map \<Rightarrow> Processor \<Rightarrow> (heap \<times> ctx_map \<times> Processor) res" where
  "processor_exec m h cm p =
     (case p of
        PValidity vp \<Rightarrow> bindR (ValidityProcessor_exec m h vp) (\<lambda>vp'. Inr (h, cm, PValidity vp'))
      | PDeficiency dp \<Rightarrow>
          bindR (DeficiencyProcessor_exec m h cm dp) (\<lambda>(h', cm', dp'). Inr (h', cm', PDeficiency dp')))"

definition processor_result :: "Processor \<Rightarrow> Pro_res" where
  "processor_result p =
     (case p of PValidity vp \<Rightarrow> ValidityProcessor_getResult vp
              | PDeficiency dp \<Rightarrow> DeficiencyProcessor_getResult dp)"

section \<open>The event loop\<close>

text \<open>\<open>offset\<close> is a map from partitions to queues of messages.\<close>

record EventLoop =
  el_processors :: "Processor list"
  el_offset :: "(int \<times> mid list) list"
  el_committed :: "rk_message list"
  el_produced :: "string list"

definition EventLoop_new :: EventLoop where
  "EventLoop_new = \<lparr>el_processors = [], el_offset = [], el_committed = [], el_produced = []\<rparr>"

definition EventLoop_addProcessor :: "ProcessorType \<Rightarrow> EventLoop \<Rightarrow> EventLoop" where
  "EventLoop_addProcessor ty el =
     (case ty of
        Validity \<Rightarrow> el\<lparr>el_processors := el_processors el @ [PValidity ValidityProcessor_new]\<rparr>
      | Deficiency \<Rightarrow> el\<lparr>el_processors := el_processors el @ [PDeficiency DeficiencyProcessor_new]\<rparr>)"

text \<open>\<open>offset[partition].push(m)\<close>: a missing key starts with an empty queue.\<close>

definition offset_push :: "int \<Rightarrow> mid \<Rightarrow> (int \<times> mid list) list \<Rightarrow> (int \<times> mid list) list" where
  "offset_push p m offs =
     map_put p ((case map_of offs p of None \<Rightarrow> [] | Some q \<Rightarrow> q) @ [m]) offs"

text \<open>The loop over the processors: each result that is not \<open>OK\<close> is sent.\<close>

fun run_processors ::
  "mid \<Rightarrow> heap \<Rightarrow> ctx_map \<Rightarrow> Processor list \<Rightarrow> string list
    \<Rightarrow> (heap \<times> ctx_map \<times> Processor list \<times> string list) res" where
  "run_processors m h cm [] out = Inr (h, cm, [], out)"
| "run_processors m h cm (p # ps) out =
     bindR (processor_exec m h cm p) (\<lambda>(h1, cm1, p1).
       let r = processor_result p1;
           out1 = (if pr_code r \<noteq> OK then out @ pr_json r else out)
       in bindR (run_processors m h1 cm1 ps out1) (\<lambda>(h2, cm2, ps2, out2).
            Inr (h2, cm2, p1 # ps2, out2)))"

section \<open>Releasing messages\<close>

text \<open>
  The inner loop of \<open>store_offset\<close> on one queue: \<open>cur\<close> is the last finished message, the ones
  before it have been deleted.
\<close>

fun release :: "heap \<Rightarrow> mid option \<Rightarrow> mid list \<Rightarrow> (heap \<times> mid option \<times> mid list) res" where
  "release h cur [] = Inr (h, cur, [])"
| "release h cur (nxt # q) =
     bindR (derefR Use_After_Free (h nxt)) (\<lambda>mm.
       if MyMessage_free mm then
         bindR (case cur of None \<Rightarrow> Inr h | Some c \<Rightarrow> MyMessage_delete h c) (\<lambda>h1.
           release h1 (Some nxt) q)
       else Inr (h, cur, nxt # q))"

definition store_queue :: "heap \<Rightarrow> mid list \<Rightarrow> (heap \<times> mid list \<times> rk_message list) res" where
  "store_queue h q =
     bindR (release h None q) (\<lambda>(h1, cur, q1).
       case cur of
         None \<Rightarrow> Inr (h1, q1, [])
       | Some c \<Rightarrow>
           bindR (derefR Use_After_Free (h1 c)) (\<lambda>mm.
           bindR (MyMessage_delete h1 c) (\<lambda>h2. Inr (h2, q1, [mm_message mm]))))"

fun store_queues ::
  "heap \<Rightarrow> (int \<times> mid list) list \<Rightarrow> (heap \<times> (int \<times> mid list) list \<times> rk_message list) res" where
  "store_queues h [] = Inr (h, [], [])"
| "store_queues h ((p, q) # offs) =
     bindR (store_queue h q) (\<lambda>(h1, q1, cs).
     bindR (store_queues h1 offs) (\<lambda>(h2, offs2, cs2). Inr (h2, (p, q1) # offs2, cs @ cs2)))"

definition EventLoop_store_offset :: "heap \<Rightarrow> EventLoop \<Rightarrow> (heap \<times> EventLoop) res" where
  "EventLoop_store_offset h el =
     bindR (store_queues h (el_offset el)) (\<lambda>(h1, offs, cs).
       Inr (h1, el\<lparr>el_offset := offs, el_committed := el_committed el @ cs\<rparr>))"

section \<open>Consumption\<close>

datatype ErrorCode = ERR__TIMED_OUT | ERR_NO_ERROR | ERR__PARTITION_EOF | ERR__UNKNOWN_TOPIC
  | ERR__UNKNOWN_PARTITION | ERR_other

text \<open>The static variables of \<open>myConsumer.cpp\<close> and the flag of the event loop.\<close>

record consumer_flags =
  cf_runTag :: bool
  cf_exit_eof :: bool
  cf_eof_cnt :: int
  cf_partition_cnt :: int

definition flags_init :: consumer_flags where
  "flags_init = \<lparr>cf_runTag = True, cf_exit_eof = False, cf_eof_cnt = 0, cf_partition_cnt = 0\<rparr>"

definition sigterm :: "consumer_flags \<Rightarrow> consumer_flags" where
  "sigterm f = f\<lparr>cf_runTag := False\<rparr>"

definition msg_consume ::
  "ErrorCode \<times> rk_message \<Rightarrow> consumer_flags \<Rightarrow> rk_message option \<times> consumer_flags" where
  "msg_consume ev f =
     (case fst ev of
        ERR__TIMED_OUT \<Rightarrow> (None, f)
      | ERR_NO_ERROR \<Rightarrow> (Some (snd ev), f)
      | ERR__PARTITION_EOF \<Rightarrow>
          (if cf_exit_eof f then
             let f1 = f\<lparr>cf_eof_cnt := s32 (cf_eof_cnt f + 1)\<rparr>
             in (None, if cf_eof_cnt f1 = cf_partition_cnt f1 then f1\<lparr>cf_runTag := False\<rparr> else f1)
           else (None, f))
      | ERR__UNKNOWN_TOPIC \<Rightarrow> (None, f\<lparr>cf_runTag := False\<rparr>)
      | ERR__UNKNOWN_PARTITION \<Rightarrow> (None, f\<lparr>cf_runTag := False\<rparr>)
      | ERR_other \<Rightarrow> (None, f\<lparr>cf_runTag := False\<rparr>))"

section \<open>The monitor\<close>

text \<open>
  The objects \<open>main\<close> creates: one context map, one event loop, the backup thread's producer.
  \<open>mo_next\<close> is the next address the allocator hands out for a message.
\<close>

record monitor =
  mo_heap :: heap
  mo_next :: mid
  mo_cm :: ctx_map
  mo_loop :: EventLoop
  mo_flags :: consumer_flags
  mo_backups :: "string list"

definition monitor_init :: monitor where
  "monitor_init =
     \<lparr>mo_heap = (\<lambda>_. None), mo_next = 0, mo_cm = [],
      mo_loop = EventLoop_addProcessor Validity (EventLoop_addProcessor Deficiency EventLoop_new),
      mo_flags = flags_init, mo_backups = []\<rparr>"

text \<open>A message arrives: it is allocated and entered in the queue of its partition ...\<close>

definition receive :: "json_reader \<Rightarrow> rk_message \<Rightarrow> monitor \<Rightarrow> monitor res" where
  "receive rd message s =
     bindR (MyMessage_new rd message) (\<lambda>mm.
       Inr (s\<lparr>mo_heap := (mo_heap s)(mo_next s \<mapsto> mm), mo_next := Suc (mo_next s),
              mo_loop := (mo_loop s)\<lparr>el_offset :=
                 offset_push (rk_partition message) (mo_next s) (el_offset (mo_loop s))\<rparr>\<rparr>))"

text \<open>... and is then given to the processors.\<close>

definition process :: "mid \<Rightarrow> monitor \<Rightarrow> monitor res" where
  "process m s =
     bindR (run_processors m (mo_heap s) (mo_cm s) (el_processors (mo_loop s)) (el_produced (mo_loop s)))
       (\<lambda>(h, cm, ps, out).
         Inr (s\<lparr>mo_heap := h, mo_cm := cm,
                mo_loop := (mo_loop s)\<lparr>el_processors := ps, el_produced := out\<rparr>\<rparr>))"

definition EventLoop_iteration :: "json_reader \<Rightarrow> ErrorCode \<times> rk_message \<Rightarrow> monitor \<Rightarrow> monitor res" where
  "EventLoop_iteration rd ev s =
     (let (msg, f) = msg_consume ev (mo_flags s);
          s1 = s\<lparr>mo_flags := f\<rparr>
      in case msg of
           None \<Rightarrow> Inr s1
         | Some message \<Rightarrow> bindR (receive rd message s1) (process (mo_next s1)))"

text \<open>\<open>run\<close> on the outcomes of the successive calls of \<open>consume\<close>.\<close>

fun EventLoop_run :: "json_reader \<Rightarrow> (ErrorCode \<times> rk_message) list \<Rightarrow> monitor \<Rightarrow> monitor res" where
  "EventLoop_run rd [] s = Inr s"
| "EventLoop_run rd (ev # evs) s =
     (if cf_runTag (mo_flags s)
      then bindR (EventLoop_iteration rd ev s) (EventLoop_run rd evs)
      else Inr s)"

text \<open>\<open>Backuper::backup\<close> through \<open>ContextMap::backupMetaData\<close>: the text, then the offsets.\<close>

definition backup :: "monitor \<Rightarrow> monitor res" where
  "backup s =
     bindR (backup_text (mo_cm s)) (\<lambda>metaData.
     bindR (EventLoop_store_offset (mo_heap s) (mo_loop s)) (\<lambda>(h, el).
       Inr (s\<lparr>mo_heap := h, mo_loop := el, mo_backups := mo_backups s @ [metaData]\<rparr>)))"

end
