(* ===== verification/Monitor_Safety.thy ===== *)
theory Monitor_Safety
  imports Event_Loop "HOL-Library.Sublist"
begin

text \<open>
  The invariant of the monitor: every allocated message stands in exactly one queue, the
  counters agree with the registrations of the deficiency check, and each operation of the
  two threads keeps this and does not fault.
\<close>

section \<open>Releasing a queue\<close>

definition free_at :: "heap \<Rightarrow> mid \<Rightarrow> bool" where
  "free_at h m \<longleftrightarrow> (\<exists>mm. h m = Some mm \<and> MyMessage_free mm)"

definition message_at :: "heap \<Rightarrow> mid \<Rightarrow> rk_message" where
  "message_at h m = mm_message (the (h m))"

text \<open>What a queue commits: the message that ends its longest prefix of finished messages.\<close>

definition commit_of :: "heap \<Rightarrow> mid list \<Rightarrow> rk_message list" where
  "commit_of h q =
     (let fs = takeWhile (free_at h) q in if fs = [] then [] else [message_at h (last fs)])"

text \<open>Every message of the queue is allocated, owns a feed, and occurs once.\<close>

definition releasable :: "heap \<Rightarrow> mid list \<Rightarrow> bool" where
  "releasable h q \<longleftrightarrow> distinct q \<and> (\<forall>m \<in> set q. \<exists>mm f. h m = Some mm \<and> mm_feed mm = Some f)"

lemma restrict_UNIV [simp]: "h |` UNIV = h"
  by (simp add: restrict_map_def fun_eq_iff)

lemma release_spec:
  assumes "releasable h (case cur of None \<Rightarrow> q | Some c \<Rightarrow> c # q)"
  shows "release h cur q =
    (let fs = takeWhile (free_at h) q
     in if fs = [] then Inr (h, cur, q)
        else Inr (h |` (- (set_option cur \<union> set (butlast fs))), Some (last fs), dropWhile (free_at h) q))"
  using assms
proof (induction h cur q rule: release.induct)
  case (2 h cur nxt q)
  obtain mm f where mm: "h nxt = Some mm" "mm_feed mm = Some f"
    using "2.prems" by (auto simp: releasable_def split: option.splits)
  show ?case
  proof (cases "MyMessage_free mm")
    case False
    then show ?thesis using mm by (simp add: free_at_def)
  next
    case True
    define h1 where "h1 = h |` (- set_option cur)"
    have del: "(case cur of None \<Rightarrow> Inr h | Some c \<Rightarrow> MyMessage_delete h c) = Inr h1"
      using "2.prems" by (auto simp: h1_def restrict_map_def releasable_def MyMessage_delete_eq_Inr
          fun_eq_iff split: option.splits)
    have same: "h1 x = h x" if "x \<in> set (nxt # q)" for x
      using "2.prems" that by (auto simp: h1_def releasable_def restrict_map_def split: option.splits)
    have rel: "releasable h1 (nxt # q)"
      using "2.prems" same by (auto simp: releasable_def split: option.splits)
    have free: "takeWhile (free_at h1) q = takeWhile (free_at h) q" "dropWhile (free_at h1) q = dropWhile (free_at h) q"
      using same by (auto intro!: takeWhile_cong dropWhile_cong simp: free_at_def)
    have IH: "release h1 (Some nxt) q =
      (let fs = takeWhile (free_at h1) q
       in if fs = [] then Inr (h1, Some nxt, q)
          else Inr (h1 |` (- (set_option (Some nxt) \<union> set (butlast fs))), Some (last fs), dropWhile (free_at h1) q))"
      using "2.IH" [OF _ True del] mm rel by simp
    have "h1 |` (- insert nxt A) = h |` (- (set_option cur \<union> insert nxt A))" for A
      by (auto simp: h1_def restrict_map_def)
    moreover have "dropWhile (free_at h) q = q" if "takeWhile (free_at h) q = []"
      using that by (cases q) (auto split: if_splits)
    ultimately show ?thesis
      using mm True del IH free by (simp add: free_at_def [of h nxt] Let_def h1_def)
  qed
qed simp

lemma store_queue_spec:
  assumes "releasable h q"
  shows "store_queue h q =
    Inr (h |` (- set (takeWhile (free_at h) q)), dropWhile (free_at h) q, commit_of h q)"
proof -
  define fs where "fs = takeWhile (free_at h) q"
  have r: "release h None q =
     (if fs = [] then Inr (h, None, q)
      else Inr (h |` (- set (butlast fs)), Some (last fs), dropWhile (free_at h) q))"
    using release_spec [where h = h and cur = None and q = q] assms by (simp add: fs_def Let_def)
  show ?thesis
  proof (cases "fs = []")
    case True
    then have "dropWhile (free_at h) q = q" by (cases q) (auto simp: fs_def split: if_splits)
    with True r show ?thesis by (simp add: store_queue_def commit_of_def fs_def [symmetric])
  next
    case False
    define l where "l = last fs"
    have fs: "fs = butlast fs @ [l]" using False by (simp add: l_def)
    have "l \<in> set q" using False set_takeWhileD [of l "free_at h" q] by (auto simp: l_def fs_def)
    then obtain mm f where mm: "h l = Some mm" "mm_feed mm = Some f"
      using assms by (auto simp: releasable_def)
    have "distinct fs" using assms by (simp add: fs_def releasable_def)
    then have "l \<notin> set (butlast fs)" by (subst (asm) fs) simp
    then have at: "(h |` (- set (butlast fs))) l = Some mm" using mm by (simp add: restrict_map_def)
    have "set fs = insert l (set (butlast fs))" by (subst fs) simp
    then have "(h |` (- set (butlast fs)))(l := None) = h |` (- set fs)"
      by (auto simp: restrict_map_def)
    moreover have "MyMessage_delete (h |` (- set (butlast fs))) l =
        Inr ((h |` (- set (butlast fs)))(l := None))"
      using at mm by (simp add: MyMessage_delete_eq_Inr)
    ultimately show ?thesis
      using False r at mm by (simp add: store_queue_def commit_of_def fs_def [symmetric] l_def [symmetric] message_at_def)
  qed
qed

lemma store_queues_spec:
  assumes "releasable h (concat (map snd offs))"
  shows "store_queues h offs =
    Inr (h |` (- (\<Union>(p, q) \<in> set offs. set (takeWhile (free_at h) q))),
         map (\<lambda>(p, q). (p, dropWhile (free_at h) q)) offs,
         concat (map (\<lambda>(p, q). commit_of h q) offs))"
  using assms
proof (induction h offs rule: store_queues.induct)
  case (2 h p q offs)
  define fs where "fs = takeWhile (free_at h) q"
  define h1 where "h1 = h |` (- set fs)"
  have sub: "set fs \<subseteq> set q" by (auto simp: fs_def dest: set_takeWhileD)
  have q: "releasable h q" using "2.prems" by (auto simp: releasable_def)
  have disj: "set q \<inter> set (concat (map snd offs)) = {}" using "2.prems" by (simp add: releasable_def)
  have same: "h1 x = h x" if "x \<in> set (concat (map snd offs))" for x
    using disj sub that by (auto simp: h1_def restrict_map_def)
  then have "releasable h1 (concat (map snd offs))" using "2.prems" by (auto simp: releasable_def)
  note IH = "2.IH" [OF _ refl refl this]
  have in_q: "x \<in> set (concat (map snd offs))" if "(p', q') \<in> set offs" "x \<in> set q'" for p' q' x
    using that by force
  have tw: "takeWhile (free_at h1) q' = takeWhile (free_at h) q'"
    "dropWhile (free_at h1) q' = dropWhile (free_at h) q'" if "(p', q') \<in> set offs" for p' q'
    using same in_q [OF that] by (auto intro!: takeWhile_cong dropWhile_cong simp: free_at_def)
  have msg: "message_at h1 (last (takeWhile (free_at h) q')) = message_at h (last (takeWhile (free_at h) q'))"
    if "(p', q') \<in> set offs" "takeWhile (free_at h) q' \<noteq> []" for p' q'
    using same [OF in_q [OF that(1)]] last_in_set [OF that(2)]
    by (metis message_at_def set_takeWhileD)
  have "map (\<lambda>(p, q). commit_of h1 q) offs = map (\<lambda>(p, q). commit_of h q) offs"
    using tw msg by (auto simp: commit_of_def Let_def)
  moreover have "map (\<lambda>(p, q). (p, dropWhile (free_at h1) q)) offs =
      map (\<lambda>(p, q). (p, dropWhile (free_at h) q)) offs"
    using tw by auto
  moreover have "h1 |` (- (\<Union>(p, q) \<in> set offs. set (takeWhile (free_at h1) q))) =
      h |` (- (\<Union>(p, q) \<in> set ((p, q) # offs). set (takeWhile (free_at h) q)))"
    using tw by (auto simp: h1_def restrict_map_def fun_eq_iff fs_def)
  ultimately show ?case
    using store_queue_spec [OF q] IH by (simp add: fs_def [symmetric] h1_def [symmetric] del: map_eq_conv)
qed simp

section \<open>The invariant of the monitor\<close>

definition queued :: "EventLoop \<Rightarrow> mid list" where
  "queued el = concat (map snd (el_offset el))"

definition queue_of :: "EventLoop \<Rightarrow> int \<Rightarrow> mid list" where
  "queue_of el p = (case map_of (el_offset el) p of None \<Rightarrow> [] | Some q \<Rightarrow> q)"

text \<open>
  Every allocated message has a feed and stands in exactly one queue of the event loop, the
  one of its partition.
\<close>

definition offsets_wf :: "heap \<Rightarrow> EventLoop \<Rightarrow> bool" where
  "offsets_wf h el \<longleftrightarrow>
     map_sorted (el_offset el) \<and> distinct (queued el) \<and> set (queued el) = dom h \<and>
     (\<forall>p. \<forall>m \<in> set (queue_of el p). rk_partition (message_at h m) = p)"

definition heap_wf :: "heap \<Rightarrow> mid \<Rightarrow> bool" where
  "heap_wf h n \<longleftrightarrow> (\<forall>m mm. h m = Some mm \<longrightarrow> parsed mm \<and> m < n)"

definition the_dp :: "EventLoop \<Rightarrow> DeficiencyProcessor option" where
  "the_dp el = (case el_processors el of [PDeficiency dp, PValidity vp] \<Rightarrow> Some dp | _ \<Rightarrow> None)"

definition monitor_inv :: "monitor \<Rightarrow> bool" where
  "monitor_inv s \<longleftrightarrow>
     (\<exists>dp vp. el_processors (mo_loop s) = [PDeficiency dp, PValidity vp] \<and>
        deficiency_inv (mo_heap s) (mo_cm s) (dp_sf_to_m dp)) \<and>
     heap_wf (mo_heap s) (mo_next s) \<and> offsets_wf (mo_heap s) (mo_loop s)"

text \<open>A message the monitor can handle: it parses and its reports fit their arrays.\<close>

definition printable_feed :: "feed \<Rightarrow> bool" where
  "printable_feed f = (case f of SFeed sf \<Rightarrow> modest sf | PFeed pf \<Rightarrow> length (validity_report pf) < 200)"

definition acceptable :: "json_reader \<Rightarrow> rk_message \<Rightarrow> bool" where
  "acceptable rd message =
     (case MyMessage_new rd message of
        Inl _ \<Rightarrow> False
      | Inr mm \<Rightarrow> (case mm_feed mm of None \<Rightarrow> False | Some f \<Rightarrow> printable_feed f))"

lemma acceptableE:
  assumes "acceptable rd message"
  obtains mm f where "MyMessage_new rd message = Inr mm" "mm_feed mm = Some f" "printable_feed f"
    "parsed mm" "mm_live mm = 0" "mm_message mm = message"
  using assms MyMessage_new_live MyMessage_new_feed_type
  by (fastforce simp: acceptable_def split: sum.splits option.splits)

lemma monitor_init_inv: "monitor_inv monitor_init"
  by (simp add: monitor_inv_def monitor_init_def EventLoop_addProcessor_def EventLoop_new_def
      deficiency_inv_def counted_def DeficiencyProcessor_new_def heap_wf_def offsets_wf_def queued_def
      queue_of_def map_sorted_def)

lemma queue_of_queued: "set (queue_of el p) \<subseteq> set (queued el)"
  unfolding queue_of_def queued_def
  by (cases "map_of (el_offset el) p") (auto dest!: map_of_SomeD intro: bexI [rotated])

text \<open>Frame: a change of the counters only.\<close>

lemma same_messages_dom: "same_messages h h' \<Longrightarrow> dom h' = dom h"
proof -
  assume "same_messages h h'"
  then have "h' m = None \<longleftrightarrow> h m = None" for m by (cases rule: same_messages_cases [of h h' m]) auto
  then show ?thesis by (auto simp: dom_def)
qed

lemma same_messages_message_at: "same_messages h h' \<Longrightarrow> message_at h' m = message_at h m"
  by (cases rule: same_messages_cases [of h h' m]) (auto simp: message_at_def)

lemma offsets_wf_same: "offsets_wf h el \<Longrightarrow> same_messages h h' \<Longrightarrow> offsets_wf h' el"
  by (simp add: offsets_wf_def same_messages_dom same_messages_message_at)

lemma heap_wf_same:
  assumes "heap_wf h n" and "same_messages h h'"
  shows "heap_wf h' n"
  unfolding heap_wf_def
proof (intro allI impI)
  fix m mm assume "h' m = Some mm"
  then show "parsed mm \<and> m < n"
    using assms(1) by (cases rule: same_messages_cases [OF assms(2), of m]) (auto simp: heap_wf_def)
qed

section \<open>Receiving\<close>

lemma concat_map_put:
  assumes "map_sorted offs"
  shows "mset (concat (map snd (map_put p (xs @ ys) offs))) =
    mset (concat (map snd (map_put p xs offs))) + mset ys"
  using assms by (induction p "xs @ ys" offs rule: map_put.induct) (auto simp: map_sorted_def)

lemma mset_offset_push:
  assumes "map_sorted offs"
  shows "mset (concat (map snd (offset_push p m offs))) = add_mset m (mset (concat (map snd offs)))"
proof (cases "map_of offs p")
  case None
  have "map_of offs p = None \<Longrightarrow> mset (concat (map snd (map_put p xs offs))) =
      mset xs + mset (concat (map snd offs))" for xs
    by (induction p xs offs rule: map_put.induct) auto
  with None show ?thesis by (simp add: offset_push_def)
next
  case (Some q)
  then show ?thesis
    using concat_map_put [OF assms, of p q "[m]"] map_put_same [OF assms Some] by (simp add: offset_push_def)
qed

lemma queue_of_push:
  "queue_of (el\<lparr>el_offset := offset_push p m (el_offset el)\<rparr>) p' =
     (if p' = p then queue_of el p @ [m] else queue_of el p')"
  by (simp add: queue_of_def offset_push_def map_of_map_put)

lemma deficiency_inv_alloc:
  assumes "deficiency_inv h cm s2m" and "h m = None" and "mm_live mm = 0"
  shows "deficiency_inv (h(m \<mapsto> mm)) cm s2m" and "s2m m = None"
proof -
  have c: "counted h s2m" using assms(1) by (simp add: deficiency_inv_def)
  show n: "s2m m = None" using c assms(2) by (fastforce simp: counted_def sf_at_eq_Inr)
  have at: "sf_at (h(m \<mapsto> mm)) x = sf_at h x" if "s2m x \<noteq> None" for x
    using that n by (auto simp: sf_at_def)
  have "counted (h(m \<mapsto> mm)) s2m"
    using c n assms(3) at by (auto simp: counted_def)
  moreover have "ctx_wf (h(m \<mapsto> mm)) s2m fc c" if c: "ctx_wf h s2m fc c" for fc c
  proof -
    have "queue_wf (h(m \<mapsto> mm)) s2m fc q" if "ctx_queue c = Some q" for q
    proof -
      have q: "queue_wf h s2m fc q" using c that by (simp add: ctx_wf_def)
      have "map (ts_key (h(m \<mapsto> mm))) q = map (ts_key h) q"
        using q at by (auto simp: queue_wf_def ts_key_def)
      with q at show ?thesis by (auto simp: queue_wf_def pq_ordered_def simp del: map_eq_conv)
    qed
    with c show ?thesis by (simp add: ctx_wf_def)
  qed
  ultimately show "deficiency_inv (h(m \<mapsto> mm)) cm s2m"
    using assms(1) by (fastforce simp: deficiency_inv_def)
qed

lemma receive_ok:
  assumes inv: "monitor_inv s" and acc: "acceptable rd message"
  obtains mm f where "receive rd message s =
      Inr (s\<lparr>mo_heap := (mo_heap s)(mo_next s \<mapsto> mm), mo_next := Suc (mo_next s),
             mo_loop := (mo_loop s)\<lparr>el_offset :=
                offset_push (rk_partition message) (mo_next s) (el_offset (mo_loop s))\<rparr>\<rparr>)"
    and "monitor_inv (s\<lparr>mo_heap := (mo_heap s)(mo_next s \<mapsto> mm), mo_next := Suc (mo_next s),
             mo_loop := (mo_loop s)\<lparr>el_offset :=
                offset_push (rk_partition message) (mo_next s) (el_offset (mo_loop s))\<rparr>\<rparr>)"
    and "mm_feed mm = Some f" and "printable_feed f" and "mm_message mm = message" and "mm_live mm = 0"
proof -
  from acc obtain mm f where mm: "MyMessage_new rd message = Inr mm" "mm_feed mm = Some f"
    "printable_feed f" "parsed mm" "mm_live mm = 0" "mm_message mm = message" by (rule acceptableE)
  let ?el = "(mo_loop s)\<lparr>el_offset := offset_push (rk_partition message) (mo_next s) (el_offset (mo_loop s))\<rparr>"
  let ?h = "(mo_heap s)(mo_next s \<mapsto> mm)"
  note wf = inv [unfolded monitor_inv_def]
  have new: "mo_heap s (mo_next s) = None"
    using wf by (cases "mo_heap s (mo_next s)") (auto simp: heap_wf_def)
  have ms: "mset (queued ?el) = add_mset (mo_next s) (mset (queued (mo_loop s)))"
    using wf mset_offset_push by (simp add: offsets_wf_def queued_def)
  have notin: "mo_next s \<notin> set (queued (mo_loop s))" using new wf by (auto simp: offsets_wf_def)
  have "set (queued ?el) = insert (mo_next s) (set (queued (mo_loop s)))"
    using arg_cong [OF ms, of set_mset] by simp
  moreover have "distinct (queued ?el)"
    using mset_eq_imp_distinct_iff [of "queued ?el" "mo_next s # queued (mo_loop s)"] ms notin wf
    by (simp add: offsets_wf_def)
  moreover have "rk_partition (message_at ?h m) = p" if "m \<in> set (queue_of ?el p)" for p m
  proof (cases "m = mo_next s")
    case True
    moreover have "m \<notin> set (queue_of (mo_loop s) p)"
      using True notin queue_of_queued by fastforce
    ultimately show ?thesis using that mm(6) by (simp add: message_at_def queue_of_push split: if_splits)
  next
    case False
    with that have "m \<in> set (queue_of (mo_loop s) p)" by (auto simp: queue_of_push split: if_splits)
    with False wf show ?thesis by (simp add: message_at_def offsets_wf_def)
  qed
  ultimately have "offsets_wf ?h ?el"
    using wf by (simp add: offsets_wf_def offset_push_def map_sorted_put)
  moreover have "heap_wf ?h (Suc (mo_next s))"
    using wf mm(4) by (auto simp: heap_wf_def less_Suc_eq)
  ultimately have "monitor_inv (s\<lparr>mo_heap := ?h, mo_next := Suc (mo_next s), mo_loop := ?el\<rparr>)"
    using wf deficiency_inv_alloc(1) [where h = "mo_heap s" and m = "mo_next s" and mm = mm] new mm(5)
    by (auto simp: monitor_inv_def)
  with mm show thesis by (intro that [of mm f]) (simp_all add: receive_def)
qed

section \<open>Processing\<close>

definition sent :: "Pro_res \<Rightarrow> string list" where
  "sent r = (if pr_code r \<noteq> OK then pr_json r else [])"

lemma process_eq:
  assumes "el_processors (mo_loop s) = [PDeficiency dp, PValidity vp]"
    and "DeficiencyProcessor_exec m (mo_heap s) (mo_cm s) dp = Inr (h, cm, dp')"
    and "ValidityProcessor_exec m h vp = Inr vp'"
  shows "process m s =
    Inr (s\<lparr>mo_heap := h, mo_cm := cm,
           mo_loop := (mo_loop s)\<lparr>el_processors := [PDeficiency dp', PValidity vp'],
             el_produced := el_produced (mo_loop s) @ sent (dp_res dp') @ sent (vp_res vp')\<rparr>\<rparr>)"
  using assms by (simp add: process_def processor_exec_def processor_result_def Let_def sent_def
      DeficiencyProcessor_getResult_def ValidityProcessor_getResult_def)

lemma process_ok:
  assumes inv: "monitor_inv s" and m: "mo_heap s m = Some mm" "mm_feed mm = Some f" "printable_feed f"
    and dp: "el_processors (mo_loop s) = [PDeficiency dp, PValidity vp]" "dp_sf_to_m dp m = None"
  obtains h cm dp' vp' out where "process m s =
        Inr (s\<lparr>mo_heap := h, mo_cm := cm,
               mo_loop := (mo_loop s)\<lparr>el_processors := [PDeficiency dp', PValidity vp'], el_produced := out\<rparr>\<rparr>)"
    and "exec_post m (mo_heap s) (mo_cm s) (dp_sf_to_m dp) h cm (dp_sf_to_m dp')"
proof -
  note wf = inv [unfolded monitor_inv_def]
  have p: "parsed mm" using wf m(1) by (auto simp: heap_wf_def)
  have d: "deficiency_inv (mo_heap s) (mo_cm s) (dp_sf_to_m dp)" using wf dp(1) by auto
  have "modest_feed (the (mm_feed mm))"
    using m by (simp add: modest_feed_def printable_feed_def split: feed.splits)
  from DeficiencyProcessor_exec_ok [OF d dp(2) m(1) p this] obtain h cm dp' where
    D: "DeficiencyProcessor_exec m (mo_heap s) (mo_cm s) dp = Inr (h, cm, dp')"
      "exec_post m (mo_heap s) (mo_cm s) (dp_sf_to_m dp) h cm (dp_sf_to_m dp')" by blast
  have same: "same_messages (mo_heap s) h" using D(2) by (simp add: exec_post_def)
  obtain n where "h m = Some (mm\<lparr>mm_live := n\<rparr>)"
    using m(1) by (cases rule: same_messages_cases [OF same, of m]) auto
  then obtain vp' where "ValidityProcessor_exec m h vp = Inr vp'"
    using ValidityProcessor_exec_parsed [of h m "mm\<lparr>mm_live := n\<rparr>" vp] p m
    by (cases f) (auto simp: printable_feed_def)
  with D dp show thesis using process_eq that by blast
qed

lemma process_inv:
  assumes "monitor_inv s" and "el_processors (mo_loop s) = [PDeficiency dp, PValidity vp]"
    and "exec_post m (mo_heap s) (mo_cm s) (dp_sf_to_m dp) h cm (dp_sf_to_m dp')"
  shows "monitor_inv (s\<lparr>mo_heap := h, mo_cm := cm,
      mo_loop := (mo_loop s)\<lparr>el_processors := [PDeficiency dp', PValidity vp'], el_produced := out\<rparr>\<rparr>)"
proof -
  have same: "same_messages (mo_heap s) h" using assms(3) by (simp add: exec_post_def)
  have "offsets_wf h (mo_loop s)" "heap_wf h (mo_next s)"
    using assms(1) same offsets_wf_same heap_wf_same by (auto simp: monitor_inv_def)
  then show ?thesis
    using assms by (simp add: monitor_inv_def exec_post_def offsets_wf_def queued_def queue_of_def)
qed

section \<open>The backup\<close>

lemma backup_entry_ok: "assigned c \<Longrightarrow> \<exists>e. backup_entry fc c = Inr e"
  by (auto simp: assigned_def backup_entry_def Context_defs)

lemma backup_text_ok:
  "(\<And>fc p. (fc, p) \<in> set cm \<Longrightarrow> \<exists>c. p = Some c \<and> assigned c) \<Longrightarrow> \<exists>t. backup_text cm = Inr t"
proof (induction cm)
  case (Cons e cm)
  obtain fc p where e: "e = (fc, p)" by (cases e)
  from Cons.prems [of fc p] e obtain c where c: "p = Some c" "assigned c" by auto
  obtain x where "backup_entry fc c = Inr x" using backup_entry_ok [OF c(2)] by blast
  moreover obtain t where "backup_text cm = Inr t" using Cons by auto
  ultimately show ?case using c e by simp
qed simp

lemma map_sorted_map_of: "map_sorted m \<Longrightarrow> (k, v) \<in> set m \<longleftrightarrow> map_of m k = Some v"
  by (induction m) (force simp: map_sorted_def)+

lemma deficiency_inv_assigned:
  "deficiency_inv h cm s2m \<Longrightarrow> (fc, p) \<in> set cm \<Longrightarrow> \<exists>c. p = Some c \<and> assigned c"
  by (fastforce simp: deficiency_inv_def map_sorted_map_of ctx_wf_def)

lemma free_unregistered:
  assumes "counted h s2m"
  shows "free_at h m \<longleftrightarrow> h m \<noteq> None \<and> s2m m = None"
  using assms by (auto simp: free_at_def counted_def MyMessage_free_def)

text \<open>Deleting messages that no feed of \<open>sf_to_m\<close> belongs to keeps the invariant.\<close>

lemma deficiency_inv_delete:
  assumes "deficiency_inv h cm s2m" and "\<And>m. m \<in> D \<Longrightarrow> s2m m = None"
  shows "deficiency_inv (h |` (- D)) cm s2m"
proof -
  have at: "sf_at (h |` (- D)) x = sf_at h x" if "s2m x \<noteq> None" for x
    using assms(2) [of x] that by (auto simp: sf_at_def restrict_map_def)
  have "counted (h |` (- D)) s2m"
    using assms(1) at by (auto simp: deficiency_inv_def counted_def restrict_map_def split: if_splits)
  moreover have "ctx_wf (h |` (- D)) s2m fc c" if c: "ctx_wf h s2m fc c" for fc c
  proof -
    have "queue_wf (h |` (- D)) s2m fc q" if "ctx_queue c = Some q" for q
    proof -
      have q: "queue_wf h s2m fc q" using c that by (simp add: ctx_wf_def)
      have "map (ts_key (h |` (- D))) q = map (ts_key h) q"
        using q at by (auto simp: queue_wf_def ts_key_def)
      with q at show ?thesis by (auto simp: queue_wf_def pq_ordered_def simp del: map_eq_conv)
    qed
    with c show ?thesis by (simp add: ctx_wf_def)
  qed
  ultimately show ?thesis using assms(1) by (fastforce simp: deficiency_inv_def)
qed

lemma queue_of_backup:
  "queue_of (el\<lparr>el_offset := map (\<lambda>(p, q). (p, f q)) (el_offset el)\<rparr>) p =
    (case map_of (el_offset el) p of None \<Rightarrow> [] | Some q \<Rightarrow> f q)"
  by (cases "map_of (el_offset el) p") (simp_all add: queue_of_def map_of_map)

definition released :: "heap \<Rightarrow> EventLoop \<Rightarrow> mid set" where
  "released h el = (\<Union>(p, q) \<in> set (el_offset el). set (takeWhile (free_at h) q))"

definition after_backup :: "heap \<Rightarrow> EventLoop \<Rightarrow> EventLoop" where
  "after_backup h el =
     el\<lparr>el_offset := map (\<lambda>(p, q). (p, dropWhile (free_at h) q)) (el_offset el),
        el_committed := el_committed el @ concat (map (\<lambda>(p, q). commit_of h q) (el_offset el))\<rparr>"

lemma monitor_inv_releasable:
  assumes "monitor_inv s"
  shows "releasable (mo_heap s) (queued (mo_loop s))"
proof -
  have "\<exists>mm f. mo_heap s m = Some mm \<and> mm_feed mm = Some f" if "m \<in> set (queued (mo_loop s))" for m
    using assms that by (fastforce simp: monitor_inv_def offsets_wf_def heap_wf_def parsed_def
        split: option.splits)
  then show ?thesis using assms by (simp add: releasable_def monitor_inv_def offsets_wf_def)
qed

lemma backup_ok:
  assumes "monitor_inv s"
  obtains t where "backup s =
      Inr (s\<lparr>mo_heap := mo_heap s |` (- released (mo_heap s) (mo_loop s)),
             mo_loop := after_backup (mo_heap s) (mo_loop s), mo_backups := mo_backups s @ [t]\<rparr>)"
proof -
  from assms obtain dp :: DeficiencyProcessor where "deficiency_inv (mo_heap s) (mo_cm s) (dp_sf_to_m dp)"
    unfolding monitor_inv_def by blast
  then obtain t where "backup_text (mo_cm s) = Inr t"
    using backup_text_ok deficiency_inv_assigned by metis
  then show thesis
    using store_queues_spec [of "mo_heap s" "el_offset (mo_loop s)"] monitor_inv_releasable [OF assms]
    by (intro that [of t]) (simp add: backup_def EventLoop_store_offset_def queued_def released_def after_backup_def)
qed


lemma set_dropWhile_distinct: "distinct q \<Longrightarrow> set (dropWhile P q) = set q - set (takeWhile P q)"
  using takeWhile_dropWhile_id [of P q] distinct_append [of "takeWhile P q" "dropWhile P q"]
    set_append [of "takeWhile P q" "dropWhile P q"] by auto

lemma concat_dropWhile:
  assumes "distinct (concat (map snd offs))"
  shows "set (concat (map (\<lambda>x. dropWhile P (snd x)) offs)) =
      set (concat (map snd offs)) - (\<Union>x \<in> set offs. set (takeWhile P (snd x)))" (is "?A offs")
    and "distinct (concat (map (\<lambda>x. dropWhile P (snd x)) offs))" (is "?B offs")
proof -
  have "?A offs \<and> ?B offs" using assms
  proof (induction offs)
    case (Cons x offs)
    let ?r = "set (concat (map snd offs))"
    have d: "distinct (snd x)" "set (snd x) \<inter> ?r = {}" "distinct (concat (map snd offs))"
      using Cons.prems by auto
    have IH: "?A offs" "?B offs" using Cons.IH [OF d(3)] by auto
    have t: "set (takeWhile P (snd x)) \<subseteq> set (snd x)" "set (dropWhile P (snd x)) \<subseteq> set (snd x)"
      by (auto dest: set_takeWhileD set_dropWhileD)
    have r: "(\<Union>x \<in> set offs. set (takeWhile P (snd x))) \<subseteq> ?r"
      by (auto dest: set_takeWhileD)
    have "?A (x # offs)"
      using d(2) t r
      unfolding list.map concat.simps set_append IH(1) set_dropWhile_distinct [OF d(1)] list.set UN_insert
      by blast
    moreover have "?B (x # offs)"
      using d t r IH by (auto simp: distinct_dropWhile)
    ultimately show ?case by blast
  qed simp
  then show "?A offs" and "?B offs" by blast+
qed

lemma set_after_backup:
  assumes "releasable h (queued el)"
  shows "set (queued (after_backup h el)) = set (queued el) - released h el"
    and "distinct (queued (after_backup h el))"
  using concat_dropWhile [of "el_offset el" "free_at h"] assms
  by (simp_all add: queued_def after_backup_def released_def releasable_def split_def comp_def)

lemma backup_inv:
  assumes inv: "monitor_inv s"
  shows "monitor_inv (s\<lparr>mo_heap := mo_heap s |` (- released (mo_heap s) (mo_loop s)),
             mo_loop := after_backup (mo_heap s) (mo_loop s), mo_backups := b\<rparr>)"
proof -
  let ?h = "mo_heap s" and ?el = "mo_loop s"
  let ?h' = "?h |` (- released ?h ?el)" and ?el' = "after_backup ?h ?el"
  note wf = inv [unfolded monitor_inv_def]
  note set = set_after_backup [OF monitor_inv_releasable [OF inv]]
  obtain dp :: DeficiencyProcessor and vp where
    dp: "el_processors ?el = [PDeficiency dp, PValidity vp]" "deficiency_inv ?h (mo_cm s) (dp_sf_to_m dp)"
    using wf by blast
  have "counted ?h (dp_sf_to_m dp)" using dp(2) by (simp add: deficiency_inv_def)
  then have "deficiency_inv ?h' (mo_cm s) (dp_sf_to_m dp)"
    using dp(2) by (intro deficiency_inv_delete)
      (auto simp: released_def free_unregistered dest!: set_takeWhileD)
  moreover have "rk_partition (message_at ?h' m) = p" if "m \<in> set (queue_of ?el' p)" for p m
  proof -
    have "m \<notin> released ?h ?el" using that queue_of_queued set(1) by fastforce
    moreover have "m \<in> set (queue_of ?el p)"
      using that by (auto simp: after_backup_def queue_of_def map_of_map dest: set_dropWhileD split: option.splits)
    ultimately show ?thesis using wf by (simp add: message_at_def offsets_wf_def)
  qed
  moreover have "map_sorted (el_offset ?el')"
    using wf by (simp add: after_backup_def offsets_wf_def map_sorted_def split_def comp_def)
  moreover have "heap_wf ?h' (mo_next s)" using wf by (auto simp: heap_wf_def restrict_map_def split: if_splits)
  moreover have "dom ?h' = dom ?h - released ?h ?el" by auto
  moreover have "el_processors ?el' = el_processors ?el" by (simp add: after_backup_def)
  ultimately show ?thesis using wf set dp by (simp add: monitor_inv_def offsets_wf_def)
qed

end
