(* ===== verification/Monitor_Runs.thy ===== *)
theory Monitor_Runs
  imports Monitor_Safety
begin

text \<open>
  Runs of the monitor: iterations of the event loop and backups in any order. No run faults,
  commits follow the arrivals partition by partition, a quiet monitor releases everything,
  and a delayed feed blocks its partition.
\<close>

section \<open>Runs of the two threads\<close>

text \<open>
  The event loop's iterations and the backups, in any order. An iteration and a backup do not
  overlap here; what happens when they do is shown at the end.
\<close>

datatype action = Consume "ErrorCode \<times> rk_message" | Backup

definition act :: "json_reader \<Rightarrow> action \<Rightarrow> monitor \<Rightarrow> monitor res" where
  "act rd a s =
     (case a of
        Consume ev \<Rightarrow> if cf_runTag (mo_flags s) then EventLoop_iteration rd ev s else Inr s
      | Backup \<Rightarrow> backup s)"

fun run_actions :: "json_reader \<Rightarrow> action list \<Rightarrow> monitor \<Rightarrow> monitor res" where
  "run_actions rd [] s = Inr s"
| "run_actions rd (a # as) s = bindR (act rd a s) (run_actions rd as)"

definition acceptable_action :: "json_reader \<Rightarrow> action \<Rightarrow> bool" where
  "acceptable_action rd a =
     (case a of Consume ev \<Rightarrow> fst ev = ERR_NO_ERROR \<longrightarrow> acceptable rd (snd ev) | Backup \<Rightarrow> True)"

lemma run_actions_append:
  "run_actions rd (as @ bs) s = bindR (run_actions rd as s) (run_actions rd bs)"
  by (induction as arbitrary: s) (simp_all add: bindR_assoc cong: bindR_cong)

lemma EventLoop_run_actions:
  "EventLoop_run rd evs s = run_actions rd (map Consume evs) s"
proof (induction evs arbitrary: s)
  case (Cons ev evs)
  have stop: "run_actions rd (map Consume es) s = Inr s" if "\<not> cf_runTag (mo_flags s)" for es
    using that by (induction es) (simp_all add: act_def)
  show ?case
    using Cons.IH stop by (cases "cf_runTag (mo_flags s)") (simp_all add: act_def fun_eq_iff cong: bindR_cong)
qed simp

text \<open>The two shapes of an iteration.\<close>

lemma EventLoop_iteration_cases:
  assumes "monitor_inv s" and "acceptable_action rd (Consume ev)"
  obtains (none) f where "EventLoop_iteration rd ev s = Inr (s\<lparr>mo_flags := f\<rparr>)"
      and "fst ev \<noteq> ERR_NO_ERROR"
  | (some) mm f dp vp h cm dp' vp' out s1 where "fst ev = ERR_NO_ERROR"
      and "s1 = s\<lparr>mo_heap := (mo_heap s)(mo_next s \<mapsto> mm), mo_next := Suc (mo_next s),
               mo_loop := (mo_loop s)\<lparr>el_offset :=
                 offset_push (rk_partition (snd ev)) (mo_next s) (el_offset (mo_loop s))\<rparr>\<rparr>"
      and "monitor_inv s1" and "mm_message mm = snd ev" and "mm_feed mm = Some f" and "mm_live mm = 0"
      and "mo_heap s (mo_next s) = None"
      and "el_processors (mo_loop s) = [PDeficiency dp, PValidity vp]"
      and "exec_post (mo_next s) (mo_heap s1) (mo_cm s) (dp_sf_to_m dp) h cm (dp_sf_to_m dp')"
      and "EventLoop_iteration rd ev s =
        Inr (s1\<lparr>mo_heap := h, mo_cm := cm,
               mo_loop := (mo_loop s1)\<lparr>el_processors := [PDeficiency dp', PValidity vp'], el_produced := out\<rparr>\<rparr>)"
proof (cases "fst ev = ERR_NO_ERROR")
  case False
  then have "fst (msg_consume ev (mo_flags s)) = None"
    by (cases "fst ev") (simp_all add: msg_consume_def Let_def)
  then obtain f where "msg_consume ev (mo_flags s) = (None, f)" by (metis prod.collapse)
  then show thesis using False by (intro none [of f]) (simp_all add: EventLoop_iteration_def)
next
  case True
  then have acc: "acceptable rd (snd ev)" using assms(2) by (simp add: acceptable_action_def)
  have mc: "msg_consume ev (mo_flags s) = (Some (snd ev), mo_flags s)" using True by (simp add: msg_consume_def)
  define s1 where "s1 mm = s\<lparr>mo_heap := (mo_heap s)(mo_next s \<mapsto> mm), mo_next := Suc (mo_next s),
               mo_loop := (mo_loop s)\<lparr>el_offset :=
                 offset_push (rk_partition (snd ev)) (mo_next s) (el_offset (mo_loop s))\<rparr>\<rparr>" for mm
  obtain mm f where r: "receive rd (snd ev) s = Inr (s1 mm)" "monitor_inv (s1 mm)"
    "mm_feed mm = Some f" "printable_feed f" "mm_message mm = snd ev" "mm_live mm = 0"
    unfolding s1_def by (rule receive_ok [OF assms(1) acc])
  note wf = assms(1) [unfolded monitor_inv_def]
  have new: "mo_heap s (mo_next s) = None"
    using wf by (cases "mo_heap s (mo_next s)") (auto simp: heap_wf_def)
  obtain dp :: DeficiencyProcessor and vp where
    dp: "el_processors (mo_loop s) = [PDeficiency dp, PValidity vp]"
      "deficiency_inv (mo_heap s) (mo_cm s) (dp_sf_to_m dp)" using wf by blast
  have unregistered: "dp_sf_to_m dp (mo_next s) = None" using deficiency_inv_alloc(2) [OF dp(2) new r(6)] .
  have dp1: "el_processors (mo_loop (s1 mm)) = [PDeficiency dp, PValidity vp]" using dp(1) by (simp add: s1_def)
  have at: "mo_heap (s1 mm) (mo_next s) = Some mm" by (simp add: s1_def)
  obtain h cm dp' vp' out where p: "process (mo_next s) (s1 mm) =
        Inr ((s1 mm)\<lparr>mo_heap := h, mo_cm := cm,
          mo_loop := (mo_loop (s1 mm))\<lparr>el_processors := [PDeficiency dp', PValidity vp'], el_produced := out\<rparr>\<rparr>)"
     "exec_post (mo_next s) (mo_heap (s1 mm)) (mo_cm (s1 mm)) (dp_sf_to_m dp) h cm (dp_sf_to_m dp')"
    by (rule process_ok [OF r(2) at r(3,4) dp1 unregistered])
  have "EventLoop_iteration rd ev s = process (mo_next s) (s1 mm)"
    using r(1) mc by (simp add: EventLoop_iteration_def Let_def)
  then have it: "EventLoop_iteration rd ev s =
        Inr ((s1 mm)\<lparr>mo_heap := h, mo_cm := cm,
          mo_loop := (mo_loop (s1 mm))\<lparr>el_processors := [PDeficiency dp', PValidity vp'], el_produced := out\<rparr>\<rparr>)"
    using p(1) by simp
  have cm: "mo_cm (s1 mm) = mo_cm s" by (simp add: s1_def)
  show thesis
    by (rule some [OF True _ r(2) r(5) r(3) r(6) new dp(1) p(2) [unfolded cm] it]) (simp add: s1_def)
qed

lemma act_ok:
  assumes "monitor_inv s" and "acceptable_action rd a"
  shows "\<exists>s'. act rd a s = Inr s' \<and> monitor_inv s'"
proof (cases a)
  case (Consume ev)
  show ?thesis
  proof (cases "cf_runTag (mo_flags s)")
    case True
    from assms(2) Consume have "acceptable_action rd (Consume ev)" by simp
    from assms(1) this show ?thesis
    proof (cases rule: EventLoop_iteration_cases)
      case (none f)
      with assms True Consume show ?thesis by (simp add: act_def monitor_inv_def)
    next
      case (some mm f dp vp h cm dp' vp' out s1)
      have "mo_cm s1 = mo_cm s" "el_processors (mo_loop s1) = [PDeficiency dp, PValidity vp]"
        using some by simp_all
      then have "monitor_inv (s1\<lparr>mo_heap := h, mo_cm := cm,
          mo_loop := (mo_loop s1)\<lparr>el_processors := [PDeficiency dp', PValidity vp'], el_produced := out\<rparr>\<rparr>)"
        using some(3,9) by (intro process_inv [of s1 dp vp]) simp_all
      then show ?thesis using some(10) True Consume by (simp add: act_def)
    qed
  qed (use assms Consume in \<open>simp add: act_def\<close>)
next
  case Backup
  obtain t where "backup s =
      Inr (s\<lparr>mo_heap := mo_heap s |` (- released (mo_heap s) (mo_loop s)),
             mo_loop := after_backup (mo_heap s) (mo_loop s), mo_backups := mo_backups s @ [t]\<rparr>)"
    by (rule backup_ok [OF assms(1)])
  then show ?thesis using Backup backup_inv [OF assms(1)] by (simp add: act_def)
qed

lemma run_actions_ok:
  "monitor_inv s \<Longrightarrow> (\<And>a. a \<in> set as \<Longrightarrow> acceptable_action rd a) \<Longrightarrow>
   \<exists>s'. run_actions rd as s = Inr s' \<and> monitor_inv s'"
proof (induction as arbitrary: s)
  case (Cons a as)
  then obtain s1 where "act rd a s = Inr s1" "monitor_inv s1" using act_ok [of s rd a] by auto
  with Cons show ?case by simp
qed simp

section \<open>Commits follow the arrivals\<close>

definition of_partition :: "int \<Rightarrow> rk_message list \<Rightarrow> rk_message list" where
  "of_partition p ms = filter (\<lambda>m. rk_partition m = p) ms"

text \<open>The messages that the actions deliver, in order.\<close>

fun delivered :: "action list \<Rightarrow> rk_message list" where
  "delivered [] = []"
| "delivered (Consume (ERR_NO_ERROR, msg) # as) = msg # delivered as"
| "delivered (a # as) = delivered as"

text \<open>What was committed for a partition, followed by what is still queued for it.\<close>

definition history :: "int \<Rightarrow> monitor \<Rightarrow> rk_message list" where
  "history p s =
     of_partition p (el_committed (mo_loop s)) @ map (message_at (mo_heap s)) (queue_of (mo_loop s) p)"

lemma of_partition_commits:
  assumes "map_sorted offs" and "\<And>p q m. (p, q) \<in> set offs \<Longrightarrow> m \<in> set q \<Longrightarrow> rk_partition (message_at h m) = p"
  shows "of_partition p (concat (map (\<lambda>(p, q). commit_of h q) offs)) =
    (case map_of offs p of None \<Rightarrow> [] | Some q \<Rightarrow> commit_of h q)"
  using assms
proof (induction offs)
  case (Cons e offs)
  obtain p' q where e: "e = (p', q)" by (cases e)
  have part: "rk_partition m = p'" if "m \<in> set (commit_of h q)" for m
  proof -
    have "takeWhile (free_at h) q \<noteq> []" and m: "m = message_at h (last (takeWhile (free_at h) q))"
      using that by (auto simp: commit_of_def Let_def split: if_splits)
    then have "last (takeWhile (free_at h) q) \<in> set q" using last_in_set set_takeWhileD by metis
    then show ?thesis using Cons.prems(2) [of p' q] e m by simp
  qed
  have IH: "of_partition p (concat (map (\<lambda>(p, q). commit_of h q) offs)) =
      (case map_of offs p of None \<Rightarrow> [] | Some q \<Rightarrow> commit_of h q)"
    using Cons by (auto simp: map_sorted_def)
  show ?case
  proof (cases "p = p'")
    case True
    have "map_of offs p = None"
      using Cons.prems(1) e True by (force simp: map_sorted_def map_of_eq_None_iff)
    with True e part IH show ?thesis by (simp add: of_partition_def filter_id_conv)
  next
    case False
    then have "filter (\<lambda>m. rk_partition m = p) (commit_of h q) = []" using part by (auto simp: filter_empty_conv)
    with False e IH show ?thesis by (simp add: of_partition_def)
  qed
qed (simp add: of_partition_def)

lemma commit_subseq: "subseq (commit_of h q) (map (message_at h) (takeWhile (free_at h) q))"
proof (cases "takeWhile (free_at h) q" rule: rev_cases)
  case (snoc ys y)
  then show ?thesis by (simp add: commit_of_def subseq_singleton_left)
qed (simp add: commit_of_def)

lemma queue_of_entry:
  "map_sorted (el_offset el) \<Longrightarrow> (p, q) \<in> set (el_offset el) \<Longrightarrow> queue_of el p = q"
  by (simp add: map_sorted_map_of queue_of_def)

lemma history_backup:
  assumes inv: "monitor_inv s"
  shows "subseq (history p (s\<lparr>mo_heap := mo_heap s |` (- released (mo_heap s) (mo_loop s)),
             mo_loop := after_backup (mo_heap s) (mo_loop s), mo_backups := b\<rparr>)) (history p s)"
proof -
  let ?h = "mo_heap s" and ?el = "mo_loop s"
  let ?h' = "?h |` (- released ?h ?el)" and ?el' = "after_backup ?h ?el"
  let ?q = "queue_of ?el p"
  have wf: "map_sorted (el_offset ?el)"
    "\<And>p q m. (p, q) \<in> set (el_offset ?el) \<Longrightarrow> m \<in> set q \<Longrightarrow> rk_partition (message_at ?h m) = p"
    using inv queue_of_entry [of ?el] by (auto simp: monitor_inv_def offsets_wf_def)
  have q': "queue_of ?el' p = dropWhile (free_at ?h) ?q"
    by (cases "map_of (el_offset ?el) p") (simp_all add: after_backup_def queue_of_def map_of_map)
  have "message_at ?h' m = message_at ?h m" if "m \<in> set (queue_of ?el' p)" for m
    using that queue_of_queued [of ?el' p] set_after_backup(1) [OF monitor_inv_releasable [OF inv]]
    by (auto simp: message_at_def restrict_map_def)
  then have m: "map (message_at ?h') (queue_of ?el' p) = map (message_at ?h) (dropWhile (free_at ?h) ?q)"
    by (simp add: q')
  have c: "of_partition p (el_committed ?el') = of_partition p (el_committed ?el) @ commit_of ?h ?q"
    using of_partition_commits [OF wf, where p = p]
    by (cases "map_of (el_offset ?el) p")
      (simp_all add: after_backup_def of_partition_def queue_of_def commit_of_def)
  have split: "map (message_at ?h) ?q =
      map (message_at ?h) (takeWhile (free_at ?h) ?q) @ map (message_at ?h) (dropWhile (free_at ?h) ?q)"
    by (metis map_append takeWhile_dropWhile_id)
  have "subseq (commit_of ?h ?q @ map (message_at ?h) (dropWhile (free_at ?h) ?q)) (map (message_at ?h) ?q)"
    unfolding split by (intro list_emb_append_mono commit_subseq) simp
  then have "subseq (of_partition p (el_committed ?el) @ commit_of ?h ?q @
        map (message_at ?h) (dropWhile (free_at ?h) ?q))
      (of_partition p (el_committed ?el) @ map (message_at ?h) ?q)"
    by (intro list_emb_append_mono) simp_all
  then show ?thesis using m c by (simp add: history_def)
qed

lemma history_iteration:
  assumes "monitor_inv s" and "acceptable_action rd (Consume ev)" and "EventLoop_iteration rd ev s = Inr s'"
  shows "history p s' = history p s @ of_partition p (delivered [Consume ev])"
  using assms(1,2)
proof (cases rule: EventLoop_iteration_cases)
  case (none f)
  then have "delivered [Consume ev] = []" by (cases ev; cases "fst ev") simp_all
  with none assms(3) show ?thesis by (auto simp: history_def of_partition_def)
next
  case (some mm f dp vp h cm dp' vp' out s1)
  have s': "s' = s1\<lparr>mo_heap := h, mo_cm := cm,
      mo_loop := (mo_loop s1)\<lparr>el_processors := [PDeficiency dp', PValidity vp'], el_produced := out\<rparr>\<rparr>"
    using some(10) assms(3) by simp
  have same: "same_messages (mo_heap s1) h" using some(9) by (simp add: exec_post_def)
  have d: "delivered [Consume ev] = [snd ev]" using some(1) by (cases ev) simp
  have q: "queue_of (mo_loop s') p =
      (if p = rk_partition (snd ev) then queue_of (mo_loop s) p @ [mo_next s] else queue_of (mo_loop s) p)"
    unfolding s' using queue_of_push [where el = "mo_loop s" and p = "rk_partition (snd ev)" and m = "mo_next s" and p' = p] some(2)
    by (simp add: queue_of_def)
  have old: "m \<noteq> mo_next s" if "m \<in> set (queue_of (mo_loop s) p)" for m
    using that some(7) assms(1) queue_of_queued [of "mo_loop s" p] by (auto simp: monitor_inv_def offsets_wf_def)
  have "message_at h m = (if m = mo_next s then snd ev else message_at (mo_heap s) m)" for m
    using same_messages_message_at [OF same] some(2,4) by (simp add: message_at_def)
  with old have "map (message_at (mo_heap s')) (queue_of (mo_loop s') p) =
      map (message_at (mo_heap s)) (queue_of (mo_loop s) p) @ of_partition p [snd ev]"
    unfolding q by (auto simp: s' of_partition_def)
  moreover have "el_committed (mo_loop s') = el_committed (mo_loop s)" using s' some(2) by simp
  ultimately show ?thesis by (simp add: history_def d)
qed

lemma history_run:
  assumes "monitor_inv s" and "\<And>a. a \<in> set as \<Longrightarrow> acceptable_action rd a"
    and "run_actions rd as s = Inr s'"
  shows "subseq (history p s') (history p s @ of_partition p (delivered as))"
  using assms
proof (induction as arbitrary: s)
  case (Cons a as)
  obtain s1 where s1: "act rd a s = Inr s1" "monitor_inv s1" using act_ok [of s rd a] Cons.prems by auto
  have IH: "subseq (history p s') (history p s1 @ of_partition p (delivered as))"
    using Cons.IH [OF s1(2)] Cons.prems s1(1) by simp
  have d: "of_partition p (delivered (a # as)) = of_partition p (delivered [a]) @ of_partition p (delivered as)"
    by (cases "(a # as)" rule: delivered.cases) (simp_all add: of_partition_def)
  have "subseq (history p s1) (history p s @ of_partition p (delivered [a]))"
  proof (cases a)
    case (Consume ev)
    show ?thesis
    proof (cases "cf_runTag (mo_flags s)")
      case True
      then show ?thesis
        using history_iteration [of s rd ev s1 p] Cons.prems(1,2) s1(1) Consume by (simp add: act_def)
    next
      case False
      then have "s1 = s" using s1(1) Consume by (simp add: act_def)
      then show ?thesis by (simp add: list_emb_prefix)
    qed
  next
    case Backup
    obtain t where "backup s =
        Inr (s\<lparr>mo_heap := mo_heap s |` (- released (mo_heap s) (mo_loop s)),
               mo_loop := after_backup (mo_heap s) (mo_loop s), mo_backups := mo_backups s @ [t]\<rparr>)"
      by (rule backup_ok [OF Cons.prems(1)])
    then have "subseq (history p s1) (history p s)"
      using s1(1) Backup history_backup [OF Cons.prems(1), of p "mo_backups s @ [t]"] by (simp add: act_def)
    with Backup show ?thesis by (simp add: of_partition_def)
  qed
  then have "subseq (history p s1 @ of_partition p (delivered as))
      ((history p s @ of_partition p (delivered [a])) @ of_partition p (delivered as))"
    by (intro list_emb_append_mono) simp_all
  with IH show ?case unfolding d append_assoc by (rule subseq_order.trans)
qed (simp add: of_partition_def)

section \<open>Messages that are never released\<close>

text \<open>A feed that is registered but waits in no queue: nothing will ever kill its message.\<close>

definition orphan :: "monitor \<Rightarrow> mid \<Rightarrow> bool" where
  "orphan s m \<longleftrightarrow>
     (\<exists>dp vp. el_processors (mo_loop s) = [PDeficiency dp, PValidity vp] \<and> dp_sf_to_m dp m \<noteq> None) \<and>
     m \<notin> all_waiting (mo_cm s)"

lemma orphan_alive:
  assumes "monitor_inv s" and "orphan s m"
  shows "\<exists>mm. mo_heap s m = Some mm \<and> mm_live mm = 1"
proof -
  obtain dp :: DeficiencyProcessor and vp where
    dp: "el_processors (mo_loop s) = [PDeficiency dp, PValidity vp]" "dp_sf_to_m dp m \<noteq> None"
    using assms(2) by (auto simp: orphan_def)
  then have "counted (mo_heap s) (dp_sf_to_m dp)"
    using assms(1) by (auto simp: monitor_inv_def deficiency_inv_def)
  then obtain sf where "sf_at (mo_heap s) m = Inr sf" using dp(2) by (auto simp: counted_def)
  then obtain mm where "mo_heap s m = Some mm" by (auto simp: sf_at_eq_Inr)
  with \<open>counted (mo_heap s) (dp_sf_to_m dp)\<close> dp(2) show ?thesis by (auto simp: counted_def)
qed

definition behind :: "monitor \<Rightarrow> int \<Rightarrow> mid \<Rightarrow> mid list \<Rightarrow> bool" where
  "behind s p m ys \<longleftrightarrow> (\<exists>xs zs. queue_of (mo_loop s) p = xs @ m # ys @ zs)"

lemma orphan_act:
  assumes inv: "monitor_inv s" and acc: "acceptable_action rd a" and orph: "orphan s m"
    and beh: "behind s p m ys" and run: "act rd a s = Inr s'"
  shows "orphan s' m \<and> behind s' p m ys"
proof -
  obtain xs zs where q: "queue_of (mo_loop s) p = xs @ m # ys @ zs" using beh by (auto simp: behind_def)
  obtain mm where mm: "mo_heap s m = Some mm" "mm_live mm = 1" using orphan_alive [OF inv orph] by blast
  show ?thesis
  proof (cases a)
    case (Consume ev)
    show ?thesis
    proof (cases "cf_runTag (mo_flags s)")
      case True
      then have it: "EventLoop_iteration rd ev s = Inr s'" using run Consume by (simp add: act_def)
      from inv acc [unfolded Consume] show ?thesis
      proof (cases rule: EventLoop_iteration_cases)
        case (none f)
        with it have "s' = s\<lparr>mo_flags := f\<rparr>" by simp
        with orph beh show ?thesis by (simp add: orphan_def behind_def)
      next
        case (some nm f dp vp h cm dp' vp' out s1)
        have new: "m \<noteq> mo_next s" using mm some(7) by auto
        have s': "s' = s1\<lparr>mo_heap := h, mo_cm := cm,
            mo_loop := (mo_loop s1)\<lparr>el_processors := [PDeficiency dp', PValidity vp'], el_produced := out\<rparr>\<rparr>"
          using some(10) it by simp
        have "queue_of (mo_loop s') p = queue_of (mo_loop s) p @
            (if p = rk_partition (snd ev) then [mo_next s] else [])"
          using queue_of_push [where el = "mo_loop s" and p = "rk_partition (snd ev)" and m = "mo_next s" and p' = p]
            some(2) by (simp add: s' queue_of_def)
        then have "behind s' p m ys" unfolding behind_def q by (metis append.assoc append_Cons)
        moreover have "dp_sf_to_m dp' m \<noteq> None" "m \<notin> all_waiting cm"
          using some(8,9) orph new by (auto simp: orphan_def exec_post_def)
        ultimately show ?thesis by (simp add: orphan_def s')
      qed
    qed (use run orph beh Consume in \<open>simp add: act_def\<close>)
  next
    case Backup
    obtain t where "backup s =
        Inr (s\<lparr>mo_heap := mo_heap s |` (- released (mo_heap s) (mo_loop s)),
               mo_loop := after_backup (mo_heap s) (mo_loop s), mo_backups := mo_backups s @ [t]\<rparr>)"
      by (rule backup_ok [OF inv])
    then have s': "s' = s\<lparr>mo_heap := mo_heap s |` (- released (mo_heap s) (mo_loop s)),
               mo_loop := after_backup (mo_heap s) (mo_loop s), mo_backups := mo_backups s @ [t]\<rparr>"
      using run Backup by (simp add: act_def)
    have "\<not> free_at (mo_heap s) m" using mm by (simp add: free_at_def MyMessage_free_def)
    then have "dropWhile (free_at (mo_heap s)) (xs @ m # ys @ zs) = dropWhile (free_at (mo_heap s)) xs @ m # ys @ zs"
      by (induction xs) auto
    moreover have "queue_of (mo_loop s') p = dropWhile (free_at (mo_heap s)) (queue_of (mo_loop s) p)"
      by (cases "map_of (el_offset (mo_loop s)) p") (simp_all add: s' after_backup_def queue_of_def map_of_map)
    ultimately have "behind s' p m ys" by (auto simp: behind_def q)
    moreover have "orphan s' m" using orph by (simp add: orphan_def s' after_backup_def)
    ultimately show ?thesis by blast
  qed
qed

lemma orphan_run:
  assumes "monitor_inv s" and "\<And>a. a \<in> set as \<Longrightarrow> acceptable_action rd a"
    and "orphan s m" and "behind s p m ys" and "run_actions rd as s = Inr s'"
  shows "monitor_inv s' \<and> orphan s' m \<and> behind s' p m ys"
  using assms
proof (induction as arbitrary: s)
  case (Cons a as)
  obtain s1 where s1: "act rd a s = Inr s1" "monitor_inv s1" using act_ok [of s rd a] Cons.prems by auto
  have "orphan s1 m \<and> behind s1 p m ys"
    using orphan_act [OF Cons.prems(1) _ Cons.prems(3,4) s1(1)] Cons.prems(2) by simp
  then show ?case using Cons.IH [OF s1(2)] Cons.prems s1(1) by simp
qed simp

text \<open>A delayed feed makes its message an orphan.\<close>

lemma delayed_iteration:
  assumes inv: "monitor_inv s"
    and new: "MyMessage_new rd message = Inr mm" "mm_feed mm = Some (SFeed sf)" "modest sf"
    and c: "map_of (mo_cm s) (sf_FEEDCODE sf) = Some (Some c)" "ctx_expectTimestamp c = Some et"
    and late: "sf_EXCHANGE_TIMESTAMP sf < et"
  shows "\<exists>s'. EventLoop_iteration rd (ERR_NO_ERROR, message) s = Inr s' \<and> monitor_inv s' \<and>
      orphan s' (mo_next s) \<and> behind s' (rk_partition message) (mo_next s) [] \<and>
      el_produced (mo_loop s') = el_produced (mo_loop s) @
        (if invalid_turnover sf then [turnover_report (sf_FEEDCODE sf) sf invalid_log] else []) @
        [delay_report (sf_FEEDCODE sf) et (sf_EXCHANGE_TIMESTAMP sf)]"
proof -
  have acc: "acceptable rd message" using new by (simp add: acceptable_def printable_feed_def)
  let ?m = "mo_next s" and ?el = "(mo_loop s)\<lparr>el_offset :=
     offset_push (rk_partition message) (mo_next s) (el_offset (mo_loop s))\<rparr>"
  define s1 where "s1 = s\<lparr>mo_heap := (mo_heap s)(?m \<mapsto> mm), mo_next := Suc ?m, mo_loop := ?el\<rparr>"
  have rec: "receive rd message s = Inr s1" using new(1) by (simp add: receive_def s1_def)
  have inv1: "monitor_inv s1" using receive_ok [OF inv acc] rec by (metis sum.inject(2))
  obtain dp :: DeficiencyProcessor and vp where
    dp: "el_processors (mo_loop s1) = [PDeficiency dp, PValidity vp]"
      "deficiency_inv (mo_heap s1) (mo_cm s1) (dp_sf_to_m dp)"
    using inv1 unfolding monitor_inv_def by blast
  have p: "parsed mm" "mm_live mm = 0"
    using MyMessage_new_feed_type [OF new(1)] MyMessage_new_live [OF new(1)] new(2) by auto
  have at: "mo_heap s1 ?m = Some mm" by (simp add: s1_def)
  have reg: "dp_sf_to_m dp ?m = None"
    using dp(2) at p(2) by (fastforce simp: deficiency_inv_def counted_def)
  let ?start = "dp\<lparr>dp_res := (dp_res dp)\<lparr>pr_json := []\<rparr>\<rparr>"
  let ?r = "\<lparr>pr_json = pr_json (turnover_result sf (dp_res ?start)) @
                [delay_report (sf_FEEDCODE sf) et (sf_EXCHANGE_TIMESTAMP sf)], pr_code = WARN\<rparr>"
  let ?h = "(mo_heap s1)(?m \<mapsto> MyMessage_live mm)"
  let ?done = "?start\<lparr>dp_sf_to_m := (dp_sf_to_m dp)(?m \<mapsto> ?m), dp_res := ?r\<rparr>"
  have "mo_cm s1 = mo_cm s" by (simp add: s1_def)
  then have "exec_statistics ?m (mo_heap s1) (mo_cm s1) ?start = Inr (?h, mo_cm s1, ?done)"
    using exec_statistics_delayed [of "mo_heap s1" "mo_cm s1" ?start ?m mm sf c et] dp(2) at new c late by simp
  then have D: "DeficiencyProcessor_exec ?m (mo_heap s1) (mo_cm s1) dp = Inr (?h, mo_cm s1, ?done)"
    using at p(1) new(2) by (simp add: DeficiencyProcessor_exec_def MyMessage_type_def parsed_def)
  have V: "ValidityProcessor_exec ?m ?h vp = Inr (vp\<lparr>vp_res := \<lparr>pr_json = [], pr_code = OK\<rparr>\<rparr>)"
    using ValidityProcessor_exec_parsed [of ?h ?m "MyMessage_live mm" vp] p(1) new(2)
    by (simp add: MyMessage_live_def)
  have it: "EventLoop_iteration rd (ERR_NO_ERROR, message) s = process ?m s1"
    using rec by (simp add: EventLoop_iteration_def msg_consume_def)
  note pr = process_eq [OF dp(1) D V]
  obtain s' where s': "process ?m s1 = Inr s'" using pr by blast
  have "exec_post ?m (mo_heap s1) (mo_cm s1) (dp_sf_to_m dp) ?h (mo_cm s1) (dp_sf_to_m ?done)"
    using DeficiencyProcessor_exec_ok [OF dp(2) reg at p(1)] new D by (simp add: modest_feed_def)
  from process_inv [OF inv1 dp(1) this] have "monitor_inv s'" using s' pr by auto
  moreover have "orphan s' ?m"
  proof -
    have "?m \<notin> all_waiting (mo_cm s1)" using inv_waiting [OF dp(2), of ?m] reg by blast
    then show ?thesis using s' pr by (auto simp: orphan_def)
  qed
  moreover have "behind s' (rk_partition message) ?m []"
  proof -
    have "queue_of (mo_loop s') (rk_partition message) = queue_of (mo_loop s) (rk_partition message) @ [?m]"
      using s' pr queue_of_push [where el = "mo_loop s" and p = "rk_partition message" and m = ?m and p' = "rk_partition message"]
      by (auto simp: s1_def queue_of_def)
    then show ?thesis by (auto simp: behind_def)
  qed
  moreover have "el_produced (mo_loop s') = el_produced (mo_loop s) @
        (if invalid_turnover sf then [turnover_report (sf_FEEDCODE sf) sf invalid_log] else []) @
        [delay_report (sf_FEEDCODE sf) et (sf_EXCHANGE_TIMESTAMP sf)]"
    using s' pr by (auto simp: sent_def turnover_result_def s1_def)
  ultimately show ?thesis using it s' by auto
qed

section \<open>A monitor with nothing waiting\<close>

definition quiescent :: "monitor \<Rightarrow> bool" where
  "quiescent s \<longleftrightarrow>
     (\<exists>dp vp. el_processors (mo_loop s) = [PDeficiency dp, PValidity vp] \<and> dp_sf_to_m dp = (\<lambda>_. None))"

lemma backup_releases_all:
  assumes inv: "monitor_inv s" and q: "quiescent s"
  shows "\<exists>s'. backup s = Inr s' \<and> monitor_inv s' \<and> quiescent s' \<and> mo_heap s' = (\<lambda>_. None) \<and>
      (\<forall>p. queue_of (mo_loop s') p = []) \<and>
      (\<forall>p. queue_of (mo_loop s) p \<noteq> [] \<longrightarrow>
         message_at (mo_heap s) (last (queue_of (mo_loop s) p)) \<in> set (el_committed (mo_loop s')))"
proof -
  let ?h = "mo_heap s" and ?el = "mo_loop s"
  obtain t where run: "backup s = Inr (s\<lparr>mo_heap := ?h |` (- released ?h ?el),
      mo_loop := after_backup ?h ?el, mo_backups := mo_backups s @ [t]\<rparr>)"
    by (rule backup_ok [OF inv])
  obtain dp :: DeficiencyProcessor and vp where
    dp: "el_processors ?el = [PDeficiency dp, PValidity vp]" "dp_sf_to_m dp = (\<lambda>_. None)"
    using q by (auto simp: quiescent_def)
  have "counted ?h (dp_sf_to_m dp)" using inv dp(1) by (auto simp: monitor_inv_def deficiency_inv_def)
  then have free: "free_at ?h m \<longleftrightarrow> m \<in> dom ?h" for m using free_unregistered dp(2) by auto
  have dom: "set (queued ?el) = dom ?h" using inv by (simp add: monitor_inv_def offsets_wf_def)
  have qfree: "free_at ?h m" if "(p, qq) \<in> set (el_offset ?el)" "m \<in> set qq" for p qq m
    using that dom free by (force simp: queued_def)
  then have tw: "takeWhile (free_at ?h) qq = qq" "dropWhile (free_at ?h) qq = []" if "(p, qq) \<in> set (el_offset ?el)" for p qq
    using that by (auto simp: takeWhile_eq_all_conv)
  have rel: "released ?h ?el = dom ?h"
  proof -
    have "released ?h ?el = (\<Union>(p, q) \<in> set (el_offset ?el). set q)"
      unfolding released_def by (intro SUP_cong refl) (use tw in \<open>auto simp del: takeWhile_eq_all_conv\<close>)
    then show ?thesis by (simp add: dom [symmetric] queued_def split_def)
  qed
  have "?h |` (- released ?h ?el) = (\<lambda>_. None)" by (auto simp: rel restrict_map_def fun_eq_iff)
  moreover have "queue_of (after_backup ?h ?el) p = []" for p
    using tw by (cases "map_of (el_offset ?el) p")
      (auto simp: after_backup_def queue_of_def map_of_map dest: map_of_SomeD)
  moreover have "message_at ?h (last (queue_of ?el p)) \<in> set (el_committed (after_backup ?h ?el))"
    if ne: "queue_of ?el p \<noteq> []" for p
  proof -
    obtain qq where qq: "map_of (el_offset ?el) p = Some qq" "queue_of ?el p = qq"
      using ne by (auto simp: queue_of_def split: option.splits)
    then have "commit_of ?h qq = [message_at ?h (last qq)]"
      using tw(1) [OF map_of_SomeD [OF qq(1)]] ne by (simp add: commit_of_def Let_def del: takeWhile_eq_all_conv)
    with qq show ?thesis by (force simp: after_backup_def dest: map_of_SomeD)
  qed
  moreover have "quiescent (s\<lparr>mo_heap := ?h |` (- released ?h ?el),
      mo_loop := after_backup ?h ?el, mo_backups := mo_backups s @ [t]\<rparr>)"
    using dp by (simp add: quiescent_def after_backup_def)
  ultimately show ?thesis using run backup_inv [OF inv] by auto
qed

section \<open>A backup between the arrival and the processing of a message\<close>

lemma released_iff:
  assumes inv: "monitor_inv s" and m: "m \<in> set (queue_of (mo_loop s) p)"
  shows "m \<in> released (mo_heap s) (mo_loop s) \<longleftrightarrow> m \<in> set (takeWhile (free_at (mo_heap s)) (queue_of (mo_loop s) p))"
proof
  assume "m \<in> released (mo_heap s) (mo_loop s)"
  then obtain pa q where q: "(pa, q) \<in> set (el_offset (mo_loop s))" "m \<in> set (takeWhile (free_at (mo_heap s)) q)"
    by (auto simp: released_def)
  have "queue_of (mo_loop s) pa = q" using inv q(1) by (simp add: monitor_inv_def offsets_wf_def queue_of_entry)
  moreover have "rk_partition (message_at (mo_heap s) x) = k" if "x \<in> set (queue_of (mo_loop s) k)" for x k
    using inv that by (simp add: monitor_inv_def offsets_wf_def)
  moreover have "m \<in> set q" using set_takeWhileD [OF q(2)] by simp
  ultimately have "pa = p" using m by metis
  then show "m \<in> set (takeWhile (free_at (mo_heap s)) (queue_of (mo_loop s) p))"
    using q(2) \<open>queue_of (mo_loop s) pa = q\<close> by simp
next
  assume "m \<in> set (takeWhile (free_at (mo_heap s)) (queue_of (mo_loop s) p))"
  moreover have "(p, queue_of (mo_loop s) p) \<in> set (el_offset (mo_loop s))"
    using m by (auto simp: queue_of_def dest: map_of_SomeD split: option.splits)
  ultimately show "m \<in> released (mo_heap s) (mo_loop s)" by (force simp: released_def)
qed

text \<open>The state after both steps, and whether the new message was among the released ones.\<close>

lemma overlapping_backup_state:
  assumes inv: "monitor_inv s" and acc: "acceptable rd message"
  obtains s1 s2 mm f where "receive rd message s = Inr s1" and "backup s1 = Inr s2" and "monitor_inv s2"
    and "mo_heap s2 (mo_next s) =
      (if \<forall>m \<in> set (queue_of (mo_loop s) (rk_partition message)). free_at (mo_heap s) m then None else Some mm)"
    and "mm_feed mm = Some f" and "printable_feed f" and "mm_live mm = 0"
proof -
  let ?m = "mo_next s" and ?p = "rk_partition message"
  define s1 where "s1 mm = s\<lparr>mo_heap := (mo_heap s)(mo_next s \<mapsto> mm), mo_next := Suc (mo_next s),
               mo_loop := (mo_loop s)\<lparr>el_offset :=
                 offset_push ?p (mo_next s) (el_offset (mo_loop s))\<rparr>\<rparr>" for mm
  obtain mm f where r: "receive rd message s = Inr (s1 mm)" "monitor_inv (s1 mm)"
    "mm_feed mm = Some f" "printable_feed f" "mm_message mm = message" "mm_live mm = 0"
    unfolding s1_def by (rule receive_ok [OF inv acc])
  let ?h = "mo_heap (s1 mm)" and ?el = "mo_loop (s1 mm)" and ?q = "queue_of (mo_loop s) ?p"
  obtain t where b: "backup (s1 mm) = Inr ((s1 mm)\<lparr>mo_heap := ?h |` (- released ?h ?el),
      mo_loop := after_backup ?h ?el, mo_backups := mo_backups (s1 mm) @ [t]\<rparr>)"
    by (rule backup_ok [OF r(2)])
  have qq: "queue_of ?el ?p = ?q @ [?m]"
    using queue_of_push [where el = "mo_loop s" and p = ?p and m = ?m and p' = ?p] by (simp add: s1_def)
  have at_m: "?h ?m = Some mm" "free_at ?h ?m" using r(6) by (simp_all add: s1_def free_at_def MyMessage_free_def)
  have new: "?m \<notin> set ?q"
    using inv queue_of_queued [of "mo_loop s" ?p] by (fastforce simp: monitor_inv_def offsets_wf_def heap_wf_def)
  then have old: "free_at ?h x \<longleftrightarrow> free_at (mo_heap s) x" if "x \<in> set ?q" for x
    using that by (auto simp: s1_def free_at_def)
  have "?m \<in> released ?h ?el \<longleftrightarrow> ?m \<in> set (takeWhile (free_at ?h) (?q @ [?m]))"
    using released_iff [OF r(2), of ?m ?p] qq by simp
  also have "\<dots> \<longleftrightarrow> (\<forall>x \<in> set ?q. free_at (mo_heap s) x)"
    using new old at_m(2) by (auto simp: takeWhile_append dest: set_takeWhileD)
  finally have gone: "?m \<in> released ?h ?el \<longleftrightarrow> (\<forall>x \<in> set ?q. free_at (mo_heap s) x)" .
  then have "(?h |` (- released ?h ?el)) ?m = (if \<forall>x \<in> set ?q. free_at (mo_heap s) x then None else Some mm)"
    using at_m(1) by (simp add: restrict_map_def)
  then show thesis
    using that [OF r(1) b backup_inv [OF r(2)], of mm f] r(3,4,6) by simp
qed

lemma overlapping_backup_freed:
  assumes inv: "monitor_inv s" and acc: "acceptable rd message"
    and free: "\<forall>m \<in> set (queue_of (mo_loop s) (rk_partition message)). free_at (mo_heap s) m"
  shows "bindR (receive rd message s) (\<lambda>s1. bindR (backup s1) (process (mo_next s))) = Inl Use_After_Free"
proof -
  obtain s1 s2 where r: "receive rd message s = Inr s1" "backup s1 = Inr s2" "monitor_inv s2" "mo_heap s2 (mo_next s) = None"
    using overlapping_backup_state [OF inv acc] free by metis
  obtain dp :: DeficiencyProcessor and vp where "el_processors (mo_loop s2) = [PDeficiency dp, PValidity vp]"
    using r(3) unfolding monitor_inv_def by blast
  then show ?thesis using r by (simp add: process_def processor_exec_def DeficiencyProcessor_exec_def)
qed

lemma overlapping_backup_kept:
  assumes inv: "monitor_inv s" and acc: "acceptable rd message"
    and held: "\<not> (\<forall>m \<in> set (queue_of (mo_loop s) (rk_partition message)). free_at (mo_heap s) m)"
  shows "\<exists>s'. bindR (receive rd message s) (\<lambda>s1. bindR (backup s1) (process (mo_next s))) = Inr s' \<and> monitor_inv s'"
proof -
  obtain s1 s2 mm f where r: "receive rd message s = Inr s1" "backup s1 = Inr s2" "monitor_inv s2"
      "mo_heap s2 (mo_next s) = Some mm" "mm_feed mm = Some f" "printable_feed f" "mm_live mm = 0"
    using overlapping_backup_state [OF inv acc] held by metis
  obtain dp :: DeficiencyProcessor and vp where dp: "el_processors (mo_loop s2) = [PDeficiency dp, PValidity vp]"
      "deficiency_inv (mo_heap s2) (mo_cm s2) (dp_sf_to_m dp)"
    using r(3) unfolding monitor_inv_def by blast
  have "dp_sf_to_m dp (mo_next s) = None"
    using dp(2) r(4,7) free_unregistered [of "mo_heap s2" "dp_sf_to_m dp" "mo_next s"]
    by (auto simp: deficiency_inv_def free_at_def MyMessage_free_def)
  from process_ok [OF r(3-6) dp(1) this] process_inv [OF r(3) dp(1)] r(1,2) show ?thesis by (metis bindR_Inr)
qed

end
