(* ===== verification/Monitor_Properties.thy ===== *)
theory Monitor_Properties
  imports Monitor_Runs
begin

text \<open>
  The properties of the monitor and of its two processors, each with a witness on sample
  messages.
\<close>

section \<open>Sample messages\<close>

text \<open>
  A reader for samples: the payload is the body of a statistics feed. It stands for the JSON
  library at the inputs of the witnesses.
\<close>

definition sample_reader :: json_reader where
  "sample_reader txt =
     Some (\<lambda>k. if k = ''MessageType'' then Some ''FeedMsStatistics'' else Some txt)"

definition sample_message :: "int \<Rightarrow> int \<Rightarrow> int \<Rightarrow> rk_message" where
  "sample_message p off t =
     \<lparr>rk_partition = p, rk_offset = off, rk_payload = Some (StatisticsFeed_body fmt_f (sample_at t))\<rparr>"

definition sample_feed :: "int \<Rightarrow> StatisticsFeed" where
  "sample_feed t = (sample_at t)\<lparr>sf_TIMESTAMP := 0\<rparr>"

definition sample_mm :: "int \<Rightarrow> int \<Rightarrow> int \<Rightarrow> MyMessage" where
  "sample_mm p off t =
     \<lparr>mm_message = sample_message p off t, mm_live = 0, mm_feed = Some (SFeed (sample_feed t)),
      mm_type = Some FT_Statistics\<rparr>"

lemma sample_new:
  "in_range 64 t \<Longrightarrow> MyMessage_new sample_reader (sample_message p off t) = Inr (sample_mm p off t)"
  by (simp add: MyMessage_new_def sample_reader_def string_index_def sample_message_def sample_mm_def
      sample_feed_def StatisticsFeed_build_reads sample_at_printable)

lemma sample_modest: "in_range 64 t \<Longrightarrow> modest (sample_feed t)"
  by (simp add: modest_def sample_feed_def sample_at_def sample_StatisticsFeed_def in_range_def)

lemma sample_acceptable: "in_range 64 t \<Longrightarrow> acceptable sample_reader (sample_message p off t)"
  using sample_modest [of t] by (simp add: acceptable_def sample_new sample_mm_def printable_feed_def)

lemma sample_range: "in_range 64 500000000" "in_range 64 1000000000" "in_range 64 0"
  by (simp_all add: in_range_def)

lemma sample_mm_simps [simp]:
  "mm_feed (sample_mm p off t) = Some (SFeed (sample_feed t))" "mm_live (sample_mm p off t) = 0"
  "mm_type (sample_mm p off t) = Some FT_Statistics" "mm_message (sample_mm p off t) = sample_message p off t"
  "parsed (sample_mm p off t)"
  "sf_FEEDCODE (sample_feed t) = ''000001.SZ''" "sf_EXCHANGE_TIMESTAMP (sample_feed t) = t"
  "rk_partition (sample_message p off t) = p" "rk_offset (sample_message p off t) = off"
  by (simp_all add: sample_mm_def sample_feed_def sample_at_def sample_StatisticsFeed_def sample_message_def parsed_def)

text \<open>A monitor that expects the feed of time \<open>t\<close>, and the state with one message in it.\<close>

definition sample_context :: "int \<Rightarrow> Context" where
  "sample_context t =
     \<lparr>ctx_queue = None, ctx_expectTimestamp = Some t, ctx_preValue = Some 1200, ctx_preVolume = Some 100,
      ctx_locked = False, ctx_bad_unlocks = 0\<rparr>"

definition sample_monitor :: "int \<Rightarrow> monitor" where
  "sample_monitor t = monitor_init\<lparr>mo_cm := [(''000001.SZ'', Some (sample_context t))]\<rparr>"

lemma sample_context_simps [simp]:
  "ctx_expectTimestamp (sample_context t) = Some t"
  "(sample_context t)\<lparr>ctx_expectTimestamp := Some u\<rparr> = sample_context u"
  "\<not> invalid_turnover (sample_feed t)"
  by (simp_all add: sample_context_def invalid_turnover_def sample_feed_def sample_at_def sample_StatisticsFeed_def)

lemma sample_ctx_wf: "in_range 64 t \<Longrightarrow> ctx_wf h s2m fc (sample_context t)"
  by (simp add: ctx_wf_def assigned_def sample_context_def)

lemma sample_monitor_inv: "in_range 64 t \<Longrightarrow> monitor_inv (sample_monitor t)"
  using monitor_init_inv sample_ctx_wf
  by (auto simp: monitor_inv_def sample_monitor_def deficiency_inv_def map_sorted_def)

lemma sample_deficiency_inv:
  "in_range 64 t \<Longrightarrow> deficiency_inv [m \<mapsto> sample_mm p off u] [(''000001.SZ'', Some (sample_context t))] (\<lambda>_. None)"
  using sample_ctx_wf by (auto simp: deficiency_inv_def counted_def map_sorted_def split: if_splits)

section \<open>Properties of whole runs\<close>

text \<open>
  C1: the monitor never faults. From the initial state, any sequence of event loop
  iterations and backups whose consumed messages parse and have reports that fit returns
  normally: no freed message is read, no null or unassigned pointer is used, no assertion
  fails, no array overflows; and the invariant of the monitor holds at the end.
\<close>

theorem monitor_never_faults:
  assumes "\<And>a. a \<in> set as \<Longrightarrow> acceptable_action rd a"
  shows "\<exists>s. run_actions rd as monitor_init = Inr s \<and> monitor_inv s"
  using run_actions_ok [OF monitor_init_inv] assms by blast

theorem monitor_never_faults_witness:
  "\<exists>s. run_actions sample_reader
      [Consume (ERR_NO_ERROR, sample_message 0 1 500000000), Backup,
       Consume (ERR_NO_ERROR, sample_message 0 2 1000000000), Backup] monitor_init = Inr s \<and> monitor_inv s"
  by (rule monitor_never_faults) (auto simp: acceptable_action_def sample_acceptable sample_range)

text \<open>
  C2: commits follow the arrivals. In every run from the initial state, the messages
  committed for a partition are a subsequence of the messages delivered for it: nothing is
  committed that did not arrive, nothing twice, and never out of order.
\<close>

theorem commits_follow_arrivals:
  assumes "\<And>a. a \<in> set as \<Longrightarrow> acceptable_action rd a"
    and "run_actions rd as monitor_init = Inr s"
  shows "subseq (of_partition p (el_committed (mo_loop s))) (of_partition p (delivered as))"
proof -
  have "history p monitor_init = []"
    by (simp add: history_def monitor_init_def EventLoop_addProcessor_def EventLoop_new_def of_partition_def
        queue_of_def)
  then have "subseq (history p s) (of_partition p (delivered as))"
    using history_run [OF monitor_init_inv assms, of p] by simp
  moreover have "subseq (of_partition p (el_committed (mo_loop s))) (history p s)"
    by (simp add: history_def list_emb_prefix)
  ultimately show ?thesis by (rule subseq_order.trans [rotated])
qed

theorem commits_follow_arrivals_witness:
  "\<exists>s. run_actions sample_reader [Consume (ERR_NO_ERROR, sample_message 0 1 500000000), Backup] monitor_init = Inr s \<and>
     subseq (of_partition 0 (el_committed (mo_loop s))) [sample_message 0 1 500000000]"
proof -
  let ?as = "[Consume (ERR_NO_ERROR, sample_message 0 1 500000000), Backup]"
  have acc: "acceptable_action sample_reader a" if "a \<in> set ?as" for a
    using that by (auto simp: acceptable_action_def sample_acceptable sample_range)
  then obtain s where "run_actions sample_reader ?as monitor_init = Inr s"
    using run_actions_ok [OF monitor_init_inv] by blast
  with commits_follow_arrivals [OF acc this, of 0] show ?thesis by (auto simp: of_partition_def)
qed

text \<open>
  C5: what \<open>store_offset\<close> does to one queue of allocated messages: it deletes the longest
  prefix of finished messages, keeps the rest of the queue, and commits the last message of
  that prefix, if there is one. No message behind one that is still needed is deleted or
  committed.
\<close>

theorem store_queue_exact:
  assumes "releasable h q"
  shows "store_queue h q =
    Inr (h |` (- set (takeWhile (free_at h) q)), dropWhile (free_at h) q, commit_of h q)"
  using assms by (rule store_queue_spec)

theorem store_queue_exact_witness:
  "(\<exists>h q. releasable h q \<and> length q = 3 \<and>
     store_queue h q = Inr (h |` (- {0}), [1, 2], [sample_message 0 7 0]))"
proof -
  let ?h = "[0 \<mapsto> sample_mm 0 7 0, 1 \<mapsto> (sample_mm 0 8 0)\<lparr>mm_live := 1\<rparr>, 2 \<mapsto> sample_mm 0 9 0]" and ?q = "[0, 1, 2] :: mid list"
  have r: "releasable ?h ?q" by (simp add: releasable_def)
  have "free_at ?h 0" "\<not> free_at ?h 1" by (simp_all add: free_at_def MyMessage_free_def)
  with store_queue_exact [OF r] have "store_queue ?h ?q = Inr (?h |` (- {0}), [1, 2], [sample_message 0 7 0])"
    by (simp add: commit_of_def message_at_def)
  with r show ?thesis by (intro exI [of _ ?h] exI [of _ ?q]) simp
qed

text \<open>
  C6: when no feed is held by the deficiency check, a backup releases every message: the
  heap and all queues are empty afterwards, and each partition with messages has its last
  one committed.
\<close>

theorem backup_of_quiescent:
  assumes "monitor_inv s" and "quiescent s"
  shows "\<exists>s'. backup s = Inr s' \<and> monitor_inv s' \<and> quiescent s' \<and> mo_heap s' = (\<lambda>_. None) \<and>
      (\<forall>p. queue_of (mo_loop s') p = []) \<and>
      (\<forall>p. queue_of (mo_loop s) p \<noteq> [] \<longrightarrow>
         message_at (mo_heap s) (last (queue_of (mo_loop s) p)) \<in> set (el_committed (mo_loop s')))"
  using assms by (rule backup_releases_all)

theorem backup_of_quiescent_witness:
  "\<exists>s s'. receive sample_reader (sample_message 3 7 0) monitor_init = Inr s \<and> backup s = Inr s' \<and>
     sample_message 3 7 0 \<in> set (el_committed (mo_loop s'))"
proof -
  define s where "s = monitor_init\<lparr>mo_heap := [0 \<mapsto> sample_mm 3 7 0], mo_next := 1,
      mo_loop := (mo_loop monitor_init)\<lparr>el_offset := [(3, [0])]\<rparr>\<rparr>"
  have r: "receive sample_reader (sample_message 3 7 0) monitor_init = Inr s"
    by (simp add: receive_def sample_new sample_range s_def offset_push_def monitor_init_def
        EventLoop_addProcessor_def EventLoop_new_def)
  have inv: "monitor_inv s"
    using receive_ok [OF monitor_init_inv sample_acceptable [OF sample_range(3)], of 3 7] r
    by (metis sum.inject(2))
  have q: "quiescent s"
    by (simp add: s_def quiescent_def monitor_init_def EventLoop_addProcessor_def EventLoop_new_def
        DeficiencyProcessor_new_def)
  have "queue_of (mo_loop s) 3 = [0]" "message_at (mo_heap s) 0 = sample_message 3 7 0"
    by (simp_all add: s_def queue_of_def message_at_def)
  with backup_of_quiescent [OF inv q] have
    "\<exists>s'. backup s = Inr s' \<and> sample_message 3 7 0 \<in> set (el_committed (mo_loop s'))"
    by (metis last.simps list.discI)
  with r show ?thesis by blast
qed

text \<open>
  C3: the deficiency check is safe and keeps its invariant: on a parsed message it has not
  seen, with a feed whose reports fit, it returns; the registered messages are alive, all
  others free; the waiting feeds are registered, ordered and filed under their feedcode; no
  context is null, locked or unassigned; and no message but its counter is changed.
\<close>

theorem deficiency_exec_keeps_invariant:
  assumes "deficiency_inv h cm (dp_sf_to_m dp)" and "dp_sf_to_m dp m = None"
    and "h m = Some mm" and "parsed mm" and "modest_feed (the (mm_feed mm))"
  shows "\<exists>h' cm' dp'. DeficiencyProcessor_exec m h cm dp = Inr (h', cm', dp') \<and>
      deficiency_inv h' cm' (dp_sf_to_m dp') \<and> same_messages h h'"
  using DeficiencyProcessor_exec_ok [OF assms] by (auto simp: exec_post_def)

theorem deficiency_exec_keeps_invariant_witness:
  "\<exists>h' cm' dp'. DeficiencyProcessor_exec 0 [0 \<mapsto> sample_mm 0 7 1000000000]
      [(''000001.SZ'', Some (sample_context 500000000))] DeficiencyProcessor_new = Inr (h', cm', dp') \<and>
      deficiency_inv h' cm' (dp_sf_to_m dp') \<and> same_messages [0 \<mapsto> sample_mm 0 7 1000000000] h'"
  by (rule deficiency_exec_keeps_invariant [where mm = "sample_mm 0 7 1000000000"])
    (simp_all add: DeficiencyProcessor_new_def sample_deficiency_inv sample_range modest_feed_def sample_modest)

section \<open>Properties of the processors\<close>

text \<open>
  C4: the drain loop stops at the first gap. From an ordered queue, whenever the loop
  returns and the sum does not leave 64 bits, the new expectation is the old one plus a
  multiple of the interval, all expected times before it are carried by waiting feeds, it is
  itself carried by none, and exactly the later feeds keep waiting.
\<close>

theorem drain_stops_at_first_gap:
  assumes "pq_ordered (ts_key (dr_heap d)) q" and "0 \<le> dr_et d"
    and "dr_et d + int (length q) * INTERVAL < 2 ^ 63" and "drain fc sf q d = Inr d'"
  shows "\<exists>k q'. ctx_queue (dr_ctx d') = Some q' \<and> dr_et d' = dr_et d + int k * INTERVAL \<and>
    (\<forall>i < k. dr_et d + int i * INTERVAL \<in> ts_key (dr_heap d) ` set q) \<and>
    dr_et d' \<notin> ts_key (dr_heap d) ` set q \<and>
    map (ts_key (dr_heap d)) q' = filter (\<lambda>t. dr_et d' < t) (map (ts_key (dr_heap d)) q)"
proof -
  obtain q' where q': "ctx_queue (dr_ctx d') = Some q'"
    "advance (dr_et d) (map (ts_key (dr_heap d)) q) = (dr_et d', map (ts_key (dr_heap d)) q')"
    using drain_advance [OF assms(4)] by blast
  from advance_first_gap [OF _ assms(2) _ q'(2)] assms(1,3) q'(1) show ?thesis
    by (auto simp: pq_ordered_def)
qed

definition sample_drain :: drain_state where
  "sample_drain =
     \<lparr>dr_heap = [0 \<mapsto> (sample_mm 0 1 500000000)\<lparr>mm_live := 1\<rparr>], dr_s2m = [0 \<mapsto> 0],
      dr_ctx = Context_lock (sample_context 0), dr_json = [], dr_et = 500000000\<rparr>"

theorem drain_stops_at_first_gap_witness:
  "\<exists>d'. drain ''000001.SZ'' (sample_feed 500000000) [0] sample_drain = Inr d' \<and> dr_et d' \<noteq> 500000000"
proof -
  have key: "ts_key (dr_heap sample_drain) 0 = 500000000" and o: "pq_ordered (ts_key (dr_heap sample_drain)) [0]"
    by (simp_all add: sample_drain_def ts_key_def sf_at_def MyMessage_feed_def pq_ordered_def)
  have pre: "drain_pre ''000001.SZ'' [0] sample_drain"
    by (auto simp: drain_pre_def sample_drain_def counted_def queue_wf_def pq_ordered_def sample_context_def
        Context_lock_def sf_at_eq_Inr in_range_def split: if_splits)
  then obtain d' where run: "drain ''000001.SZ'' (sample_feed 500000000) [0] sample_drain = Inr d'"
    using drain_ok [of "sample_feed 500000000" "[0]" sample_drain] by (auto simp: sample_modest sample_range)
  have "dr_et d' \<noteq> 500000000"
    using drain_stops_at_first_gap [OF o _ _ run] key by (auto simp: sample_drain_def INTERVAL_def)
  with run show ?thesis by blast
qed

text \<open>
  C7: a feed that arrives on time leaves nothing behind: the heap and the registrations are
  as before, the expectation of its context moves by one interval, and the only possible
  report is the one about invalid turnover figures.
\<close>

theorem on_time_feed:
  assumes "deficiency_inv h cm (dp_sf_to_m dp)" and "dp_sf_to_m dp m = None" and "h m = Some mm"
    and "mm_feed mm = Some (SFeed sf)" and "modest sf"
    and "map_of cm (sf_FEEDCODE sf) = Some (Some c)"
    and "ctx_expectTimestamp c = Some (sf_EXCHANGE_TIMESTAMP sf)"
  shows "exec_statistics m h cm dp =
    Inr (h, map_put (sf_FEEDCODE sf)
           (Some (c\<lparr>ctx_expectTimestamp := Some (s64 (sf_EXCHANGE_TIMESTAMP sf + INTERVAL))\<rparr>)) cm,
         dp\<lparr>dp_res := turnover_result sf (dp_res dp)\<rparr>)"
  using assms by (rule exec_statistics_on_time)

theorem on_time_feed_witness:
  "exec_statistics 0 [0 \<mapsto> sample_mm 0 7 500000000] [(''000001.SZ'', Some (sample_context 500000000))]
      DeficiencyProcessor_new =
    Inr ([0 \<mapsto> sample_mm 0 7 500000000], [(''000001.SZ'', Some (sample_context 1000000000))], DeficiencyProcessor_new)"
  using on_time_feed [of "[0 \<mapsto> sample_mm 0 7 500000000]" "[(''000001.SZ'', Some (sample_context 500000000))]"
      DeficiencyProcessor_new 0 "sample_mm 0 7 500000000" "sample_feed 500000000" "sample_context 500000000"]
  by (simp add: DeficiencyProcessor_new_def sample_deficiency_inv sample_range sample_modest
      INTERVAL_def s64_id turnover_result_def)

text \<open>
  C8: a delayed feed blocks its partition for good. A parsed feed that is earlier than its
  context expects is reported; its message is never finished afterwards: in every
  continuation it is still allocated with counter 1, and it stays in the queue of its
  partition, so that neither it nor any later message of that partition is ever committed.
\<close>

theorem delayed_feed_blocks_partition:
  assumes "monitor_inv s" and "MyMessage_new rd message = Inr mm" and "mm_feed mm = Some (SFeed sf)"
    and "modest sf" and "map_of (mo_cm s) (sf_FEEDCODE sf) = Some (Some c)"
    and "ctx_expectTimestamp c = Some et" and "sf_EXCHANGE_TIMESTAMP sf < et"
    and "\<And>a. a \<in> set as \<Longrightarrow> acceptable_action rd a"
  shows "\<exists>s1 s2. EventLoop_iteration rd (ERR_NO_ERROR, message) s = Inr s1 \<and>
    delay_report (sf_FEEDCODE sf) et (sf_EXCHANGE_TIMESTAMP sf) \<in> set (el_produced (mo_loop s1)) \<and>
    run_actions rd as s1 = Inr s2 \<and> mo_next s \<in> set (queue_of (mo_loop s2) (rk_partition message)) \<and>
    (\<exists>mm'. mo_heap s2 (mo_next s) = Some mm' \<and> mm_live mm' = 1)"
proof -
  obtain s1 where s1: "EventLoop_iteration rd (ERR_NO_ERROR, message) s = Inr s1" "monitor_inv s1"
    "orphan s1 (mo_next s)" "behind s1 (rk_partition message) (mo_next s) []"
    "delay_report (sf_FEEDCODE sf) et (sf_EXCHANGE_TIMESTAMP sf) \<in> set (el_produced (mo_loop s1))"
    using delayed_iteration [OF assms(1-7)] by auto
  obtain s2 where s2: "run_actions rd as s1 = Inr s2"
    using run_actions_ok [OF s1(2)] assms(8) by blast
  have "monitor_inv s2 \<and> orphan s2 (mo_next s) \<and> behind s2 (rk_partition message) (mo_next s) []"
    using orphan_run [OF s1(2) _ s1(3,4) s2] assms(8) by blast
  with orphan_alive s1 s2 show ?thesis by (auto simp: behind_def)
qed

theorem delayed_feed_blocks_partition_witness:
  "\<exists>s1 s2. EventLoop_iteration sample_reader (ERR_NO_ERROR, sample_message 0 7 500000000) (sample_monitor 1000000000) = Inr s1 \<and>
    run_actions sample_reader [Consume (ERR_NO_ERROR, sample_message 0 8 1000000000), Backup] s1 = Inr s2 \<and>
    0 \<in> set (queue_of (mo_loop s2) 0)"
proof -
  have "acceptable_action sample_reader a"
    if "a \<in> set [Consume (ERR_NO_ERROR, sample_message 0 8 1000000000), Backup]" for a
    using that by (auto simp: acceptable_action_def sample_acceptable sample_range)
  from delayed_feed_blocks_partition [where s = "sample_monitor 1000000000" and rd = sample_reader and
      message = "sample_message 0 7 500000000" and c = "sample_context 1000000000" and et = 1000000000 and
      as = "[Consume (ERR_NO_ERROR, sample_message 0 8 1000000000), Backup]",
      OF sample_monitor_inv [OF sample_range(2)] sample_new [OF sample_range(1)] sample_mm_simps(1)
        sample_modest [OF sample_range(1)] _ _ _ this]
  show ?thesis by (auto simp: sample_monitor_def monitor_init_def simp del: run_actions.simps)
qed

text \<open>
  C9: the two threads do not exclude each other. When the backup runs after the event loop
  has entered a message in its queue and before the processors have seen it, the outcome depends on the
  older messages in the queue of its partition. If all of them are finished, the new message is deleted
  with them and the deficiency check reads freed memory. If one of them is still held, the backup stops
  before the new message, and it is processed as usual.
\<close>

theorem overlapping_backup_frees_message:
  assumes "monitor_inv s" and "acceptable rd message"
  shows "if \<forall>m \<in> set (queue_of (mo_loop s) (rk_partition message)). free_at (mo_heap s) m
    then bindR (receive rd message s) (\<lambda>s1. bindR (backup s1) (process (mo_next s))) = Inl Use_After_Free
    else \<exists>s'. bindR (receive rd message s) (\<lambda>s1. bindR (backup s1) (process (mo_next s))) = Inr s' \<and> monitor_inv s'"
  using overlapping_backup_freed [OF assms] overlapping_backup_kept [OF assms] by simp

theorem overlapping_backup_frees_message_witness:
  "bindR (receive sample_reader (sample_message 0 7 0) monitor_init)
     (\<lambda>s1. bindR (backup s1) (process (mo_next monitor_init))) = Inl Use_After_Free"
  using overlapping_backup_frees_message [OF monitor_init_inv sample_acceptable [OF sample_range(3)], of 0 7]
  by (simp add: queue_of_def monitor_init_def EventLoop_addProcessor_def EventLoop_new_def)

text \<open>
  C10: a context is unlocked twice whenever feeds stay waiting: once when the loop finds the
  first feed of the queue too early, and again at the end of the handler. With no feed
  waiting it is unlocked once.
\<close>

theorem waiting_context_unlocked_twice:
  assumes "step_pre (sf_FEEDCODE sf) m sf h s2m c" and "in_range 64 et"
    and "insert_and_drain (sf_FEEDCODE sf) m sf et h s2m c r = Inr (h', s2m', c', r')"
  shows "ctx_bad_unlocks c' = (if waiting c' = {} then ctx_bad_unlocks c else Suc (ctx_bad_unlocks c))"
  using assms by (rule insert_and_drain_double_unlock)

definition sample_held :: heap where
  "sample_held = [0 \<mapsto> (sample_mm 0 7 1000000000)\<lparr>mm_live := 1\<rparr>]"

lemma sample_step_pre:
  "step_pre ''000001.SZ'' 0 (sample_feed 1000000000) sample_held [0 \<mapsto> 0] (Context_lock (sample_context 0))"
  using sample_modest [OF sample_range(2)]
  by (auto simp: step_pre_def sample_held_def counted_def sf_at_eq_Inr assigned_def Context_lock_def
      sample_context_def in_range_def split: if_splits)

theorem waiting_context_unlocked_twice_witness:
  "\<exists>h' s2m' c' r'. insert_and_drain ''000001.SZ'' 0 (sample_feed 1000000000) 0 sample_held [0 \<mapsto> 0]
      (Context_lock (sample_context 0)) \<lparr>pr_json = [], pr_code = OK\<rparr> = Inr (h', s2m', c', r') \<and>
    (waiting c' \<noteq> {} \<longrightarrow> ctx_bad_unlocks c' = 1)"
proof -
  have pre: "step_pre (sf_FEEDCODE (sample_feed 1000000000)) 0 (sample_feed 1000000000) sample_held [0 \<mapsto> 0]
      (Context_lock (sample_context 0))" using sample_step_pre by simp
  obtain h' s2m' c' r' where run: "insert_and_drain (sf_FEEDCODE (sample_feed 1000000000)) 0 (sample_feed 1000000000) 0
      sample_held [0 \<mapsto> 0] (Context_lock (sample_context 0)) \<lparr>pr_json = [], pr_code = OK\<rparr> = Inr (h', s2m', c', r')"
    using insert_and_drain_ok [OF pre sample_range(3)] by blast
  with waiting_context_unlocked_twice [OF pre sample_range(3) run] show ?thesis
    by (auto simp: Context_lock_def sample_context_def)
qed

text \<open>
  C11: the validity check of a parsed message whose report fits: a price feed is always
  printed, with code \<open>WARN\<close> exactly when its bid is not below its ask, a price is outside
  \<open>(0, 1e15)\<close>, or a volume is negative; any other feed leaves an empty \<open>OK\<close> result. The upper
  bounds on the volumes never matter for 32-bit values.
\<close>

theorem validity_exec_result:
  assumes "h m = Some mm" and "parsed mm"
    and "\<And>pf. mm_feed mm = Some (PFeed pf) \<Longrightarrow> length (validity_report pf) < 200 \<and>
           in_range 32 (pf_BID_VOLUME pf) \<and> in_range 32 (pf_ASK_VOLUME pf)"
  shows "ValidityProcessor_exec m h vp =
    Inr (vp\<lparr>vp_res :=
      (case mm_feed mm of
         Some (PFeed pf) \<Rightarrow>
           \<lparr>pr_json = [validity_report pf],
            pr_code = (if \<not> (0 < pf_BID_PRICE pf \<and> pf_BID_PRICE pf < pf_ASK_PRICE pf \<and>
                               pf_ASK_PRICE pf < 1000000000000000) \<or>
                          pf_BID_VOLUME pf < 0 \<or> pf_ASK_VOLUME pf < 0 then WARN else OK)\<rparr>
       | _ \<Rightarrow> \<lparr>pr_json = [], pr_code = OK\<rparr>)\<rparr>)"
proof -
  have p: "invalid_price pf \<longleftrightarrow> \<not> (0 < pf_BID_PRICE pf \<and> pf_BID_PRICE pf < pf_ASK_PRICE pf \<and>
      pf_ASK_PRICE pf < 1000000000000000)" for pf :: PriceFeed
    by (auto simp: invalid_price_def)
  show ?thesis
    using ValidityProcessor_exec_parsed [of h m mm vp] assms invalid_volume_s32
    by (cases "mm_feed mm") (auto simp: p split: feed.splits)
qed

definition sample_price :: PriceFeed where
  "sample_price = new_PriceFeed\<lparr>pf_FEEDCODE := ''000001.SZ'', pf_BID_PRICE := 12, pf_ASK_PRICE := 11\<rparr>"

lemma sample_price_fits: "length (validity_report sample_price) < 200"
  using fmt_f_of_nat [of 12] fmt_f_of_nat [of 11]
  by (simp add: validity_report_def sample_price_def new_PriceFeed_def show_int_def show_nat.simps
      validity_log_def invalid_price_def invalid_volume_def c_str_def)

theorem validity_exec_result_witness:
  "ValidityProcessor_exec 0
     [0 \<mapsto> \<lparr>mm_message = sample_message 0 7 0, mm_live = 0, mm_feed = Some (PFeed sample_price), mm_type = Some FT_Price\<rparr>]
     ValidityProcessor_new =
   Inr (ValidityProcessor_new\<lparr>vp_res := \<lparr>pr_json = [validity_report sample_price], pr_code = WARN\<rparr>\<rparr>)"
  using validity_exec_result [of
      "[0 \<mapsto> \<lparr>mm_message = sample_message 0 7 0, mm_live = 0, mm_feed = Some (PFeed sample_price), mm_type = Some FT_Price\<rparr>]"
      0 "\<lparr>mm_message = sample_message 0 7 0, mm_live = 0, mm_feed = Some (PFeed sample_price), mm_type = Some FT_Price\<rparr>"
      ValidityProcessor_new] sample_price_fits
  by (simp add: parsed_def) (simp add: sample_price_def new_PriceFeed_def in_range_def)

text \<open>
  C13: a feedcode of 71 characters or more overflows the 200 characters of the report about
  invalid turnover figures.
\<close>

theorem long_feedcode_overflows:
  assumes "h m = Some mm" and "mm_feed mm = Some (SFeed sf)" and "invalid_turnover sf"
    and "71 \<le> length (c_str (sf_FEEDCODE sf))"
  shows "exec_statistics m h cm dp = Inl Buffer_Overflow"
proof -
  have "length (turnover_report (sf_FEEDCODE sf) sf invalid_log) =
      119 + length (c_str (sf_FEEDCODE sf)) + length (show_int (sf_TIMESTAMP sf)) +
      length (show_int (sf_TURNOVER_VOLUME sf)) + length (fmt_f (sf_TURNOVER_VALUE sf))"
    by (simp add: turnover_report_def invalid_log_def)
  then have "200 \<le> length (turnover_report (sf_FEEDCODE sf) sf invalid_log)"
    using assms(4) length_show_int_ge [of "sf_TIMESTAMP sf"] length_show_int_ge [of "sf_TURNOVER_VOLUME sf"]
      length_fmt_f_ge [of "sf_TURNOVER_VALUE sf"] by linarith
  then show ?thesis
    using assms by (simp add: exec_statistics_def sf_at_def MyMessage_feed_def check_turnover_def report_to_def
        sprintf_to_def Let_def)
qed

definition sample_long :: StatisticsFeed where
  "sample_long = new_StatisticsFeed\<lparr>sf_FEEDCODE := replicate 71 (CHR ''A'')\<rparr>"

theorem long_feedcode_overflows_witness:
  "exec_statistics 0 [0 \<mapsto> (sample_mm 0 7 0)\<lparr>mm_feed := Some (SFeed sample_long)\<rparr>] [] DeficiencyProcessor_new =
   Inl Buffer_Overflow"
proof -
  have "invalid_turnover sample_long" "71 \<le> length (c_str (sf_FEEDCODE sample_long))"
    by (simp_all add: sample_long_def invalid_turnover_def new_StatisticsFeed_def c_str_def)
  then show ?thesis
    using long_feedcode_overflows [of "[0 \<mapsto> (sample_mm 0 7 0)\<lparr>mm_feed := Some (SFeed sample_long)\<rparr>]" 0
        "(sample_mm 0 7 0)\<lparr>mm_feed := Some (SFeed sample_long)\<rparr>" sample_long "[]" DeficiencyProcessor_new] by simp
qed

text \<open>
  C14: a payload that is not valid JSON makes the monitor read a member that was never
  assigned: the constructor leaves \<open>_type\<close> unset, and the first processor reads it.
\<close>

theorem unparsed_payload_reads_unassigned:
  assumes "monitor_inv s" and "rk_payload message = Some body" and "rd body = None"
  shows "EventLoop_iteration rd (ERR_NO_ERROR, message) s = Inl Indeterminate"
proof -
  obtain dp :: DeficiencyProcessor and vp where "el_processors (mo_loop s) = [PDeficiency dp, PValidity vp]"
    using assms(1) unfolding monitor_inv_def by blast
  then show ?thesis using assms(2,3)
    by (simp add: EventLoop_iteration_def msg_consume_def receive_def MyMessage_new_def process_def
        processor_exec_def DeficiencyProcessor_exec_def MyMessage_type_def)
qed

theorem unparsed_payload_reads_unassigned_witness:
  "EventLoop_iteration (\<lambda>_. None) (ERR_NO_ERROR, sample_message 0 7 0) monitor_init = Inl Indeterminate"
  by (rule unparsed_payload_reads_unassigned [OF monitor_init_inv]) (simp_all add: sample_message_def)

end
