(* ===== verification/C_String.thy ===== *)
theory C_String
  imports Olog_Prelude
begin

text \<open>
  What the library uses of the C string functions. A C string is a list of characters
  without NUL; \<open>strcmp\<close> is given by the sign of its result, which is all that C fixes.
\<close>

fun strcmp :: "string \<Rightarrow> string \<Rightarrow> int" where
  "strcmp [] [] = 0"
| "strcmp [] (b # bs) = -1"
| "strcmp (a # as) [] = 1"
| "strcmp (a # as) (b # bs) =
     (if a = b then strcmp as bs
      else if (of_char a :: nat) < of_char b then -1 else 1)"

lemma strcmp_eq_0: "strcmp s t = 0 \<longleftrightarrow> s = t"
  by (induction s t rule: strcmp.induct) auto

lemma strcmp_flip: "strcmp s t = - strcmp t s"
  by (induction s t rule: strcmp.induct) (auto simp: of_char_eq_iff dest: order.antisym)

lemma strcmp_trans: "strcmp s t < 0 \<Longrightarrow> strcmp t u < 0 \<Longrightarrow> strcmp s u < 0"
proof (induction s t arbitrary: u rule: strcmp.induct)
  case (4 a as b bs)
  then show ?case by (cases u) (auto split: if_splits)
next
  case (2 b bs)
  then show ?case by (cases u) auto
qed auto

end
