(* ===== verification/Rdavl.thy ===== *)
theory Rdavl
  imports C_String
begin

text \<open>
  \<open>rdavl.c\<close>, \<open>rdavl.h\<close>: AVL trees with a stored height. A subtree pointer is a tree value,
  \<open>NULL\<close> is \<open>ANil\<close>; the element of a node is any type, the comparator a parameter.

  Two points of the code are kept as they are. A new node has height 0, like the null
  pointer, until it is balanced. \<open>rd_avl_rotate\<close> and \<open>rd_avl_balance_node\<close> call each other
  without a bound that is visible in the code: the model is a partial function, and that it
  returns is a theorem.
\<close>

section \<open>Trees\<close>

datatype rd_avl_dir = RD_AVL_LEFT | RD_AVL_RIGHT

datatype 'a rd_avl_node = ANil | ANode (ran_left: "'a rd_avl_node") (ran_height: int) (ran_elm: 'a)
    (ran_right: "'a rd_avl_node")

type_synonym 'a rd_avl_cmp = "'a \<Rightarrow> 'a \<Rightarrow> int"

record 'a rd_avl =
  ravl_root :: "'a rd_avl_node"
  ravl_cmp :: "'a rd_avl_cmp"
  ravl_flags :: nat

fun NODE_HEIGHT :: "'a rd_avl_node \<Rightarrow> int" where
  "NODE_HEIGHT ANil = 0"
| "NODE_HEIGHT (ANode l h e r) = h"

fun NODE_DELTA :: "'a rd_avl_node \<Rightarrow> int" where
  "NODE_DELTA ANil = 0"
| "NODE_DELTA (ANode l h e r) = NODE_HEIGHT l - NODE_HEIGHT r"

section \<open>Balancing\<close>

text \<open>
  \<open>rd_avl_rotate\<close>, with the balancing function it calls as an argument; \<open>None\<close> when it follows
  a null pointer or does not return.
\<close>

fun rotate_with ::
  "('a rd_avl_node \<Rightarrow> 'a rd_avl_node option) \<Rightarrow> 'a rd_avl_node \<Rightarrow> rd_avl_dir \<Rightarrow> 'a rd_avl_node option" where
  "rotate_with bal (ANode l h e (ANode nl nh ne nr)) RD_AVL_LEFT =
     Option.bind (bal (ANode l h e nl)) (\<lambda>x. bal (ANode x nh ne nr))"
| "rotate_with bal (ANode (ANode nl nh ne nr) h e r) RD_AVL_RIGHT =
     Option.bind (bal (ANode nr h e r)) (\<lambda>x. bal (ANode nl nh ne x))"
| "rotate_with bal _ _ = None"

lemma rotate_with_mono [partial_function_mono]:
  "mono_option (\<lambda>f. rotate_with f t d)"
proof (cases "(\<lambda>_ :: 'a rd_avl_node. None :: 'a rd_avl_node option, t, d)" rule: rotate_with.cases)
  case (1 bal l h e nl nh ne nr)
  have "mono_option (\<lambda>f. Option.bind (f (ANode l h e nl)) (\<lambda>x. f (ANode x nh ne nr)))"
    by (intro partial_function_mono)
  with 1 show ?thesis by simp
next
  case (2 bal nl nh ne nr h e r)
  have "mono_option (\<lambda>f. Option.bind (f (ANode nr h e r)) (\<lambda>x. f (ANode nl nh ne x)))"
    by (intro partial_function_mono)
  with 2 show ?thesis by simp
qed (simp_all add: monotone_def fun_ord_def option.leq_refl)

definition set_height :: "'a rd_avl_node \<Rightarrow> 'a rd_avl_node" where
  "set_height t =
     (case t of
        ANil \<Rightarrow> ANil
      | ANode l h e r \<Rightarrow>
          let h0 = (0::int);
              h1 = (if NODE_HEIGHT l > h0 then NODE_HEIGHT l else h0);
              h2 = (if NODE_HEIGHT r > h1 then NODE_HEIGHT r else h1)
          in ANode l (h2 + 1) e r)"

partial_function (option) rd_avl_balance_node :: "'a rd_avl_node \<Rightarrow> 'a rd_avl_node option" where
  "rd_avl_balance_node rn =
     (case rn of
        ANil \<Rightarrow> None
      | ANode l h e r \<Rightarrow>
          if NODE_DELTA rn < -1 then
            Option.bind (if NODE_DELTA r > 0 then rotate_with rd_avl_balance_node r RD_AVL_RIGHT else Some r)
              (\<lambda>r1. rotate_with rd_avl_balance_node (ANode l h e r1) RD_AVL_LEFT)
          else if NODE_DELTA rn > 1 then
            Option.bind (if NODE_DELTA l < 0 then rotate_with rd_avl_balance_node l RD_AVL_LEFT else Some l)
              (\<lambda>l1. rotate_with rd_avl_balance_node (ANode l1 h e r) RD_AVL_RIGHT)
          else Some (set_height rn))"

definition rd_avl_rotate :: "'a rd_avl_node \<Rightarrow> rd_avl_dir \<Rightarrow> 'a rd_avl_node option" where
  "rd_avl_rotate = rotate_with rd_avl_balance_node"

section \<open>Operations\<close>

text \<open>The tree after the insertion, and the node it replaced.\<close>

fun rd_avl_insert_node ::
  "'a rd_avl_cmp \<Rightarrow> 'a rd_avl_node \<Rightarrow> 'a \<Rightarrow> ('a rd_avl_node \<times> 'a option) option" where
  "rd_avl_insert_node cmp ANil x = Some (ANode ANil 0 x ANil, None)"
| "rd_avl_insert_node cmp (ANode l h e r) x =
     (let c = cmp x e
      in if c = 0 then Some (ANode l h x r, Some e)
         else if c < 0 then
           Option.bind (rd_avl_insert_node cmp l x) (\<lambda>(l1, ex).
           Option.bind (rd_avl_balance_node (ANode l1 h e r)) (\<lambda>t. Some (t, ex)))
         else
           Option.bind (rd_avl_insert_node cmp r x) (\<lambda>(r1, ex).
           Option.bind (rd_avl_balance_node (ANode l h e r1)) (\<lambda>t. Some (t, ex))))"

fun rd_avl_move :: "'a rd_avl_node \<Rightarrow> 'a rd_avl_node \<Rightarrow> rd_avl_dir \<Rightarrow> 'a rd_avl_node option" where
  "rd_avl_move ANil src dir = Some src"
| "rd_avl_move (ANode l h e r) src dir =
     (case dir of
        RD_AVL_LEFT \<Rightarrow> Option.bind (rd_avl_move l src dir) (\<lambda>l1. rd_avl_balance_node (ANode l1 h e r))
      | RD_AVL_RIGHT \<Rightarrow> Option.bind (rd_avl_move r src dir) (\<lambda>r1. rd_avl_balance_node (ANode l h e r1)))"

definition rd_avl_remove_node0 :: "'a rd_avl_node \<Rightarrow> 'a rd_avl_node option" where
  "rd_avl_remove_node0 rn = rd_avl_move (ran_left rn) (ran_right rn) RD_AVL_RIGHT"

fun rd_avl_remove_elm0 :: "'a rd_avl_cmp \<Rightarrow> 'a rd_avl_node \<Rightarrow> 'a \<Rightarrow> 'a rd_avl_node option" where
  "rd_avl_remove_elm0 cmp ANil x = Some ANil"
| "rd_avl_remove_elm0 cmp (ANode l h e r) x =
     (let c = cmp x e
      in if c = 0 then rd_avl_remove_node0 (ANode l h e r)
         else if c < 0 then
           Option.bind (rd_avl_remove_elm0 cmp l x) (\<lambda>l1. rd_avl_balance_node (ANode l1 h e r))
         else
           Option.bind (rd_avl_remove_elm0 cmp r x) (\<lambda>r1. rd_avl_balance_node (ANode l h e r1)))"

fun rd_avl_find_node :: "'a rd_avl_cmp \<Rightarrow> 'a rd_avl_node \<Rightarrow> 'a \<Rightarrow> 'a rd_avl_node" where
  "rd_avl_find_node cmp ANil x = ANil"
| "rd_avl_find_node cmp (ANode l h e r) x =
     (let c = cmp x e
      in if c = 0 then ANode l h e r
         else if c < 0 then rd_avl_find_node cmp l x
         else rd_avl_find_node cmp r x)"

definition RD_AVL_F_LOCKS :: nat where "RD_AVL_F_LOCKS = 1"

definition RD_AVL_F_OWNER :: nat where "RD_AVL_F_OWNER = 2"

text \<open>\<open>rd_avl_init\<close> on a null pointer (\<open>alloc\<close>) or on storage of the caller.\<close>

definition rd_avl_init :: "bool \<Rightarrow> 'a rd_avl_cmp \<Rightarrow> nat \<Rightarrow> 'a rd_avl" where
  "rd_avl_init alloc cmp flags =
     \<lparr>ravl_root = ANil, ravl_cmp = cmp,
      ravl_flags = (if alloc then Bit_Operations.or flags RD_AVL_F_OWNER else flags)\<rparr>"

definition rd_avl_insert :: "'a rd_avl \<Rightarrow> 'a \<Rightarrow> ('a rd_avl \<times> 'a option) option" where
  "rd_avl_insert ravl x =
     Option.bind (rd_avl_insert_node (ravl_cmp ravl) (ravl_root ravl) x) (\<lambda>(t, ex).
       Some (ravl\<lparr>ravl_root := t\<rparr>, ex))"

definition rd_avl_remove_elm :: "'a rd_avl \<Rightarrow> 'a \<Rightarrow> 'a rd_avl option" where
  "rd_avl_remove_elm ravl x =
     Option.bind (rd_avl_remove_elm0 (ravl_cmp ravl) (ravl_root ravl) x) (\<lambda>t. Some (ravl\<lparr>ravl_root := t\<rparr>))"

definition rd_avl_find :: "'a rd_avl \<Rightarrow> 'a \<Rightarrow> 'a option" where
  "rd_avl_find ravl x =
     (case rd_avl_find_node (ravl_cmp ravl) (ravl_root ravl) x of ANil \<Rightarrow> None | ANode l h e r \<Rightarrow> Some e)"

section \<open>Balance\<close>

text \<open>
  The stored heights are consistent: one more than the higher child, or 0 at a new leaf; the
  children differ by at most one.
\<close>

fun avl_ok :: "'a rd_avl_node \<Rightarrow> bool" where
  "avl_ok ANil = True"
| "avl_ok (ANode l h e r) =
     (avl_ok l \<and> avl_ok r \<and> \<bar>NODE_HEIGHT l - NODE_HEIGHT r\<bar> \<le> 1 \<and>
      (h = 1 + max (NODE_HEIGHT l) (NODE_HEIGHT r) \<or> (l = ANil \<and> r = ANil \<and> h = 0)))"

fun inorder :: "'a rd_avl_node \<Rightarrow> 'a list" where
  "inorder ANil = []"
| "inorder (ANode l h e r) = inorder l @ e # inorder r"

lemma height_nonneg: "avl_ok t \<Longrightarrow> 0 \<le> NODE_HEIGHT t"
  by (induction t) auto

lemma height_pos_node: "avl_ok t \<Longrightarrow> 0 < NODE_HEIGHT t \<Longrightarrow>
    \<exists>l e r. t = ANode l (1 + max (NODE_HEIGHT l) (NODE_HEIGHT r)) e r \<and> avl_ok l \<and> avl_ok r \<and>
      \<bar>NODE_HEIGHT l - NODE_HEIGHT r\<bar> \<le> 1"
  by (cases t) auto

lemma balance_near:
  assumes "avl_ok l" and "avl_ok r" and "\<bar>NODE_HEIGHT l - NODE_HEIGHT r\<bar> \<le> 1"
  shows "rd_avl_balance_node (ANode l h e r) = Some (ANode l (1 + max (NODE_HEIGHT l) (NODE_HEIGHT r)) e r)"
  using assms height_nonneg [OF assms(1)] height_nonneg [OF assms(2)]
  by (subst rd_avl_balance_node.simps) (auto simp: set_height_def Let_def max_def)

text \<open>The steps of the two heavy cases.\<close>

lemma balance_right:
  assumes "NODE_HEIGHT l + 1 < rh" and "NODE_HEIGHT rl \<le> NODE_HEIGHT rr"
  shows "rd_avl_balance_node (ANode l h e (ANode rl rh re rr)) =
    Option.bind (rd_avl_balance_node (ANode l h e rl)) (\<lambda>x. rd_avl_balance_node (ANode x rh re rr))"
  using assms by (subst rd_avl_balance_node.simps) simp

lemma balance_right_double:
  assumes "NODE_HEIGHT l + 1 < rh" and "NODE_HEIGHT rr < nh"
  shows "rd_avl_balance_node (ANode l h e (ANode (ANode a nh ne b) rh re rr)) =
    Option.bind (Option.bind (rd_avl_balance_node (ANode b rh re rr)) (\<lambda>x. rd_avl_balance_node (ANode a nh ne x)))
      (\<lambda>r1. rotate_with rd_avl_balance_node (ANode l h e r1) RD_AVL_LEFT)"
  using assms by (subst rd_avl_balance_node.simps) simp

lemma balance_left_double:
  assumes "NODE_HEIGHT r + 1 < lh" and "NODE_HEIGHT ll < nh"
  shows "rd_avl_balance_node (ANode (ANode ll lh le (ANode a nh ne b)) h e r) =
    Option.bind (Option.bind (rd_avl_balance_node (ANode ll lh le a)) (\<lambda>x. rd_avl_balance_node (ANode x nh ne b)))
      (\<lambda>l1. rotate_with rd_avl_balance_node (ANode l1 h e r) RD_AVL_RIGHT)"
  using assms by (subst rd_avl_balance_node.simps) simp

text \<open>The code is symmetric.\<close>

fun mirror :: "'a rd_avl_node \<Rightarrow> 'a rd_avl_node" where
  "mirror ANil = ANil"
| "mirror (ANode l h e r) = ANode (mirror r) h e (mirror l)"

lemma mirror_simps [simp]:
  "mirror (mirror t) = t" "NODE_HEIGHT (mirror t) = NODE_HEIGHT t" "NODE_DELTA (mirror t) = - NODE_DELTA t"
  "inorder (mirror t) = rev (inorder t)" "mirror t = ANil \<longleftrightarrow> t = ANil"
proof -
  show h: "NODE_HEIGHT (mirror t) = NODE_HEIGHT t" for t :: "'a rd_avl_node" by (cases t) auto
  show "NODE_DELTA (mirror t) = - NODE_DELTA t" by (cases t) (auto simp: h)
  show "mirror (mirror t) = t" "inorder (mirror t) = rev (inorder t)" by (induction t) auto
  show "mirror t = ANil \<longleftrightarrow> t = ANil" by (cases t) auto
qed

lemma avl_ok_mirror [simp]: "avl_ok (mirror t) = avl_ok t"
  by (induction t) (auto simp: abs_minus_commute max.commute)

lemma rotate_mirror:
  assumes "\<And>t u. f t = Some u \<Longrightarrow> g (mirror t) = Some (mirror u)"
  shows "rotate_with f t RD_AVL_LEFT = Some u \<Longrightarrow> rotate_with g (mirror t) RD_AVL_RIGHT = Some (mirror u)"
    and "rotate_with f t RD_AVL_RIGHT = Some u \<Longrightarrow> rotate_with g (mirror t) RD_AVL_LEFT = Some (mirror u)"
proof -
  show "rotate_with f t RD_AVL_LEFT = Some u \<Longrightarrow> rotate_with g (mirror t) RD_AVL_RIGHT = Some (mirror u)"
    by (cases "(f, t, RD_AVL_LEFT)" rule: rotate_with.cases) (auto simp: bind_eq_Some_conv dest!: assms)
  show "rotate_with f t RD_AVL_RIGHT = Some u \<Longrightarrow> rotate_with g (mirror t) RD_AVL_LEFT = Some (mirror u)"
    by (cases "(f, t, RD_AVL_RIGHT)" rule: rotate_with.cases) (auto simp: bind_eq_Some_conv dest!: assms)
qed

lemma balance_mirror:
  assumes "rd_avl_balance_node t = Some u"
  shows "rd_avl_balance_node (mirror t) = Some (mirror u)"
  using assms
proof (induct rule: rd_avl_balance_node.raw_induct [rotated, consumes 1, case_names step])
  case (step f t u)
  have rot: "rotate_with f x RD_AVL_LEFT = Some y \<Longrightarrow> rotate_with rd_avl_balance_node (mirror x) RD_AVL_RIGHT = Some (mirror y)"
    "rotate_with f x RD_AVL_RIGHT = Some y \<Longrightarrow> rotate_with rd_avl_balance_node (mirror x) RD_AVL_LEFT = Some (mirror y)"
    for x y using rotate_mirror [of f rd_avl_balance_node x y] step(1) by blast+
  show ?case
  proof (cases t)
    case ANil
    then show ?thesis using step(2) by simp
  next
    case (ANode l h e r)
    let ?d = "NODE_HEIGHT l - NODE_HEIGHT r"
    consider "?d < - 1" | "1 < ?d" | "\<bar>?d\<bar> \<le> 1" by linarith
    then show ?thesis
    proof cases
      case 1
      with step(2) ANode obtain r1 where
        r1: "(if NODE_DELTA r > 0 then rotate_with f r RD_AVL_RIGHT else Some r) = Some r1"
          "rotate_with f (ANode l h e r1) RD_AVL_LEFT = Some u" by (auto simp: bind_eq_Some_conv)
      have "(if NODE_DELTA (mirror r) < 0 then rotate_with rd_avl_balance_node (mirror r) RD_AVL_LEFT
          else Some (mirror r)) = Some (mirror r1)" using r1(1) rot(2) by (auto split: if_splits)
      moreover have "rotate_with rd_avl_balance_node (ANode (mirror r1) h e (mirror l)) RD_AVL_RIGHT = Some (mirror u)"
        using rot(1) [OF r1(2)] by simp
      ultimately show ?thesis using 1 ANode by (subst rd_avl_balance_node.simps) simp
    next
      case 2
      with step(2) ANode obtain l1 where
        l1: "(if NODE_DELTA l < 0 then rotate_with f l RD_AVL_LEFT else Some l) = Some l1"
          "rotate_with f (ANode l1 h e r) RD_AVL_RIGHT = Some u" by (auto simp: bind_eq_Some_conv)
      have "(if NODE_DELTA (mirror l) > 0 then rotate_with rd_avl_balance_node (mirror l) RD_AVL_RIGHT
          else Some (mirror l)) = Some (mirror l1)" using l1(1) rot(1) by (auto split: if_splits)
      moreover have "rotate_with rd_avl_balance_node (ANode (mirror r) h e (mirror l1)) RD_AVL_LEFT = Some (mirror u)"
        using rot(2) [OF l1(2)] by simp
      ultimately show ?thesis using 2 ANode by (subst rd_avl_balance_node.simps) simp
    next
      case 3
      then show ?thesis using step(2) ANode
        by (subst rd_avl_balance_node.simps) (auto simp: set_height_def Let_def)
    qed
  qed
qed

text \<open>What balancing gives for two balanced subtrees.\<close>

definition balances :: "'a rd_avl_node \<Rightarrow> 'a \<Rightarrow> 'a rd_avl_node \<Rightarrow> 'a rd_avl_node \<Rightarrow> bool" where
  "balances l e r t \<longleftrightarrow>
     avl_ok t \<and> inorder t = inorder l @ e # inorder r \<and>
     max (NODE_HEIGHT l) (NODE_HEIGHT r) \<le> NODE_HEIGHT t \<and>
     NODE_HEIGHT t \<le> max (NODE_HEIGHT l) (NODE_HEIGHT r) + 1"

lemma balances_mirror: "balances (mirror r) e (mirror l) (mirror t) \<longleftrightarrow> balances l e r t"
proof -
  have "rev (inorder t) = rev (inorder r) @ e # rev (inorder l) \<longleftrightarrow> inorder t = inorder l @ e # inorder r"
    by (metis append.assoc append_Cons append_Nil rev.simps(2) rev_append rev_rev_ident)
  then show ?thesis by (auto simp: balances_def max.commute)
qed

lemma balance_mirrored:
  assumes "\<exists>t. rd_avl_balance_node (ANode (mirror r) h e (mirror l)) = Some t \<and> balances (mirror r) e (mirror l) t"
  shows "\<exists>t. rd_avl_balance_node (ANode l h e r) = Some t \<and> balances l e r t"
proof -
  obtain t where t: "rd_avl_balance_node (ANode (mirror r) h e (mirror l)) = Some t"
    "balances (mirror r) e (mirror l) t" using assms by blast
  from balance_mirror [OF t(1)] have "rd_avl_balance_node (ANode l h e r) = Some (mirror t)" by simp
  moreover have "balances l e r (mirror t)" using t(2) balances_mirror [of r e l "mirror t"] by simp
  ultimately show ?thesis by blast
qed

text \<open>A difference of two.\<close>

lemma balance_two_right:
  assumes l: "avl_ok l" and r: "avl_ok r" and d: "NODE_HEIGHT r = NODE_HEIGHT l + 2"
  shows "\<exists>t. rd_avl_balance_node (ANode l h e r) = Some t \<and> balances l e r t"
proof -
  define H where "H = NODE_HEIGHT l"
  have H: "0 \<le> H" using height_nonneg [OF l] by (simp add: H_def)
  have hl: "NODE_HEIGHT l = H" by (simp add: H_def)
  obtain yl f yr where y: "r = ANode yl (H + 2) f yr" "avl_ok yl" "avl_ok yr"
      "\<bar>NODE_HEIGHT yl - NODE_HEIGHT yr\<bar> \<le> 1" "max (NODE_HEIGHT yl) (NODE_HEIGHT yr) = H + 1"
    using height_pos_node [OF r] d H by (auto simp: H_def)
  show ?thesis
  proof (cases "NODE_HEIGHT yl \<le> NODE_HEIGHT yr")
    case True
    then have yr: "NODE_HEIGHT yr = H + 1" using y(5) by simp
    have yl: "NODE_HEIGHT yl = H \<or> NODE_HEIGHT yl = H + 1" using True y(4) yr by auto
    have 1: "rd_avl_balance_node (ANode l h e yl) = Some (ANode l (1 + max H (NODE_HEIGHT yl)) e yl)"
      using balance_near [OF l y(2)] yl by (auto simp: hl)
    have 2: "rd_avl_balance_node (ANode (ANode l (1 + max H (NODE_HEIGHT yl)) e yl) (H + 2) f yr) =
        Some (ANode (ANode l (1 + max H (NODE_HEIGHT yl)) e yl) (1 + max (1 + max H (NODE_HEIGHT yl)) (H + 1)) f yr)"
      using balance_near [of "ANode l (1 + max H (NODE_HEIGHT yl)) e yl" yr] l y yl yr by (auto simp: hl)
    have "rd_avl_balance_node (ANode l h e r) =
        Some (ANode (ANode l (1 + max H (NODE_HEIGHT yl)) e yl) (1 + max (1 + max H (NODE_HEIGHT yl)) (H + 1)) f yr)"
      unfolding y(1) using balance_right [of l "H + 2" yl yr] True by (simp add: hl 1 2)
    moreover have "balances l e r (ANode (ANode l (1 + max H (NODE_HEIGHT yl)) e yl)
        (1 + max (1 + max H (NODE_HEIGHT yl)) (H + 1)) f yr)"
      using l y yl yr by (auto simp: balances_def hl)
    ultimately show ?thesis by blast
  next
    case False
    then have yl: "NODE_HEIGHT yl = H + 1" and yr: "NODE_HEIGHT yr = H" using y(4,5) by auto
    obtain c g b where b: "yl = ANode c (H + 1) g b" "avl_ok c" "avl_ok b"
        "\<bar>NODE_HEIGHT c - NODE_HEIGHT b\<bar> \<le> 1" "max (NODE_HEIGHT c) (NODE_HEIGHT b) = H"
      using height_pos_node [OF y(2)] yl H by auto
    let ?t = "ANode (ANode l (H + 1) e c) (H + 2) g (ANode b (H + 1) f yr)"
    have near_byr: "rd_avl_balance_node (ANode b k f yr) = Some (ANode b (H + 1) f yr)" for k
      using balance_near [OF b(3) y(3)] b(4,5) yr by (auto simp: max_def split: if_splits)
    have near_lc: "rd_avl_balance_node (ANode l k e c) = Some (ANode l (H + 1) e c)" for k
      using balance_near [OF l b(2)] b(4,5) by (auto simp: hl max_def split: if_splits)
    have okb: "avl_ok (ANode b (H + 1) f yr)" "avl_ok (ANode l (H + 1) e c)"
      using b y(3) yr l by (auto simp: hl max_def split: if_splits)
    have near_t: "rd_avl_balance_node (ANode (ANode l (H + 1) e c) k g (ANode b (H + 1) f yr)) = Some ?t" for k
      using balance_near [OF okb(2,1)] by (simp add: add.commute)
    have run: "rd_avl_balance_node (ANode l h e r) = Some ?t"
    proof (cases "NODE_HEIGHT c = H")
      case True
      have "rd_avl_balance_node (ANode c k g (ANode b (H + 1) f yr)) = Some (ANode c (H + 2) g (ANode b (H + 1) f yr))" for k
        using balance_near [OF b(2) okb(1)] True by (simp add: add.commute)
      then show ?thesis
        unfolding y(1) b(1) using balance_right_double [of l "H + 2" yr "H + 1" h e c g b f] yr
        by (simp add: hl near_byr near_lc near_t)
    next
      case False
      then have c: "NODE_HEIGHT c = H - 1" and hb: "NODE_HEIGHT b = H" using b(4,5) by auto
      have near_cb: "rd_avl_balance_node (ANode c k g b) = Some yl" for k
        using balance_near [OF b(2,3)] c hb by (simp add: b(1) add.commute)
      have near_y: "rd_avl_balance_node (ANode yl k f yr) = Some r" for k
        using balance_near [OF y(2,3)] yl yr by (simp add: y(1) add.commute)
      have undo: "rd_avl_balance_node (ANode c k g (ANode b (H + 1) f yr)) = Some r" for k
        using balance_right [of c "H + 1" b yr k g f] c hb yr by (simp add: near_cb near_y)
      have near_ly: "rd_avl_balance_node (ANode l k e yl) = Some (ANode l (H + 2) e yl)" for k
        using balance_near [OF l y(2)] yl by (simp add: hl add.commute)
      have near_lcb: "rd_avl_balance_node (ANode (ANode l (H + 1) e c) k g b) =
          Some (ANode (ANode l (H + 1) e c) (H + 2) g b)" for k
        using balance_near [OF okb(2) b(3)] hb by (simp add: add.commute)
      have "rd_avl_balance_node (ANode (ANode l (H + 2) e yl) k f yr) = Some ?t" for k
        unfolding b(1) using balance_left_double [of yr "H + 2" l "H + 1" e c g b k f] yr
        by (simp add: hl near_lc near_lcb near_byr near_t)
      then show ?thesis
        unfolding y(1) using balance_right_double [of l "H + 2" yr "H + 1" h e c g b f] yr
        by (simp add: hl b(1) [symmetric] near_byr undo near_ly) (simp add: y(1) near_ly)
    qed
    have "balances l e r ?t"
      using l y b okb yl yr by (auto simp: balances_def hl)
    with run show ?thesis by blast
  qed
qed

lemma balance_two_left:
  assumes "avl_ok l" and "avl_ok r" and "NODE_HEIGHT l = NODE_HEIGHT r + 2"
  shows "\<exists>t. rd_avl_balance_node (ANode l h e r) = Some t \<and> balances l e r t"
  by (rule balance_mirrored, rule balance_two_right) (use assms in simp_all)

text \<open>
  Any two balanced subtrees, as \<open>rd_avl_move\<close> hangs a whole tree below a node: the rotation
  recurses into a smaller pair and is left with a difference of at most two.
\<close>

lemma balance_heavy_right:
  assumes l: "avl_ok l" and r: "avl_ok r" and d: "NODE_HEIGHT l + 1 < NODE_HEIGHT r"
    and IH: "\<And>x h. avl_ok x \<Longrightarrow> size x < size r \<Longrightarrow>
      \<exists>t. rd_avl_balance_node (ANode l h e x) = Some t \<and> balances l e x t"
  shows "\<exists>t. rd_avl_balance_node (ANode l h e r) = Some t \<and> balances l e r t"
proof -
  define R where "R = NODE_HEIGHT r"
  have R: "2 \<le> R" using height_nonneg [OF l] d by (simp add: R_def)
  obtain yl f yr where y: "r = ANode yl R f yr" "avl_ok yl" "avl_ok yr"
      "\<bar>NODE_HEIGHT yl - NODE_HEIGHT yr\<bar> \<le> 1" "max (NODE_HEIGHT yl) (NODE_HEIGHT yr) = R - 1"
    using height_pos_node [OF r] R by (auto simp: R_def)
  have lR: "NODE_HEIGHT l + 1 < R" using d by (simp add: R_def)
  show ?thesis
  proof (cases "NODE_HEIGHT yl \<le> NODE_HEIGHT yr")
    case True
    obtain x where x: "rd_avl_balance_node (ANode l h e yl) = Some x" "balances l e yl x"
      using IH [OF y(2)] y(1) by auto
    have ok: "avl_ok x" and near: "\<bar>NODE_HEIGHT x - NODE_HEIGHT yr\<bar> \<le> 1"
      using x(2) True y(4,5) lR by (auto simp: balances_def)
    have "rd_avl_balance_node (ANode l h e r) = Some (ANode x (1 + max (NODE_HEIGHT x) (NODE_HEIGHT yr)) f yr)"
      unfolding y(1) using balance_right [OF lR True] x(1) balance_near [OF ok y(3) near] by simp
    moreover have "balances l e r (ANode x (1 + max (NODE_HEIGHT x) (NODE_HEIGHT yr)) f yr)"
      using x(2) near y True lR by (auto simp: balances_def)
    ultimately show ?thesis by blast
  next
    case False
    then have yl: "NODE_HEIGHT yl = R - 1" and yr: "NODE_HEIGHT yr = R - 2" using y(4,5) by auto
    obtain c g b where b: "yl = ANode c (R - 1) g b" "avl_ok c" "avl_ok b"
        "\<bar>NODE_HEIGHT c - NODE_HEIGHT b\<bar> \<le> 1" "max (NODE_HEIGHT c) (NODE_HEIGHT b) = R - 2"
      using height_pos_node [OF y(2)] yl R by auto
    have near_byr: "rd_avl_balance_node (ANode b k f yr) = Some (ANode b (R - 1) f yr)" for k
      using balance_near [OF b(3) y(3)] b(4,5) yr by (auto simp: max_def split: if_splits)
    have okb: "avl_ok (ANode b (R - 1) f yr)" using b y(3) yr by (auto simp: max_def split: if_splits)
    note double = balance_right_double [of l R yr "R - 1" h e c g b f, OF lR]
    show ?thesis
    proof (cases "NODE_HEIGHT c = R - 2")
      case True
      have near_c: "rd_avl_balance_node (ANode c k g (ANode b (R - 1) f yr)) = Some (ANode c R g (ANode b (R - 1) f yr))" for k
        using balance_near [OF b(2) okb] True by simp
      obtain x where x: "rd_avl_balance_node (ANode l h e c) = Some x" "balances l e c x"
        using IH [OF b(2)] y(1) b(1) by auto
      have ok: "avl_ok x" and near: "\<bar>NODE_HEIGHT x - (R - 1)\<bar> \<le> 1"
        using x(2) True lR by (auto simp: balances_def)
      have "rd_avl_balance_node (ANode l h e r) =
          Some (ANode x (1 + max (NODE_HEIGHT x) (R - 1)) g (ANode b (R - 1) f yr))"
        unfolding y(1) b(1) using double yr balance_near [OF ok okb] near by (simp add: near_byr near_c x(1))
      moreover have "balances l e r (ANode x (1 + max (NODE_HEIGHT x) (R - 1)) g (ANode b (R - 1) f yr))"
        using x(2) near okb y b True lR by (auto simp: balances_def)
      ultimately show ?thesis by blast
    next
      case False
      then have c: "NODE_HEIGHT c = R - 3" and hb: "NODE_HEIGHT b = R - 2" using b(4,5) by auto
      have near_cb: "rd_avl_balance_node (ANode c k g b) = Some yl" for k
        using balance_near [OF b(2,3)] c hb by (simp add: b(1))
      have near_y: "rd_avl_balance_node (ANode yl k f yr) = Some r" for k
        using balance_near [OF y(2,3)] yl yr by (simp add: y(1))
      have undo: "rd_avl_balance_node (ANode c k g (ANode b (R - 1) f yr)) = Some r" for k
        using balance_right [of c "R - 1" b yr k g f] c hb yr by (simp add: near_cb near_y)
      obtain x where x: "rd_avl_balance_node (ANode l h e yl) = Some x" "balances l e yl x"
        using IH [OF y(2)] y(1) by auto
      have ok: "avl_ok x" using x(2) by (simp add: balances_def)
      have "NODE_HEIGHT x = NODE_HEIGHT yr + 1 \<or> NODE_HEIGHT x = NODE_HEIGHT yr + 2"
        using x(2) yl yr lR by (auto simp: balances_def)
      then obtain t where t: "rd_avl_balance_node (ANode x R f yr) = Some t" "balances x f yr t"
        and tR: "R \<le> NODE_HEIGHT t"
      proof
        assume one: "NODE_HEIGHT x = NODE_HEIGHT yr + 1"
        show thesis
          by (rule that [OF balance_near [OF ok y(3)]])
            (use one ok y(3) yr in \<open>auto simp: balances_def\<close>)
      next
        assume two: "NODE_HEIGHT x = NODE_HEIGHT yr + 2"
        obtain t where t: "rd_avl_balance_node (ANode x R f yr) = Some t" "balances x f yr t"
          using balance_two_left [OF ok y(3) two] by blast
        then show thesis using two yr by (intro that) (auto simp: balances_def)
      qed
      have "rd_avl_balance_node (ANode l h e r) = Some t"
        using double yr t(1) x(1) by (simp add: y(1) b(1) [symmetric] near_byr undo)
      moreover have "balances l e r t"
        using t(2) x(2) yl yr y(1) lR tR by (auto simp: balances_def)
      ultimately show ?thesis by blast
    qed
  qed
qed

lemma balance_any:
  assumes "avl_ok l" and "avl_ok r"
  shows "\<exists>t. rd_avl_balance_node (ANode l h e r) = Some t \<and> balances l e r t"
  using assms
proof (induction "size l + size r" arbitrary: l r h rule: less_induct)
  case less
  have sz: "size (mirror t) = size t" for t :: "'a rd_avl_node" by (induction t) auto
  consider "NODE_HEIGHT l + 1 < NODE_HEIGHT r" | "NODE_HEIGHT r + 1 < NODE_HEIGHT l"
    | "\<bar>NODE_HEIGHT l - NODE_HEIGHT r\<bar> \<le> 1" by linarith
  then show ?case
  proof cases
    case 1
    show ?thesis
    proof (rule balance_heavy_right [OF less.prems 1])
      fix x :: "'a rd_avl_node" and k assume x: "avl_ok x" "size x < size r"
      show "\<exists>t. rd_avl_balance_node (ANode l k e x) = Some t \<and> balances l e x t"
        by (rule less.hyps) (use x less.prems in simp_all)
    qed
  next
    case 2
    show ?thesis
    proof (rule balance_mirrored, rule balance_heavy_right)
      fix x :: "'a rd_avl_node" and k assume x: "avl_ok x" "size x < size (mirror l)"
      have "\<exists>t. rd_avl_balance_node (ANode (mirror x) k e r) = Some t \<and> balances (mirror x) e r t"
        by (rule less.hyps) (use x less.prems in \<open>simp_all add: sz\<close>)
      then show "\<exists>t. rd_avl_balance_node (ANode (mirror r) k e x) = Some t \<and> balances (mirror r) e x t"
        by - (rule balance_mirrored, simp)
    qed (use 2 less.prems in simp_all)
  next
    case 3
    then show ?thesis using balance_near [OF less.prems 3, of h e] less.prems by (auto simp: balances_def)
  qed
qed

section \<open>The operations keep the balance\<close>

lemma insert_node_ok:
  "avl_ok t \<Longrightarrow> \<exists>t' ex. rd_avl_insert_node cmp t x = Some (t', ex) \<and> avl_ok t'"
proof (induction t)
  case (ANode l h e r)
  have ok: "avl_ok l" "avl_ok r" using ANode.prems by auto
  from ANode ok obtain l1 exl r1 exr where
    l1: "rd_avl_insert_node cmp l x = Some (l1, exl)" "avl_ok l1" and
    r1: "rd_avl_insert_node cmp r x = Some (r1, exr)" "avl_ok r1" by auto
  obtain tl where tl: "rd_avl_balance_node (ANode l1 h e r) = Some tl" "balances l1 e r tl"
    using balance_any [OF l1(2) ok(2), of h e] by blast
  obtain tr where tr: "rd_avl_balance_node (ANode l h e r1) = Some tr" "balances l e r1 tr"
    using balance_any [OF ok(1) r1(2), of h e] by blast
  show ?case using l1 r1 tl tr ANode.prems by (auto simp: Let_def balances_def)
qed simp

lemma move_ok:
  "avl_ok dst \<Longrightarrow> avl_ok src \<Longrightarrow>
   \<exists>t. rd_avl_move dst src RD_AVL_RIGHT = Some t \<and> avl_ok t \<and> inorder t = inorder dst @ inorder src"
proof (induction dst)
  case (ANode l h e r)
  have ok: "avl_ok l" "avl_ok r" using ANode.prems by auto
  from ANode ok obtain r1 where r1: "rd_avl_move r src RD_AVL_RIGHT = Some r1" "avl_ok r1"
    "inorder r1 = inorder r @ inorder src" by auto
  moreover obtain t where "rd_avl_balance_node (ANode l h e r1) = Some t" "balances l e r1 t"
    using balance_any [OF ok(1) r1(2), of h e] by blast
  ultimately show ?case by (auto simp: balances_def)
qed simp

lemma remove_elm0_ok:
  "avl_ok t \<Longrightarrow> \<exists>t'. rd_avl_remove_elm0 cmp t x = Some t' \<and> avl_ok t'"
proof (induction t)
  case (ANode l h e r)
  have ok: "avl_ok l" "avl_ok r" using ANode.prems by auto
  from ANode ok obtain l1 r1 where
    l1: "rd_avl_remove_elm0 cmp l x = Some l1" "avl_ok l1" and
    r1: "rd_avl_remove_elm0 cmp r x = Some r1" "avl_ok r1" by auto
  obtain tl where tl: "rd_avl_balance_node (ANode l1 h e r) = Some tl" "balances l1 e r tl"
    using balance_any [OF l1(2) ok(2), of h e] by blast
  obtain tr where tr: "rd_avl_balance_node (ANode l h e r1) = Some tr" "balances l e r1 tr"
    using balance_any [OF ok(1) r1(2), of h e] by blast
  obtain t0 where t0: "rd_avl_move l r RD_AVL_RIGHT = Some t0" "avl_ok t0"
    using move_ok [of l r] ANode.prems by auto
  show ?case using l1 r1 tl tr t0 by (auto simp: Let_def balances_def rd_avl_remove_node0_def)
qed simp

section \<open>Search\<close>

lemma option_Some_eqI: "(\<And>z. a = Some z \<longleftrightarrow> b = Some z) \<Longrightarrow> a = b"
  by (metis not_Some_eq)

lemma find_append:
  "List.find P (xs @ ys) = (case List.find P xs of None \<Rightarrow> List.find P ys | Some x \<Rightarrow> Some x)"
  by (induction xs) simp_all

text \<open>What the comparator promises: the sign of a total preorder.\<close>

locale rd_avl_order =
  fixes cmp :: "'a \<Rightarrow> 'a \<Rightarrow> int"
  assumes cmp_self: "cmp x x = 0"
    and cmp_flip: "cmp x y < 0 \<longleftrightarrow> 0 < cmp y x"
    and cmp_less_trans: "cmp x y < 0 \<Longrightarrow> cmp y z < 0 \<Longrightarrow> cmp x z < 0"
    and cmp_same_less: "cmp x y = 0 \<Longrightarrow> cmp y z < 0 \<longleftrightarrow> cmp x z < 0"
begin

definition ordered :: "'a list \<Rightarrow> bool" where
  "ordered xs = sorted_wrt (\<lambda>a b. cmp a b < 0) xs"

lemma cmp_same_sym: "cmp x y = 0 \<Longrightarrow> cmp y x = 0"
  using cmp_flip [of x y] cmp_flip [of y x] by linarith

lemma cmp_less_same: "cmp x y = 0 \<Longrightarrow> cmp z x < 0 \<longleftrightarrow> cmp z y < 0"
proof -
  assume xy: "cmp x y = 0"
  have *: "cmp z y < 0" if "cmp x y = 0" "cmp z x < 0" for x y
  proof (rule ccontr)
    assume "\<not> cmp z y < 0"
    then consider "cmp z y = 0" | "cmp y z < 0" using cmp_flip [of y z] by linarith
    then show False
    proof cases
      case 1
      have "cmp y x < 0" using cmp_same_less [OF cmp_same_sym [OF 1], of x] that(2) by simp
      then show False using cmp_same_sym [OF that(1)] by simp
    next
      case 2
      have "cmp x z < 0" using cmp_same_less [OF that(1)] 2 by simp
      then show False using that(2) cmp_flip [of x z] by linarith
    qed
  qed
  show ?thesis using *[OF xy] *[OF cmp_same_sym [OF xy]] by blast
qed

lemma cmp_same_trans: "cmp x y = 0 \<Longrightarrow> cmp y z = 0 \<Longrightarrow> cmp x z = 0"
  using cmp_less_same [of y z x] cmp_less_same [of x y z] cmp_flip [of z x] cmp_self
  by (metis cmp_flip cmp_same_less cmp_same_sym linorder_neqE_linordered_idom less_irrefl)

lemma less_facts: "cmp a b < 0 \<Longrightarrow> \<not> cmp b a < 0 \<and> cmp a b \<noteq> 0 \<and> cmp b a \<noteq> 0"
  using cmp_flip [of a b] cmp_flip [of b a] by auto

lemma all_before:
  assumes "\<And>y. y \<in> set ys \<Longrightarrow> cmp y x < 0"
  shows "filter (\<lambda>y. cmp y x < 0) ys = ys" "filter (\<lambda>y. cmp x y < 0) ys = []"
    "filter (\<lambda>y. cmp x y \<noteq> 0) ys = ys" "List.find (\<lambda>y. cmp x y = 0) ys = None"
  using assms less_facts by (auto simp: filter_id_conv filter_empty_conv find_None_iff)

lemma all_after:
  assumes "\<And>y. y \<in> set ys \<Longrightarrow> cmp x y < 0"
  shows "filter (\<lambda>y. cmp y x < 0) ys = []" "filter (\<lambda>y. cmp x y < 0) ys = ys"
    "filter (\<lambda>y. cmp x y \<noteq> 0) ys = ys" "List.find (\<lambda>y. cmp x y = 0) ys = None"
  using assms less_facts by (fastforce simp: filter_id_conv filter_empty_conv find_None_iff)+

text \<open>Where the elements of a node stand relative to \<open>x\<close>.\<close>

lemma node_sides:
  assumes "ordered (inorder (ANode l h e r))"
  shows "cmp x e \<le> 0 \<Longrightarrow> y \<in> set (inorder r) \<Longrightarrow> cmp x y < 0"
    and "0 \<le> cmp x e \<Longrightarrow> y \<in> set (inorder l) \<Longrightarrow> cmp y x < 0"
proof -
  have lr: "\<And>y. y \<in> set (inorder l) \<Longrightarrow> cmp y e < 0" "\<And>y. y \<in> set (inorder r) \<Longrightarrow> cmp e y < 0"
    using assms by (auto simp: ordered_def sorted_wrt_append)
  show "cmp x y < 0" if "cmp x e \<le> 0" "y \<in> set (inorder r)"
    using lr(2) [OF that(2)] that(1) cmp_less_trans [of x e y] cmp_same_less [of x e y]
    by (cases "cmp x e = 0") auto
  show "cmp y x < 0" if "0 \<le> cmp x e" "y \<in> set (inorder l)"
  proof (cases "cmp x e = 0")
    case True
    then show ?thesis using lr(1) [OF that(2)] cmp_less_same [OF True, of y] by simp
  next
    case False
    then have "cmp e x < 0" using that(1) cmp_flip [of e x] by simp
    with lr(1) [OF that(2)] show ?thesis by (rule cmp_less_trans)
  qed
qed

lemma ordered_sub: "ordered (inorder (ANode l h e r)) \<Longrightarrow> ordered (inorder l) \<and> ordered (inorder r)"
  by (simp add: ordered_def sorted_wrt_append)

lemma insert_node_inorder:
  "ordered (inorder t) \<Longrightarrow> avl_ok t \<Longrightarrow> rd_avl_insert_node cmp t x = Some (t', ex) \<Longrightarrow>
   inorder t' = [y \<leftarrow> inorder t. cmp y x < 0] @ x # [y \<leftarrow> inorder t. cmp x y < 0] \<and>
   ex = List.find (\<lambda>y. cmp x y = 0) (inorder t)"
proof (induction t arbitrary: t' ex)
  case (ANode l h e r)
  note sides = node_sides [OF ANode.prems(1), of x]
  have sub: "ordered (inorder l)" "ordered (inorder r)" "avl_ok l" "avl_ok r"
    using ordered_sub [OF ANode.prems(1)] ANode.prems(2) by auto
  consider "cmp x e = 0" | "cmp x e < 0" | "0 < cmp x e" by linarith
  then show ?case
  proof cases
    case 1
    then show ?thesis using ANode.prems(3) sides all_before [of "inorder l" x] all_after [of "inorder r" x]
        cmp_same_sym [OF 1] by (auto simp: find_append)
  next
    case 2
    then obtain l1 where l1: "rd_avl_insert_node cmp l x = Some (l1, ex)"
      "rd_avl_balance_node (ANode l1 h e r) = Some t'"
      using ANode.prems(3) by (auto simp: bind_eq_Some_conv Let_def)
    have "avl_ok l1" using insert_node_ok [OF sub(3), of cmp x] l1(1) by auto
    then have "inorder t' = inorder l1 @ e # inorder r"
      using balance_any [OF _ sub(4), of l1 h e] l1(2) by (auto simp: balances_def)
    then show ?thesis
      using ANode.IH(1) [OF sub(1,3) l1(1)] 2 sides(1) all_after [of "inorder r" x] less_facts [OF 2]
      by (auto simp: find_append split: option.split)
  next
    case 3
    then obtain r1 where r1: "rd_avl_insert_node cmp r x = Some (r1, ex)"
      "rd_avl_balance_node (ANode l h e r1) = Some t'"
      using ANode.prems(3) by (auto simp: bind_eq_Some_conv Let_def)
    have "avl_ok r1" using insert_node_ok [OF sub(4), of cmp x] r1(1) by auto
    then have "inorder t' = inorder l @ e # inorder r1"
      using balance_any [OF sub(3), of r1 h e] r1(2) by (auto simp: balances_def)
    moreover have "cmp e x < 0" using 3 cmp_flip [of e x] by simp
    ultimately show ?thesis
      using ANode.IH(2) [OF sub(2,4) r1(1)] 3 sides(2) all_before [of "inorder l" x] less_facts [of e x]
      by (auto simp: find_append split: option.split)
  qed
qed auto

lemma remove_elm0_inorder:
  "ordered (inorder t) \<Longrightarrow> avl_ok t \<Longrightarrow> rd_avl_remove_elm0 cmp t x = Some t' \<Longrightarrow>
   inorder t' = [y \<leftarrow> inorder t. cmp x y \<noteq> 0]"
proof (induction t arbitrary: t')
  case (ANode l h e r)
  note sides = node_sides [OF ANode.prems(1), of x]
  have sub: "ordered (inorder l)" "ordered (inorder r)" "avl_ok l" "avl_ok r"
    using ordered_sub [OF ANode.prems(1)] ANode.prems(2) by auto
  consider "cmp x e = 0" | "cmp x e < 0" | "0 < cmp x e" by linarith
  then show ?case
  proof cases
    case 1
    then have "rd_avl_move l r RD_AVL_RIGHT = Some t'"
      using ANode.prems(3) by (simp add: rd_avl_remove_node0_def)
    then have "inorder t' = inorder l @ inorder r" using move_ok [OF sub(3,4)] by auto
    then show ?thesis using 1 sides all_before [of "inorder l" x] all_after [of "inorder r" x] by simp
  next
    case 2
    then obtain l1 where l1: "rd_avl_remove_elm0 cmp l x = Some l1"
      "rd_avl_balance_node (ANode l1 h e r) = Some t'"
      using ANode.prems(3) by (auto simp: bind_eq_Some_conv Let_def)
    have "avl_ok l1" using remove_elm0_ok [OF sub(3), of cmp x] l1(1) by auto
    then have "inorder t' = inorder l1 @ e # inorder r"
      using balance_any [OF _ sub(4), of l1 h e] l1(2) by (auto simp: balances_def)
    then show ?thesis
      using ANode.IH(1) [OF sub(1,3) l1(1)] 2 sides(1) all_after [of "inorder r" x] by simp
  next
    case 3
    then obtain r1 where r1: "rd_avl_remove_elm0 cmp r x = Some r1"
      "rd_avl_balance_node (ANode l h e r1) = Some t'"
      using ANode.prems(3) by (auto simp: bind_eq_Some_conv Let_def)
    have "avl_ok r1" using remove_elm0_ok [OF sub(4), of cmp x] r1(1) by auto
    then have "inorder t' = inorder l @ e # inorder r1"
      using balance_any [OF sub(3), of r1 h e] r1(2) by (auto simp: balances_def)
    then show ?thesis
      using ANode.IH(2) [OF sub(2,4) r1(1)] 3 sides(2) all_before [of "inorder l" x] by simp
  qed
qed simp

lemma find_node_inorder:
  "ordered (inorder t) \<Longrightarrow>
   (case rd_avl_find_node cmp t x of ANil \<Rightarrow> None | ANode l h e r \<Rightarrow> Some e) =
     List.find (\<lambda>y. cmp x y = 0) (inorder t)"
proof (induction t)
  case (ANode l h e r)
  note sides = node_sides [OF ANode.prems, of x]
  have sub: "ordered (inorder l)" "ordered (inorder r)" using ordered_sub [OF ANode.prems] by auto
  consider "cmp x e = 0" | "cmp x e < 0" | "0 < cmp x e" by linarith
  then show ?case
  proof cases
    case 2
    then show ?thesis using ANode.IH(1) [OF sub(1)] sides(1) all_after [of "inorder r" x]
      by (auto simp: find_append split: option.split)
  qed (use ANode.IH(2) [OF sub(2)] sides(2) all_before [of "inorder l" x] in \<open>simp_all add: find_append\<close>)
qed simp

lemma ordered_insert:
  assumes "ordered xs"
  shows "ordered ([y \<leftarrow> xs. cmp y x < 0] @ x # [y \<leftarrow> xs. cmp x y < 0])"
  using assms cmp_less_trans by (auto simp: ordered_def sorted_wrt_append sorted_wrt_filter)

lemma ordered_unique:
  "ordered xs \<Longrightarrow> a \<in> set xs \<Longrightarrow> b \<in> set xs \<Longrightarrow> cmp a b = 0 \<Longrightarrow> a = b"
proof (induction xs)
  case (Cons z xs)
  then have "cmp z a < 0" if "a \<in> set xs" for a using that by (simp add: ordered_def)
  then have "a \<in> set xs \<Longrightarrow> cmp z a \<noteq> 0 \<and> cmp a z \<noteq> 0" for a using less_facts by blast
  then show ?case using Cons by (auto simp: ordered_def)
qed simp

lemma find_iff:
  assumes "ordered xs"
  shows "List.find (\<lambda>z. cmp y z = 0) xs = Some z \<longleftrightarrow> z \<in> set xs \<and> cmp y z = 0"
proof
  assume "List.find (\<lambda>z. cmp y z = 0) xs = Some z"
  then show "z \<in> set xs \<and> cmp y z = 0" by (auto simp: find_Some_iff)
next
  assume z: "z \<in> set xs \<and> cmp y z = 0"
  then obtain w where w: "List.find (\<lambda>z. cmp y z = 0) xs = Some w"
    by (cases "List.find (\<lambda>z. cmp y z = 0) xs") (auto simp: find_None_iff)
  then have "w \<in> set xs" "cmp y w = 0" by (auto simp: find_Some_iff)
  then have "w = z"
    using ordered_unique [OF assms, of w z] z cmp_same_trans [of w y z] cmp_same_sym by blast
  with w show "List.find (\<lambda>z. cmp y z = 0) xs = Some z" by simp
qed

lemma find_after_insert:
  assumes "ordered xs"
  shows "List.find (\<lambda>z. cmp y z = 0) ([y \<leftarrow> xs. cmp y x < 0] @ x # [y \<leftarrow> xs. cmp x y < 0]) =
    (if cmp y x = 0 then Some x else List.find (\<lambda>z. cmp y z = 0) xs)" (is "List.find _ ?ys = _")
proof (rule option_Some_eqI)
  fix z
  note ord = ordered_insert [OF assms, of x]
  have mem: "z \<in> set ?ys \<longleftrightarrow> z = x \<or> (z \<in> set xs \<and> cmp x z \<noteq> 0)"
    using cmp_flip [of x z] cmp_flip [of z x] by auto
  show "List.find (\<lambda>z. cmp y z = 0) ?ys = Some z \<longleftrightarrow>
      (if cmp y x = 0 then Some x else List.find (\<lambda>z. cmp y z = 0) xs) = Some z"
  proof (cases "cmp y x = 0")
    case True
    have "cmp x z = 0" if "cmp y z = 0" using that cmp_same_trans [of x y z] cmp_same_sym [OF True] by blast
    with True show ?thesis unfolding find_iff [OF ord] mem by auto
  next
    case False
    have "cmp x z \<noteq> 0" if "cmp y z = 0" using that False cmp_same_trans [of y z x] cmp_same_sym [of x z] by blast
    with False show ?thesis unfolding find_iff [OF ord] mem by (auto simp: find_iff [OF assms])
  qed
qed

lemma find_after_remove:
  assumes "ordered xs"
  shows "List.find (\<lambda>z. cmp y z = 0) [y \<leftarrow> xs. cmp x y \<noteq> 0] =
    (if cmp y x = 0 then None else List.find (\<lambda>z. cmp y z = 0) xs)"
proof (cases "cmp y x = 0")
  case True
  then show ?thesis using cmp_same_trans [of x y] cmp_same_sym [OF True] by (auto simp: find_None_iff)
next
  case False
  have keep: "cmp x z \<noteq> 0" if "cmp y z = 0" for z
    using that False cmp_same_trans [of y z x] cmp_same_sym [of x z] by blast
  have "List.find P (filter Q zs) = List.find P zs" if "\<And>z. P z \<Longrightarrow> Q z" for P Q and zs :: "'a list"
    using that by (induction zs) auto
  from this [of "\<lambda>z. cmp y z = 0" "\<lambda>z. cmp x z \<noteq> 0" xs] keep False show ?thesis by simp
qed

lemma ordered_filter: "ordered xs \<Longrightarrow> ordered (filter P xs)"
  by (simp add: ordered_def sorted_wrt_filter)

end

section \<open>The tree of the metadata cache\<close>

text \<open>A cache entry, as far as its comparator reads it: the topic, and the rest.\<close>

definition rd_kafka_metadata_cache_entry_cmp :: "string \<times> 'b \<Rightarrow> string \<times> 'b \<Rightarrow> int" where
  "rd_kafka_metadata_cache_entry_cmp a b = strcmp (fst a) (fst b)"

interpretation topic_order: rd_avl_order "rd_kafka_metadata_cache_entry_cmp :: string \<times> 'b \<Rightarrow> string \<times> 'b \<Rightarrow> int"
proof
  fix x y z :: "string \<times> 'b"
  show "rd_kafka_metadata_cache_entry_cmp x x = 0"
    by (simp add: rd_kafka_metadata_cache_entry_cmp_def strcmp_eq_0)
  show "rd_kafka_metadata_cache_entry_cmp x y < 0 \<longleftrightarrow> 0 < rd_kafka_metadata_cache_entry_cmp y x"
    using strcmp_flip [of "fst x" "fst y"] by (simp add: rd_kafka_metadata_cache_entry_cmp_def)
  show "rd_kafka_metadata_cache_entry_cmp x y < 0 \<Longrightarrow> rd_kafka_metadata_cache_entry_cmp y z < 0 \<Longrightarrow>
      rd_kafka_metadata_cache_entry_cmp x z < 0"
    unfolding rd_kafka_metadata_cache_entry_cmp_def by (rule strcmp_trans)
  show "rd_kafka_metadata_cache_entry_cmp x y = 0 \<Longrightarrow>
      rd_kafka_metadata_cache_entry_cmp y z < 0 \<longleftrightarrow> rd_kafka_metadata_cache_entry_cmp x z < 0"
    by (simp add: rd_kafka_metadata_cache_entry_cmp_def strcmp_eq_0)
qed

text \<open>A well-formed tree for a comparator.\<close>

definition avl_wf :: "'a rd_avl \<Rightarrow> bool" where
  "avl_wf ravl \<longleftrightarrow>
     avl_ok (ravl_root ravl) \<and> sorted_wrt (\<lambda>a b. ravl_cmp ravl a b < 0) (inorder (ravl_root ravl))"

lemma avl_wf_ordered:
  "rd_avl_order cmp \<Longrightarrow> rd_avl_order.ordered cmp xs = sorted_wrt (\<lambda>a b. cmp a b < 0) xs"
  by (rule rd_avl_order.ordered_def)

lemma rd_avl_find_list:
  assumes "rd_avl_order (ravl_cmp ravl)" and "avl_wf ravl"
  shows "rd_avl_find ravl x = List.find (\<lambda>y. ravl_cmp ravl x y = 0) (inorder (ravl_root ravl))"
  using rd_avl_order.find_node_inorder [OF assms(1)] assms(2)
  by (simp add: rd_avl_find_def avl_wf_def avl_wf_ordered [OF assms(1)])

text \<open>
  C17: balancing returns. The two mutually recursive functions come back for every pair of
  balanced subtrees, however different their heights are, and give a balanced tree with the
  same elements in the same order, at most one higher than the higher subtree.
\<close>

theorem rd_avl_balance_node_returns:
  assumes "avl_ok l" and "avl_ok r"
  shows "\<exists>t. rd_avl_balance_node (ANode l h e r) = Some t \<and> avl_ok t \<and>
    inorder t = inorder l @ e # inorder r \<and>
    max (NODE_HEIGHT l) (NODE_HEIGHT r) \<le> NODE_HEIGHT t \<and>
    NODE_HEIGHT t \<le> max (NODE_HEIGHT l) (NODE_HEIGHT r) + 1"
  using balance_any [OF assms] by (simp add: balances_def)

definition sample_chain :: "nat rd_avl_node" where
  "sample_chain = ANode (ANode ANil 1 1 ANil) 3 2 (ANode (ANode ANil 1 3 ANil) 2 4 ANil)"

theorem rd_avl_balance_node_returns_witness:
  "\<exists>t. rd_avl_balance_node (ANode ANil 0 0 sample_chain) = Some t \<and> avl_ok t \<and> inorder t = [0, 1, 2, 3, 4]"
  using rd_avl_balance_node_returns [of ANil sample_chain 0 0] by (auto simp: sample_chain_def)

text \<open>
  C15: the tree as a map. On a well-formed tree with a lawful comparator, insertion returns;
  the result is well-formed, the replaced element is the one a search would have found, and a
  search afterwards finds the new element exactly for the values equal to it, and what it
  found before for all others.
\<close>

theorem rd_avl_insert_find:
  assumes "rd_avl_order (ravl_cmp ravl)" and "avl_wf ravl"
  shows "\<exists>ravl' ex. rd_avl_insert ravl x = Some (ravl', ex) \<and> avl_wf ravl' \<and> ex = rd_avl_find ravl x \<and>
    (\<forall>y. rd_avl_find ravl' y = (if ravl_cmp ravl y x = 0 then Some x else rd_avl_find ravl y))"
proof -
  note o = assms(1)
  have wf: "avl_ok (ravl_root ravl)" "rd_avl_order.ordered (ravl_cmp ravl) (inorder (ravl_root ravl))"
    using assms by (simp_all add: avl_wf_def avl_wf_ordered)
  obtain t ex where t: "rd_avl_insert_node (ravl_cmp ravl) (ravl_root ravl) x = Some (t, ex)" "avl_ok t"
    using insert_node_ok [OF wf(1)] by blast
  note io = rd_avl_order.insert_node_inorder [OF o wf(2,1) t(1)]
  let ?r = "ravl\<lparr>ravl_root := t\<rparr>"
  have wf': "avl_wf ?r"
    using rd_avl_order.ordered_insert [OF o wf(2), of x] io t(2) by (simp add: avl_wf_def avl_wf_ordered [OF o])
  have "rd_avl_find ?r y = (if ravl_cmp ravl y x = 0 then Some x else rd_avl_find ravl y)" for y
    using rd_avl_find_list [of ?r y] rd_avl_find_list [OF assms, of y] o wf' io
      rd_avl_order.find_after_insert [OF o wf(2), of y x] by simp
  moreover have "ex = rd_avl_find ravl x" using io rd_avl_find_list [OF assms] by simp
  ultimately show ?thesis using t(1) wf' by (simp add: rd_avl_insert_def)
qed

theorem rd_avl_insert_find_witness:
  "\<exists>ravl' ex. rd_avl_insert (rd_avl_init False rd_kafka_metadata_cache_entry_cmp 0) (''topic'', 1::nat) = Some (ravl', ex) \<and>
     rd_avl_find ravl' (''topic'', 2) = Some (''topic'', 1) \<and> rd_avl_find ravl' (''other'', 1) = None"
proof -
  let ?r = "rd_avl_init False rd_kafka_metadata_cache_entry_cmp 0 :: (string \<times> nat) rd_avl"
  have "rd_avl_order (ravl_cmp ?r)" "avl_wf ?r"
    using topic_order.rd_avl_order_axioms by (simp_all add: rd_avl_init_def avl_wf_def)
  from rd_avl_insert_find [OF this, of "(''topic'', 1)"] show ?thesis
    by (auto simp: rd_avl_init_def rd_avl_find_def rd_kafka_metadata_cache_entry_cmp_def)
qed

text \<open>
  C16: removal returns and leaves a well-formed tree in which a search finds nothing for the
  values equal to the removed one and what it found before for all others.
\<close>

theorem rd_avl_remove_find:
  assumes "rd_avl_order (ravl_cmp ravl)" and "avl_wf ravl"
  shows "\<exists>ravl'. rd_avl_remove_elm ravl x = Some ravl' \<and> avl_wf ravl' \<and>
    (\<forall>y. rd_avl_find ravl' y = (if ravl_cmp ravl y x = 0 then None else rd_avl_find ravl y))"
proof -
  note o = assms(1)
  have wf: "avl_ok (ravl_root ravl)" "rd_avl_order.ordered (ravl_cmp ravl) (inorder (ravl_root ravl))"
    using assms by (simp_all add: avl_wf_def avl_wf_ordered)
  obtain t where t: "rd_avl_remove_elm0 (ravl_cmp ravl) (ravl_root ravl) x = Some t" "avl_ok t"
    using remove_elm0_ok [OF wf(1)] by blast
  note io = rd_avl_order.remove_elm0_inorder [OF o wf(2,1) t(1)]
  let ?r = "ravl\<lparr>ravl_root := t\<rparr>"
  have wf': "avl_wf ?r"
    using rd_avl_order.ordered_filter [OF o wf(2)] io t(2) by (simp add: avl_wf_def avl_wf_ordered [OF o])
  have "rd_avl_find ?r y = (if ravl_cmp ravl y x = 0 then None else rd_avl_find ravl y)" for y
    using rd_avl_find_list [of ?r y] rd_avl_find_list [OF assms, of y] o wf' io
      rd_avl_order.find_after_remove [OF o wf(2), of y x] by simp
  then show ?thesis using t(1) wf' by (simp add: rd_avl_remove_elm_def)
qed

theorem rd_avl_remove_find_witness:
  "\<exists>ravl'. rd_avl_remove_elm
      ((rd_avl_init False rd_kafka_metadata_cache_entry_cmp 0)\<lparr>ravl_root := ANode ANil 0 (''topic'', 1::nat) ANil\<rparr>)
      (''topic'', 5) = Some ravl' \<and> rd_avl_find ravl' (''topic'', 1) = None"
proof -
  let ?r = "(rd_avl_init False rd_kafka_metadata_cache_entry_cmp 0)\<lparr>ravl_root := ANode ANil 0 (''topic'', 1::nat) ANil\<rparr>"
  have "rd_avl_order (ravl_cmp ?r)" "avl_wf ?r"
    using topic_order.rd_avl_order_axioms by (simp_all add: rd_avl_init_def avl_wf_def)
  from rd_avl_remove_find [OF this, of "(''topic'', 5)"] show ?thesis
    by (auto simp: rd_avl_init_def rd_kafka_metadata_cache_entry_cmp_def)
qed

text \<open>
  A new node has height 0, so three insertions in order leave a chain of three nodes
  that is never rotated.
\<close>

theorem rd_avl_chain_of_three:
  "Option.bind (rd_avl_insert_node rd_kafka_metadata_cache_entry_cmp ANil (''a'', ())) (\<lambda>(t1, _).
   Option.bind (rd_avl_insert_node rd_kafka_metadata_cache_entry_cmp t1 (''b'', ())) (\<lambda>(t2, _).
   Option.bind (rd_avl_insert_node rd_kafka_metadata_cache_entry_cmp t2 (''c'', ())) (\<lambda>(t3, _). Some t3))) =
   Some (ANode ANil 2 (''a'', ()) (ANode ANil 1 (''b'', ()) (ANode ANil 0 (''c'', ()) ANil)))"
  by (simp add: rd_kafka_metadata_cache_entry_cmp_def Let_def balance_near)

end
