(* ===== verification/Rdvarint.thy ===== *)
theory Rdvarint
  imports Olog_Prelude
begin

unbundle bit_operations_syntax

text \<open>
  \<open>rdvarint.h\<close>: variable length integers. An unsigned number is written in groups of seven
  bits, lowest first, with the high bit of a byte set when another one follows; a signed
  number is mapped to an unsigned one by the zig-zag encoding first.
\<close>

section \<open>Encoding\<close>

text \<open>
  The loop of \<open>rd_uvarint_enc_u64\<close>: the array after the writes, and the return value. The
  array has its own length; a write past it is a fault.
\<close>

function enc_loop :: "byte list \<Rightarrow> nat \<Rightarrow> nat \<Rightarrow> 64 word \<Rightarrow> (byte list \<times> nat) res" where
  "enc_loop dst dstsize ofs num =
     (if dstsize \<le> ofs then Inr (dst, 0)
      else
        let b = ucast (num AND 0x7f) OR (if 0x7f < num then 0x80 else 0);
            num1 = drop_bit 7 num
        in bindR (check Buffer_Overflow (ofs < length dst)) (\<lambda>_.
             if num1 \<noteq> 0 then enc_loop (dst[ofs := b]) dstsize (ofs + 1) num1
             else Inr (dst[ofs := b], ofs + 1)))"
  by pat_completeness auto
termination
proof (relation "measure (\<lambda>(dst, dstsize, ofs, num). unat num)", goal_cases)
  case (2 dst dstsize ofs num)
  have "unat (drop_bit 7 num) = unat num div 128"
    by (simp add: drop_bit_eq_div unat_div_distrib)
  moreover have "unat num \<noteq> 0" using 2 by (metis drop_bit_of_0 unat_eq_zero)
  ultimately show ?case by (simp add: 2)
qed simp

declare enc_loop.simps [simp del]

definition rd_uvarint_enc_u64 :: "byte list \<Rightarrow> nat \<Rightarrow> 64 word \<Rightarrow> (byte list \<times> nat) res" where
  "rd_uvarint_enc_u64 dst dstsize num = enc_loop dst dstsize 0 num"

definition rd_uvarint_enc_i64 :: "byte list \<Rightarrow> nat \<Rightarrow> 64 word \<Rightarrow> (byte list \<times> nat) res" where
  "rd_uvarint_enc_i64 dst dstsize num =
     rd_uvarint_enc_u64 dst dstsize (push_bit 1 num XOR signed_drop_bit 63 num)"

definition rd_uvarint_enc_i32 :: "byte list \<Rightarrow> nat \<Rightarrow> 32 word \<Rightarrow> (byte list \<times> nat) res" where
  "rd_uvarint_enc_i32 dst dstsize num = rd_uvarint_enc_i64 dst dstsize (scast num)"

definition RD_UVARINT_ENC_SIZEOF :: "nat \<Rightarrow> nat" where
  "RD_UVARINT_ENC_SIZEOF sz = sz + 1 + sz div 7"

section \<open>Decoding\<close>

text \<open>
  The loop of \<open>rd_uvarint_dec\<close> from offset \<open>ofs\<close>: the number of bytes read and the number, or
  \<open>(0, None)\<close> when the bytes run out. \<open>SIZE_MAX\<close> is 64 bits. A shift by 64 or more is
  undefined in C.
\<close>

fun dec_loop :: "byte list \<Rightarrow> nat \<Rightarrow> nat \<Rightarrow> 64 word \<Rightarrow> nat \<Rightarrow> (nat \<times> 64 word option) res" where
  "dec_loop [] srcsize ofs num shift = (if srcsize = 0 then Inr (0, None) else Inl Out_Of_Bounds)"
| "dec_loop (b # src) srcsize ofs num shift =
     (if srcsize = 0 then Inr (0, None)
      else
        bindR (check Bad_Shift (shift < 64)) (\<lambda>_.
        let num1 = num OR push_bit shift (ucast (b AND 0x7f))
        in if b AND 0x80 \<noteq> 0 then dec_loop src (srcsize - 1) (ofs + 1) num1 (shift + 7)
           else Inr (ofs + 1, Some num1)))"

definition rd_uvarint_dec :: "byte list \<Rightarrow> nat \<Rightarrow> (nat \<times> 64 word option) res" where
  "rd_uvarint_dec src srcsize = dec_loop src srcsize 0 0 0"

definition SIZE_MAX :: nat where
  "SIZE_MAX = 2 ^ 64 - 1"

definition RD_UVARINT_OVERFLOW :: "nat \<Rightarrow> bool" where
  "RD_UVARINT_OVERFLOW r \<longleftrightarrow> r > SIZE_MAX"

definition RD_UVARINT_UNDERFLOW :: "nat \<Rightarrow> bool" where
  "RD_UVARINT_UNDERFLOW r \<longleftrightarrow> r = 0"

definition RD_UVARINT_DEC_FAILED :: "nat \<Rightarrow> bool" where
  "RD_UVARINT_DEC_FAILED r \<longleftrightarrow> RD_UVARINT_UNDERFLOW r \<or> RD_UVARINT_OVERFLOW r"

definition zigzag_dec :: "64 word \<Rightarrow> 64 word" where
  "zigzag_dec n = drop_bit 1 n XOR - (n AND 1)"

definition rd_varint_dec_i64 :: "byte list \<Rightarrow> nat \<Rightarrow> (nat \<times> 64 word option) res" where
  "rd_varint_dec_i64 src srcsize =
     bindR (rd_uvarint_dec src srcsize) (\<lambda>(r, n).
       Inr (r, if RD_UVARINT_DEC_FAILED r then None else map_option zigzag_dec n))"

section \<open>The zig-zag encoding\<close>

lemma zigzag_round_trip: "zigzag_dec (push_bit 1 n XOR signed_drop_bit 63 n) = n"
proof -
  define z where "z = push_bit 1 n XOR signed_drop_bit 63 n"
  have zb: "bit z i \<longleftrightarrow> ((0 < i \<and> bit n (i - 1)) \<noteq> bit n 63)" if "i < 64" for i
    using that by (cases i) (auto simp: z_def bit_xor_iff bit_push_bit_iff bit_signed_drop_bit_iff
        simp del: push_bit_Suc push_bit_of_Suc_0 push_bit_numeral_minus_1)
  have top: "\<not> bit z 64" using bit_imp_le_length [of z 64] by auto
  have neg: "- (z AND 1) = (if bit n 63 then - 1 else 0)"
    using zb [of 0] by (cases "bit n 63") (simp_all add: and_one_eq bit_0 odd_iff_mod_2_eq_one even_iff_mod_2_eq_zero)
  have "bit (zigzag_dec z) i = bit n i" if "i < 64" for i
  proof (cases "i = 63")
    case True
    then show ?thesis unfolding zigzag_dec_def neg using top by (simp add: bit_xor_iff bit_drop_bit_eq)
  next
    case False
    with that show ?thesis unfolding zigzag_dec_def neg
      using zb [of "Suc i"] by (auto simp: bit_xor_iff bit_drop_bit_eq)
  qed
  then have "zigzag_dec z = n" by (intro bit_word_eqI) simp
  then show ?thesis by (simp only: z_def)
qed

section \<open>Round trips\<close>

text \<open>The groups of a number, as the reference for both loops.\<close>

fun groups :: "nat \<Rightarrow> nat list" where
  "groups n = (if n < 128 then [n] else (n mod 128 + 128) # groups (n div 128))"

declare groups.simps [simp del]

lemma length_groups: "n < 128 ^ k \<Longrightarrow> 0 < k \<Longrightarrow> length (groups n) \<le> k"
proof (induction k arbitrary: n)
  case (Suc k)
  show ?case
  proof (cases "n < 128")
    case False
    then have "0 < k" using Suc.prems by (cases k) auto
    moreover have "n div 128 < 128 ^ k" using Suc.prems(1) by (simp add: less_mult_imp_div_less mult.commute)
    ultimately show ?thesis using Suc.IH False by (subst groups.simps) simp
  qed (simp add: groups.simps)
qed simp

lemma or_is_plus:
  fixes num :: "'a::len word"
  assumes "unat num < 2 ^ shift"
  shows "num OR push_bit shift x = num + push_bit shift x"
proof -
  have "take_bit shift (unat num) = unat num" using assms by (rule take_bit_nat_eq_self)
  then have "bit (unat num) i \<Longrightarrow> i < shift" for i by (metis bit_take_bit_iff)
  then have "bit num i \<Longrightarrow> i < shift" for i by (simp add: bit_unat_iff)
  then have "\<not> bit num i \<or> \<not> bit (push_bit shift x) i" for i
    by (metis bit_push_bit_iff linorder_not_less)
  then show ?thesis by (intro disjunctive_add [symmetric])
qed

lemma byte_or_80:
  assumes "m < 128"
  shows "(word_of_nat m :: byte) OR 0x80 = word_of_nat (m + 128)"
proof -
  have u: "unat (word_of_nat m :: byte) = m" using assms by (simp add: unsigned_of_nat take_bit_nat_eq_self)
  then show ?thesis using or_is_plus [of "word_of_nat m :: byte" 7 1] assms by (simp add: push_bit_eq_mult)
qed

lemma byte_and:
  assumes "m < 256"
  shows "(ucast ((word_of_nat m :: byte) AND 0x7f) :: 64 word) = word_of_nat (m mod 128)"
    and "(word_of_nat m :: byte) AND 0x80 \<noteq> 0 \<longleftrightarrow> 128 \<le> m"
proof -
  let ?b = "word_of_nat m :: byte"
  have u: "unat ?b = m" using assms by (simp add: unsigned_of_nat take_bit_nat_eq_self)
  have "?b AND 0x7f = take_bit 7 ?b" by (simp add: take_bit_eq_mask mask_eq_exp_minus_1)
  then have "unat (?b AND 0x7f) = m mod 128" using u by (simp add: unsigned_take_bit_eq take_bit_eq_mod unat_mod_distrib)
  then show "(ucast (?b AND 0x7f) :: 64 word) = word_of_nat (m mod 128)" by (metis of_nat_unat)
  have "?b AND 0x80 = 0 \<longleftrightarrow> \<not> bit ?b 7" using and_exp_eq_0_iff_not_bit [of ?b 7] by simp
  moreover have "bit ?b 7 \<longleftrightarrow> bit m 7" using u bit_unat_iff [of ?b 7] by simp
  moreover have "bit m 7 \<longleftrightarrow> 128 \<le> m"
  proof -
    have "m div 128 = 0 \<or> m div 128 = 1" using assms by linarith
    then show ?thesis by (auto simp: bit_iff_odd div_eq_0_iff)
  qed
  ultimately show "?b AND 0x80 \<noteq> 0 \<longleftrightarrow> 128 \<le> m" by simp
qed

lemma group_byte:
  fixes num :: "64 word"
  shows "ucast (num AND 0x7f) OR (if 0x7f < num then 0x80 else 0 :: byte) =
    word_of_nat (if unat num < 128 then unat num else unat num mod 128 + 128)"
proof -
  have "num AND 0x7f = take_bit 7 num" by (simp add: take_bit_eq_mask mask_eq_exp_minus_1)
  then have u: "unat (num AND 0x7f) = unat num mod 128" by (simp add: unsigned_take_bit_eq take_bit_eq_mod unat_mod_distrib)
  have c: "(ucast (num AND 0x7f) :: byte) = word_of_nat (unat num mod 128)"
    unfolding u [symmetric] by (simp add: of_nat_unat)
  have gt: "0x7f < num \<longleftrightarrow> 128 \<le> unat num" by (auto simp: word_less_nat_alt)
  show ?thesis unfolding c gt using byte_or_80 [of "unat num mod 128"] by auto
qed

lemma unat_next: "unat (drop_bit 7 num :: 64 word) = unat num div 128"
  by (simp add: drop_bit_eq_div unat_div_distrib)

lemma next_zero: "drop_bit 7 num = (0 :: 64 word) \<longleftrightarrow> unat num < 128"
  using unat_next [of num] unat_eq_zero [of "drop_bit 7 num"] by (auto simp: div_eq_0_iff)

lemma enc_loop_fits:
  "length dst = dstsize \<Longrightarrow> ofs + length (groups (unat num)) \<le> dstsize \<Longrightarrow>
   enc_loop dst dstsize ofs num =
     Inr (take ofs dst @ map word_of_nat (groups (unat num)) @ drop (ofs + length (groups (unat num))) dst,
          ofs + length (groups (unat num)))"
proof (induction dst dstsize ofs num rule: enc_loop.induct)
  case (1 dst dstsize ofs num)
  let ?b = "ucast (num AND 0x7f) OR (if 0x7f < num then 0x80 else 0) :: byte"
  have pos: "ofs < dstsize" using "1.prems"(2) by (subst (asm) groups.simps) (simp split: if_splits)
  have put: "take (Suc ofs) (dst[ofs := b]) = take ofs dst @ [b]" "drop (Suc ofs + k) (dst[ofs := b]) = drop (Suc ofs + k) dst" for b k
    using pos "1.prems"(1) by (simp_all add: take_Suc_conv_app_nth)
  show ?case
  proof (cases "unat num < 128")
    case True
    then have g: "groups (unat num) = [unat num]" by (simp add: groups.simps)
    have "enc_loop dst dstsize ofs num = Inr (dst[ofs := ?b], ofs + 1)"
      using True pos "1.prems"(1) next_zero [of num] by (subst enc_loop.simps) (simp add: Let_def check_def)
    then show ?thesis using True pos "1.prems"(1) group_byte [of num] g by (simp add: upd_conv_take_nth_drop)
  next
    case False
    then have g: "groups (unat num) = (unat num mod 128 + 128) # groups (unat (drop_bit 7 num))"
      by (subst groups.simps) (simp add: unat_next)
    have nz: "drop_bit 7 num \<noteq> 0" using False by (simp add: next_zero)
    have "enc_loop dst dstsize ofs num = enc_loop (dst[ofs := ?b]) dstsize (ofs + 1) (drop_bit 7 num)"
      using nz pos "1.prems"(1) by (subst enc_loop.simps) (simp add: Let_def check_def)
    also have "\<dots> = Inr (take (ofs + 1) (dst[ofs := ?b]) @ map word_of_nat (groups (unat (drop_bit 7 num))) @
        drop (ofs + 1 + length (groups (unat (drop_bit 7 num)))) (dst[ofs := ?b]),
        ofs + 1 + length (groups (unat (drop_bit 7 num))))"
      using "1.IH" [OF _ refl refl _ nz] pos "1.prems" g by simp
    finally show ?thesis using False group_byte [of num] put by (simp add: g)
  qed
qed

lemma enc_loop_short:
  "length dst = dstsize \<Longrightarrow> dstsize < ofs + length (groups (unat num)) \<Longrightarrow>
   \<exists>dst'. enc_loop dst dstsize ofs num = Inr (dst', 0)"
proof (induction dst dstsize ofs num rule: enc_loop.induct)
  case (1 dst dstsize ofs num)
  show ?case
  proof (cases "dstsize \<le> ofs")
    case True
    then show ?thesis by (subst enc_loop.simps) simp
  next
    case pos: False
    then have big: "\<not> unat num < 128" using "1.prems"(2) by (auto simp: groups.simps)
    then have g: "groups (unat num) = (unat num mod 128 + 128) # groups (unat (drop_bit 7 num))"
      by (subst groups.simps) (simp add: unat_next)
    have nz: "drop_bit 7 num \<noteq> 0" using big by (simp add: next_zero)
    then show ?thesis
      using "1.IH" [OF pos refl refl _ nz] pos "1.prems" g by (subst enc_loop.simps) (simp add: Let_def check_def)
  qed
qed

lemma dec_loop_groups:
  assumes "shift < 64" and "unat num < 2 ^ shift" and "n * 2 ^ shift + unat num < 2 ^ 64"
    and "length (groups n) \<le> srcsize"
  shows "dec_loop (map word_of_nat (groups n) @ rest) srcsize ofs num shift =
    Inr (ofs + length (groups n), Some (word_of_nat (unat num + n * 2 ^ shift)))"
  using assms
proof (induction n arbitrary: srcsize ofs num shift rule: groups.induct)
  case (1 n)
  let ?m = "if n < 128 then n else n mod 128 + 128"
  let ?num = "num OR push_bit shift (word_of_nat (n mod 128))"
  have m: "?m < 256" "?m mod 128 = n mod 128" "128 \<le> ?m \<longleftrightarrow> \<not> n < 128" by auto
  have lo: "(n mod 128) * 2 ^ shift + unat num < 2 ^ 64"
  proof -
    have "(n mod 128) * 2 ^ shift \<le> n * 2 ^ shift" by (intro mult_right_mono) simp_all
    with "1.prems"(3) show ?thesis by linarith
  qed
  have num: "?num = word_of_nat (unat num + (n mod 128) * 2 ^ shift)"
    using or_is_plus [OF "1.prems"(2)] by (simp add: push_bit_eq_mult)
  have unum: "unat ?num = unat num + (n mod 128) * 2 ^ shift"
  proof -
    have len: "LENGTH(64) = 64" by simp
    have "unat num + (n mod 128) * 2 ^ shift < 2 ^ LENGTH(64)" unfolding len using lo by linarith
    then show ?thesis unfolding num by (rule unat_of_nat_small)
  qed
  show ?case
  proof (cases "n < 128")
    case True
    then show ?thesis using "1.prems" num byte_and [OF m(1)] m by (simp add: groups.simps check_def Let_def)
  next
    case False
    have div: "n = n mod 128 + 128 * (n div 128)" by simp
    have one: "1 \<le> n div 128" using False by simp
    have "n * 2 ^ shift = (n mod 128 + 128 * (n div 128)) * 2 ^ shift" using div by metis
    then have split: "n * 2 ^ shift = (n mod 128) * 2 ^ shift + (n div 128) * 2 ^ (shift + 7)"
      by (simp only: distrib_right power_add) simp
    have "(2::nat) ^ (shift + 7) < 2 ^ 64"
    proof -
      have "(2::nat) ^ (shift + 7) \<le> (n div 128) * 2 ^ (shift + 7)" using one by simp
      also have "\<dots> \<le> n * 2 ^ shift" unfolding split by simp
      finally show ?thesis using "1.prems"(3) by linarith
    qed
    then have sh: "shift + 7 < 64" by (rule power_less_imp_less_exp [rotated]) simp
    have "unat ?num < 2 ^ (shift + 7)"
    proof -
      have "(n mod 128) * 2 ^ shift \<le> 127 * 2 ^ shift" by (intro mult_right_mono) auto
      moreover have "(2::nat) ^ (shift + 7) = 127 * 2 ^ shift + 2 ^ shift" by (simp add: power_add)
      ultimately show ?thesis using unum "1.prems"(2) by linarith
    qed
    moreover have "n div 128 * 2 ^ (shift + 7) + unat ?num < 2 ^ 64"
      using unum split "1.prems"(3) by linarith
    moreover have g: "groups n = ?m # groups (n div 128)" using False by (subst groups.simps) simp
    ultimately have IH: "dec_loop (map word_of_nat (groups (n div 128)) @ rest) (srcsize - 1) (ofs + 1) ?num (shift + 7) =
        Inr (ofs + 1 + length (groups (n div 128)), Some (word_of_nat (unat ?num + n div 128 * 2 ^ (shift + 7))))"
      using "1.IH" [OF False sh] "1.prems"(4) by simp
    have "word_of_nat (unat ?num + n div 128 * 2 ^ (shift + 7)) = (word_of_nat (unat num + n * 2 ^ shift) :: 64 word)"
      unfolding unum split by (simp add: algebra_simps)
    then show ?thesis
      using "1.prems"(1,4) IH byte_and [OF m(1)] m g False by (simp add: check_def Let_def)
  qed
qed

lemma groups_byte_range: "n < 2 ^ 64 \<Longrightarrow> length (groups n) \<le> 10"
  by (rule length_groups) simp_all

text \<open>
  C18: numbers survive the encoding. Ten bytes, which is what \<open>RD_UVARINT_ENC_SIZEOF\<close> gives for
  a 64-bit type, always suffice; the encoded bytes, followed by anything, are decoded to the
  number again, and both sides report the same length.
\<close>

theorem varint_i64_round_trip:
  assumes "length dst = dstsize" and "RD_UVARINT_ENC_SIZEOF 8 \<le> dstsize"
  shows "\<exists>dst' n. rd_uvarint_enc_i64 dst dstsize num = Inr (dst', n) \<and> 0 < n \<and> n \<le> 10 \<and> length dst' = dstsize \<and>
    rd_varint_dec_i64 (take n dst' @ rest) n = Inr (n, Some num)"
proof -
  define z where "z = push_bit 1 num XOR signed_drop_bit 63 num"
  define g where "g = groups (unat z)"
  have g10: "length g \<le> 10" and g0: "0 < length g"
    using groups_byte_range [of "unat z"] unsigned_less [of z] by (auto simp: g_def groups.simps [of "unat z"])
  let ?dst = "map word_of_nat g @ drop (length g) dst :: byte list"
  have enc: "rd_uvarint_enc_i64 dst dstsize num = Inr (?dst, length g)"
    using enc_loop_fits [of dst dstsize 0 z] assms g10
    by (simp add: rd_uvarint_enc_i64_def rd_uvarint_enc_u64_def z_def g_def RD_UVARINT_ENC_SIZEOF_def)
  have "take (length g) ?dst @ rest = map word_of_nat g @ rest" by simp
  moreover have "dec_loop (map word_of_nat g @ rest) (length g) 0 0 0 = Inr (length g, Some z)"
    using dec_loop_groups [of 0 0 "unat z" "length g" rest 0] unsigned_less [of z] by (simp add: g_def)
  ultimately have "rd_varint_dec_i64 (take (length g) ?dst @ rest) (length g) = Inr (length g, Some (zigzag_dec z))"
    using g0 g10 by (simp add: rd_varint_dec_i64_def rd_uvarint_dec_def RD_UVARINT_DEC_FAILED_def
        RD_UVARINT_UNDERFLOW_def RD_UVARINT_OVERFLOW_def SIZE_MAX_def)
  then show ?thesis
    using enc g0 g10 assms zigzag_round_trip [of num]
    by (intro exI [of _ ?dst] exI [of _ "length g"]) (auto simp: z_def RD_UVARINT_ENC_SIZEOF_def)
qed

theorem varint_i64_round_trip_witness:
  "\<exists>dst' n. rd_uvarint_enc_i64 (replicate 10 0) 10 (- 5) = Inr (dst', n) \<and>
     rd_varint_dec_i64 (take n dst' @ [255]) n = Inr (n, Some (- 5))"
  using varint_i64_round_trip [of "replicate 10 0" 10 "- 5" "[255]"] by (auto simp: RD_UVARINT_ENC_SIZEOF_def)

text \<open>
  C19: a buffer that is too small is reported: encoding returns 0 exactly when the groups of the
  number do not fit, and never writes past the end of the array.
\<close>

theorem uvarint_enc_needs_space:
  assumes "length dst = dstsize"
  shows "\<exists>dst' n. rd_uvarint_enc_u64 dst dstsize num = Inr (dst', n) \<and>
    n = (if length (groups (unat num)) \<le> dstsize then length (groups (unat num)) else 0)"
proof (cases "length (groups (unat num)) \<le> dstsize")
  case True
  then show ?thesis using enc_loop_fits [of dst dstsize 0 num] assms by (simp add: rd_uvarint_enc_u64_def)
next
  case False
  then show ?thesis using enc_loop_short [of dst dstsize 0 num] assms by (simp add: rd_uvarint_enc_u64_def)
qed

theorem uvarint_enc_needs_space_witness:
  "\<exists>dst' n. rd_uvarint_enc_u64 [0] 1 300 = Inr (dst', n) \<and> n = 0"
  using uvarint_enc_needs_space [of "[0]" 1 300] by (simp add: groups.simps)

lemma dec_loop_overlong:
  "Suc (length src) \<le> n \<Longrightarrow> 64 \<le> shift + 7 * length (x # src) \<Longrightarrow> shift + 7 * length (x # src) < 71 \<Longrightarrow>
   \<forall>b \<in> set (x # src). b AND 0x80 \<noteq> 0 \<Longrightarrow> dec_loop (x # src @ y # ys) (Suc n) ofs num shift = Inl Bad_Shift"
proof (induction src arbitrary: n ofs num shift x)
  case Nil
  then obtain m where "n = Suc m" by (cases n) auto
  with Nil show ?case by (simp add: check_def Let_def)
next
  case (Cons z src)
  then obtain m where n: "n = Suc m" by (cases n) auto
  have "dec_loop (z # src @ y # ys) (Suc m) (ofs + 1) (num OR push_bit shift (ucast (x AND 0x7f))) (shift + 7) = Inl Bad_Shift"
    by (rule Cons.IH) (use Cons.prems n in auto)
  then show ?case using Cons.prems by (simp add: n check_def Let_def)
qed

lemma dec_loop_length: "dec_loop src n ofs num shift = Inr (r, v) \<Longrightarrow> r \<le> ofs + n"
  by (induction src n ofs num shift rule: dec_loop.induct)
    (fastforce simp: Let_def check_def split: if_splits)+

text \<open>
  C20: an overlong number is not detected. When ten bytes all announce another one, and there is
  another one, the decoder shifts by 70 bits, which C does not define; no return value of the
  decoder satisfies the overflow test its callers use.
\<close>

theorem uvarint_overlong_shifts_too_far:
  assumes "length src = 10" and "\<forall>b \<in> set src. b AND 0x80 \<noteq> 0" and "11 \<le> n"
  shows "rd_uvarint_dec (src @ b # rest) n = Inl Bad_Shift \<and>
    (\<forall>src' m r v. m \<le> SIZE_MAX \<longrightarrow> rd_uvarint_dec src' m = Inr (r, v) \<longrightarrow> \<not> RD_UVARINT_OVERFLOW r)"
proof (intro conjI allI impI)
  obtain x xs where src: "src = x # xs" using assms(1) by (cases src) auto
  obtain k where n: "n = Suc k" using assms(3) by (cases n) auto
  show "rd_uvarint_dec (src @ b # rest) n = Inl Bad_Shift"
    using dec_loop_overlong [of xs k 0 x b rest 0 0] assms by (simp add: rd_uvarint_dec_def src n)
next
  fix src' m r v
  assume "m \<le> SIZE_MAX" "rd_uvarint_dec src' m = Inr (r, v)"
  then show "\<not> RD_UVARINT_OVERFLOW r"
    using dec_loop_length [of src' m 0 0 0 r v] by (simp add: rd_uvarint_dec_def RD_UVARINT_OVERFLOW_def)
qed

theorem uvarint_overlong_shifts_too_far_witness:
  "rd_uvarint_dec (replicate 10 0x80 @ 1 # []) 11 = Inl Bad_Shift \<and> rd_uvarint_dec [5] 1 = Inr (1, Some 5) \<and>
   \<not> RD_UVARINT_OVERFLOW 1"
proof -
  have dec: "rd_uvarint_dec [5] 1 = Inr (1, Some 5)" by code_simp
  have more: "\<forall>b \<in> set (replicate 10 (0x80 :: byte)). b AND 0x80 \<noteq> 0" by simp
  have one: "1 \<le> SIZE_MAX" by (simp add: SIZE_MAX_def)
  from uvarint_overlong_shifts_too_far [of "replicate 10 0x80" 11 1 "[]", OF length_replicate more order_refl] one dec
  show ?thesis by blast
qed

end
