(* ===== verification/Msgq.thy ===== *)
theory Msgq
  imports Olog_Prelude "HOL-Library.Multiset"
begin

text \<open>
  Producer messages and the queues that hold them: \<open>rdkafka_msg.h\<close>, the queue functions of
  \<open>rdkafka_msg.c\<close> and \<open>rdkafka_partition.c\<close>, and the tail queue macros of \<open>rdsysqueue.h\<close> they use.
  A tail queue is the list of its elements; an element is identified by its address.
\<close>

section \<open>Messages\<close>

datatype payload = App_Pointer nat | Own_Copy "byte list"

datatype timestamp_type = TIMESTAMP_NOT_AVAILABLE | TIMESTAMP_CREATE_TIME | TIMESTAMP_LOG_APPEND_TIME

record rd_kafka_msg =
  rkm_addr :: nat                  \<comment> \<open>address of the object\<close>
  rkm_len :: "64 word"
  rkm_payload :: "payload option"
  rkm_key :: "byte list option"
  rkm_key_len :: "64 word"
  rkm_partition :: int
  rkm_flags :: "32 word"
  rkm_timestamp :: int
  rkm_tstype :: timestamp_type
  rkm_ts_timeout :: int
  rkm_ts_enq :: int
  rkm_ts_backoff :: int
  rkm_msgseq :: "64 word"
  rkm_retries :: int

text \<open>The size a message counts for in its queue.\<close>

definition msg_bytes :: "rd_kafka_msg \<Rightarrow> 64 word" where
  "msg_bytes rkm = rkm_len rkm + rkm_key_len rkm"

type_synonym msg_cmp = "rd_kafka_msg \<Rightarrow> rd_kafka_msg \<Rightarrow> int"

definition rd_kafka_msg_cmp_msgseq :: msg_cmp where
  "rd_kafka_msg_cmp_msgseq a b =
     (if rkm_msgseq a > rkm_msgseq b then 1 else if rkm_msgseq a < rkm_msgseq b then - 1 else 0)"

definition rd_kafka_msg_cmp_msgseq_lifo :: msg_cmp where
  "rd_kafka_msg_cmp_msgseq_lifo a b =
     (if rkm_msgseq a < rkm_msgseq b then 1 else if rkm_msgseq a > rkm_msgseq b then - 1 else 0)"

section \<open>Tail queues\<close>

fun tailq_remove :: "rd_kafka_msg list \<Rightarrow> rd_kafka_msg \<Rightarrow> rd_kafka_msg list" where
  "tailq_remove [] elm = []"
| "tailq_remove (m # ms) elm = (if rkm_addr m = rkm_addr elm then ms else m # tailq_remove ms elm)"

fun tailq_insert_sorted :: "msg_cmp \<Rightarrow> rd_kafka_msg \<Rightarrow> rd_kafka_msg list \<Rightarrow> rd_kafka_msg list" where
  "tailq_insert_sorted cmp elm [] = [elm]"
| "tailq_insert_sorted cmp elm (m # ms) =
     (if cmp elm m < 0 then elm # m # ms
      else if ms = [] then [m, elm]
      else m # tailq_insert_sorted cmp elm ms)"

fun tailq_insert_list :: "rd_kafka_msg list \<Rightarrow> rd_kafka_msg \<Rightarrow> rd_kafka_msg list \<Rightarrow> rd_kafka_msg list" where
  "tailq_insert_list [] listelm src = src"
| "tailq_insert_list (m # ms) listelm src =
     (if rkm_addr m = rkm_addr listelm then m # src @ ms else m # tailq_insert_list ms listelm src)"

section \<open>Message queues\<close>

record rd_kafka_msgq =
  rkmq_msgs :: "rd_kafka_msg list"
  rkmq_msg_cnt :: "32 word"       \<comment> \<open>an \<open>int32_t\<close>\<close>
  rkmq_msg_bytes :: "64 word"     \<comment> \<open>an \<open>int64_t\<close>\<close>

definition rd_kafka_msgq_init :: rd_kafka_msgq where
  "rd_kafka_msgq_init = \<lparr>rkmq_msgs = [], rkmq_msg_cnt = 0, rkmq_msg_bytes = 0\<rparr>"

definition rd_kafka_msgq_len :: "rd_kafka_msgq \<Rightarrow> int" where
  "rd_kafka_msgq_len rkmq = sint (rkmq_msg_cnt rkmq)"

definition rd_kafka_msgq_size :: "rd_kafka_msgq \<Rightarrow> nat" where
  "rd_kafka_msgq_size rkmq = unat (rkmq_msg_bytes rkmq)"

text \<open>Both queues after the call, destination first.\<close>

definition rd_kafka_msgq_concat :: "rd_kafka_msgq \<Rightarrow> rd_kafka_msgq \<Rightarrow> rd_kafka_msgq \<times> rd_kafka_msgq" where
  "rd_kafka_msgq_concat dst src =
     (\<lparr>rkmq_msgs = rkmq_msgs dst @ rkmq_msgs src,
       rkmq_msg_cnt = rkmq_msg_cnt dst + rkmq_msg_cnt src,
       rkmq_msg_bytes = rkmq_msg_bytes dst + rkmq_msg_bytes src\<rparr>,
      rd_kafka_msgq_init)"

definition rd_kafka_msgq_move :: "rd_kafka_msgq \<Rightarrow> rd_kafka_msgq \<Rightarrow> rd_kafka_msgq \<times> rd_kafka_msgq" where
  "rd_kafka_msgq_move dst src =
     (dst\<lparr>rkmq_msgs := rkmq_msgs src, rkmq_msg_cnt := rkmq_msg_cnt src, rkmq_msg_bytes := rkmq_msg_bytes src\<rparr>,
      rd_kafka_msgq_init)"

definition rd_kafka_msgq_deq :: "rd_kafka_msgq \<Rightarrow> rd_kafka_msg \<Rightarrow> bool \<Rightarrow> rd_kafka_msgq res" where
  "rd_kafka_msgq_deq rkmq rkm do_count =
     bindR (if do_count then
              bindR (check Assert_Failed (0 <s rkmq_msg_cnt rkmq)) (\<lambda>_.
              bindR (check Assert_Failed (msg_bytes rkm \<le>s rkmq_msg_bytes rkmq)) (\<lambda>_.
              Inr (rkmq\<lparr>rkmq_msg_cnt := rkmq_msg_cnt rkmq - 1,
                        rkmq_msg_bytes := rkmq_msg_bytes rkmq - msg_bytes rkm\<rparr>)))
            else Inr rkmq) (\<lambda>rkmq.
     Inr (rkmq\<lparr>rkmq_msgs := tailq_remove (rkmq_msgs rkmq) rkm\<rparr>))"

definition rd_kafka_msgq_pop :: "rd_kafka_msgq \<Rightarrow> (rd_kafka_msgq \<times> rd_kafka_msg option) res" where
  "rd_kafka_msgq_pop rkmq =
     (case rkmq_msgs rkmq of
        [] \<Rightarrow> Inr (rkmq, None)
      | rkm # _ \<Rightarrow> bindR (rd_kafka_msgq_deq rkmq rkm True) (\<lambda>rkmq. Inr (rkmq, Some rkm)))"

definition rd_kafka_msgq_insert :: "rd_kafka_msgq \<Rightarrow> rd_kafka_msg \<Rightarrow> rd_kafka_msgq" where
  "rd_kafka_msgq_insert rkmq rkm =
     rkmq\<lparr>rkmq_msgs := rkm # rkmq_msgs rkmq, rkmq_msg_cnt := rkmq_msg_cnt rkmq + 1,
          rkmq_msg_bytes := rkmq_msg_bytes rkmq + msg_bytes rkm\<rparr>"

definition rd_kafka_msgq_enq :: "rd_kafka_msgq \<Rightarrow> rd_kafka_msg \<Rightarrow> rd_kafka_msgq \<times> int" where
  "rd_kafka_msgq_enq rkmq rkm =
     (let rkmq = rkmq\<lparr>rkmq_msgs := rkmq_msgs rkmq @ [rkm],
            rkmq_msg_bytes := rkmq_msg_bytes rkmq + msg_bytes rkm,
            rkmq_msg_cnt := rkmq_msg_cnt rkmq + 1\<rparr>
      in (rkmq, sint (rkmq_msg_cnt rkmq)))"

definition rd_kafka_msgq_enq_sorted0 :: "rd_kafka_msgq \<Rightarrow> rd_kafka_msg \<Rightarrow> msg_cmp \<Rightarrow> rd_kafka_msgq \<times> int" where
  "rd_kafka_msgq_enq_sorted0 rkmq rkm order_cmp =
     (let rkmq = rkmq\<lparr>rkmq_msgs := tailq_insert_sorted order_cmp rkm (rkmq_msgs rkmq),
            rkmq_msg_bytes := rkmq_msg_bytes rkmq + msg_bytes rkm,
            rkmq_msg_cnt := rkmq_msg_cnt rkmq + 1\<rparr>
      in (rkmq, sint (rkmq_msg_cnt rkmq)))"

text \<open>The scan stops at the first message that has not timed out.\<close>

fun age_scan_loop :: "rd_kafka_msg list \<Rightarrow> int \<Rightarrow> rd_kafka_msgq \<times> rd_kafka_msgq \<Rightarrow> (rd_kafka_msgq \<times> rd_kafka_msgq) res" where
  "age_scan_loop [] now s = Inr s"
| "age_scan_loop (rkm # rest) now (rkmq, timedout) =
     (if rkm_ts_timeout rkm > now then Inr (rkmq, timedout)
      else
        bindR (rd_kafka_msgq_deq rkmq rkm True) (\<lambda>rkmq.
        age_scan_loop rest now (rkmq, fst (rd_kafka_msgq_enq timedout rkm))))"

definition rd_kafka_msgq_age_scan :: "rd_kafka_msgq \<Rightarrow> rd_kafka_msgq \<Rightarrow> int \<Rightarrow> (rd_kafka_msgq \<times> rd_kafka_msgq \<times> int) res" where
  "rd_kafka_msgq_age_scan rkmq timedout now =
     (let cnt = rkmq_msg_cnt timedout
      in bindR (age_scan_loop (rkmq_msgs rkmq) now (rkmq, timedout)) (\<lambda>(rkmq, timedout).
         Inr (rkmq, timedout, sint (rkmq_msg_cnt timedout - cnt))))"

fun find_pos_loop :: "rd_kafka_msg list \<Rightarrow> rd_kafka_msg \<Rightarrow> msg_cmp \<Rightarrow> rd_kafka_msg option \<Rightarrow> rd_kafka_msg option" where
  "find_pos_loop [] rkm cmp prev = prev"
| "find_pos_loop (cur # rest) rkm cmp prev =
     (if cmp rkm cur < 0 then prev else find_pos_loop rest rkm cmp (Some cur))"

definition rd_kafka_msgq_find_pos :: "rd_kafka_msgq \<Rightarrow> rd_kafka_msg \<Rightarrow> msg_cmp \<Rightarrow> rd_kafka_msg option" where
  "rd_kafka_msgq_find_pos rkmq rkm cmp = find_pos_loop (rkmq_msgs rkmq) rkm cmp None"

section \<open>Putting a queue back\<close>

definition rd_kafka_msgq_insert_msgq :: "rd_kafka_msgq \<Rightarrow> rd_kafka_msgq \<Rightarrow> msg_cmp \<Rightarrow> (rd_kafka_msgq \<times> rd_kafka_msgq) res" where
  "rd_kafka_msgq_insert_msgq destq srcq cmp =
     (case rkmq_msgs srcq of
        [] \<Rightarrow> Inr (destq, srcq)
      | first # _ \<Rightarrow>
        (case rkmq_msgs destq of
           [] \<Rightarrow> Inr (rd_kafka_msgq_move destq srcq)
         | dest_first # _ \<Rightarrow>
           if cmp first dest_first < 0 then
             let (srcq, destq) = rd_kafka_msgq_concat srcq destq
             in Inr (rd_kafka_msgq_move destq srcq)
           else if cmp first (last (rkmq_msgs destq)) > 0 then
             Inr (rd_kafka_msgq_concat destq srcq)
           else
             bindR (derefR Assert_Failed (rd_kafka_msgq_find_pos destq first cmp)) (\<lambda>pos.
             Inr (destq\<lparr>rkmq_msgs := tailq_insert_list (rkmq_msgs destq) pos (rkmq_msgs srcq),
                        rkmq_msg_cnt := rkmq_msg_cnt destq + rkmq_msg_cnt srcq,
                        rkmq_msg_bytes := rkmq_msg_bytes destq + rkmq_msg_bytes srcq\<rparr>,
                  rd_kafka_msgq_init))))"

definition retried :: "int \<Rightarrow> int \<Rightarrow> rd_kafka_msg \<Rightarrow> rd_kafka_msg" where
  "retried incr_retry backoff rkm =
     rkm\<lparr>rkm_ts_backoff := backoff, rkm_retries := s32 (rkm_retries rkm + incr_retry)\<rparr>"

fun retry_loop :: "rd_kafka_msg list \<Rightarrow> int \<Rightarrow> int \<Rightarrow> int \<Rightarrow> rd_kafka_msgq \<times> rd_kafka_msgq \<Rightarrow>
    (rd_kafka_msgq \<times> rd_kafka_msgq) res" where
  "retry_loop [] incr_retry max_retries backoff s = Inr s"
| "retry_loop (rkm # rest) incr_retry max_retries backoff (srcq, retryable) =
     (if s32 (rkm_retries rkm + incr_retry) > max_retries
      then retry_loop rest incr_retry max_retries backoff (srcq, retryable)
      else
        bindR (rd_kafka_msgq_deq srcq rkm True) (\<lambda>srcq.
        retry_loop rest incr_retry max_retries backoff
          (srcq, fst (rd_kafka_msgq_enq retryable (retried incr_retry backoff rkm)))))"

text \<open>Destination, source and the return value.\<close>

definition rd_kafka_retry_msgq :: "rd_kafka_msgq \<Rightarrow> rd_kafka_msgq \<Rightarrow> int \<Rightarrow> int \<Rightarrow> int \<Rightarrow> msg_cmp \<Rightarrow>
    (rd_kafka_msgq \<times> rd_kafka_msgq \<times> int) res" where
  "rd_kafka_retry_msgq destq srcq incr_retry max_retries backoff cmp =
     bindR (retry_loop (rkmq_msgs srcq) incr_retry max_retries backoff (srcq, rd_kafka_msgq_init)) (\<lambda>(srcq, retryable).
     if rkmq_msgs retryable = [] then Inr (destq, srcq, 0)
     else
       bindR (rd_kafka_msgq_insert_msgq destq retryable cmp) (\<lambda>(destq, retryable).
       Inr (destq, srcq, 1)))"


section \<open>Counters\<close>

definition msgq_ok :: "rd_kafka_msgq \<Rightarrow> bool" where
  "msgq_ok q \<longleftrightarrow> rkmq_msg_cnt q = word_of_nat (length (rkmq_msgs q)) \<and>
     rkmq_msg_bytes q = sum_list (map msg_bytes (rkmq_msgs q)) \<and> distinct (map rkm_addr (rkmq_msgs q))"

text \<open>The contents fit the signed counters.\<close>

definition msgs_fit :: "rd_kafka_msg list \<Rightarrow> bool" where
  "msgs_fit ms \<longleftrightarrow> length ms < 2 ^ 31 \<and> sum_list (map (\<lambda>m. unat (msg_bytes m)) ms) < 2 ^ 63"

lemma msgs_fit_append: "msgs_fit (xs @ ys) \<Longrightarrow> msgs_fit xs \<and> msgs_fit ys"
  by (simp add: msgs_fit_def)

lemma msgs_fit_remove: "msgs_fit (xs @ m # ys) \<Longrightarrow> msgs_fit (xs @ ys)"
  by (simp add: msgs_fit_def)

lemma msgq_ok_init [simp]: "msgq_ok rd_kafka_msgq_init"
  by (simp add: msgq_ok_def rd_kafka_msgq_init_def)

lemma tailq_remove_at:
  "distinct (map rkm_addr (xs @ m # ys)) \<Longrightarrow> tailq_remove (xs @ m # ys) m = xs @ ys"
  by (induction xs) auto

lemma unat_sum_bytes:
  "sum_list (map (\<lambda>m. unat (msg_bytes m)) ms) < 2 ^ 64 \<Longrightarrow>
   unat (sum_list (map msg_bytes ms)) = sum_list (map (\<lambda>m. unat (msg_bytes m)) ms)"
proof (induction ms)
  case (Cons m ms)
  then have IH: "unat (sum_list (map msg_bytes ms)) = sum_list (map (\<lambda>m. unat (msg_bytes m)) ms)" by simp
  have "unat (msg_bytes m) + unat (sum_list (map msg_bytes ms)) < 2 ^ LENGTH(64)" using Cons.prems IH by simp
  then show ?case using IH unat_add_lem [of "msg_bytes m" "sum_list (map msg_bytes ms)"] by simp
qed simp

lemma rd_kafka_msgq_deq_ok:
  assumes "msgq_ok q" and "rkmq_msgs q = xs @ m # ys" and "msgs_fit (rkmq_msgs q)"
  shows "\<exists>q'. rd_kafka_msgq_deq q m True = Inr q' \<and> msgq_ok q' \<and> rkmq_msgs q' = xs @ ys"
proof -
  let ?ms = "xs @ m # ys" and ?bytes = "sum_list (map (\<lambda>m. unat (msg_bytes m)) (xs @ m # ys))"
  have len: "length ?ms < 2 ^ 31" and bytes: "?bytes < 2 ^ 63" using assms(2,3) by (simp_all add: msgs_fit_def)
  have cnt: "unat (rkmq_msg_cnt q) = length ?ms"
    using assms(1,2) len by (simp add: msgq_ok_def unat_of_nat_small del: of_nat_Suc of_nat_add)
  have "sint (rkmq_msg_cnt q) = int (length ?ms)" using cnt len by (subst sint_small) simp_all
  then have "0 <s rkmq_msg_cnt q" by (simp add: word_sless_alt)
  moreover have "msg_bytes m \<le>s rkmq_msg_bytes q"
  proof -
    have u: "unat (rkmq_msg_bytes q) = ?bytes"
      using assms(1,2) bytes unat_sum_bytes [of ?ms] by (simp add: msgq_ok_def)
    have "unat (msg_bytes m) \<le> ?bytes" by simp
    moreover have "sint (rkmq_msg_bytes q) = int ?bytes" using u bytes by (subst sint_small) simp_all
    moreover have "sint (msg_bytes m) = int (unat (msg_bytes m))"
      using \<open>unat (msg_bytes m) \<le> ?bytes\<close> bytes by (subst sint_small) simp_all
    ultimately show ?thesis by (simp add: word_sle_eq)
  qed
  ultimately show ?thesis using assms(1,2) tailq_remove_at [of xs m ys]
    by (auto simp: rd_kafka_msgq_deq_def msgq_ok_def algebra_simps)
qed

lemma rd_kafka_msgq_enq_ok:
  assumes "msgq_ok q" and "rkm_addr m \<notin> rkm_addr ` set (rkmq_msgs q)"
  shows "msgq_ok (fst (rd_kafka_msgq_enq q m))" and "rkmq_msgs (fst (rd_kafka_msgq_enq q m)) = rkmq_msgs q @ [m]"
  using assms by (auto simp: rd_kafka_msgq_enq_def msgq_ok_def Let_def)

lemma set_tailq_insert_sorted: "set (tailq_insert_sorted cmp m ms) = insert m (set ms)"
  by (induction cmp m ms rule: tailq_insert_sorted.induct) auto

lemma mset_tailq_insert_sorted: "mset (tailq_insert_sorted cmp m ms) = add_mset m (mset ms)"
  by (induction cmp m ms rule: tailq_insert_sorted.induct) auto

lemma rd_kafka_msgq_enq_sorted0_ok:
  assumes "msgq_ok q" and "rkm_addr m \<notin> rkm_addr ` set (rkmq_msgs q)"
  shows "msgq_ok (fst (rd_kafka_msgq_enq_sorted0 q m cmp))"
proof -
  let ?ms = "tailq_insert_sorted cmp m (rkmq_msgs q)"
  have perm: "mset ?ms = mset (m # rkmq_msgs q)" by (simp add: mset_tailq_insert_sorted)
  have "length ?ms = Suc (length (rkmq_msgs q))" using mset_eq_length [OF perm] by simp
  moreover have "sum_list (map msg_bytes ?ms) = msg_bytes m + sum_list (map msg_bytes (rkmq_msgs q))"
    using perm by (metis list.simps(9) mset_map sum_list.Cons sum_mset_sum_list)
  moreover have "distinct (map rkm_addr ?ms) = distinct (map rkm_addr (m # rkmq_msgs q))"
    using perm by (metis mset_eq_imp_distinct_iff mset_map)
  ultimately show ?thesis using assms by (simp add: rd_kafka_msgq_enq_sorted0_def msgq_ok_def Let_def add.commute)
qed

section \<open>Order\<close>

text \<open>
  The whole source is put before the first message of the destination that its first message precedes.
\<close>

definition block_at :: "msg_cmp \<Rightarrow> rd_kafka_msg list \<Rightarrow> rd_kafka_msg list \<Rightarrow> rd_kafka_msg list" where
  "block_at cmp dest src =
     takeWhile (\<lambda>d. \<not> cmp (hd src) d < 0) dest @ src @ dropWhile (\<lambda>d. \<not> cmp (hd src) d < 0) dest"

text \<open>No message of the destination falls into the range of the source.\<close>

definition apart :: "msg_cmp \<Rightarrow> rd_kafka_msg list \<Rightarrow> rd_kafka_msg list \<Rightarrow> bool" where
  "apart cmp dest src \<longleftrightarrow> src = [] \<or> (\<forall>d \<in> set dest. cmp d (hd src) < 0 \<or> cmp (last src) d < 0)"

text \<open>
  What the queues rely on of the comparator a topic is configured with, and what they then
  guarantee of the order of their messages.
\<close>

locale msg_order =
  fixes cmp :: msg_cmp
  assumes flip: "cmp a b < 0 \<longleftrightarrow> cmp b a > 0"
    and less_trans: "cmp a b < 0 \<Longrightarrow> cmp b c < 0 \<Longrightarrow> cmp a c < 0"
begin

abbreviation in_order :: "rd_kafka_msg list \<Rightarrow> bool" where
  "in_order \<equiv> sorted_wrt (\<lambda>a b. cmp a b < 0)"

lemma less_asym: "cmp a b < 0 \<Longrightarrow> \<not> cmp b a < 0"
  using flip [of a b] by simp

lemma in_order_insert:
  "in_order ms \<Longrightarrow> \<forall>x \<in> set ms. cmp m x \<noteq> 0 \<Longrightarrow> in_order (tailq_insert_sorted cmp m ms)"
proof (induction ms)
  case (Cons x xs)
  show ?case
  proof (cases "cmp m x < 0")
    case True
    then show ?thesis using Cons.prems less_trans by auto
  next
    case False
    then have "cmp x m < 0" using Cons.prems(2) flip [of x m] by force
    then show ?thesis using False Cons by (auto simp: set_tailq_insert_sorted)
  qed
qed simp

lemma find_pos_between:
  assumes "\<forall>x \<in> set d1. \<not> cmp m x < 0" and "d2 \<noteq> [] \<Longrightarrow> cmp m (hd d2) < 0"
  shows "find_pos_loop (d1 @ d2) m cmp prev = (if d1 = [] then prev else Some (last d1))"
  using assms(1)
proof (induction d1 arbitrary: prev)
  case Nil
  then show ?case using assms(2) by (cases d2) auto
next
  case (Cons x xs)
  then show ?case by simp
qed

lemma tailq_insert_list_at:
  "distinct (map rkm_addr (d1 @ d2)) \<Longrightarrow> d1 \<noteq> [] \<Longrightarrow> tailq_insert_list (d1 @ d2) (last d1) src = d1 @ src @ d2"
proof (induction d1)
  case (Cons x xs)
  show ?case
  proof (cases "xs = []")
    case False
    then have "rkm_addr (last xs) \<in> rkm_addr ` set xs" by simp
    then have "rkm_addr x \<noteq> rkm_addr (last xs)" using Cons.prems(1) by auto
    then show ?thesis using False Cons by simp
  qed simp
qed simp

lemma insert_msgq_block:
  assumes "msgq_ok destq" and "msgq_ok srcq" and order: "in_order (rkmq_msgs destq)"
    and fresh: "rkm_addr ` set (rkmq_msgs srcq) \<inter> rkm_addr ` set (rkmq_msgs destq) = {}"
  shows "\<exists>destq' srcq'. rd_kafka_msgq_insert_msgq destq srcq cmp = Inr (destq', srcq') \<and>
    rkmq_msgs destq' = block_at cmp (rkmq_msgs destq) (rkmq_msgs srcq) \<and> msgq_ok destq' \<and> rkmq_msgs srcq' = [] \<and> msgq_ok srcq'"
proof (cases "rkmq_msgs srcq")
  case Nil
  then show ?thesis using assms(1,2) by (simp add: rd_kafka_msgq_insert_msgq_def block_at_def)
next
  case (Cons first rest)
  define d1 where "d1 = takeWhile (\<lambda>d. \<not> cmp first d < 0) (rkmq_msgs destq)"
  define d2 where "d2 = dropWhile (\<lambda>d. \<not> cmp first d < 0) (rkmq_msgs destq)"
  have dest: "rkmq_msgs destq = d1 @ d2" by (simp add: d1_def d2_def)
  have goal: "block_at cmp (rkmq_msgs destq) (rkmq_msgs srcq) = d1 @ rkmq_msgs srcq @ d2"
    by (simp add: block_at_def d1_def d2_def Cons)
  have dist: "distinct (map rkm_addr (d1 @ rkmq_msgs srcq @ d2))"
    using assms(1,2) dest fresh by (auto simp: msgq_ok_def)
  have lt1: "\<forall>x \<in> set d1. \<not> cmp first x < 0" by (auto simp: d1_def dest: set_takeWhileD)
  have hd2: "cmp first (hd d2) < 0" if "d2 \<noteq> []" using hd_dropWhile that unfolding d2_def by blast
  have lt2: "\<forall>x \<in> set d2. cmp first x < 0"
    using hd2 order dest less_trans by (cases d2) (auto simp: sorted_wrt_append)
  have cnt: "rkmq_msg_cnt destq + rkmq_msg_cnt srcq = word_of_nat (length (d1 @ rkmq_msgs srcq @ d2))"
    and bytes: "rkmq_msg_bytes destq + rkmq_msg_bytes srcq = sum_list (map msg_bytes (d1 @ rkmq_msgs srcq @ d2))"
    using assms(1,2) dest by (simp_all add: msgq_ok_def algebra_simps)
  note unfold = rd_kafka_msgq_insert_msgq_def rd_kafka_msgq_move_def rd_kafka_msgq_concat_def msgq_ok_def Cons dest rd_kafka_msgq_init_def
  show ?thesis unfolding goal
  proof (cases d1)
    case Nil
    then show "\<exists>destq' srcq'. rd_kafka_msgq_insert_msgq destq srcq cmp = Inr (destq', srcq') \<and>
        rkmq_msgs destq' = d1 @ rkmq_msgs srcq @ d2 \<and> msgq_ok destq' \<and> rkmq_msgs srcq' = [] \<and> msgq_ok srcq'"
      using hd2 cnt bytes dist assms(2) by (cases d2) (simp_all add: unfold add.commute)
  next
    case d1: (Cons x xs)
    then have nlt: "\<not> cmp first x < 0" using lt1 by simp
    have pos: "rd_kafka_msgq_find_pos destq first cmp = Some (last d1)"
      using find_pos_between [OF lt1, of d2 None] hd2 d1 dest by (simp add: rd_kafka_msgq_find_pos_def)
    have ins: "tailq_insert_list (d1 @ d2) (last d1) (rkmq_msgs srcq) = d1 @ rkmq_msgs srcq @ d2"
      using tailq_insert_list_at [of d1 d2] assms(1) dest d1 by (simp add: msgq_ok_def)
    have last2: "\<not> 0 < cmp first (last (d1 @ d2))" if "d2 \<noteq> []" using lt2 that less_asym flip [of "last d2" first] by (metis last_appendR last_in_set not_less_iff_gr_or_eq)
    show "\<exists>destq' srcq'. rd_kafka_msgq_insert_msgq destq srcq cmp = Inr (destq', srcq') \<and>
        rkmq_msgs destq' = d1 @ rkmq_msgs srcq @ d2 \<and> msgq_ok destq' \<and> rkmq_msgs srcq' = [] \<and> msgq_ok srcq'"
    proof (cases "0 < cmp first (last (d1 @ d2))")
      case True
      then have "d2 = []" using last2 by blast
      then show ?thesis using nlt True d1 cnt bytes dist by (simp add: unfold)
    next
      case False
      then show ?thesis using nlt d1 cnt bytes dist pos ins by (simp add: unfold)
    qed
  qed
qed

text \<open>The result is in order exactly when no message of the destination falls into the range of the source.\<close>

lemma block_at_in_order:
  assumes dest: "in_order dest" and src: "in_order src"
  shows "in_order (block_at cmp dest src) \<longleftrightarrow> apart cmp dest src"
proof (cases "src = []")
  case True
  then show ?thesis using dest by (simp add: block_at_def apart_def)
next
  case ne: False
  define d1 where "d1 = takeWhile (\<lambda>d. \<not> cmp (hd src) d < 0) dest"
  define d2 where "d2 = dropWhile (\<lambda>d. \<not> cmp (hd src) d < 0) dest"
  have dd: "dest = d1 @ d2" by (simp add: d1_def d2_def)
  have b: "block_at cmp dest src = d1 @ src @ d2" by (simp add: block_at_def d1_def d2_def)
  have lt1: "\<not> cmp (hd src) x < 0" if "x \<in> set d1" for x using that by (auto simp: d1_def dest: set_takeWhileD)
  have "cmp (hd src) (hd d2) < 0" if "d2 \<noteq> []" using hd_dropWhile that unfolding d2_def by blast
  then have lt2: "cmp (hd src) x < 0" if "x \<in> set d2" for x
    using that dest dd less_trans by (cases d2) (auto simp: sorted_wrt_append)
  have range: "(x = hd src \<or> cmp (hd src) x < 0) \<and> (x = last src \<or> cmp x (last src) < 0)" if "x \<in> set src" for x
  proof -
    have "x = hd src \<or> cmp (hd src) x < 0" using that src by (cases src) auto
    moreover have "x = last src \<or> cmp x (last src) < 0" using that src by (cases src rule: rev_cases) (auto simp: sorted_wrt_append)
    ultimately show ?thesis by blast
  qed
  have hl: "hd src \<in> set src" "last src \<in> set src" using ne by simp_all
  have "in_order (d1 @ src @ d2) \<longleftrightarrow> (\<forall>x \<in> set d1. \<forall>y \<in> set src. cmp x y < 0) \<and> (\<forall>x \<in> set src. \<forall>y \<in> set d2. cmp x y < 0)"
    using dest src dd by (auto simp: sorted_wrt_append)
  also have "\<dots> \<longleftrightarrow> (\<forall>x \<in> set d1. cmp x (hd src) < 0) \<and> (\<forall>y \<in> set d2. cmp (last src) y < 0)"
    using range hl less_trans by metis
  also have "\<dots> \<longleftrightarrow> (\<forall>d \<in> set dest. cmp d (hd src) < 0 \<or> cmp (last src) d < 0)"
  proof -
    have "\<not> cmp (last src) x < 0" if "x \<in> set d1" for x using lt1 [OF that] range [OF hl(2)] less_trans by metis
    moreover have "\<not> cmp x (hd src) < 0" if "x \<in> set d2" for x using lt2 [OF that] less_asym by blast
    ultimately show ?thesis using dd by auto
  qed
  finally show ?thesis using ne by (simp add: b apart_def)
qed

end

interpretation fifo: msg_order rd_kafka_msg_cmp_msgseq
  by unfold_locales (auto simp: rd_kafka_msg_cmp_msgseq_def split: if_splits)

interpretation lifo: msg_order rd_kafka_msg_cmp_msgseq_lifo
  by unfold_locales (auto simp: rd_kafka_msg_cmp_msgseq_lifo_def split: if_splits)


section \<open>Scans\<close>

lemma age_scan_loop_prefix:
  assumes "msgq_ok q" and "msgq_ok t" and "rkmq_msgs q = ms" and "msgs_fit ms"
    and "rkm_addr ` set ms \<inter> rkm_addr ` set (rkmq_msgs t) = {}"
  shows "\<exists>q' t'. age_scan_loop ms now (q, t) = Inr (q', t') \<and> msgq_ok q' \<and> msgq_ok t' \<and>
    rkmq_msgs q' = dropWhile (\<lambda>m. rkm_ts_timeout m \<le> now) ms \<and>
    rkmq_msgs t' = rkmq_msgs t @ takeWhile (\<lambda>m. rkm_ts_timeout m \<le> now) ms"
  using assms
proof (induction ms arbitrary: q t)
  case (Cons m ms)
  show ?case
  proof (cases "rkm_ts_timeout m > now")
    case True
    then show ?thesis using Cons.prems by simp
  next
    case False
    obtain q' where q': "rd_kafka_msgq_deq q m True = Inr q'" "msgq_ok q'" "rkmq_msgs q' = ms"
      using rd_kafka_msgq_deq_ok [of q "[]" m ms] Cons.prems by auto
    let ?t = "fst (rd_kafka_msgq_enq t m)"
    have t: "msgq_ok ?t" "rkmq_msgs ?t = rkmq_msgs t @ [m]"
      using rd_kafka_msgq_enq_ok [of t m] Cons.prems by auto
    have "distinct (map rkm_addr (m # ms))" using Cons.prems(1,3) by (simp add: msgq_ok_def)
    then have "rkm_addr ` set ms \<inter> rkm_addr ` set (rkmq_msgs ?t) = {}" using Cons.prems(5) t(2) by auto
    moreover have "msgs_fit ms" using Cons.prems(4) msgs_fit_append [of "[m]" ms] by simp
    ultimately show ?thesis using Cons.IH [OF q'(2) t(1) q'(3)] q'(1) t(2) False by auto
  qed
qed simp

lemma retry_loop_split:
  assumes "msgq_ok q" and "msgq_ok r" and "rkmq_msgs q = pre @ ms" and "msgs_fit (pre @ ms)"
    and "rkm_addr ` set ms \<inter> rkm_addr ` set (rkmq_msgs r) = {}"
  shows "\<exists>q' r'. retry_loop ms incr max_retries backoff (q, r) = Inr (q', r') \<and> msgq_ok q' \<and> msgq_ok r' \<and>
    rkmq_msgs q' = pre @ filter (\<lambda>m. s32 (rkm_retries m + incr) > max_retries) ms \<and>
    rkmq_msgs r' = rkmq_msgs r @ map (retried incr backoff) (filter (\<lambda>m. \<not> s32 (rkm_retries m + incr) > max_retries) ms)"
  using assms
proof (induction ms arbitrary: q r pre)
  case (Cons m ms)
  have dist: "distinct (map rkm_addr (pre @ m # ms))" using Cons.prems(1,3) by (simp add: msgq_ok_def)
  show ?case
  proof (cases "s32 (rkm_retries m + incr) > max_retries")
    case True
    then show ?thesis using Cons.IH [of q r "pre @ [m]"] Cons.prems by simp
  next
    case False
    obtain q' where q': "rd_kafka_msgq_deq q m True = Inr q'" "msgq_ok q'" "rkmq_msgs q' = pre @ ms"
      using rd_kafka_msgq_deq_ok [of q pre m ms] Cons.prems by auto
    let ?m = "retried incr backoff m"
    let ?r = "fst (rd_kafka_msgq_enq r ?m)"
    have addr: "rkm_addr ?m = rkm_addr m" by (simp add: retried_def)
    have r: "msgq_ok ?r" "rkmq_msgs ?r = rkmq_msgs r @ [?m]"
      using rd_kafka_msgq_enq_ok [of r ?m] Cons.prems by (auto simp: addr)
    have "rkm_addr ` set ms \<inter> rkm_addr ` set (rkmq_msgs ?r) = {}" using Cons.prems(5) r(2) dist by (auto simp: addr)
    then show ?thesis
      using Cons.IH [OF q'(2) r(1) q'(3) msgs_fit_remove [OF Cons.prems(4)]] q'(1) r(2) False by auto
  qed
qed simp

lemma retried_cmp [simp]:
  "rd_kafka_msg_cmp_msgseq (retried i t a) b = rd_kafka_msg_cmp_msgseq a b"
  "rd_kafka_msg_cmp_msgseq a (retried i t b) = rd_kafka_msg_cmp_msgseq a b"
  "rd_kafka_msg_cmp_msgseq_lifo (retried i t a) b = rd_kafka_msg_cmp_msgseq_lifo a b"
  "rd_kafka_msg_cmp_msgseq_lifo a (retried i t b) = rd_kafka_msg_cmp_msgseq_lifo a b"
  by (simp_all add: rd_kafka_msg_cmp_msgseq_def rd_kafka_msg_cmp_msgseq_lifo_def retried_def)

text \<open>The two orders of a topic, first in first out and last in first out.\<close>

definition msg_orders :: "msg_cmp set" where
  "msg_orders = {rd_kafka_msg_cmp_msgseq, rd_kafka_msg_cmp_msgseq_lifo}"

lemma msg_orders_order: "cmp \<in> msg_orders \<Longrightarrow> msg_order cmp"
  using fifo.msg_order_axioms lifo.msg_order_axioms by (auto simp: msg_orders_def)

lemma retried_order: "cmp \<in> msg_orders \<Longrightarrow> cmp (retried i t a) (retried i t b) = cmp a b"
  by (auto simp: msg_orders_def)

lemma retry_msgq_block:
  assumes cmp: "cmp \<in> msg_orders" and ok: "msgq_ok destq" "msgq_ok srcq" "msgs_fit (rkmq_msgs srcq)"
    and order: "sorted_wrt (\<lambda>a b. cmp a b < 0) (rkmq_msgs destq)"
    and fresh: "rkm_addr ` set (rkmq_msgs srcq) \<inter> rkm_addr ` set (rkmq_msgs destq) = {}"
    and rs: "rs = map (retried incr backoff) (filter (\<lambda>m. s32 (rkm_retries m + incr) \<le> max_retries) (rkmq_msgs srcq))"
  shows "\<exists>destq' srcq'. rd_kafka_retry_msgq destq srcq incr max_retries backoff cmp = Inr (destq', srcq', if rs = [] then 0 else 1) \<and>
    msgq_ok destq' \<and> msgq_ok srcq' \<and>
    rkmq_msgs srcq' = filter (\<lambda>m. s32 (rkm_retries m + incr) > max_retries) (rkmq_msgs srcq) \<and>
    rkmq_msgs destq' = block_at cmp (rkmq_msgs destq) rs"
proof -
  obtain q' r' where loop: "retry_loop (rkmq_msgs srcq) incr max_retries backoff (srcq, rd_kafka_msgq_init) = Inr (q', r')"
    "msgq_ok q'" "msgq_ok r'" "rkmq_msgs q' = filter (\<lambda>m. s32 (rkm_retries m + incr) > max_retries) (rkmq_msgs srcq)"
    "rkmq_msgs r' = rs"
    using retry_loop_split [OF ok(2) msgq_ok_init, of "[]" "rkmq_msgs srcq" incr max_retries backoff] ok(3) rs
    by (auto simp: rd_kafka_msgq_init_def not_less)
  have "rkm_addr ` set rs \<inter> rkm_addr ` set (rkmq_msgs destq) = {}" using fresh by (auto simp: rs retried_def)
  then obtain destq' r2 where ins: "rd_kafka_msgq_insert_msgq destq r' cmp = Inr (destq', r2)"
    "rkmq_msgs destq' = block_at cmp (rkmq_msgs destq) rs" "msgq_ok destq'"
    using msg_order.insert_msgq_block [OF msg_orders_order [OF cmp] ok(1) loop(3) order] loop(5) by auto
  show ?thesis
  proof (cases "rs = []")
    case True
    then show ?thesis using loop ok(1) block_at_def by (simp add: rd_kafka_retry_msgq_def)
  next
    case False
    then show ?thesis using loop ins by (simp add: rd_kafka_retry_msgq_def)
  qed
qed

section \<open>Properties\<close>

text \<open>
  C24: a queue is put into another one as a block. With a destination in order, under either order of
  a topic, the whole source stands before the first message of the destination that the first message of
  the source precedes; nothing else moves, the counters keep matching the contents, and the source is left
  empty. If the source is in order too, the result is in order exactly when no message of the
  destination falls into the range of the source, which is what the callers have to see to.
\<close>

theorem msgq_insert_msgq_keeps_order:
  assumes "cmp \<in> {rd_kafka_msg_cmp_msgseq, rd_kafka_msg_cmp_msgseq_lifo}"
    and "msgq_ok destq" and "msgq_ok srcq"
    and "sorted_wrt (\<lambda>a b. cmp a b < 0) (rkmq_msgs destq)" and "sorted_wrt (\<lambda>a b. cmp a b < 0) (rkmq_msgs srcq)"
    and "rkm_addr ` set (rkmq_msgs srcq) \<inter> rkm_addr ` set (rkmq_msgs destq) = {}"
  shows "\<exists>destq' srcq'. rd_kafka_msgq_insert_msgq destq srcq cmp = Inr (destq', srcq') \<and>
    rkmq_msgs destq' = block_at cmp (rkmq_msgs destq) (rkmq_msgs srcq) \<and>
    msgq_ok destq' \<and> rkmq_msgs srcq' = [] \<and> msgq_ok srcq' \<and>
    (sorted_wrt (\<lambda>a b. cmp a b < 0) (rkmq_msgs destq') \<longleftrightarrow> apart cmp (rkmq_msgs destq) (rkmq_msgs srcq))"
proof -
  have ord: "msg_order cmp" using assms(1) msg_orders_order by (simp add: msg_orders_def)
  show ?thesis
    using msg_order.insert_msgq_block [OF ord assms(2-4,6)] msg_order.block_at_in_order [OF ord assms(4,5)] by auto
qed

definition sample_msg :: "nat \<Rightarrow> rd_kafka_msg" where
  "sample_msg n = \<lparr>rkm_addr = n, rkm_len = 10, rkm_payload = None, rkm_key = None, rkm_key_len = 0, rkm_partition = 0,
     rkm_flags = 0, rkm_timestamp = 0, rkm_tstype = TIMESTAMP_NOT_AVAILABLE, rkm_ts_timeout = int n, rkm_ts_enq = 0,
     rkm_ts_backoff = 0, rkm_msgseq = word_of_nat n, rkm_retries = int (n mod 3)\<rparr>"

definition sample_queue :: "nat list \<Rightarrow> rd_kafka_msgq" where
  "sample_queue ns = \<lparr>rkmq_msgs = map sample_msg ns, rkmq_msg_cnt = word_of_nat (length ns),
     rkmq_msg_bytes = 10 * word_of_nat (length ns)\<rparr>"

theorem msgq_insert_msgq_keeps_order_witness:
  "(\<exists>destq' srcq'. rd_kafka_msgq_insert_msgq (sample_queue [1, 2, 7]) (sample_queue [4, 5]) rd_kafka_msg_cmp_msgseq =
      Inr (destq', srcq') \<and> rkmq_msgs destq' = map sample_msg [1, 2, 4, 5, 7]) \<and>
   (\<exists>destq' srcq'. rd_kafka_msgq_insert_msgq (sample_queue [1, 5]) (sample_queue [2, 7]) rd_kafka_msg_cmp_msgseq =
      Inr (destq', srcq') \<and> rkmq_msgs destq' = map sample_msg [1, 2, 7, 5])"
proof -
  note one = msgq_insert_msgq_keeps_order [of rd_kafka_msg_cmp_msgseq "sample_queue [1, 2, 7]" "sample_queue [4, 5]"]
  note two = msgq_insert_msgq_keeps_order [of rd_kafka_msg_cmp_msgseq "sample_queue [1, 5]" "sample_queue [2, 7]"]
  note defs = block_at_def sample_queue_def sample_msg_def msgq_ok_def msg_bytes_def rd_kafka_msg_cmp_msgseq_def
  show ?thesis
    by (rule conjI) (use one in \<open>auto simp: defs\<close>, use two in \<open>auto simp: defs\<close>)
qed

text \<open>
  C25: a retry loses nothing. The messages that may be retried once more leave the source in order, with
  the new backoff and count; the others stay there in order. With a destination in order, under
  either order of a topic, the retried messages stand in the destination as one block before the first
  message that the first of them precedes. The counters of both queues match their contents and no
  assertion fails. If the source was in order, the destination still is exactly when no message of it
  falls into the range of the retried ones.
\<close>

theorem retry_msgq_splits:
  assumes "cmp \<in> {rd_kafka_msg_cmp_msgseq, rd_kafka_msg_cmp_msgseq_lifo}"
    and "msgq_ok destq" and "msgq_ok srcq" and "msgs_fit (rkmq_msgs srcq)"
    and "sorted_wrt (\<lambda>a b. cmp a b < 0) (rkmq_msgs destq)" and "sorted_wrt (\<lambda>a b. cmp a b < 0) (rkmq_msgs srcq)"
    and "rkm_addr ` set (rkmq_msgs srcq) \<inter> rkm_addr ` set (rkmq_msgs destq) = {}"
    and "rs = map (retried incr backoff) (filter (\<lambda>m. s32 (rkm_retries m + incr) \<le> max_retries) (rkmq_msgs srcq))"
  shows "\<exists>destq' srcq' r. rd_kafka_retry_msgq destq srcq incr max_retries backoff cmp = Inr (destq', srcq', r) \<and>
    msgq_ok destq' \<and> msgq_ok srcq' \<and>
    rkmq_msgs srcq' = filter (\<lambda>m. s32 (rkm_retries m + incr) > max_retries) (rkmq_msgs srcq) \<and>
    rkmq_msgs destq' = block_at cmp (rkmq_msgs destq) rs \<and>
    (sorted_wrt (\<lambda>a b. cmp a b < 0) (rkmq_msgs destq') \<longleftrightarrow> apart cmp (rkmq_msgs destq) rs)"
proof -
  have orders: "cmp \<in> msg_orders" using assms(1) by (simp add: msg_orders_def)
  have "sorted_wrt (\<lambda>a b. cmp a b < 0) rs"
    unfolding assms(8) using assms(6) by (simp add: sorted_wrt_map retried_order [OF orders] sorted_wrt_filter)
  then show ?thesis
    using retry_msgq_block [OF orders assms(2-5,7,8)]
      msg_order.block_at_in_order [OF msg_orders_order [OF orders] assms(5), of rs] by auto
qed

theorem retry_msgq_splits_witness:
  "\<exists>destq' srcq' r. rd_kafka_retry_msgq (sample_queue [1, 9]) (sample_queue [4, 5]) 1 2 77 rd_kafka_msg_cmp_msgseq =
     Inr (destq', srcq', r) \<and> rkmq_msgs srcq' = [sample_msg 5] \<and>
     rkmq_msgs destq' = [sample_msg 1, retried 1 77 (sample_msg 4), sample_msg 9]"
proof -
  note * = retry_msgq_splits [of rd_kafka_msg_cmp_msgseq "sample_queue [1, 9]" "sample_queue [4, 5]"
      "[retried 1 77 (sample_msg 4)]" 1 77 2]
  show ?thesis using *
    by (auto simp: block_at_def sample_queue_def sample_msg_def msgq_ok_def msg_bytes_def msgs_fit_def swrap_def
        rd_kafka_msg_cmp_msgseq_def retried_def)
qed

text \<open>
  The value of \<open>rd_kafka_retry_msgq\<close> is 1 exactly when some message was put back. Its comment says that
  0 means that all messages were retried, and 1 that some were not; no caller makes use of the value.
\<close>

lemma retry_msgq_value:
  assumes "cmp \<in> msg_orders" and "msgq_ok destq" and "msgq_ok srcq" and "msgs_fit (rkmq_msgs srcq)"
    and "sorted_wrt (\<lambda>a b. cmp a b < 0) (rkmq_msgs destq)"
    and "rkm_addr ` set (rkmq_msgs srcq) \<inter> rkm_addr ` set (rkmq_msgs destq) = {}"
  shows "\<exists>destq' srcq'. rd_kafka_retry_msgq destq srcq incr max_retries backoff cmp =
    Inr (destq', srcq', if \<exists>m \<in> set (rkmq_msgs srcq). s32 (rkm_retries m + incr) \<le> max_retries then 1 else 0)"
  using retry_msgq_block [OF assms refl, of incr max_retries backoff] by (auto simp: filter_empty_conv)

text \<open>
  The age scan moves exactly the timed-out messages at the head of the queue, up to the first
  one that has not timed out, and returns their number.
\<close>

theorem age_scan_takes_timed_out_prefix:
  assumes "msgq_ok q" and "msgq_ok t" and "msgs_fit (rkmq_msgs q)"
    and "rkm_addr ` set (rkmq_msgs q) \<inter> rkm_addr ` set (rkmq_msgs t) = {}"
  shows "\<exists>q' t' n. rd_kafka_msgq_age_scan q t now = Inr (q', t', n) \<and> msgq_ok q' \<and> msgq_ok t' \<and>
    rkmq_msgs q' = dropWhile (\<lambda>m. rkm_ts_timeout m \<le> now) (rkmq_msgs q) \<and>
    rkmq_msgs t' = rkmq_msgs t @ takeWhile (\<lambda>m. rkm_ts_timeout m \<le> now) (rkmq_msgs q) \<and>
    n = int (length (takeWhile (\<lambda>m. rkm_ts_timeout m \<le> now) (rkmq_msgs q)))"
proof -
  let ?old = "takeWhile (\<lambda>m. rkm_ts_timeout m \<le> now) (rkmq_msgs q)"
  obtain q' t' where loop: "age_scan_loop (rkmq_msgs q) now (q, t) = Inr (q', t')" "msgq_ok q'" "msgq_ok t'"
    "rkmq_msgs q' = dropWhile (\<lambda>m. rkm_ts_timeout m \<le> now) (rkmq_msgs q)" "rkmq_msgs t' = rkmq_msgs t @ ?old"
    using age_scan_loop_prefix [OF assms(1,2) refl assms(3,4)] by blast
  have "length ?old < 2 ^ 31" using assms(3) length_takeWhile_le [of _ "rkmq_msgs q"]
    by (auto simp: msgs_fit_def intro: le_less_trans)
  then have small: "unat (word_of_nat (length ?old) :: 32 word) = length ?old" by (intro unat_of_nat_small) simp
  have "rkmq_msg_cnt t' - rkmq_msg_cnt t = word_of_nat (length ?old)"
    using loop(3,5) assms(2) by (simp add: msgq_ok_def)
  then have "sint (rkmq_msg_cnt t' - rkmq_msg_cnt t) = int (length ?old)"
    using small \<open>length ?old < 2 ^ 31\<close> by (simp add: sint_small)
  then show ?thesis using loop by (simp add: rd_kafka_msgq_age_scan_def Let_def)
qed

theorem age_scan_takes_timed_out_prefix_witness:
  "\<exists>q' t'. rd_kafka_msgq_age_scan (sample_queue [1, 2, 9, 3]) (sample_queue []) 5 = Inr (q', t', 2) \<and>
     rkmq_msgs q' = map sample_msg [9, 3] \<and> rkmq_msgs t' = map sample_msg [1, 2]"
proof -
  note * = age_scan_takes_timed_out_prefix [of "sample_queue [1, 2, 9, 3]" "sample_queue []" 5]
  show ?thesis using * by (auto simp: sample_queue_def sample_msg_def msgq_ok_def msg_bytes_def msgs_fit_def)
qed

end
