(* ===== verification/Crc_Bits.thy ===== *)
theory Crc_Bits
  imports Olog_Prelude
begin

unbundle bit_operations_syntax

text \<open>
  Cyclic redundancy checks over 32-bit registers, one bit at a time: the reference for the
  table driven and the hardware routines. The register is reflected, so that a bit leaves at
  the low end; \<open>p\<close> is the reflected polynomial.
\<close>

section \<open>One bit, one byte, many bytes\<close>

definition crc_bit :: "32 word \<Rightarrow> 32 word \<Rightarrow> 32 word" where
  "crc_bit p c = (if bit c 0 then drop_bit 1 c XOR p else drop_bit 1 c)"

abbreviation crc_bits :: "32 word \<Rightarrow> nat \<Rightarrow> 32 word \<Rightarrow> 32 word" where
  "crc_bits p n \<equiv> crc_bit p ^^ n"

definition crc_byte :: "32 word \<Rightarrow> 32 word \<Rightarrow> byte \<Rightarrow> 32 word" where
  "crc_byte p c b = crc_bits p 8 (c XOR ucast b)"

definition crc_bytes :: "32 word \<Rightarrow> 32 word \<Rightarrow> byte list \<Rightarrow> 32 word" where
  "crc_bytes p c bs = foldl (crc_byte p) c bs"

lemma crc_bytes_simps [simp]:
  "crc_bytes p c [] = c"
  "crc_bytes p c (b # bs) = crc_bytes p (crc_byte p c b) bs"
  "crc_bytes p c (bs @ bs') = crc_bytes p (crc_bytes p c bs) bs'"
  by (simp_all add: crc_bytes_def)

lemma xor_cancel [simp]:
  fixes a b c :: "'a::len word"
  shows "a XOR c = b XOR c \<longleftrightarrow> a = b" and "c XOR a = c XOR b \<longleftrightarrow> a = b"
  by (metis xor.assoc xor_self_eq xor.right_neutral) (metis xor.assoc xor_self_eq xor.left_neutral)

lemma and_ffffffff [simp]: "w AND 0xffffffff = (w :: 32 word)"
proof -
  have "(0xffffffff :: 32 word) = - 1" by simp
  then show ?thesis by (simp only: and.right_neutral)
qed

lemma and_ff: "w AND 0xff = take_bit 8 (w :: 'a::len word)"
  by (simp add: take_bit_eq_mask mask_eq_exp_minus_1)

lemma unat_take_bit_8: "unat (take_bit 8 (w :: 'a::len word)) < 256"
  using unsigned_take_bit_eq [of 8 w, where 'a = nat] take_bit_nat_less_exp [of 8 "unat w"] by simp

section \<open>The register is linear over exclusive or\<close>

lemma crc_bit_xor: "crc_bit p (a XOR b) = crc_bit p a XOR crc_bit p b"
  by (rule bit_word_eqI) (auto simp: crc_bit_def bit_xor_iff bit_drop_bit_eq)

lemma crc_bit_0 [simp]: "crc_bit p 0 = 0"
  by (simp add: crc_bit_def)

lemma crc_bits_0 [simp]: "crc_bits p n 0 = 0"
  by (induction n) simp_all

lemma crc_bits_xor: "crc_bits p n (a XOR b) = crc_bits p n a XOR crc_bits p n b"
  by (induction n) (simp_all add: crc_bit_xor)

lemma crc_bits_8: "crc_bits p 8 c = crc_bit p (crc_bit p (crc_bit p (crc_bit p (crc_bit p (crc_bit p (crc_bit p (crc_bit p c)))))))"
  by (simp add: numeral_eq_Suc)

lemma crc_bits_add: "crc_bits p m (crc_bits p n c) = crc_bits p (m + n) c"
  by (simp add: funpow_add)

lemma crc_byte_xor: "crc_byte p c b = crc_bits p 8 c XOR crc_byte p 0 b"
  by (simp add: crc_byte_def crc_bits_xor del: funpow.simps)

lemma crc_bytes_linear: "crc_bytes p c bs = crc_bits p (8 * length bs) c XOR crc_bytes p 0 bs"
proof (induction bs arbitrary: c)
  case (Cons b bs)
  have "crc_bytes p c (b # bs) = crc_bits p (8 * length bs) (crc_bits p 8 c XOR crc_byte p 0 b) XOR crc_bytes p 0 bs"
    using Cons.IH [of "crc_byte p c b"] crc_byte_xor [of p c b] by simp
  also have "\<dots> = crc_bits p (8 * length (b # bs)) c XOR (crc_bits p (8 * length bs) (crc_byte p 0 b) XOR crc_bytes p 0 bs)"
    by (simp add: crc_bits_xor crc_bits_add xor.assoc add.commute del: funpow.simps)
  also have "crc_bits p (8 * length bs) (crc_byte p 0 b) XOR crc_bytes p 0 bs = crc_bytes p 0 (b # bs)"
    using Cons.IH [of "crc_byte p 0 b"] by simp
  finally show ?case .
qed simp

text \<open>Bits that are shifted out unchanged.\<close>

lemma crc_bits_shift: "take_bit n c = 0 \<Longrightarrow> crc_bits p n c = drop_bit n c"
proof (induction n arbitrary: c)
  case (Suc n)
  have low: "\<not> bit c i" if "i \<le> n" for i
    using Suc.prems that by (metis bit_0_eq bit_take_bit_iff bot_apply bot_bool_def le_imp_less_Suc)
  have "take_bit n (drop_bit 1 c) = 0"
    by (rule bit_word_eqI) (use low in \<open>auto simp: bit_take_bit_iff bit_drop_bit_eq\<close>)
  moreover have "crc_bit p c = drop_bit 1 c" using low [of 0] by (simp add: crc_bit_def)
  ultimately show ?case using Suc.IH [of "drop_bit 1 c"] by (simp add: funpow_swap1 drop_bit_drop_bit)
qed simp

lemma split_low: "c = take_bit n c XOR push_bit n (drop_bit n (c :: 'a::len word))"
  by (rule bit_word_eqI) (auto simp: bit_xor_iff bit_take_bit_iff bit_push_bit_iff bit_drop_bit_eq)

lemma crc_bits_split: "crc_bits p n c = crc_bits p n (take_bit n c) XOR drop_bit n c"
proof -
  have "take_bit n (push_bit n (drop_bit n c)) = 0"
    by (rule bit_word_eqI) (auto simp: bit_take_bit_iff bit_push_bit_iff)
  then have "crc_bits p n (push_bit n (drop_bit n c)) = drop_bit n (push_bit n (drop_bit n c))"
    by (rule crc_bits_shift)
  also have "\<dots> = drop_bit n c"
    by (rule bit_word_eqI) (auto simp: bit_drop_bit_eq bit_push_bit_iff dest: bit_imp_le_length)
  finally show ?thesis using crc_bits_xor [of n p "take_bit n c" "push_bit n (drop_bit n c)"] split_low [of c n] by metis
qed

section \<open>Error detection\<close>

text \<open>With the highest coefficient set, no two register contents are merged.\<close>

lemma crc_bit_inj: "bit p 31 \<Longrightarrow> crc_bit p a = crc_bit p b \<Longrightarrow> a = b"
proof (rule bit_word_eqI)
  fix n
  assume p: "bit p 31" and eq: "crc_bit p a = crc_bit p b"
  have top: "bit (crc_bit p c) 31 \<longleftrightarrow> bit c 0" for c
    using p bit_imp_le_length [of c 32] by (auto simp: crc_bit_def bit_xor_iff bit_drop_bit_eq)
  have same: "bit a 0 = bit b 0" using top [of a] top [of b] eq by simp
  then have "drop_bit 1 a = drop_bit 1 b" using eq by (auto simp: crc_bit_def split: if_splits)
  then show "bit a n = bit b n"
    using same by (cases n) (simp, metis bit_drop_bit_eq plus_1_eq_Suc comp_apply)
qed

lemma crc_bits_inj: "bit p 31 \<Longrightarrow> crc_bits p n a = crc_bits p n b \<Longrightarrow> a = b"
  by (induction n) (auto dest: crc_bit_inj)

lemma crc_bytes_inj_state: "bit p 31 \<Longrightarrow> crc_bytes p a bs = crc_bytes p b bs \<Longrightarrow> a = b"
  by (simp only: crc_bytes_linear [of p a bs] crc_bytes_linear [of p b bs] xor_cancel) (rule crc_bits_inj)

text \<open>Up to four bytes as one register content, lowest first.\<close>

fun le_word :: "byte list \<Rightarrow> 'a::len word" where
  "le_word [] = 0"
| "le_word (b # bs) = ucast b XOR push_bit 8 (le_word bs)"

lemma bit_le_word:
  "bit (le_word bs :: 'a::len word) i \<longleftrightarrow> i < LENGTH('a) \<and> i < 8 * length bs \<and> bit (bs ! (i div 8)) (i mod 8)"
proof (induction bs arbitrary: i)
  case (Cons b bs)
  show ?case
  proof (cases "i < 8")
    case True
    then show ?thesis by (auto simp: bit_xor_iff bit_push_bit_iff bit_ucast_iff)
  next
    case False
    then have "i div 8 = Suc ((i - 8) div 8)" "i mod 8 = (i - 8) mod 8" by (simp_all add: le_div_geq le_mod_geq)
    moreover have "\<not> bit b i" using False bit_imp_le_length [of b i] by auto
    ultimately show ?thesis using False Cons.IH [of "i - 8"] by (auto simp: bit_xor_iff bit_push_bit_iff bit_ucast_iff)
  qed
qed simp

lemma le_word_inj:
  assumes "length a = length b" and "8 * length a \<le> LENGTH('a)" and "(le_word a :: 'a::len word) = le_word b"
  shows "a = b"
proof (rule nth_equalityI)
  fix i
  assume i: "i < length a"
  show "a ! i = b ! i"
  proof (rule bit_word_eqI)
    fix n
    assume "n < LENGTH(8)"
    then have n: "n < 8" by simp
    then have d: "(8 * i + n) div 8 = i" "(8 * i + n) mod 8 = n" "8 * i + n < 8 * length a" using i by auto
    have "bit (le_word a :: 'a word) (8 * i + n) = bit (le_word b :: 'a word) (8 * i + n)" using assms(3) by simp
    then show "bit (a ! i) n = bit (b ! i) n" unfolding bit_le_word using d assms by auto
  qed
qed (rule assms(1))

lemma crc_bytes_le_word:
  "length bs \<le> 4 \<Longrightarrow> crc_bytes p c bs = crc_bits p (8 * length bs) (c XOR le_word bs)"
proof (induction bs arbitrary: c)
  case (Cons b bs)
  let ?w = "le_word bs :: 32 word"
  have "drop_bit 8 (push_bit 8 ?w) = ?w"
    by (rule bit_word_eqI) (use Cons.prems in \<open>auto simp: bit_drop_bit_eq bit_push_bit_iff bit_le_word\<close>)
  moreover have "take_bit 8 (push_bit 8 ?w) = 0"
    by (rule bit_word_eqI) (auto simp: bit_take_bit_iff bit_push_bit_iff)
  ultimately have shift: "crc_bits p 8 (push_bit 8 ?w) = ?w" using crc_bits_shift [of 8 "push_bit 8 ?w" p] by simp
  have "crc_bytes p c (b # bs) = crc_bits p (8 * length bs) (crc_bits p 8 (c XOR ucast b) XOR ?w)"
    using Cons.IH [of "crc_byte p c b"] Cons.prems by (simp add: crc_byte_def)
  also have "crc_bits p 8 (c XOR ucast b) XOR ?w = crc_bits p 8 ((c XOR ucast b) XOR push_bit 8 ?w)"
    by (simp only: crc_bits_xor [of 8 p "c XOR ucast b"] shift)
  finally show ?case by (simp add: crc_bits_add xor.assoc add.commute del: funpow.simps)
qed simp

lemma crc_burst:
  assumes "bit p 31" and "length a = length b" and "length a \<le> 4" and "a \<noteq> b"
  shows "crc_bytes p c (pre @ a @ post) \<noteq> crc_bytes p c (pre @ b @ post)"
proof
  assume "crc_bytes p c (pre @ a @ post) = crc_bytes p c (pre @ b @ post)"
  then have "crc_bytes p (crc_bytes p c pre) a = crc_bytes p (crc_bytes p c pre) b"
    using crc_bytes_inj_state [OF assms(1)] by simp
  then have "crc_bytes p c pre XOR le_word a = crc_bytes p c pre XOR le_word b"
    using crc_bytes_le_word [of a] crc_bytes_le_word [of b] crc_bits_inj [OF assms(1)] assms(2,3) by metis
  then have "(le_word a :: 32 word) = le_word b" by simp
  then show False using le_word_inj [of a b, where 'a = 32] assms by simp
qed

section \<open>Tables of linear functions\<close>

text \<open>The table of a linear function is determined by its values at the powers of two.\<close>

definition doubling :: "32 word list \<Rightarrow> 32 word list" where
  "doubling ts = foldl (\<lambda>xs t. xs @ map ((XOR) t) xs) [0] ts"

lemma doubling_snoc: "doubling (ts @ [t]) = doubling ts @ map ((XOR) t) (doubling ts)"
  by (simp add: doubling_def)

lemma power_plus_xor:
  assumes "n < 2 ^ k" and "k < 32"
  shows "(word_of_nat (2 ^ k + n) :: 32 word) = word_of_nat (2 ^ k) XOR word_of_nat n"
proof -
  have small: "unat (word_of_nat n :: 32 word) = n"
    using assms power_strict_increasing [of k 32 "2::nat"] by (intro unat_of_nat_small) simp
  have "(word_of_nat n :: 32 word) + push_bit k 1 = word_of_nat n OR push_bit k 1"
  proof (rule disjunctive_add)
    fix i
    have "take_bit k n = n" using assms(1) by (rule take_bit_nat_eq_self)
    then have "bit n i \<Longrightarrow> i < k" by (metis bit_take_bit_iff)
    then show "\<not> bit (word_of_nat n :: 32 word) i \<or> \<not> bit (push_bit k 1 :: 32 word) i"
      using bit_unat_iff [of "word_of_nat n :: 32 word" i] small by (auto simp: bit_exp_iff)
  qed
  also have "\<dots> = word_of_nat n XOR push_bit k 1"
  proof (rule bit_word_eqI)
    fix i
    have "take_bit k n = n" using assms(1) by (rule take_bit_nat_eq_self)
    then have "bit n i \<Longrightarrow> i < k" by (metis bit_take_bit_iff)
    then show "bit (word_of_nat n OR push_bit k 1 :: 32 word) i = bit (word_of_nat n XOR push_bit k 1 :: 32 word) i"
      using bit_unat_iff [of "word_of_nat n :: 32 word" i] small by (auto simp: bit_or_iff bit_xor_iff bit_exp_iff)
  qed
  finally show ?thesis by (simp add: push_bit_eq_mult add.commute xor.commute)
qed

lemma doubling_linear:
  fixes f :: "32 word \<Rightarrow> 32 word"
  assumes lin: "\<And>a b. f (a XOR b) = f a XOR f b" and "k \<le> 32"
  shows "doubling (map (\<lambda>i. f (word_of_nat (2 ^ i))) [0..<k]) = map (\<lambda>n. f (word_of_nat n)) [0..<2 ^ k]"
  using assms(2)
proof (induction k)
  case 0
  have "f 0 = 0" using lin [of 0 0] by simp
  then show ?case by (simp add: doubling_def)
next
  case (Suc k)
  have "map ((XOR) (f (word_of_nat (2 ^ k)))) (map (\<lambda>n. f (word_of_nat n)) [0..<2 ^ k]) =
      map (\<lambda>n. f (word_of_nat n)) (map ((+) (2 ^ k)) [0..<2 ^ k])"
    unfolding map_map using power_plus_xor [of _ k] Suc.prems
    by (intro map_cong refl) (simp add: lin [symmetric] del: of_nat_add of_nat_power)
  also have "map ((+) (2 ^ k)) [0..<2 ^ k] = [2 ^ k..<2 ^ Suc k]"
    by (rule nth_equalityI) simp_all
  finally have upper: "map ((XOR) (f (word_of_nat (2 ^ k)))) (map (\<lambda>n. f (word_of_nat n)) [0..<2 ^ k]) =
      map (\<lambda>n. f (word_of_nat n)) [2 ^ k..<2 ^ Suc k]" .
  have "[0..<k] @ [k] = [0..<Suc k]" and "[0..<2 ^ k] @ [2 ^ k..<2 ^ Suc k] = [0..<2 ^ Suc k]"
    using upt_add_eq_append [of 0 "2 ^ k" "2 ^ k"] by (simp_all add: mult_2)
  then show ?case using Suc doubling_snoc [of "map (\<lambda>i. f (word_of_nat (2 ^ i))) [0..<k]" "f (word_of_nat (2 ^ k))"] upper
    by (metis (no_types, lifting) Suc_leD list.simps(8,9) map_append)
qed

end
