(* ===== verification/Rdcrc32.thy ===== *)
theory Rdcrc32
  imports Crc_Bits
begin

unbundle bit_operations_syntax

text \<open>
  \<open>rdcrc32.c\<close>, \<open>rdcrc32.h\<close>: the table driven CRC-32 of the message format versions 0 and 1, in
  the build without zlib.
\<close>

definition crc_table :: "32 word list" where
  "crc_table = [
    0x00000000, 0x77073096, 0xee0e612c, 0x990951ba,
    0x076dc419, 0x706af48f, 0xe963a535, 0x9e6495a3,
    0x0edb8832, 0x79dcb8a4, 0xe0d5e91e, 0x97d2d988,
    0x09b64c2b, 0x7eb17cbd, 0xe7b82d07, 0x90bf1d91,
    0x1db71064, 0x6ab020f2, 0xf3b97148, 0x84be41de,
    0x1adad47d, 0x6ddde4eb, 0xf4d4b551, 0x83d385c7,
    0x136c9856, 0x646ba8c0, 0xfd62f97a, 0x8a65c9ec,
    0x14015c4f, 0x63066cd9, 0xfa0f3d63, 0x8d080df5,
    0x3b6e20c8, 0x4c69105e, 0xd56041e4, 0xa2677172,
    0x3c03e4d1, 0x4b04d447, 0xd20d85fd, 0xa50ab56b,
    0x35b5a8fa, 0x42b2986c, 0xdbbbc9d6, 0xacbcf940,
    0x32d86ce3, 0x45df5c75, 0xdcd60dcf, 0xabd13d59,
    0x26d930ac, 0x51de003a, 0xc8d75180, 0xbfd06116,
    0x21b4f4b5, 0x56b3c423, 0xcfba9599, 0xb8bda50f,
    0x2802b89e, 0x5f058808, 0xc60cd9b2, 0xb10be924,
    0x2f6f7c87, 0x58684c11, 0xc1611dab, 0xb6662d3d,
    0x76dc4190, 0x01db7106, 0x98d220bc, 0xefd5102a,
    0x71b18589, 0x06b6b51f, 0x9fbfe4a5, 0xe8b8d433,
    0x7807c9a2, 0x0f00f934, 0x9609a88e, 0xe10e9818,
    0x7f6a0dbb, 0x086d3d2d, 0x91646c97, 0xe6635c01,
    0x6b6b51f4, 0x1c6c6162, 0x856530d8, 0xf262004e,
    0x6c0695ed, 0x1b01a57b, 0x8208f4c1, 0xf50fc457,
    0x65b0d9c6, 0x12b7e950, 0x8bbeb8ea, 0xfcb9887c,
    0x62dd1ddf, 0x15da2d49, 0x8cd37cf3, 0xfbd44c65,
    0x4db26158, 0x3ab551ce, 0xa3bc0074, 0xd4bb30e2,
    0x4adfa541, 0x3dd895d7, 0xa4d1c46d, 0xd3d6f4fb,
    0x4369e96a, 0x346ed9fc, 0xad678846, 0xda60b8d0,
    0x44042d73, 0x33031de5, 0xaa0a4c5f, 0xdd0d7cc9,
    0x5005713c, 0x270241aa, 0xbe0b1010, 0xc90c2086,
    0x5768b525, 0x206f85b3, 0xb966d409, 0xce61e49f,
    0x5edef90e, 0x29d9c998, 0xb0d09822, 0xc7d7a8b4,
    0x59b33d17, 0x2eb40d81, 0xb7bd5c3b, 0xc0ba6cad,
    0xedb88320, 0x9abfb3b6, 0x03b6e20c, 0x74b1d29a,
    0xead54739, 0x9dd277af, 0x04db2615, 0x73dc1683,
    0xe3630b12, 0x94643b84, 0x0d6d6a3e, 0x7a6a5aa8,
    0xe40ecf0b, 0x9309ff9d, 0x0a00ae27, 0x7d079eb1,
    0xf00f9344, 0x8708a3d2, 0x1e01f268, 0x6906c2fe,
    0xf762575d, 0x806567cb, 0x196c3671, 0x6e6b06e7,
    0xfed41b76, 0x89d32be0, 0x10da7a5a, 0x67dd4acc,
    0xf9b9df6f, 0x8ebeeff9, 0x17b7be43, 0x60b08ed5,
    0xd6d6a3e8, 0xa1d1937e, 0x38d8c2c4, 0x4fdff252,
    0xd1bb67f1, 0xa6bc5767, 0x3fb506dd, 0x48b2364b,
    0xd80d2bda, 0xaf0a1b4c, 0x36034af6, 0x41047a60,
    0xdf60efc3, 0xa867df55, 0x316e8eef, 0x4669be79,
    0xcb61b38c, 0xbc66831a, 0x256fd2a0, 0x5268e236,
    0xcc0c7795, 0xbb0b4703, 0x220216b9, 0x5505262f,
    0xc5ba3bbe, 0xb2bd0b28, 0x2bb45a92, 0x5cb36a04,
    0xc2d7ffa7, 0xb5d0cf31, 0x2cd99e8b, 0x5bdeae1d,
    0x9b64c2b0, 0xec63f226, 0x756aa39c, 0x026d930a,
    0x9c0906a9, 0xeb0e363f, 0x72076785, 0x05005713,
    0x95bf4a82, 0xe2b87a14, 0x7bb12bae, 0x0cb61b38,
    0x92d28e9b, 0xe5d5be0d, 0x7cdcefb7, 0x0bdbdf21,
    0x86d3d2d4, 0xf1d4e242, 0x68ddb3f8, 0x1fda836e,
    0x81be16cd, 0xf6b9265b, 0x6fb077e1, 0x18b74777,
    0x88085ae6, 0xff0f6a70, 0x66063bca, 0x11010b5c,
    0x8f659eff, 0xf862ae69, 0x616bffd3, 0x166ccf45,
    0xa00ae278, 0xd70dd2ee, 0x4e048354, 0x3903b3c2,
    0xa7672661, 0xd06016f7, 0x4969474d, 0x3e6e77db,
    0xaed16a4a, 0xd9d65adc, 0x40df0b66, 0x37d83bf0,
    0xa9bcae53, 0xdebb9ec5, 0x47b2cf7f, 0x30b5ffe9,
    0xbdbdf21c, 0xcabac28a, 0x53b39330, 0x24b4a3a6,
    0xbad03605, 0xcdd70693, 0x54de5729, 0x23d967bf,
    0xb3667a2e, 0xc4614ab8, 0x5d681b02, 0x2a6f2b94,
    0xb40bbe37, 0xc30c8ea1, 0x5a05df1b, 0x2d02ef8d]"

text \<open>The loop of \<open>rd_crc32_reflect\<close>, from index \<open>i\<close> on.\<close>

fun reflect_loop :: "nat \<Rightarrow> 32 word \<Rightarrow> 32 word \<Rightarrow> 32 word" where
  "reflect_loop 0 data ret = ret"
| "reflect_loop (Suc k) data ret =
     (let data1 = drop_bit 1 data in reflect_loop k data1 (push_bit 1 ret OR (data1 AND 1)))"

definition rd_crc32_reflect :: "32 word \<Rightarrow> nat \<Rightarrow> 32 word" where
  "rd_crc32_reflect data data_len = reflect_loop (data_len - 1) data (data AND 1)"

definition rd_crc32_init :: "32 word" where
  "rd_crc32_init = 0xffffffff"

definition crc32_step :: "32 word \<Rightarrow> byte \<Rightarrow> 32 word" where
  "crc32_step crc d =
     (let tbl_idx = (crc XOR ucast d) AND 0xff
      in (crc_table ! unat tbl_idx XOR drop_bit 8 crc) AND 0xffffffff)"

definition rd_crc32_update :: "32 word \<Rightarrow> byte list \<Rightarrow> 32 word" where
  "rd_crc32_update crc data = foldl crc32_step crc data AND 0xffffffff"

definition rd_crc32_finalize :: "32 word \<Rightarrow> 32 word" where
  "rd_crc32_finalize crc = crc XOR 0xffffffff"

definition rd_crc32 :: "byte list \<Rightarrow> 32 word" where
  "rd_crc32 data = rd_crc32_finalize (rd_crc32_update rd_crc32_init data)"

section \<open>The table\<close>

text \<open>The reflected polynomial of CRC-32.\<close>

definition CRC32_POLY :: "32 word" where
  "CRC32_POLY = 0xedb88320"

lemma crc_table_powers:
  "map (\<lambda>i. crc_bits CRC32_POLY 8 (word_of_nat (2 ^ i))) [0..<8] =
   [0x77073096, 0xee0e612c, 0x076dc419, 0x0edb8832, 0x1db71064, 0x3b6e20c8, 0x76dc4190, 0xedb88320]"
proof -
  have "[0..<8] = [0, 1, 2, 3, 4, 5, 6, 7]" by (simp add: upt_rec)
  then show ?thesis by (simp add: CRC32_POLY_def crc_bit_def crc_bits_8)
qed

lemma crc_table_doubling:
  "crc_table = doubling [0x77073096, 0xee0e612c, 0x076dc419, 0x0edb8832, 0x1db71064, 0x3b6e20c8, 0x76dc4190, 0xedb88320]"
  by (simp add: crc_table_def doubling_def)

lemma crc_table_map: "crc_table = map (\<lambda>n. crc_bits CRC32_POLY 8 (word_of_nat n)) [0..<256]"
  using doubling_linear [of "crc_bits CRC32_POLY 8" 8, OF crc_bits_xor]
  unfolding crc_table_powers crc_table_doubling by simp

lemma crc_table_nth: "crc_table ! unat (take_bit 8 c) = crc_bits CRC32_POLY 8 (take_bit 8 (c :: 32 word))"
  using unat_take_bit_8 [of c] by (simp add: crc_table_map del: funpow.simps)

lemma crc32_step_byte: "crc32_step crc d = crc_byte CRC32_POLY crc d"
proof -
  have "drop_bit 8 (crc XOR ucast d) = drop_bit 8 crc"
    by (rule bit_word_eqI) (auto simp: bit_drop_bit_eq bit_xor_iff bit_ucast_iff dest: bit_imp_le_length)
  then show ?thesis
    using crc_bits_split [of 8 CRC32_POLY "crc XOR ucast d"]
    by (simp only: crc32_step_def crc_byte_def and_ff crc_table_nth and_ffffffff Let_def)
qed

lemma rd_crc32_update_bytes: "rd_crc32_update crc data = crc_bytes CRC32_POLY crc data"
proof -
  have "crc32_step = crc_byte CRC32_POLY" by (intro ext) (rule crc32_step_byte)
  then show ?thesis by (simp add: rd_crc32_update_def crc_bytes_def)
qed

lemma rd_crc32_update_append: "rd_crc32_update crc (a @ b) = rd_crc32_update (rd_crc32_update crc a) b"
  by (simp add: rd_crc32_update_bytes)

section \<open>Reflection\<close>

lemma bit_reflect_loop:
  "bit (reflect_loop k data ret) i \<longleftrightarrow>
     i < 32 \<and> (if i < k then bit data (k - i) else bit ret (i - k))"
proof (induction k arbitrary: data ret i)
  case 0
  then show ?case by (auto dest: bit_imp_le_length)
next
  case (Suc k)
  have one: "bit (x AND 1) j \<longleftrightarrow> j = 0 \<and> bit x 0" for x :: "32 word" and j
    by (auto simp: bit_and_iff bit_1_iff)
  have double: "bit (push_bit 1 ret) j \<longleftrightarrow> 0 < j \<and> j < 32 \<and> bit ret (j - 1)" for j
    by (auto simp: bit_push_bit_iff simp del: push_bit_Suc push_bit_of_Suc_0 push_bit_numeral_minus_1)
  have IH: "bit (reflect_loop (Suc k) data ret) i \<longleftrightarrow> i < 32 \<and>
      (if i < k then bit (drop_bit 1 data) (k - i) else bit (push_bit 1 ret OR (drop_bit 1 data AND 1)) (i - k))"
    by (simp only: reflect_loop.simps Let_def Suc.IH)
  show ?case unfolding IH bit_or_iff one double
    by (auto simp: bit_drop_bit_eq Suc_diff_le not_less less_Suc_eq)
qed

lemma bit_rd_crc32_reflect:
  assumes "0 < n" and "n \<le> 32"
  shows "bit (rd_crc32_reflect data n) i \<longleftrightarrow> i < n \<and> bit data (n - 1 - i)"
proof -
  have one: "bit (data AND 1) j \<longleftrightarrow> j = 0 \<and> bit data 0" for j
    by (auto simp: bit_and_iff bit_1_iff)
  show ?thesis using assms unfolding rd_crc32_reflect_def bit_reflect_loop one
    by (cases "i < n - 1") (auto simp: diff_le_self not_less)
qed

section \<open>What the checksum promises\<close>

text \<open>
  C22: the table driven checksum is the bitwise division by the CRC-32 polynomial: every table
  entry is the remainder of its index, and every message gets the checksum of the definition.
\<close>

theorem rd_crc32_is_reference:
  "rd_crc32 data = crc_bytes CRC32_POLY 0xffffffff data XOR 0xffffffff"
  by (simp add: rd_crc32_def rd_crc32_finalize_def rd_crc32_init_def rd_crc32_update_bytes)

text \<open>
  C23: a damaged message is noticed when the damage is confined to four consecutive bytes,
  wherever they are and whatever they became.
\<close>

theorem rd_crc32_detects_bursts:
  assumes "length a = length b" and "length a \<le> 4" and "a \<noteq> b"
  shows "rd_crc32 (pre @ a @ post) \<noteq> rd_crc32 (pre @ b @ post)"
proof -
  have "bit CRC32_POLY 31" by (simp add: CRC32_POLY_def)
  from crc_burst [OF this assms] show ?thesis
    by (simp add: rd_crc32_def rd_crc32_finalize_def rd_crc32_update_bytes del: crc_bytes_simps)
qed

theorem rd_crc32_detects_bursts_witness:
  "rd_crc32 ([7] @ [1, 2, 3, 4] @ [9, 9]) \<noteq> rd_crc32 ([7] @ [4, 3, 2, 1] @ [9, 9])"
  by (rule rd_crc32_detects_bursts) simp_all

end
