(* ===== verification/Rdmurmur2.thy ===== *)
theory Rdmurmur2
  imports Crc_Bits
begin

unbundle bit_operations_syntax

text \<open>
  \<open>rdmurmur2.c\<close>: the hash of the Java compatible partitioners. A key is the list of its bytes
  together with its address, whose low bits choose between the two loops of the function.
\<close>

definition mm_m :: "32 word" where
  "mm_m = 0x5bd1e995"

definition MM_MIX :: "32 word \<Rightarrow> 32 word \<Rightarrow> 32 word" where
  "MM_MIX h k =
     (let k = k * mm_m;
          k = k XOR drop_bit 24 k;
          k = k * mm_m;
          h = h * mm_m
      in h XOR k)"

text \<open>\<open>htole32(*data)\<close> is the little endian number of the next four bytes.\<close>

fun aligned_loop :: "32 word \<Rightarrow> byte list \<Rightarrow> 32 word \<times> byte list" where
  "aligned_loop h (a # b # c # d # rest) = aligned_loop (MM_MIX h (le_word [a, b, c, d])) rest"
| "aligned_loop h tail = (h, tail)"

fun unaligned_loop :: "32 word \<Rightarrow> byte list \<Rightarrow> 32 word \<times> byte list" where
  "unaligned_loop h (a # b # c # d # rest) =
     (let k = ucast a;
          k = k OR push_bit 8 (ucast b);
          k = k OR push_bit 16 (ucast c);
          k = k OR push_bit 24 (ucast d)
      in unaligned_loop (MM_MIX h k) rest)"
| "unaligned_loop h tail = (h, tail)"

text \<open>The \<open>switch\<close> with its fall-through, over the at most three bytes that are left.\<close>

definition mm_tail :: "32 word \<Rightarrow> byte list \<Rightarrow> 32 word" where
  "mm_tail h tail =
     (let h3 = (if length tail = 3 then h XOR push_bit 16 (ucast (tail ! 2)) else h);
          h2 = (if length tail \<in> {2, 3} then h3 XOR push_bit 8 (ucast (tail ! 1)) else h3)
      in if length tail \<in> {1, 2, 3} then (h2 XOR ucast (tail ! 0)) * mm_m else h2)"

definition mm_final :: "32 word \<Rightarrow> 32 word" where
  "mm_final h =
     (let h = h XOR drop_bit 13 h;
          h = h * mm_m
      in h XOR drop_bit 15 h)"

definition mm_seed :: "byte list \<Rightarrow> 32 word" where
  "mm_seed key = 0x9747b28c XOR word_of_nat (length key)"

definition rd_murmur2 :: "64 word \<Rightarrow> byte list \<Rightarrow> 32 word" where
  "rd_murmur2 addr key =
     (let h = mm_seed key;
          (h, tail) = (if addr AND 0x3 = 0 then aligned_loop h key else unaligned_loop h key)
      in mm_final (mm_tail h tail))"

section \<open>Both loops read the same words\<close>

lemma or_bytes:
  "((ucast (a :: byte) OR push_bit 8 (ucast b)) OR push_bit 16 (ucast c)) OR push_bit 24 (ucast d) =
   (le_word [a, b, c, d] :: 32 word)"
proof (rule bit_word_eqI)
  fix n
  assume "n < LENGTH(32)"
  then have n: "n < 32" by simp
  consider "n < 8" | "8 \<le> n" "n < 16" | "16 \<le> n" "n < 24" | "24 \<le> n" by linarith
  then show "bit (((ucast a OR push_bit 8 (ucast b)) OR push_bit 16 (ucast c)) OR push_bit 24 (ucast d) :: 32 word) n =
      bit (le_word [a, b, c, d] :: 32 word) n"
    using n bit_imp_le_length [of a n] bit_imp_le_length [of b "n - 8"] bit_imp_le_length [of c "n - 16"]
    by cases (auto simp: bit_or_iff bit_push_bit_iff bit_ucast_iff bit_xor_iff simp del: push_bit_numeral)
qed

lemma unaligned_is_aligned: "unaligned_loop h key = aligned_loop h key"
  by (induction h key rule: aligned_loop.induct) (simp_all add: Let_def or_bytes del: le_word.simps)

section \<open>Every step is injective\<close>

lemma mm_m_inverse: "mm_m * 0xe59b19bd = 1"
  by (simp add: mm_m_def)

lemma mult_mm_m [simp]: "a * mm_m = b * mm_m \<longleftrightarrow> a = b"
proof
  assume "a * mm_m = b * mm_m"
  then have "a * mm_m * 0xe59b19bd = b * mm_m * 0xe59b19bd" by (rule arg_cong)
  then show "a = b" by (simp only: mult.assoc mm_m_inverse mult_1_right)
qed simp

lemma xorshift_inj:
  assumes "0 < k" and "a XOR drop_bit k a = b XOR drop_bit k (b :: 32 word)"
  shows "a = b"
proof (rule bit_word_eqI)
  fix n
  assume "n < LENGTH(32)"
  then show "bit a n = bit b n"
  proof (induction "LENGTH(32) - n" arbitrary: n rule: less_induct)
    case less
    have up: "bit a (n + k) = bit b (n + k)"
    proof (cases "n + k < LENGTH(32)")
      case True
      then show ?thesis using less.hyps [of "n + k"] assms(1) by simp
    next
      case False
      then show ?thesis using bit_imp_le_length [of a "n + k"] bit_imp_le_length [of b "n + k"] by auto
    qed
    have "bit (a XOR drop_bit k a) n = bit (b XOR drop_bit k b) n" using assms(2) by simp
    then show ?case using up by (auto simp: bit_xor_iff bit_drop_bit_eq add.commute)
  qed
qed

lemma mm_mix_word_inj: "MM_MIX h k = MM_MIX h k' \<Longrightarrow> k = k'"
  by (auto simp: MM_MIX_def Let_def dest!: xorshift_inj [rotated])

lemma mm_mix_state_inj: "MM_MIX h k = MM_MIX h' k \<Longrightarrow> h = h'"
  by (simp add: MM_MIX_def Let_def)

lemma mm_final_inj: "mm_final h = mm_final h' \<Longrightarrow> h = h'"
  by (auto simp: mm_final_def Let_def dest!: xorshift_inj [rotated])

lemma mm_tail_inj: "mm_tail h tail = mm_tail h' tail \<Longrightarrow> h = h'"
  by (simp add: mm_tail_def Let_def split: if_splits)

lemma aligned_loop_tail: "snd (aligned_loop h key) = snd (aligned_loop h' key)"
  by (induction h key arbitrary: h' rule: aligned_loop.induct) simp_all

lemma aligned_loop_inj: "aligned_loop h key = aligned_loop h' key \<Longrightarrow> h = h'"
  by (induction h key arbitrary: h' rule: aligned_loop.induct) (auto dest: mm_mix_state_inj)

lemma aligned_loop_append:
  "4 dvd length pre \<Longrightarrow> aligned_loop h (pre @ rest) = aligned_loop (fst (aligned_loop h pre)) rest"
proof (induction h pre rule: aligned_loop.induct)
  case (1 h a b c d pre)
  then have "4 dvd length pre" by simp presburger
  then show ?case using 1 by (simp del: le_word.simps)
qed (auto dest!: dvd_imp_le)

section \<open>What the hash promises\<close>

text \<open>
  The hash of a key does not depend on where the key lies in memory, although the function
  has one loop for word aligned keys and one for the others.
\<close>

lemma rd_murmur2_address_independent: "rd_murmur2 addr key = rd_murmur2 addr' key"
  by (simp add: rd_murmur2_def unaligned_is_aligned Let_def)

text \<open>
  Keys of one length that differ within a single aligned word never collide, wherever the
  two copies lie in memory: the mixing of a word, of the bytes that are left and of the final
  state lose nothing, and the loops for aligned and for other keys agree.
\<close>

theorem rd_murmur2_word_injective:
  assumes "4 dvd length pre" and "length a = 4" and "length b = 4"
    and "rd_murmur2 addr (pre @ a @ post) = rd_murmur2 addr' (pre @ b @ post)"
  shows "a = b"
proof -
  obtain a0 a1 a2 a3 b0 b1 b2 b3 where a: "a = [a0, a1, a2, a3]" and b: "b = [b0, b1, b2, b3]"
    using assms(2,3) by (auto simp: length_Suc_conv numeral_eq_Suc)
  have loop: "rd_murmur2 addr (pre @ x @ post) = (case aligned_loop (mm_seed (pre @ x @ post)) (pre @ x @ post) of (h, tail) \<Rightarrow>
      mm_final (mm_tail h tail))" for addr x
    by (simp add: rd_murmur2_def unaligned_is_aligned Let_def)
  let ?s = "mm_seed (pre @ a @ post)"
  have seed: "mm_seed (pre @ b @ post) = ?s" using assms(2,3) by (simp add: mm_seed_def)
  let ?h = "fst (aligned_loop ?s pre)"
  have "aligned_loop ?s (pre @ a @ post) = aligned_loop (MM_MIX ?h (le_word a)) post"
    and "aligned_loop ?s (pre @ b @ post) = aligned_loop (MM_MIX ?h (le_word b)) post"
    using aligned_loop_append [OF assms(1), of ?s] by (simp_all add: a b del: le_word.simps)
  moreover obtain x y t where "aligned_loop (MM_MIX ?h (le_word a)) post = (x, t)" "aligned_loop (MM_MIX ?h (le_word b)) post = (y, t)"
    using aligned_loop_tail [of "MM_MIX ?h (le_word a)" post "MM_MIX ?h (le_word b)"] by (metis prod.collapse)
  ultimately have "aligned_loop (MM_MIX ?h (le_word a)) post = aligned_loop (MM_MIX ?h (le_word b)) post"
    using assms(4) unfolding loop seed by (auto dest!: mm_final_inj mm_tail_inj)
  then have "(le_word a :: 32 word) = le_word b" by (blast dest: aligned_loop_inj mm_mix_word_inj)
  then show ?thesis using le_word_inj [of a b, where 'a = 32] assms(2,3) by simp
qed

theorem rd_murmur2_word_injective_witness:
  "rd_murmur2 0 ([] @ [1, 2, 3, 4] @ [9]) \<noteq> rd_murmur2 1 ([] @ [1, 2, 3, 5] @ [9])"
  using rd_murmur2_word_injective [of "[]" "[1, 2, 3, 4]" "[1, 2, 3, 5]" 0 "[9]" 1] by auto

text \<open>
  The values that the Java client computes, for keys of every residue of the length.
\<close>

definition key_bytes :: "string \<Rightarrow> byte list" where
  "key_bytes = map of_char"

lemma rd_murmur2_java_values:
  "map (\<lambda>k. rd_murmur2 0 (key_bytes k)) [''kafka'', ''1234'', ''234'', ''34'', ''4'', ''''] =
   [0xd067cf64, 0x9fc97b14, 0xe7c009ca, 0x873930da, 0x5a4b5ca1, 0x106e08d9]"
  by (simp add: rd_murmur2_def key_bytes_def mm_seed_def MM_MIX_def mm_m_def mm_tail_def mm_final_def Let_def)

end
