(* ===== verification/Producer.thy ===== *)
theory Producer
  imports Msgq Rdcrc32 Rdmurmur2
begin

unbundle bit_operations_syntax

text \<open>
  The producing side of the library: \<open>rdkafka_msg.c\<close> (creation of messages, partitioners,
  \<open>produce\<close> and \<open>produce_batch\<close>), the message accounting of \<open>rdkafka_int.h\<close> and the partition
  lookup and enqueueing of \<open>rdkafka_partition.c\<close>. The clocks, the pseudo-random numbers and the
  addresses the allocator returns are arguments; no interceptor is registered.
\<close>

section \<open>State\<close>

datatype resp_err = NO_ERROR | MSG_SIZE_TOO_LARGE | QUEUE_FULL | UNKNOWN_TOPIC | UNKNOWN_PARTITION

datatype rk_type = RD_KAFKA_PRODUCER | RD_KAFKA_CONSUMER

record rd_kafka =
  rk_type :: rk_type
  curr_cnt :: "32 word"
  curr_size :: "64 word"
  max_cnt :: "32 word"
  max_size :: "64 word"
  max_msg_size :: int

datatype topic_state = TOPIC_S_UNKNOWN | TOPIC_S_EXISTS | TOPIC_S_NOTEXISTS

datatype queuing_strategy = QUEUE_FIFO | QUEUE_LIFO

definition PARTITION_UA :: int where
  "PARTITION_UA = - 1"

record rd_kafka_toppar =
  rktp_partition :: int
  rktp_msgq :: rd_kafka_msgq
  rktp_msgseq :: "64 word"
  rktp_leader :: bool          \<comment> \<open>a leader that is a proper broker\<close>
  rktp_enq_msgs :: "64 word"   \<comment> \<open>the counter \<open>producer_enq_msgs\<close>\<close>

record rd_kafka_itopic =
  rkt_state :: topic_state
  rkt_p :: "rd_kafka_toppar list"
  rkt_partition_cnt :: int
  rkt_ua :: "rd_kafka_toppar option"
  rkt_queuing_strategy :: queuing_strategy
  rkt_msg_order_cmp :: msg_cmp
  rkt_message_timeout_ms :: int

text \<open>A reference to a partition of the topic: one of the array, or the unassigned one.\<close>

datatype toppar_ref = Part nat | Ua

definition toppar_at :: "rd_kafka_itopic \<Rightarrow> toppar_ref \<Rightarrow> rd_kafka_toppar res" where
  "toppar_at rkt ref =
     (case ref of
        Part i \<Rightarrow> if i < length (rkt_p rkt) then Inr (rkt_p rkt ! i) else Inl Out_Of_Bounds
      | Ua \<Rightarrow> derefR Null_Deref (rkt_ua rkt))"

definition toppar_put :: "rd_kafka_itopic \<Rightarrow> toppar_ref \<Rightarrow> rd_kafka_toppar \<Rightarrow> rd_kafka_itopic" where
  "toppar_put rkt ref rktp =
     (case ref of Part i \<Rightarrow> rkt\<lparr>rkt_p := (rkt_p rkt)[i := rktp]\<rparr> | Ua \<Rightarrow> rkt\<lparr>rkt_ua := Some rktp\<rparr>)"

section \<open>Accounting\<close>

text \<open>A full queue makes a blocking caller wait, and it tests again when woken.\<close>

datatype add_outcome = Added rd_kafka | Queue_Full | Waits

definition rd_kafka_curr_msgs_add :: "rd_kafka \<Rightarrow> 32 word \<Rightarrow> 64 word \<Rightarrow> bool \<Rightarrow> add_outcome" where
  "rd_kafka_curr_msgs_add rk cnt sz block =
     (if rk_type rk \<noteq> RD_KAFKA_PRODUCER then Added rk
      else if curr_cnt rk + cnt > max_cnt rk \<or> curr_size rk + sz > max_size rk
      then if block then Waits else Queue_Full
      else Added (rk\<lparr>curr_cnt := curr_cnt rk + cnt, curr_size := curr_size rk + sz\<rparr>))"

text \<open>The state and whether waiting callers are woken.\<close>

definition rd_kafka_curr_msgs_sub :: "rd_kafka \<Rightarrow> 32 word \<Rightarrow> 64 word \<Rightarrow> (rd_kafka \<times> bool) res" where
  "rd_kafka_curr_msgs_sub rk cnt sz =
     (if rk_type rk \<noteq> RD_KAFKA_PRODUCER then Inr (rk, False)
      else
        bindR (check Assert_Failed (curr_cnt rk \<ge> cnt \<and> curr_size rk \<ge> sz)) (\<lambda>_.
        Inr (rk\<lparr>curr_cnt := curr_cnt rk - cnt, curr_size := curr_size rk - sz\<rparr>,
             (curr_cnt rk \<ge> max_cnt rk \<and> curr_cnt rk - cnt < max_cnt rk) \<or>
             (curr_size rk \<ge> max_size rk \<and> curr_size rk - sz < max_size rk))))"

definition rd_kafka_curr_msgs_get :: "rd_kafka \<Rightarrow> 32 word \<times> 64 word" where
  "rd_kafka_curr_msgs_get rk = (if rk_type rk \<noteq> RD_KAFKA_PRODUCER then (0, 0) else (curr_cnt rk, curr_size rk))"

definition rd_kafka_curr_msgs_cnt :: "rd_kafka \<Rightarrow> int" where
  "rd_kafka_curr_msgs_cnt rk = (if rk_type rk \<noteq> RD_KAFKA_PRODUCER then 0 else sint (curr_cnt rk))"

section \<open>Messages\<close>

definition MSG_F_FREE :: "32 word" where "MSG_F_FREE = 0x1"
definition MSG_F_COPY :: "32 word" where "MSG_F_COPY = 0x2"
definition MSG_F_BLOCK :: "32 word" where "MSG_F_BLOCK = 0x4"
definition MSG_F_PARTITION :: "32 word" where "MSG_F_PARTITION = 0x8"
definition MSG_F_FREE_RKM :: "32 word" where "MSG_F_FREE_RKM = 0x10000"
definition MSG_F_ACCOUNT :: "32 word" where "MSG_F_ACCOUNT = 0x20000"
definition MSG_F_PRODUCER :: "32 word" where "MSG_F_PRODUCER = 0x40000"
definition MSG_F_RKT_RDLOCKED :: "32 word" where "MSG_F_RKT_RDLOCKED = 0x100000"

abbreviation flag_set :: "32 word \<Rightarrow> 32 word \<Rightarrow> bool" where
  "flag_set flags f \<equiv> flags AND f \<noteq> 0"

text \<open>The state afterwards, and the application memory that was freed.\<close>

definition rd_kafka_msg_destroy :: "rd_kafka \<Rightarrow> rd_kafka_msg \<Rightarrow> (rd_kafka \<times> payload option) res" where
  "rd_kafka_msg_destroy rk rkm =
     bindR (if flag_set (rkm_flags rkm) MSG_F_ACCOUNT then
              bindR (rd_kafka_curr_msgs_sub rk 1 (rkm_len rkm)) (\<lambda>(rk, woken). Inr rk)
            else Inr rk) (\<lambda>rk.
     Inr (rk, if flag_set (rkm_flags rkm) MSG_F_FREE then rkm_payload rkm else None))"

text \<open>
  What the application passes as payload: the address of its memory and the bytes there. The
  length and the key length are the ones passed, which the source uses as they are.
\<close>

type_synonym app_payload = "(nat \<times> byte list) option"

definition rd_kafka_msg_new00 :: "nat \<Rightarrow> int \<Rightarrow> 32 word \<Rightarrow> app_payload \<Rightarrow> 64 word \<Rightarrow> byte list option \<Rightarrow> 64 word \<Rightarrow> rd_kafka_msg" where
  "rd_kafka_msg_new00 addr part msgflags payload len key keylen =
     (let msgflags = (if flag_set msgflags MSG_F_COPY then msgflags AND NOT MSG_F_FREE else msgflags)
      in \<lparr>rkm_addr = addr,
          rkm_len = len,
          rkm_payload = (case payload of
              Some (ptr, bytes) \<Rightarrow>
                if flag_set msgflags MSG_F_COPY then Some (Own_Copy (take (unat len) bytes)) else Some (App_Pointer ptr)
            | None \<Rightarrow> None),
          rkm_key = map_option (take (unat keylen)) key,
          rkm_key_len = (if key = None then 0 else keylen),
          rkm_partition = part,
          rkm_flags = MSG_F_PRODUCER OR MSG_F_FREE_RKM OR msgflags,
          rkm_timestamp = 0,
          rkm_tstype = TIMESTAMP_NOT_AVAILABLE,
          rkm_ts_timeout = 0,
          rkm_ts_enq = 0,
          rkm_ts_backoff = 0,
          rkm_msgseq = 0,
          rkm_retries = 0\<rparr>)"

definition INT32_MAX :: "64 word" where
  "INT32_MAX = 0x7fffffff"

definition INT64_MAX :: int where
  "INT64_MAX = 9223372036854775807"

datatype new_outcome = New rd_kafka rd_kafka_msg | New_Failed resp_err | New_Waits

text \<open>\<open>hdrs_size\<close> is the serialized size of the headers, 0 without headers.\<close>

definition rd_kafka_msg_new0 :: "rd_kafka \<Rightarrow> rd_kafka_itopic \<Rightarrow> nat \<Rightarrow> int \<Rightarrow> 32 word \<Rightarrow> app_payload \<Rightarrow> 64 word \<Rightarrow>
    byte list option \<Rightarrow> 64 word \<Rightarrow> 64 word \<Rightarrow> int \<Rightarrow> int \<Rightarrow> int \<Rightarrow> new_outcome" where
  "rd_kafka_msg_new0 rk rkt addr force_partition msgflags payload len key keylen hdrs_size timestamp uclock now =
     (let len = (if payload = None then 0 else len);
          keylen = (if key = None then 0 else keylen)
      in if len + keylen + hdrs_size > word_of_int (max_msg_size rk) \<or> keylen > INT32_MAX
         then New_Failed MSG_SIZE_TOO_LARGE
         else
           case rd_kafka_curr_msgs_add rk 1 len (flag_set msgflags MSG_F_BLOCK) of
             Queue_Full \<Rightarrow> New_Failed QUEUE_FULL
           | Waits \<Rightarrow> New_Waits
           | Added rk \<Rightarrow>
             let rkm = rd_kafka_msg_new00 addr force_partition (msgflags OR MSG_F_ACCOUNT) payload len key keylen
             in New rk (rkm\<lparr>rkm_timestamp := (if timestamp \<noteq> 0 then timestamp else uclock div 1000),
                           rkm_tstype := TIMESTAMP_CREATE_TIME,
                           rkm_ts_enq := now,
                           rkm_ts_timeout := (if rkt_message_timeout_ms rkt = 0 then INT64_MAX
                             else s64 (now + s32 (rkt_message_timeout_ms rkt * 1000)))\<rparr>))"

section \<open>Partitions\<close>

definition rd_kafka_toppar_get :: "rd_kafka_itopic \<Rightarrow> int \<Rightarrow> bool \<Rightarrow> toppar_ref option" where
  "rd_kafka_toppar_get rkt part ua_on_miss =
     (if part \<ge> 0 \<and> part < rkt_partition_cnt rkt then Some (Part (nat part))
      else if part = PARTITION_UA \<or> ua_on_miss then (if rkt_ua rkt = None then None else Some Ua)
      else None)"

definition rd_kafka_toppar_get_avail :: "rd_kafka_itopic \<Rightarrow> int \<Rightarrow> resp_err + toppar_ref" where
  "rd_kafka_toppar_get_avail rkt part =
     (let get = (\<lambda>part. case rd_kafka_toppar_get rkt part False of
            None \<Rightarrow> Inl (if rkt_state rkt = TOPIC_S_NOTEXISTS then UNKNOWN_TOPIC else UNKNOWN_PARTITION)
          | Some ref \<Rightarrow> Inr ref)
      in case rkt_state rkt of
           TOPIC_S_UNKNOWN \<Rightarrow> get PARTITION_UA
         | TOPIC_S_NOTEXISTS \<Rightarrow> Inl UNKNOWN_TOPIC
         | TOPIC_S_EXISTS \<Rightarrow>
             if rkt_partition_cnt rkt = 0 then get PARTITION_UA
             else if part \<ge> rkt_partition_cnt rkt then Inl UNKNOWN_PARTITION
             else get part)"

definition rd_kafka_topic_partition_available :: "rd_kafka_itopic \<Rightarrow> int \<Rightarrow> bool res" where
  "rd_kafka_topic_partition_available rkt part =
     (case rd_kafka_toppar_get rkt part False of
        None \<Rightarrow> Inr False
      | Some ref \<Rightarrow> bindR (toppar_at rkt ref) (\<lambda>rktp. Inr (rktp_leader rktp)))"

definition rd_kafka_toppar_enq_msg :: "rd_kafka_itopic \<Rightarrow> toppar_ref \<Rightarrow> rd_kafka_msg \<Rightarrow> rd_kafka_itopic res" where
  "rd_kafka_toppar_enq_msg rkt ref rkm =
     bindR (toppar_at rkt ref) (\<lambda>rktp.
     let number = (rkm_msgseq rkm = 0 \<and> rktp_partition rktp \<noteq> PARTITION_UA);
         rktp = (if number then rktp\<lparr>rktp_msgseq := rktp_msgseq rktp + 1\<rparr> else rktp);
         rkm = (if number then rkm\<lparr>rkm_msgseq := rktp_msgseq rktp\<rparr> else rkm);
         (msgq, queue_len) =
           (if rktp_partition rktp = PARTITION_UA \<or> rkt_queuing_strategy rkt = QUEUE_FIFO
            then rd_kafka_msgq_enq (rktp_msgq rktp) rkm
            else rd_kafka_msgq_enq_sorted0 (rktp_msgq rktp) rkm (rkt_msg_order_cmp rkt))
     in Inr (toppar_put rkt ref (rktp\<lparr>rktp_msgq := msgq\<rparr>)))"

definition rd_kafka_toppar_deq_msg :: "rd_kafka_itopic \<Rightarrow> toppar_ref \<Rightarrow> rd_kafka_msg \<Rightarrow> rd_kafka_itopic res" where
  "rd_kafka_toppar_deq_msg rkt ref rkm =
     bindR (toppar_at rkt ref) (\<lambda>rktp.
     bindR (rd_kafka_msgq_deq (rktp_msgq rktp) rkm True) (\<lambda>msgq.
     Inr (toppar_put rkt ref (rktp\<lparr>rktp_msgq := msgq\<rparr>))))"

section \<open>Partitioners\<close>

text \<open>A partitioner gets the topic, the key and the partition count; \<open>rand\<close> is a supply of results of \<open>rand(3)\<close>.\<close>

type_synonym partitioner = "rd_kafka_itopic \<Rightarrow> byte list option \<Rightarrow> int \<Rightarrow> (nat \<Rightarrow> int) \<Rightarrow> int res"

definition rd_jitter :: "int \<Rightarrow> int \<Rightarrow> int \<Rightarrow> int res" where
  "rd_jitter r low high =
     bindR (check Div_By_Zero (s32 (s32 (high - low) + 1) \<noteq> 0)) (\<lambda>_. Inr (s32 (low + r mod s32 (s32 (high - low) + 1))))"

definition rd_kafka_msg_partitioner_random :: partitioner where
  "rd_kafka_msg_partitioner_random rkt key partition_cnt rand =
     bindR (rd_jitter (rand 0) 0 (partition_cnt - 1)) (\<lambda>p.
     bindR (rd_kafka_topic_partition_available rkt p) (\<lambda>available.
     if \<not> available then rd_jitter (rand 1) 0 (partition_cnt - 1) else Inr p))"

text \<open>The remainder is taken in 32-bit unsigned arithmetic.\<close>

definition umod :: "32 word \<Rightarrow> int \<Rightarrow> int res" where
  "umod h partition_cnt =
     bindR (check Div_By_Zero (word_of_int partition_cnt \<noteq> (0 :: 32 word))) (\<lambda>_. Inr (sint (h mod word_of_int partition_cnt)))"

definition key_data :: "byte list option \<Rightarrow> byte list" where
  "key_data key = (case key of None \<Rightarrow> [] | Some bytes \<Rightarrow> bytes)"

definition rd_kafka_msg_partitioner_consistent :: partitioner where
  "rd_kafka_msg_partitioner_consistent rkt key partition_cnt rand = umod (rd_crc32 (key_data key)) partition_cnt"

definition rd_kafka_msg_partitioner_consistent_random :: partitioner where
  "rd_kafka_msg_partitioner_consistent_random rkt key partition_cnt rand =
     (if key_data key = [] then rd_kafka_msg_partitioner_random rkt key partition_cnt rand
      else rd_kafka_msg_partitioner_consistent rkt key partition_cnt rand)"

text \<open>The address of the key does not matter to the hash.\<close>

definition rd_kafka_msg_partitioner_murmur2 :: partitioner where
  "rd_kafka_msg_partitioner_murmur2 rkt key partition_cnt rand =
     umod (rd_murmur2 0 (key_data key) AND 0x7fffffff) partition_cnt"

definition rd_kafka_msg_partitioner_murmur2_random :: partitioner where
  "rd_kafka_msg_partitioner_murmur2_random rkt key partition_cnt rand =
     (if key = None then rd_kafka_msg_partitioner_random rkt key partition_cnt rand
      else umod (rd_murmur2 0 (key_data key) AND 0x7fffffff) partition_cnt)"

text \<open>The topic with the message enqueued, or the error.\<close>

definition rd_kafka_msg_partitioner :: "partitioner \<Rightarrow> (nat \<Rightarrow> int) \<Rightarrow> rd_kafka_itopic \<Rightarrow> rd_kafka_msg \<Rightarrow> (resp_err + rd_kafka_itopic) res" where
  "rd_kafka_msg_partitioner partitioner rand rkt rkm =
     (let place = (\<lambda>part.
            case rd_kafka_toppar_get rkt part False of
              None \<Rightarrow> Inr (Inl (if rkt_state rkt = TOPIC_S_NOTEXISTS then UNKNOWN_TOPIC else UNKNOWN_PARTITION))
            | Some ref \<Rightarrow>
              bindR (toppar_at rkt ref) (\<lambda>rktp.
              let rkt = toppar_put rkt ref (rktp\<lparr>rktp_enq_msgs := rktp_enq_msgs rktp + 1\<rparr>);
                  rkm = (if rkm_partition rkm = PARTITION_UA then rkm\<lparr>rkm_partition := part\<rparr> else rkm)
              in bindR (rd_kafka_toppar_enq_msg rkt ref rkm) (\<lambda>rkt. Inr (Inr rkt))))
      in case rkt_state rkt of
           TOPIC_S_UNKNOWN \<Rightarrow> place PARTITION_UA
         | TOPIC_S_NOTEXISTS \<Rightarrow> Inr (Inl UNKNOWN_TOPIC)
         | TOPIC_S_EXISTS \<Rightarrow>
             if rkt_partition_cnt rkt = 0 then place PARTITION_UA
             else
               bindR (if rkm_partition rkm = PARTITION_UA then partitioner rkt (rkm_key rkm) (rkt_partition_cnt rkt) rand
                      else Inr (rkm_partition rkm)) (\<lambda>part.
               if part \<ge> rkt_partition_cnt rkt then Inr (Inl UNKNOWN_PARTITION) else place part))"

section \<open>Producing\<close>

text \<open>What a call of \<open>produce\<close> gets from outside.\<close>

record call_env =
  env_addr :: nat          \<comment> \<open>address of the new message\<close>
  env_uclock :: int
  env_clock :: int
  env_rand :: "nat \<Rightarrow> int"

text \<open>
  The state afterwards, the memory of the application that was freed, and the error; a blocking
  call on a full queue has not returned yet.
\<close>

datatype produce_outcome = Returned rd_kafka rd_kafka_itopic "payload option" resp_err | Blocks

definition rd_kafka_msg_new :: "partitioner \<Rightarrow> call_env \<Rightarrow> rd_kafka \<Rightarrow> rd_kafka_itopic \<Rightarrow> int \<Rightarrow> 32 word \<Rightarrow>
    app_payload \<Rightarrow> 64 word \<Rightarrow> byte list option \<Rightarrow> 64 word \<Rightarrow> produce_outcome res" where
  "rd_kafka_msg_new partitioner env rk rkt force_partition msgflags payload len key keylen =
     (case rd_kafka_msg_new0 rk rkt (env_addr env) force_partition msgflags payload len key keylen 0 0 (env_uclock env) (env_clock env) of
        New_Failed err \<Rightarrow> Inr (Returned rk rkt None err)
      | New_Waits \<Rightarrow> Inr Blocks
      | New rk rkm \<Rightarrow>
        bindR (rd_kafka_msg_partitioner partitioner (env_rand env) rkt rkm) (\<lambda>result.
        case result of
          Inr rkt \<Rightarrow> Inr (Returned rk rkt None NO_ERROR)
        | Inl err \<Rightarrow>
          bindR (rd_kafka_msg_destroy rk (rkm\<lparr>rkm_flags := rkm_flags rkm AND NOT MSG_F_FREE\<rparr>)) (\<lambda>(rk, freed).
          Inr (Returned rk rkt freed err))))"


text \<open>One element of the array passed to \<open>rd_kafka_produce_batch\<close>.\<close>

record rd_kafka_message =
  msg_payload :: app_payload
  msg_len :: "64 word"
  msg_key :: "byte list option"
  msg_key_len :: "64 word"
  msg_partition :: int

text \<open>The variables of the loop: the errors stored so far, and the application memory freed.\<close>

record batch =
  b_rk :: rd_kafka
  b_rkt :: rd_kafka_itopic
  b_s_rktp :: "toppar_ref option"
  b_all_err :: resp_err
  b_errs :: "resp_err list"
  b_good :: int
  b_freed :: "payload list"

datatype batch_outcome = Going batch | Batch_Blocks

definition batch_enqueued :: "batch \<Rightarrow> rd_kafka \<Rightarrow> rd_kafka_itopic \<Rightarrow> batch_outcome" where
  "batch_enqueued b rk rkt =
     Going (b\<lparr>b_rk := rk, b_rkt := rkt, b_errs := b_errs b @ [NO_ERROR], b_good := s32 (b_good b + 1)\<rparr>)"

definition batch_to_partition :: "batch \<Rightarrow> rd_kafka \<Rightarrow> rd_kafka_msg \<Rightarrow> batch_outcome res" where
  "batch_to_partition b rk rkm =
     bindR (case b_s_rktp b of
              None \<Rightarrow> Inr True
            | Some ref \<Rightarrow> bindR (toppar_at (b_rkt b) ref) (\<lambda>rktp. Inr (rkm_partition rkm \<noteq> rktp_partition rktp))) (\<lambda>lookup.
     let b = (if lookup then
                (case rd_kafka_toppar_get_avail (b_rkt b) (rkm_partition rkm) of
                   Inl err \<Rightarrow> b\<lparr>b_s_rktp := None, b_all_err := err\<rparr>
                 | Inr ref \<Rightarrow> b\<lparr>b_s_rktp := Some ref\<rparr>)
              else b)
     in bindR (derefR Null_Deref (b_s_rktp b)) (\<lambda>ref.
        bindR (rd_kafka_toppar_enq_msg (b_rkt b) ref rkm) (\<lambda>rkt.
        Inr (batch_enqueued b rk rkt))))"

definition batch_partitioned :: "partitioner \<Rightarrow> call_env \<Rightarrow> batch \<Rightarrow> rd_kafka \<Rightarrow> rd_kafka_msg \<Rightarrow> batch_outcome res" where
  "batch_partitioned partitioner env b rk rkm =
     bindR (rd_kafka_msg_partitioner partitioner (env_rand env) (b_rkt b) rkm) (\<lambda>result.
     case result of
       Inr rkt \<Rightarrow> Inr (batch_enqueued b rk rkt)
     | Inl err \<Rightarrow>
       bindR (rd_kafka_msg_destroy rk rkm) (\<lambda>(rk, freed).
       Inr (Going (b\<lparr>b_rk := rk, b_errs := b_errs b @ [err],
                     b_freed := b_freed b @ (case freed of None \<Rightarrow> [] | Some p \<Rightarrow> [p])\<rparr>))))"

definition batch_message :: "partitioner \<Rightarrow> call_env \<Rightarrow> int \<Rightarrow> 32 word \<Rightarrow> bool \<Rightarrow> rd_kafka_message \<Rightarrow> batch \<Rightarrow> batch_outcome res" where
  "batch_message partitioner env part msgflags multiple_partitions m b =
     (if b_all_err b \<noteq> NO_ERROR then Inr (Going (b\<lparr>b_errs := b_errs b @ [b_all_err b]\<rparr>))
      else
        case rd_kafka_msg_new0 (b_rk b) (b_rkt b) (env_addr env)
               (if flag_set msgflags MSG_F_PARTITION then msg_partition m else part) msgflags
               (msg_payload m) (msg_len m) (msg_key m) (msg_key_len m) 0 (env_uclock env div 1000) (env_uclock env) (env_clock env) of
          New_Waits \<Rightarrow> Inr Batch_Blocks
        | New_Failed err \<Rightarrow>
            Inr (Going (b\<lparr>b_errs := b_errs b @ [err], b_all_err := (if err = QUEUE_FULL then err else b_all_err b)\<rparr>))
        | New rk rkm \<Rightarrow>
            if multiple_partitions then
              if rkm_partition rkm = PARTITION_UA then batch_partitioned partitioner env b rk rkm
              else batch_to_partition b rk rkm
            else
              bindR (derefR Null_Deref (b_s_rktp b)) (\<lambda>ref.
              bindR (rd_kafka_toppar_enq_msg (b_rkt b) ref rkm) (\<lambda>rkt.
              Inr (batch_enqueued b rk rkt))))"

fun batch_loop :: "partitioner \<Rightarrow> int \<Rightarrow> 32 word \<Rightarrow> bool \<Rightarrow> (call_env \<times> rd_kafka_message) list \<Rightarrow> batch \<Rightarrow> batch_outcome res" where
  "batch_loop partitioner part msgflags multiple_partitions [] b = Inr (Going b)"
| "batch_loop partitioner part msgflags multiple_partitions ((env, m) # ms) b =
     bindR (batch_message partitioner env part msgflags multiple_partitions m b) (\<lambda>outcome.
     case outcome of
       Batch_Blocks \<Rightarrow> Inr Batch_Blocks
     | Going b \<Rightarrow> batch_loop partitioner part msgflags multiple_partitions ms b)"

definition rd_kafka_produce_batch :: "partitioner \<Rightarrow> rd_kafka \<Rightarrow> rd_kafka_itopic \<Rightarrow> int \<Rightarrow> 32 word \<Rightarrow>
    (call_env \<times> rd_kafka_message) list \<Rightarrow> batch_outcome res" where
  "rd_kafka_produce_batch partitioner rk rkt part msgflags messages =
     (let multiple_partitions = (part = PARTITION_UA \<or> flag_set msgflags MSG_F_PARTITION);
          b = \<lparr>b_rk = rk, b_rkt = rkt, b_s_rktp = None, b_all_err = NO_ERROR, b_errs = [], b_good = 0, b_freed = []\<rparr>;
          b = (if multiple_partitions then b
               else case rd_kafka_toppar_get_avail rkt part of
                      Inl err \<Rightarrow> b\<lparr>b_all_err := err\<rparr>
                    | Inr ref \<Rightarrow> b\<lparr>b_s_rktp := Some ref\<rparr>);
          msgflags = (if multiple_partitions then msgflags OR MSG_F_RKT_RDLOCKED else msgflags)
      in batch_loop partitioner part msgflags multiple_partitions messages b)"

section \<open>Built-in partitioners\<close>

definition builtin_partitioners :: "partitioner set" where
  "builtin_partitioners = {rd_kafka_msg_partitioner_random, rd_kafka_msg_partitioner_consistent,
     rd_kafka_msg_partitioner_consistent_random, rd_kafka_msg_partitioner_murmur2, rd_kafka_msg_partitioner_murmur2_random}"

lemma umod_range:
  assumes "0 < n" and "n < 2 ^ 31"
  shows "\<exists>p. umod h n = Inr p \<and> 0 \<le> p \<and> p < n"
proof -
  let ?n = "word_of_int n :: 32 word"
  have n: "uint ?n = n" using assms by (simp add: unsigned_of_int take_bit_int_eq_self)
  then have nz: "?n \<noteq> 0" using assms(1) by auto
  have u: "unat ?n = nat n" unfolding unat_eq_nat_uint n ..
  have lt: "unat (h mod ?n) < nat n" using u assms(1) by (simp add: unat_mod_distrib)
  moreover have "nat n < 2 ^ 31" using assms by (simp add: nat_less_iff)
  ultimately have "unat (h mod ?n) < 2 ^ 31" by linarith
  then have "sint (h mod ?n) = int (unat (h mod ?n))" by (intro sint_small) simp
  moreover have "int (unat (h mod ?n)) < n" using lt by linarith
  ultimately show ?thesis using nz by (simp add: umod_def check_def)
qed

lemma rd_jitter_range:
  assumes "0 < n" and "n < 2 ^ 31" and "0 \<le> r"
  shows "\<exists>p. rd_jitter r 0 (n - 1) = Inr p \<and> 0 \<le> p \<and> p < n"
proof -
  have n: "s32 (s32 (n - 1 - 0) + 1) = n" using assms by (simp add: s32_id)
  have "0 \<le> r mod n" "r mod n < n" using assms(1) by simp_all
  moreover from this have "s32 (0 + r mod n) = r mod n" using assms(2) by (simp add: s32_id)
  ultimately show ?thesis using assms(1) unfolding rd_jitter_def n by simp
qed

text \<open>A topic whose partition array has as many elements as it says.\<close>

definition topic_ok :: "rd_kafka_itopic \<Rightarrow> bool" where
  "topic_ok rkt \<longleftrightarrow> rkt_partition_cnt rkt = int (length (rkt_p rkt)) \<and> length (rkt_p rkt) < 2 ^ 31 \<and>
     (\<forall>i < length (rkt_p rkt). rktp_partition (rkt_p rkt ! i) = int i \<and> msgq_ok (rktp_msgq (rkt_p rkt ! i))) \<and>
     (\<exists>ua. rkt_ua rkt = Some ua \<and> rktp_partition ua = PARTITION_UA \<and> msgq_ok (rktp_msgq ua))"

lemma partition_available_ok: "topic_ok rkt \<Longrightarrow> \<exists>b. rd_kafka_topic_partition_available rkt p = Inr b"
  by (auto simp: topic_ok_def rd_kafka_topic_partition_available_def rd_kafka_toppar_get_def toppar_at_def nat_less_iff
      split: option.splits)

lemma random_range:
  assumes "topic_ok rkt" and "0 < n" and "n < 2 ^ 31" and "\<forall>i. 0 \<le> rand i"
  shows "\<exists>p. rd_kafka_msg_partitioner_random rkt key n rand = Inr p \<and> 0 \<le> p \<and> p < n"
proof -
  obtain p where p: "rd_jitter (rand 0) 0 (n - 1) = Inr p" "0 \<le> p" "p < n" using rd_jitter_range assms by blast
  obtain q where q: "rd_jitter (rand 1) 0 (n - 1) = Inr q" "0 \<le> q" "q < n" using rd_jitter_range assms by blast
  obtain b where "rd_kafka_topic_partition_available rkt p = Inr b" using partition_available_ok assms(1) by blast
  then show ?thesis using p q by (cases b) (auto simp: rd_kafka_msg_partitioner_random_def)
qed

lemma builtin_partitioner_range:
  assumes "f \<in> builtin_partitioners" and "topic_ok rkt" and "0 < n" and "n < 2 ^ 31" and "\<forall>i. 0 \<le> rand i"
  shows "\<exists>p. f rkt key n rand = Inr p \<and> 0 \<le> p \<and> p < n"
  using assms(1) random_range [OF assms(2-5), of key] umod_range [OF assms(3,4)]
  by (auto simp: builtin_partitioners_def rd_kafka_msg_partitioner_consistent_def rd_kafka_msg_partitioner_consistent_random_def
      rd_kafka_msg_partitioner_murmur2_def rd_kafka_msg_partitioner_murmur2_random_def)


section \<open>The messages of a topic\<close>

definition toppar_msgs :: "rd_kafka_toppar \<Rightarrow> rd_kafka_msg list" where
  "toppar_msgs rktp = rkmq_msgs (rktp_msgq rktp)"

definition all_msgs :: "rd_kafka_itopic \<Rightarrow> rd_kafka_msg list" where
  "all_msgs rkt = concat (map toppar_msgs (rkt_p rkt)) @ (case rkt_ua rkt of None \<Rightarrow> [] | Some ua \<Rightarrow> toppar_msgs ua)"

lemma mset_concat_update:
  "i < length xs \<Longrightarrow> mset (concat (map g (xs[i := y]))) + mset (g (xs ! i)) = mset (concat (map g xs)) + mset (g y)"
proof (induction xs arbitrary: i)
  case (Cons x xs)
  then show ?case by (cases i) (auto simp: union_ac dest!: Cons.IH)
qed simp

lemma toppar_at_ok:
  assumes "topic_ok rkt" and "rd_kafka_toppar_get rkt part False = Some ref"
  shows "\<exists>rktp. toppar_at rkt ref = Inr rktp \<and> rktp_partition rktp = part \<and> msgq_ok (rktp_msgq rktp) \<and>
    set (toppar_msgs rktp) \<subseteq> set (all_msgs rkt)"
proof (cases "0 \<le> part \<and> part < rkt_partition_cnt rkt")
  case True
  then have i: "nat part < length (rkt_p rkt)" "int (nat part) = part" using assms(1) by (auto simp: topic_ok_def)
  then have "rkt_p rkt ! nat part \<in> set (rkt_p rkt)" by simp
  then show ?thesis using assms True i by (auto simp: topic_ok_def rd_kafka_toppar_get_def toppar_at_def all_msgs_def)
next
  case False
  then show ?thesis using assms
    by (auto simp: topic_ok_def rd_kafka_toppar_get_def toppar_at_def all_msgs_def split: if_splits option.splits)
qed

lemma toppar_put_ok:
  assumes "topic_ok rkt" and "toppar_at rkt ref = Inr rktp" and "rktp_partition rktp' = rktp_partition rktp"
    and "msgq_ok (rktp_msgq rktp')"
  shows "topic_ok (toppar_put rkt ref rktp')"
    and "mset (all_msgs (toppar_put rkt ref rktp')) + mset (toppar_msgs rktp) = mset (all_msgs rkt) + mset (toppar_msgs rktp')"
    and "toppar_at (toppar_put rkt ref rktp') ref = Inr rktp'"
proof -
  show "topic_ok (toppar_put rkt ref rktp')"
    using assms by (cases ref) (auto simp: topic_ok_def toppar_put_def toppar_at_def nth_list_update split: if_splits)
  show "mset (all_msgs (toppar_put rkt ref rktp')) + mset (toppar_msgs rktp) = mset (all_msgs rkt) + mset (toppar_msgs rktp')"
  proof (cases ref)
    case (Part i)
    then show ?thesis using assms(2) mset_concat_update [of i "rkt_p rkt" toppar_msgs rktp']
      by (auto simp: toppar_put_def toppar_at_def all_msgs_def union_ac split: if_splits)
  next
    case Ua
    then show ?thesis using assms(2) by (auto simp: toppar_put_def toppar_at_def all_msgs_def union_ac)
  qed
  show "toppar_at (toppar_put rkt ref rktp') ref = Inr rktp'"
    using assms(2) by (cases ref) (auto simp: toppar_put_def toppar_at_def split: if_splits)
qed

text \<open>Fields that the producer sets when it enqueues.\<close>

definition same_content :: "rd_kafka_msg \<Rightarrow> rd_kafka_msg \<Rightarrow> bool" where
  "same_content m m' \<longleftrightarrow> m' = m\<lparr>rkm_msgseq := rkm_msgseq m', rkm_partition := rkm_partition m'\<rparr>"

lemma same_content_fields:
  "same_content m m' \<Longrightarrow> rkm_addr m' = rkm_addr m \<and> rkm_len m' = rkm_len m \<and> rkm_key_len m' = rkm_key_len m \<and>
     rkm_flags m' = rkm_flags m \<and> rkm_payload m' = rkm_payload m \<and> rkm_key m' = rkm_key m"
  unfolding same_content_def by (metis rd_kafka_msg.select_convs rd_kafka_msg.surjective rd_kafka_msg.update_convs(6,13))

lemma enq_msg_ok:
  assumes "topic_ok rkt" and "toppar_at rkt ref = Inr rktp" and "rkm_addr m \<notin> rkm_addr ` set (toppar_msgs rktp)"
  shows "\<exists>rkt' m'. rd_kafka_toppar_enq_msg rkt ref m = Inr rkt' \<and> topic_ok rkt' \<and> same_content m m' \<and>
    rkm_partition m' = rkm_partition m \<and> mset (all_msgs rkt') = add_mset m' (mset (all_msgs rkt)) \<and>
    (\<exists>rktp'. rkt' = toppar_put rkt ref rktp' \<and> mset (toppar_msgs rktp') = add_mset m' (mset (toppar_msgs rktp)))"
proof -
  define number where "number \<longleftrightarrow> rkm_msgseq m = 0 \<and> rktp_partition rktp \<noteq> PARTITION_UA"
  define rktp1 where "rktp1 = (if number then rktp\<lparr>rktp_msgseq := rktp_msgseq rktp + 1\<rparr> else rktp)"
  define m' where "m' = (if number then m\<lparr>rkm_msgseq := rktp_msgseq rktp1\<rparr> else m)"
  define q where "q = (if rktp_partition rktp1 = PARTITION_UA \<or> rkt_queuing_strategy rkt = QUEUE_FIFO
      then rd_kafka_msgq_enq (rktp_msgq rktp1) m'
      else rd_kafka_msgq_enq_sorted0 (rktp_msgq rktp1) m' (rkt_msg_order_cmp rkt))"
  let ?rktp = "rktp1\<lparr>rktp_msgq := fst q\<rparr>"
  have ok: "msgq_ok (rktp_msgq rktp)" using assms(1,2) by (cases ref) (auto simp: topic_ok_def toppar_at_def split: if_splits)
  have addr: "rkm_addr m' = rkm_addr m" by (simp add: m'_def)
  have q1: "rktp_msgq rktp1 = rktp_msgq rktp" "rktp_partition rktp1 = rktp_partition rktp" by (simp_all add: rktp1_def)
  have qok: "msgq_ok (fst q)"
    using rd_kafka_msgq_enq_ok(1) [OF ok, of m'] rd_kafka_msgq_enq_sorted0_ok [OF ok, of m'] assms(3)
    by (simp add: q_def q1 addr toppar_msgs_def)
  have mset: "mset (rkmq_msgs (fst q)) = add_mset m' (mset (toppar_msgs rktp))"
    by (simp add: q_def q1 toppar_msgs_def rd_kafka_msgq_enq_def rd_kafka_msgq_enq_sorted0_def Let_def mset_tailq_insert_sorted)
  have "rd_kafka_toppar_enq_msg rkt ref m = Inr (toppar_put rkt ref ?rktp)"
    using assms(2) by (simp add: rd_kafka_toppar_enq_msg_def Let_def number_def rktp1_def m'_def q_def case_prod_beta)
  moreover have "topic_ok (toppar_put rkt ref ?rktp)"
    using toppar_put_ok(1) [OF assms(1,2), of ?rktp] qok q1 by simp
  moreover have "mset (all_msgs (toppar_put rkt ref ?rktp)) = add_mset m' (mset (all_msgs rkt))"
    using toppar_put_ok(2) [OF assms(1,2), of ?rktp] qok q1 mset by (simp add: toppar_msgs_def)
  moreover have "same_content m m'" "rkm_partition m' = rkm_partition m" by (simp_all add: m'_def same_content_def)
  moreover have "mset (toppar_msgs ?rktp) = add_mset m' (mset (toppar_msgs rktp))" using mset by (simp add: toppar_msgs_def)
  ultimately show ?thesis by blast
qed

text \<open>Partitioners that stay in range, as the built-in ones do.\<close>

definition in_range_partitioner :: "partitioner \<Rightarrow> (nat \<Rightarrow> int) \<Rightarrow> bool" where
  "in_range_partitioner f rand \<longleftrightarrow> (\<forall>rkt key n. topic_ok rkt \<longrightarrow> 0 < n \<longrightarrow> n < 2 ^ 31 \<longrightarrow>
     (\<exists>p. f rkt key n rand = Inr p \<and> 0 \<le> p \<and> p < n))"

lemma place_ok:
  assumes "topic_ok rkt" and "rkm_addr m \<notin> rkm_addr ` set (all_msgs rkt)" and "rd_kafka_toppar_get rkt part False = Some ref"
    and "toppar_at rkt ref = Inr rktp" and "rkm_partition m = PARTITION_UA \<or> rkm_partition m = part \<or> part = PARTITION_UA"
  shows "\<exists>rkt' m'. rd_kafka_toppar_enq_msg (toppar_put rkt ref (rktp\<lparr>rktp_enq_msgs := rktp_enq_msgs rktp + 1\<rparr>)) ref
      (if rkm_partition m = PARTITION_UA then m\<lparr>rkm_partition := part\<rparr> else m) = Inr rkt' \<and>
    topic_ok rkt' \<and> same_content m m' \<and> mset (all_msgs rkt') = add_mset m' (mset (all_msgs rkt)) \<and>
    (rkm_partition m = PARTITION_UA \<longrightarrow> rkm_partition m' = part) \<and>
    (\<exists>rktp'. rkt' = toppar_put rkt ref rktp' \<and> mset (toppar_msgs rktp') = add_mset m' (mset (toppar_msgs rktp)))"
proof -
  let ?rktp = "rktp\<lparr>rktp_enq_msgs := rktp_enq_msgs rktp + 1\<rparr>"
  let ?rkt = "toppar_put rkt ref ?rktp"
  let ?m = "if rkm_partition m = PARTITION_UA then m\<lparr>rkm_partition := part\<rparr> else m"
  obtain rktp0 where at0: "toppar_at rkt ref = Inr rktp0" "msgq_ok (rktp_msgq rktp0)" "set (toppar_msgs rktp0) \<subseteq> set (all_msgs rkt)"
    using toppar_at_ok [OF assms(1,3)] by blast
  then have [simp]: "rktp0 = rktp" using assms(4) by simp
  have put: "topic_ok ?rkt" "toppar_at ?rkt ref = Inr ?rktp" "mset (all_msgs ?rkt) = mset (all_msgs rkt)"
    using toppar_put_ok [OF assms(1,4), of ?rktp] at0 by (simp_all add: toppar_msgs_def)
  have "rkm_addr ?m \<notin> rkm_addr ` set (toppar_msgs ?rktp)" using assms(2) at0(3) by (auto simp: toppar_msgs_def)
  from enq_msg_ok [OF put(1,2) this] obtain rkt' m' where
    e: "rd_kafka_toppar_enq_msg ?rkt ref ?m = Inr rkt'" "topic_ok rkt'" "same_content ?m m'" "rkm_partition m' = rkm_partition ?m"
      "mset (all_msgs rkt') = add_mset m' (mset (all_msgs ?rkt))"
      "\<exists>rktp'. rkt' = toppar_put ?rkt ref rktp' \<and> mset (toppar_msgs rktp') = add_mset m' (mset (toppar_msgs ?rktp))" by blast
  have "same_content m m'" using e(3) by (auto simp: same_content_def split: if_splits)
  moreover have "toppar_put ?rkt ref x = toppar_put rkt ref x" for x by (cases ref) (simp_all add: toppar_put_def)
  ultimately show ?thesis using e put(3) by (auto simp: toppar_msgs_def)
qed


lemma partitioner_ok:
  assumes "topic_ok rkt" and "rkm_addr m \<notin> rkm_addr ` set (all_msgs rkt)" and "in_range_partitioner f rand"
  shows "(\<exists>err. rd_kafka_msg_partitioner f rand rkt m = Inr (Inl err) \<and> err \<in> {UNKNOWN_TOPIC, UNKNOWN_PARTITION} \<and>
      (err = UNKNOWN_TOPIC \<longleftrightarrow> rkt_state rkt = TOPIC_S_NOTEXISTS)) \<or>
    (\<exists>rkt' m'. rd_kafka_msg_partitioner f rand rkt m = Inr (Inr rkt') \<and> topic_ok rkt' \<and> same_content m m' \<and>
      mset (all_msgs rkt') = add_mset m' (mset (all_msgs rkt)))"
proof -
  define place where "place = (\<lambda>part.
            case rd_kafka_toppar_get rkt part False of
              None \<Rightarrow> Inr (Inl (if rkt_state rkt = TOPIC_S_NOTEXISTS then UNKNOWN_TOPIC else UNKNOWN_PARTITION))
            | Some ref \<Rightarrow>
              bindR (toppar_at rkt ref) (\<lambda>rktp.
              let rkt = toppar_put rkt ref (rktp\<lparr>rktp_enq_msgs := rktp_enq_msgs rktp + 1\<rparr>);
                  rkm = (if rkm_partition m = PARTITION_UA then m\<lparr>rkm_partition := part\<rparr> else m)
              in bindR (rd_kafka_toppar_enq_msg rkt ref rkm) (\<lambda>rkt. Inr (Inr rkt :: resp_err + rd_kafka_itopic))))"
  have placed: "(\<exists>err. place part = Inr (Inl err) \<and> err \<in> {UNKNOWN_TOPIC, UNKNOWN_PARTITION} \<and>
      (err = UNKNOWN_TOPIC \<longleftrightarrow> rkt_state rkt = TOPIC_S_NOTEXISTS)) \<or>
    (\<exists>rkt' m'. place part = Inr (Inr rkt') \<and> topic_ok rkt' \<and> same_content m m' \<and>
      mset (all_msgs rkt') = add_mset m' (mset (all_msgs rkt)))"
    if "rkm_partition m = PARTITION_UA \<or> rkm_partition m = part \<or> part = PARTITION_UA" for part
  proof (cases "rd_kafka_toppar_get rkt part False")
    case None
    then show ?thesis by (simp add: place_def)
  next
    case (Some ref)
    obtain rktp where "toppar_at rkt ref = Inr rktp" using toppar_at_ok [OF assms(1) Some] by blast
    then show ?thesis using place_ok [OF assms(1,2) Some _ that] Some by (auto simp: place_def Let_def)
  qed
  have body: "rd_kafka_msg_partitioner f rand rkt m = (case rkt_state rkt of
           TOPIC_S_UNKNOWN \<Rightarrow> place PARTITION_UA
         | TOPIC_S_NOTEXISTS \<Rightarrow> Inr (Inl UNKNOWN_TOPIC)
         | TOPIC_S_EXISTS \<Rightarrow>
             if rkt_partition_cnt rkt = 0 then place PARTITION_UA
             else
               bindR (if rkm_partition m = PARTITION_UA then f rkt (rkm_key m) (rkt_partition_cnt rkt) rand
                      else Inr (rkm_partition m)) (\<lambda>part.
               if part \<ge> rkt_partition_cnt rkt then Inr (Inl UNKNOWN_PARTITION) else place part))"
    by (simp only: rd_kafka_msg_partitioner_def place_def Let_def)
  show ?thesis
  proof (cases "rkt_state rkt = TOPIC_S_EXISTS \<and> rkt_partition_cnt rkt \<noteq> 0")
    case True
    then have "0 < rkt_partition_cnt rkt" "rkt_partition_cnt rkt < 2 ^ 31" using assms(1) by (auto simp: topic_ok_def)
    then obtain p where p: "f rkt (rkm_key m) (rkt_partition_cnt rkt) rand = Inr p" "p < rkt_partition_cnt rkt"
      using assms(1,3) unfolding in_range_partitioner_def by blast
    show ?thesis using True p placed [of p] placed [of "rkm_partition m"] by (simp add: body)
  next
    case False
    then show ?thesis using placed [of PARTITION_UA] by (cases "rkt_state rkt") (simp_all add: body)
  qed
qed

section \<open>Accounting of the messages in flight\<close>

definition producer_ok :: "rd_kafka \<Rightarrow> rd_kafka_itopic \<Rightarrow> bool" where
  "producer_ok rk rkt \<longleftrightarrow> rk_type rk = RD_KAFKA_PRODUCER \<and> topic_ok rkt \<and>
     0 \<le> max_msg_size rk \<and> max_msg_size rk < 2 ^ 31 \<and> max_cnt rk < 2 ^ 31 \<and>
     unat (curr_cnt rk) = length (all_msgs rkt) \<and> curr_cnt rk \<le> max_cnt rk \<and>
     unat (curr_size rk) = (\<Sum>m \<in># mset (all_msgs rkt). unat (rkm_len m)) \<and> curr_size rk \<le> max_size rk \<and>
     (\<forall>m \<in> set (all_msgs rkt). flag_set (rkm_flags m) MSG_F_ACCOUNT \<and>
        unat (rkm_len m) + unat (rkm_key_len m) \<le> nat (max_msg_size rk))"

lemma max_msg_size_word:
  "0 \<le> n \<Longrightarrow> n < 2 ^ 31 \<Longrightarrow> unat (word_of_int n :: 64 word) = nat n"
  by (simp add: unat_eq_nat_uint unsigned_of_int take_bit_int_eq_self)

lemma size_bound:
  "\<forall>m \<in># M. g m \<le> k \<Longrightarrow> (\<Sum>m \<in># M. g m) \<le> size M * (k :: nat)"
  by (induction M) auto

text \<open>What creating a message does to the accounting, on every branch.\<close>

lemma msg_new0_ok:
  assumes "producer_ok rk rkt" and "payload \<noteq> None \<Longrightarrow> unat len + unat keylen < 2 ^ 63"
    and "unat keylen < 2 ^ 63"
  shows "case rd_kafka_msg_new0 rk rkt addr part msgflags payload len key keylen 0 ts uclock now of
      New rk' m \<Rightarrow> curr_cnt rk' = curr_cnt rk + 1 \<and> unat (curr_cnt rk') = unat (curr_cnt rk) + 1 \<and> curr_cnt rk' \<le> max_cnt rk \<and>
        curr_size rk' = curr_size rk + rkm_len m \<and>
        unat (curr_size rk') = unat (curr_size rk) + unat (rkm_len m) \<and> curr_size rk' \<le> max_size rk \<and>
        rk' = rk\<lparr>curr_cnt := curr_cnt rk', curr_size := curr_size rk'\<rparr> \<and>
        rkm_addr m = addr \<and> flag_set (rkm_flags m) MSG_F_ACCOUNT \<and>
        unat (rkm_len m) + unat (rkm_key_len m) \<le> nat (max_msg_size rk)
    | New_Failed err \<Rightarrow> err \<in> {MSG_SIZE_TOO_LARGE, QUEUE_FULL}
    | New_Waits \<Rightarrow> flag_set msgflags MSG_F_BLOCK"
proof -
  define l where "l = (if payload = None then 0 else len)"
  define kl where "kl = (if key = None then 0 else keylen)"
  have sum: "unat l + unat kl < 2 ^ 64" using assms(2,3) by (auto simp: l_def kl_def)
  then have lk: "unat (l + kl) = unat l + unat kl" using unat_add_lem [of l kl] by simp
  have prod: "rk_type rk = RD_KAFKA_PRODUCER" "0 \<le> max_msg_size rk" "max_msg_size rk < 2 ^ 31" "max_cnt rk < 2 ^ 31"
    "curr_cnt rk \<le> max_cnt rk" "curr_size rk \<le> max_size rk"
    using assms(1) by (simp_all add: producer_ok_def)
  have cnt: "unat (curr_cnt rk + 1) = unat (curr_cnt rk) + 1"
  proof -
    have "curr_cnt rk < 2 ^ 31" using prod(4,5) by simp
    then have "unat (curr_cnt rk) < 2 ^ 31" by (simp add: word_less_nat_alt)
    then show ?thesis using unat_add_lem [of "curr_cnt rk" 1] by simp
  qed
  have total: "unat (curr_size rk) < 2 ^ 63"
  proof -
    have "\<forall>m \<in># mset (all_msgs rkt). unat (rkm_len m) \<le> 2 ^ 31"
      using assms(1) prod(3) by (force simp: producer_ok_def)
    from size_bound [OF this] have "unat (curr_size rk) \<le> length (all_msgs rkt) * 2 ^ 31"
      using assms(1) by (simp add: producer_ok_def)
    moreover have "length (all_msgs rkt) < 2 ^ 31"
      using assms(1) by (auto simp: producer_ok_def word_le_nat_alt word_less_nat_alt)
    ultimately show ?thesis by simp
  qed
  have fits: "unat (curr_size rk + l) = unat (curr_size rk) + unat l" if "unat l \<le> nat (max_msg_size rk)"
  proof -
    have "nat (max_msg_size rk) < 2 ^ 31" using prod(2,3) by (simp add: nat_less_iff)
    with that total have "unat (curr_size rk) + unat l < 2 ^ LENGTH(64)" by simp
    then show ?thesis by (simp only: unat_add_lem)
  qed
  have "rkm_len (rd_kafka_msg_new00 addr part f payload l key kl) = l" "rkm_addr (rd_kafka_msg_new00 addr part f payload l key kl) = addr"
    "rkm_key_len (rd_kafka_msg_new00 addr part f payload l key kl) = kl" for f
    by (simp_all add: rd_kafka_msg_new00_def Let_def kl_def)
  moreover have "flag_set (rkm_flags (rd_kafka_msg_new00 addr part (msgflags OR MSG_F_ACCOUNT) payload l key kl)) MSG_F_ACCOUNT"
  proof -
    have "bit (rkm_flags (rd_kafka_msg_new00 addr part (msgflags OR MSG_F_ACCOUNT) payload l key kl) AND MSG_F_ACCOUNT) 17"
      by (simp add: rd_kafka_msg_new00_def Let_def bit_and_iff bit_or_iff bit_not_iff MSG_F_ACCOUNT_def MSG_F_FREE_def)
    then show ?thesis by (metis bit_0_eq bot_apply bot_bool_def)
  qed
  moreover have "\<not> word_of_int (max_msg_size rk) < l + kl \<Longrightarrow> unat l + unat kl \<le> nat (max_msg_size rk)"
    using lk max_msg_size_word [OF prod(2,3)] by (simp add: word_less_nat_alt)
  ultimately show ?thesis using cnt fits prod(1)
    by (auto simp: rd_kafka_msg_new0_def Let_def l_def [symmetric] kl_def [symmetric] rd_kafka_curr_msgs_add_def not_less)
qed


lemma clear_free:
  "flag_set f MSG_F_ACCOUNT \<Longrightarrow> flag_set (f AND NOT MSG_F_FREE) MSG_F_ACCOUNT \<and> \<not> flag_set (f AND NOT MSG_F_FREE) MSG_F_FREE"
proof -
  assume a: "flag_set f MSG_F_ACCOUNT"
  have disj: "MSG_F_ACCOUNT AND MSG_F_FREE = 0" by (simp add: MSG_F_FREE_def MSG_F_ACCOUNT_def)
  have "(f AND NOT MSG_F_FREE) AND MSG_F_ACCOUNT = f AND MSG_F_ACCOUNT"
    using disj by (intro bit_word_eqI) (metis bit_and_iff bit_not_iff bit_0_eq bot_apply bot_bool_def impossible_bit)
  moreover have "(f AND NOT MSG_F_FREE) AND MSG_F_FREE = 0" by (rule bit_word_eqI) (auto simp: bit_and_iff bit_not_iff)
  ultimately show ?thesis using a by simp
qed

lemma producer_ok_add:
  assumes "producer_ok rk rkt" and "topic_ok rkt'" and "mset (all_msgs rkt') = add_mset m' (mset (all_msgs rkt))"
    and "unat c = unat (curr_cnt rk) + 1" and "c \<le> max_cnt rk"
    and "unat s = unat (curr_size rk) + unat (rkm_len m')" and "s \<le> max_size rk"
    and "flag_set (rkm_flags m') MSG_F_ACCOUNT" and "unat (rkm_len m') + unat (rkm_key_len m') \<le> nat (max_msg_size rk)"
  shows "producer_ok (rk\<lparr>curr_cnt := c, curr_size := s\<rparr>) rkt'"
proof -
  have "length (all_msgs rkt') = Suc (length (all_msgs rkt))" using arg_cong [OF assms(3), of size] by simp
  moreover have "set (all_msgs rkt') = insert m' (set (all_msgs rkt))" using arg_cong [OF assms(3), of set_mset] by simp
  ultimately show ?thesis using assms by (simp add: producer_ok_def)
qed

text \<open>Facts about a message the producer accounts for.\<close>

lemma destroy_ok:
  assumes "flag_set (rkm_flags m) MSG_F_ACCOUNT" and "rk_type rk = RD_KAFKA_PRODUCER" and "1 \<le> curr_cnt rk" and "rkm_len m \<le> curr_size rk"
  shows "\<exists>freed. rd_kafka_msg_destroy rk m = Inr (rk\<lparr>curr_cnt := curr_cnt rk - 1, curr_size := curr_size rk - rkm_len m\<rparr>, freed) \<and>
    (\<not> flag_set (rkm_flags m) MSG_F_FREE \<longrightarrow> freed = None)"
  using assms by (simp add: rd_kafka_msg_destroy_def rd_kafka_curr_msgs_sub_def)

section \<open>Properties\<close>

text \<open>
  C26: producing. A call of \<open>produce\<close> never faults. It either takes the message, which is then in
  exactly one queue of the topic, or it returns an error and leaves every queue and the counters as
  they were, without freeing the payload of the caller; it blocks only if asked to. The counters
  are at all times the number and the size of the messages queued, and within their limits.
\<close>

theorem produce_accounts_for_messages:
  assumes "producer_ok rk rkt" and "in_range_partitioner f (env_rand env)"
    and "env_addr env \<notin> rkm_addr ` set (all_msgs rkt)" and "unat len + unat keylen < 2 ^ 63"
  shows "(rd_kafka_msg_new f env rk rkt part msgflags payload len key keylen = Inr Blocks \<and> flag_set msgflags MSG_F_BLOCK) \<or>
    (\<exists>err. rd_kafka_msg_new f env rk rkt part msgflags payload len key keylen = Inr (Returned rk rkt None err) \<and> err \<noteq> NO_ERROR) \<or>
    (\<exists>rk' rkt' m. rd_kafka_msg_new f env rk rkt part msgflags payload len key keylen = Inr (Returned rk' rkt' None NO_ERROR) \<and>
      producer_ok rk' rkt' \<and> mset (all_msgs rkt') = add_mset m (mset (all_msgs rkt)) \<and> rkm_addr m = env_addr env)"
proof -
  let ?new0 = "rd_kafka_msg_new0 rk rkt (env_addr env) part msgflags payload len key keylen 0 0 (env_uclock env) (env_clock env)"
  have fit: "payload \<noteq> None \<Longrightarrow> unat len + unat keylen < 2 ^ 63" "unat keylen < 2 ^ 63" using assms(4) by linarith+
  note new0 = msg_new0_ok [OF assms(1) fit, of payload "env_addr env" msgflags part key 0 "env_uclock env" "env_clock env"]
  have topic: "topic_ok rkt" using assms(1) by (simp add: producer_ok_def)
  show ?thesis
  proof (cases ?new0)
    case (New rk1 m)
    then have n: "unat (curr_cnt rk1) = unat (curr_cnt rk) + 1" "curr_cnt rk1 \<le> max_cnt rk"
      "unat (curr_size rk1) = unat (curr_size rk) + unat (rkm_len m)" "curr_size rk1 \<le> max_size rk"
      "rk1 = rk\<lparr>curr_cnt := curr_cnt rk1, curr_size := curr_size rk1\<rparr>" "curr_cnt rk1 = curr_cnt rk + 1"
      "curr_size rk1 = curr_size rk + rkm_len m"
      "rkm_addr m = env_addr env" "flag_set (rkm_flags m) MSG_F_ACCOUNT" "unat (rkm_len m) + unat (rkm_key_len m) \<le> nat (max_msg_size rk)"
      using new0 unfolding New new_outcome.case by blast+
    have fresh: "rkm_addr m \<notin> rkm_addr ` set (all_msgs rkt)" using assms(3) n(8) by simp
    from partitioner_ok [OF topic fresh assms(2)] show ?thesis
    proof (elim disjE exE conjE)
      fix err
      assume err: "rd_kafka_msg_partitioner f (env_rand env) rkt m = Inr (Inl err)" "err \<in> {UNKNOWN_TOPIC, UNKNOWN_PARTITION}"
      let ?m = "m\<lparr>rkm_flags := rkm_flags m AND NOT MSG_F_FREE\<rparr>"
      have "1 \<le> curr_cnt rk1" "rkm_len m \<le> curr_size rk1" using n(1,3) by (simp_all add: word_le_nat_alt)
      moreover have "rk_type rk1 = RD_KAFKA_PRODUCER" using assms(1) n(5) by (metis producer_ok_def rd_kafka.select_convs(1) rd_kafka.surjective rd_kafka.update_convs(2,3))
      ultimately have "rd_kafka_msg_destroy rk1 ?m = Inr (rk1\<lparr>curr_cnt := curr_cnt rk1 - 1, curr_size := curr_size rk1 - rkm_len m\<rparr>, None)"
        using destroy_ok [of ?m rk1] clear_free [OF n(9)] by auto
      moreover have "rk1\<lparr>curr_cnt := curr_cnt rk1 - 1, curr_size := curr_size rk1 - rkm_len m\<rparr> = rk"
        by (subst n(5)) (simp add: n(6,7))
      ultimately show ?thesis using New err by (auto simp: rd_kafka_msg_new_def)
    next
      fix rkt' m'
      assume p: "rd_kafka_msg_partitioner f (env_rand env) rkt m = Inr (Inr rkt')" "topic_ok rkt'" "same_content m m'"
        "mset (all_msgs rkt') = add_mset m' (mset (all_msgs rkt))"
      have "producer_ok rk1 rkt'"
        using producer_ok_add [OF assms(1) p(2,4), of "curr_cnt rk1" "curr_size rk1"] n same_content_fields [OF p(3)] by simp
      then show ?thesis using New p n(8) same_content_fields [OF p(3)] by (auto simp: rd_kafka_msg_new_def)
    qed
  next
    case (New_Failed err)
    then show ?thesis using new0 by (auto simp: rd_kafka_msg_new_def)
  next
    case New_Waits
    then show ?thesis using new0 by (auto simp: rd_kafka_msg_new_def)
  qed
qed

definition sample_topic :: rd_kafka_itopic where
  "sample_topic = \<lparr>rkt_state = TOPIC_S_EXISTS,
     rkt_p = [\<lparr>rktp_partition = 0, rktp_msgq = rd_kafka_msgq_init, rktp_msgseq = 0, rktp_leader = True, rktp_enq_msgs = 0\<rparr>],
     rkt_partition_cnt = 1,
     rkt_ua = Some \<lparr>rktp_partition = PARTITION_UA, rktp_msgq = rd_kafka_msgq_init, rktp_msgseq = 0, rktp_leader = False, rktp_enq_msgs = 0\<rparr>,
     rkt_queuing_strategy = QUEUE_FIFO, rkt_msg_order_cmp = rd_kafka_msg_cmp_msgseq, rkt_message_timeout_ms = 300000\<rparr>"

definition sample_rk :: rd_kafka where
  "sample_rk = \<lparr>rk_type = RD_KAFKA_PRODUCER, curr_cnt = 0, curr_size = 0, max_cnt = 100, max_size = 1000, max_msg_size = 500\<rparr>"

definition sample_env :: call_env where
  "sample_env = \<lparr>env_addr = 1, env_uclock = 5000, env_clock = 7, env_rand = (\<lambda>_. 3)\<rparr>"

lemma sample_ok: "producer_ok sample_rk sample_topic" "in_range_partitioner rd_kafka_msg_partitioner_consistent (\<lambda>_. 3)" "all_msgs sample_topic = []"
proof -
  show "in_range_partitioner rd_kafka_msg_partitioner_consistent (\<lambda>_. 3)"
    using builtin_partitioner_range [of rd_kafka_msg_partitioner_consistent] unfolding in_range_partitioner_def by (simp add: builtin_partitioners_def)
  show "all_msgs sample_topic = []" by (simp add: all_msgs_def sample_topic_def toppar_msgs_def rd_kafka_msgq_init_def)
  then show "producer_ok sample_rk sample_topic"
    by (simp add: producer_ok_def sample_rk_def) (simp add: topic_ok_def sample_topic_def)
qed

theorem produce_accounts_for_messages_witness:
  "\<exists>r. rd_kafka_msg_new rd_kafka_msg_partitioner_consistent sample_env sample_rk sample_topic PARTITION_UA 0
     (Some (9, [1, 2, 3])) 3 (Some [65]) 1 = Inr r \<and> r \<noteq> Blocks"
  using produce_accounts_for_messages [of sample_rk sample_topic rd_kafka_msg_partitioner_consistent sample_env 3 1 PARTITION_UA 0 "Some (9, [1, 2, 3])" "Some [65]"]
    sample_ok by (auto simp: sample_env_def)

text \<open>The messages queued fit the counters of a queue.\<close>

lemma msg_bytes_nat:
  "unat (rkm_len m) + unat (rkm_key_len m) < 2 ^ 31 \<Longrightarrow> unat (msg_bytes m) = unat (rkm_len m) + unat (rkm_key_len m)"
  unfolding msg_bytes_def by (intro iffD1 [OF unat_add_lem]) simp

lemma producer_msgs_fit:
  assumes "producer_ok rk rkt" and "mset ms \<subseteq># mset (all_msgs rkt)"
  shows "msgs_fit ms"
proof -
  have le: "unat (msg_bytes m) \<le> 2 ^ 31" if "m \<in> set ms" for m
  proof -
    have "m \<in> set (all_msgs rkt)" using that mset_subset_eqD [OF assms(2), of m] by simp
    then have "unat (rkm_len m) + unat (rkm_key_len m) \<le> nat (max_msg_size rk)" "max_msg_size rk < 2 ^ 31"
      using assms(1) by (auto simp: producer_ok_def)
    then have "unat (rkm_len m) + unat (rkm_key_len m) < 2 ^ 31" by (simp add: nat_less_iff le_less_trans)
    with msg_bytes_nat [OF this] show ?thesis by simp
  qed
  have "length ms \<le> length (all_msgs rkt)" using size_mset_mono [OF assms(2)] by simp
  also have "\<dots> = unat (curr_cnt rk)" "curr_cnt rk \<le> max_cnt rk" "max_cnt rk < 2 ^ 31" using assms(1) by (simp_all add: producer_ok_def)
  then have "length (all_msgs rkt) < 2 ^ 31" by (auto simp: word_le_nat_alt word_less_nat_alt)
  finally have len: "length ms < 2 ^ 31" .
  have "sum_list (map (\<lambda>m. unat (msg_bytes m)) ms) \<le> sum_list (map (\<lambda>m. 2 ^ 31) ms)" by (rule sum_list_mono) (rule le)
  also have "\<dots> = length ms * 2 ^ 31" by (simp add: sum_list_triv)
  also have "\<dots> < 2 ^ 63" using len by simp
  finally show ?thesis using len by (simp add: msgs_fit_def)
qed

lemma producer_ok_remove:
  assumes "producer_ok rk rkt" and "topic_ok rkt'" and "add_mset m (mset (all_msgs rkt')) = mset (all_msgs rkt)"
  shows "1 \<le> curr_cnt rk" and "rkm_len m \<le> curr_size rk" and "flag_set (rkm_flags m) MSG_F_ACCOUNT"
    and "producer_ok (rk\<lparr>curr_cnt := curr_cnt rk - 1, curr_size := curr_size rk - rkm_len m\<rparr>) rkt'"
proof -
  note ok = assms(1) [unfolded producer_ok_def]
  have n: "unat (curr_cnt rk) = Suc (length (all_msgs rkt'))"
    using ok arg_cong [OF assms(3), of size] by simp
  have s: "unat (curr_size rk) = unat (rkm_len m) + (\<Sum>m \<in># mset (all_msgs rkt'). unat (rkm_len m))"
    using ok unfolding assms(3) [symmetric] by simp
  have sub: "set (all_msgs rkt) = insert m (set (all_msgs rkt'))"
    using arg_cong [OF assms(3), of set_mset] by simp
  show c1: "1 \<le> curr_cnt rk" and s1: "rkm_len m \<le> curr_size rk" using n s by (simp_all add: word_le_nat_alt)
  show "flag_set (rkm_flags m) MSG_F_ACCOUNT" using ok sub by simp
  have c: "unat (curr_cnt rk - 1) = length (all_msgs rkt')" using n unat_sub [OF c1] by simp
  have z: "unat (curr_size rk - rkm_len m) = (\<Sum>m \<in># mset (all_msgs rkt'). unat (rkm_len m))" using s unat_sub [OF s1] by simp
  have "unat (curr_cnt rk - 1) \<le> unat (max_cnt rk)" "unat (curr_size rk - rkm_len m) \<le> unat (max_size rk)"
    using c z n s ok by (simp_all add: word_le_nat_alt)
  then have "curr_cnt rk - 1 \<le> max_cnt rk" "curr_size rk - rkm_len m \<le> max_size rk" unfolding word_le_nat_alt .
  then show "producer_ok (rk\<lparr>curr_cnt := curr_cnt rk - 1, curr_size := curr_size rk - rkm_len m\<rparr>) rkt'"
    using ok assms(2) c z sub by (simp add: producer_ok_def)
qed

lemma toppar_msgs_subset:
  assumes "toppar_at rkt ref = Inr rktp"
  shows "mset (toppar_msgs rktp) \<subseteq># mset (all_msgs rkt)"
proof (cases ref)
  case (Part i)
  then have "i < length (rkt_p rkt)" "rktp = rkt_p rkt ! i" using assms by (auto simp: toppar_at_def split: if_splits)
  then have "rktp \<in> set (rkt_p rkt)" by simp
  then obtain xs ys where "rkt_p rkt = xs @ rktp # ys" by (meson split_list)
  then show ?thesis by (simp add: all_msgs_def)
next
  case Ua
  then show ?thesis using assms by (auto simp: toppar_at_def all_msgs_def split: option.splits)
qed

lemma new0_partition:
  "rd_kafka_msg_new0 rk rkt addr part flags payload len key keylen hs ts uclock now = New rk' m \<Longrightarrow> rkm_partition m = part"
proof -
  have "rkm_partition (rd_kafka_msg_new00 a part f p l k n) = part" for a f p l k n by (simp add: rd_kafka_msg_new00_def Let_def)
  then show "rd_kafka_msg_new0 rk rkt addr part flags payload len key keylen hs ts uclock now = New rk' m \<Longrightarrow> rkm_partition m = part"
    unfolding rd_kafka_msg_new0_def Let_def by (auto split: if_split_asm add_outcome.splits simp del: word_not_simps)
qed

lemma flag_set_or: "flag_set (f :: 32 word) g \<Longrightarrow> flag_set (f OR h) g"
proof -
  have "(f OR h) AND g = (f AND g) OR (h AND g)" by (rule bit_word_eqI) (auto simp: bit_and_iff bit_or_iff)
  then show "flag_set f g \<Longrightarrow> flag_set (f OR h) g" by (metis or_eq_0_iff)
qed

text \<open>
  C27: a message that is in the queue of a partition can be taken off it and destroyed: no assertion
  on the counters of the queue or of the producer fails, the message leaves the topic, the counters
  stay exact, and the payload is freed if the application gave it away and only then.
\<close>

theorem dequeue_and_destroy_keeps_accounts:
  assumes "producer_ok rk rkt" and "toppar_at rkt ref = Inr rktp" and "m \<in> set (toppar_msgs rktp)"
  shows "\<exists>rk' rkt' freed. rd_kafka_toppar_deq_msg rkt ref m = Inr rkt' \<and> rd_kafka_msg_destroy rk m = Inr (rk', freed) \<and>
    producer_ok rk' rkt' \<and> add_mset m (mset (all_msgs rkt')) = mset (all_msgs rkt) \<and>
    freed = (if flag_set (rkm_flags m) MSG_F_FREE then rkm_payload m else None)"
proof -
  have topic: "topic_ok rkt" and producer: "rk_type rk = RD_KAFKA_PRODUCER" using assms(1) by (simp_all add: producer_ok_def)
  have q: "msgq_ok (rktp_msgq rktp)" using topic assms(2) by (cases ref) (auto simp: topic_ok_def toppar_at_def split: if_splits)
  obtain xs ys where split: "rkmq_msgs (rktp_msgq rktp) = xs @ m # ys" using split_list [OF assms(3)] by (auto simp: toppar_msgs_def)
  have "msgs_fit (rkmq_msgs (rktp_msgq rktp))"
    using producer_msgs_fit [OF assms(1) toppar_msgs_subset [OF assms(2)]] by (simp add: toppar_msgs_def)
  from rd_kafka_msgq_deq_ok [OF q split this] obtain q' where
    q': "rd_kafka_msgq_deq (rktp_msgq rktp) m True = Inr q'" "msgq_ok q'" "rkmq_msgs q' = xs @ ys" by blast
  let ?rkt = "toppar_put rkt ref (rktp\<lparr>rktp_msgq := q'\<rparr>)"
  note put = toppar_put_ok [OF topic assms(2), of "rktp\<lparr>rktp_msgq := q'\<rparr>"]
  have ok: "topic_ok ?rkt" using put(1) q'(2) by simp
  have ms: "add_mset m (mset (all_msgs ?rkt)) = mset (all_msgs rkt)"
    using put(2) q'(2,3) split by (simp add: toppar_msgs_def)
  note r = producer_ok_remove [OF assms(1) ok ms]
  have "rd_kafka_toppar_deq_msg rkt ref m = Inr ?rkt" using assms(2) q'(1) by (simp add: rd_kafka_toppar_deq_msg_def)
  moreover have "rd_kafka_msg_destroy rk m = Inr (rk\<lparr>curr_cnt := curr_cnt rk - 1, curr_size := curr_size rk - rkm_len m\<rparr>,
      if flag_set (rkm_flags m) MSG_F_FREE then rkm_payload m else None)"
    using r(1-3) producer by (simp add: rd_kafka_msg_destroy_def rd_kafka_curr_msgs_sub_def)
  ultimately show ?thesis using r(4) ms by blast
qed

text \<open>
  C29: producing a batch to explicitly numbered partitions is not safe. With the topic known, the
  first message of the batch that names a partition the topic does not have makes the code use a
  null partition, whatever the other messages are.
\<close>

theorem produce_batch_unknown_partition_faults:
  assumes "rkt_state rkt = TOPIC_S_EXISTS" and "0 < rkt_partition_cnt rkt" and "rkt_partition_cnt rkt \<le> msg_partition m"
    and "flag_set msgflags MSG_F_PARTITION"
    and "rd_kafka_msg_new0 rk rkt (env_addr env) (msg_partition m) (msgflags OR MSG_F_RKT_RDLOCKED) (msg_payload m) (msg_len m)
       (msg_key m) (msg_key_len m) 0 (env_uclock env div 1000) (env_uclock env) (env_clock env) = New rk' rkm"
  shows "rd_kafka_produce_batch f rk rkt part msgflags ((env, m) # ms) = Inl Null_Deref"
proof -
  have flag: "flag_set (msgflags OR MSG_F_RKT_RDLOCKED) MSG_F_PARTITION" using flag_set_or [OF assms(4)] .
  have p: "rkm_partition rkm = msg_partition m" using new0_partition [OF assms(5)] .
  then have "rd_kafka_toppar_get_avail rkt (rkm_partition rkm) = Inl UNKNOWN_PARTITION"
    using assms(1-3) by (simp add: rd_kafka_toppar_get_avail_def)
  moreover have "rkm_partition rkm \<noteq> PARTITION_UA" using assms(2,3) p by (simp add: PARTITION_UA_def)
  ultimately show ?thesis
    using assms(5) unfolding rd_kafka_produce_batch_def Let_def
    by (simp only: assms(4) flag if_True batch_loop.simps batch_message_def simp_thms batch.simps new_outcome.case)
       (simp add: batch_to_partition_def)
qed

theorem produce_batch_unknown_partition_faults_witness:
  "rd_kafka_produce_batch rd_kafka_msg_partitioner_consistent sample_rk sample_topic 0 MSG_F_PARTITION
     [(sample_env, \<lparr>msg_payload = Some (9, [1, 2, 3]), msg_len = 3, msg_key = None, msg_key_len = 0, msg_partition = 7\<rparr>)] = Inl Null_Deref"
  by (rule produce_batch_unknown_partition_faults)
     (simp_all add: sample_topic_def sample_rk_def sample_env_def MSG_F_PARTITION_def rd_kafka_msg_new0_def
       rd_kafka_curr_msgs_add_def MSG_F_BLOCK_def MSG_F_RKT_RDLOCKED_def)

definition queued_msg :: rd_kafka_msg where
  "queued_msg = rd_kafka_msg_new00 1 0 MSG_F_ACCOUNT (Some (9, [1, 2, 3])) 3 None 0"

definition queued_rktp :: rd_kafka_toppar where
  "queued_rktp = \<lparr>rktp_partition = 0, rktp_msgq = fst (rd_kafka_msgq_enq rd_kafka_msgq_init queued_msg),
     rktp_msgseq = 1, rktp_leader = True, rktp_enq_msgs = 1\<rparr>"

theorem dequeue_and_destroy_keeps_accounts_witness:
  "\<exists>rk' rkt'. rd_kafka_toppar_deq_msg (sample_topic\<lparr>rkt_p := [queued_rktp]\<rparr>) (Part 0) queued_msg = Inr rkt' \<and>
     rd_kafka_msg_destroy (sample_rk\<lparr>curr_cnt := 1, curr_size := 3\<rparr>) queued_msg = Inr (rk', None) \<and> all_msgs rkt' = []"
proof -
  let ?rkt = "sample_topic\<lparr>rkt_p := [queued_rktp]\<rparr>" and ?rk = "sample_rk\<lparr>curr_cnt := 1, curr_size := 3\<rparr>"
  have m: "rkm_len queued_msg = 3" "rkm_key_len queued_msg = 0" "flag_set (rkm_flags queued_msg) MSG_F_ACCOUNT"
    "\<not> flag_set (rkm_flags queued_msg) MSG_F_FREE"
    by (simp_all add: queued_msg_def rd_kafka_msg_new00_def Let_def MSG_F_ACCOUNT_def MSG_F_FREE_def MSG_F_COPY_def
        MSG_F_PRODUCER_def MSG_F_FREE_RKM_def)
  have msgs: "toppar_msgs queued_rktp = [queued_msg]"
    by (simp add: toppar_msgs_def queued_rktp_def rd_kafka_msgq_enq_def rd_kafka_msgq_init_def)
  have all: "all_msgs ?rkt = [queued_msg]" by (simp add: all_msgs_def msgs) (simp add: sample_topic_def toppar_msgs_def rd_kafka_msgq_init_def)
  have "msgq_ok (rktp_msgq queued_rktp)"
    using rd_kafka_msgq_enq_ok(1) [OF msgq_ok_init, of queued_msg] by (simp add: queued_rktp_def) (simp add: rd_kafka_msgq_init_def)
  then have "topic_ok ?rkt" by (simp add: topic_ok_def) (simp add: sample_topic_def queued_rktp_def)
  then have ok: "producer_ok ?rk ?rkt" unfolding producer_ok_def all using m by (simp add: sample_rk_def)
  have "toppar_at ?rkt (Part 0) = Inr queued_rktp" by (simp add: toppar_at_def)
  from dequeue_and_destroy_keeps_accounts [OF ok this, of queued_msg] show ?thesis using m all by (auto simp: msgs)
qed

text \<open>
  C28: for a number of partitions and a key there is one partition to which every message with that key
  goes, with the \<open>consistent\<close> and the \<open>murmur2\<close> partitioner, and with their random variants when the key is
  not empty. This holds in any two states of topics with that number of partitions, whatever their
  queues and counters are, which leaders are known and which random numbers are drawn. The message is put
  into the queue of that partition, and no other queue changes.
\<close>

theorem same_key_same_partition:
  assumes "0 < n" and "n < 2 ^ 31"
    and "f \<in> {rd_kafka_msg_partitioner_consistent, rd_kafka_msg_partitioner_murmur2} \<or>
         f \<in> {rd_kafka_msg_partitioner_consistent_random, rd_kafka_msg_partitioner_murmur2_random} \<and> key_data key \<noteq> []"
  shows "\<exists>p. 0 \<le> p \<and> p < n \<and>
    (\<forall>rkt rand m. topic_ok rkt \<and> rkt_state rkt = TOPIC_S_EXISTS \<and> rkt_partition_cnt rkt = n \<and>
        rkm_key m = key \<and> rkm_partition m = PARTITION_UA \<and> rkm_addr m \<notin> rkm_addr ` set (all_msgs rkt) \<longrightarrow>
      (\<exists>rkt' m'. rd_kafka_msg_partitioner f rand rkt m = Inr (Inr rkt') \<and> topic_ok rkt' \<and> same_content m m' \<and>
        rkm_partition m' = p \<and>
        mset (toppar_msgs (rkt_p rkt' ! nat p)) = add_mset m' (mset (toppar_msgs (rkt_p rkt ! nat p))) \<and>
        (\<forall>i. i \<noteq> nat p \<longrightarrow> rkt_p rkt' ! i = rkt_p rkt ! i) \<and> rkt_ua rkt' = rkt_ua rkt))"
proof -
  obtain p where p: "0 \<le> p" "p < n" and f: "f rkt key n rand = Inr p" for rkt rand
  proof -
    obtain c m where "umod (rd_crc32 (key_data key)) n = Inr c" "0 \<le> c" "c < n"
        "umod (rd_murmur2 0 (key_data key) AND 0x7fffffff) n = Inr m" "0 \<le> m" "m < n"
      using umod_range [OF assms(1,2)] by meson
    moreover have "key_data key \<noteq> [] \<Longrightarrow> key \<noteq> None" by (cases key) (simp_all add: key_data_def)
    ultimately show thesis using assms(3) that [of c] that [of m]
      by (auto simp: rd_kafka_msg_partitioner_consistent_def rd_kafka_msg_partitioner_murmur2_def
          rd_kafka_msg_partitioner_consistent_random_def rd_kafka_msg_partitioner_murmur2_random_def)
  qed
  have "\<exists>rkt' m'. rd_kafka_msg_partitioner f rand rkt m = Inr (Inr rkt') \<and> topic_ok rkt' \<and> same_content m m' \<and>
      rkm_partition m' = p \<and>
      mset (toppar_msgs (rkt_p rkt' ! nat p)) = add_mset m' (mset (toppar_msgs (rkt_p rkt ! nat p))) \<and>
      (\<forall>i. i \<noteq> nat p \<longrightarrow> rkt_p rkt' ! i = rkt_p rkt ! i) \<and> rkt_ua rkt' = rkt_ua rkt"
    if ok: "topic_ok rkt" and t: "rkt_state rkt = TOPIC_S_EXISTS" "rkt_partition_cnt rkt = n"
      and m: "rkm_key m = key" "rkm_partition m = PARTITION_UA" "rkm_addr m \<notin> rkm_addr ` set (all_msgs rkt)" for rkt rand m
  proof -
    have get: "rd_kafka_toppar_get rkt p False = Some (Part (nat p))" using p t(2) by (simp add: rd_kafka_toppar_get_def)
    then obtain rktp where rktp: "toppar_at rkt (Part (nat p)) = Inr rktp" using toppar_at_ok [OF ok] by blast
    then have len: "nat p < length (rkt_p rkt)" "rkt_p rkt ! nat p = rktp" by (auto simp: toppar_at_def split: if_splits)
    from place_ok [OF ok m(3) get rktp] obtain rkt' m' rktp' where e:
      "rd_kafka_toppar_enq_msg (toppar_put rkt (Part (nat p)) (rktp\<lparr>rktp_enq_msgs := rktp_enq_msgs rktp + 1\<rparr>)) (Part (nat p))
        (m\<lparr>rkm_partition := p\<rparr>) = Inr rkt'" "topic_ok rkt'" "same_content m m'" "rkm_partition m' = p"
      "rkt' = toppar_put rkt (Part (nat p)) rktp'" "mset (toppar_msgs rktp') = add_mset m' (mset (toppar_msgs rktp))"
      using m(2) by auto
    have "rd_kafka_msg_partitioner f rand rkt m = Inr (Inr rkt')"
      using t assms(1) m(1,2) f [of rkt rand] get rktp p(2) e(1) by (simp add: rd_kafka_msg_partitioner_def Let_def)
    then show ?thesis using e len by (auto simp: toppar_put_def)
  qed
  then show ?thesis using p by blast
qed

theorem same_key_same_partition_witness:
  "\<exists>rkt' m'. rd_kafka_msg_partitioner rd_kafka_msg_partitioner_murmur2_random (\<lambda>_. 5) sample_topic
      (rd_kafka_msg_new00 4 PARTITION_UA 0 None 0 (Some [65, 66]) 2) = Inr (Inr rkt') \<and> rkm_partition m' = 0 \<and>
    mset (toppar_msgs (rkt_p rkt' ! 0)) = {#m'#}"
proof -
  let ?m = "rd_kafka_msg_new00 4 PARTITION_UA 0 None 0 (Some [65, 66]) 2"
  have m: "rkm_key ?m = Some [65, 66]" "rkm_partition ?m = PARTITION_UA" by (simp_all add: rd_kafka_msg_new00_def)
  have t: "topic_ok sample_topic" "rkt_state sample_topic = TOPIC_S_EXISTS" "rkt_partition_cnt sample_topic = 1"
      "toppar_msgs (rkt_p sample_topic ! 0) = []"
    using sample_ok(1) by (simp_all add: producer_ok_def) (simp_all add: sample_topic_def toppar_msgs_def rd_kafka_msgq_init_def)
  have k: "key_data (Some [65, 66]) \<noteq> []" by (simp add: key_data_def)
  obtain p :: int where p: "0 \<le> p \<and> p < 1 \<and>
    (\<forall>rkt rand m. topic_ok rkt \<and> rkt_state rkt = TOPIC_S_EXISTS \<and> rkt_partition_cnt rkt = 1 \<and>
        rkm_key m = Some [65, 66] \<and> rkm_partition m = PARTITION_UA \<and> rkm_addr m \<notin> rkm_addr ` set (all_msgs rkt) \<longrightarrow>
      (\<exists>rkt' m'. rd_kafka_msg_partitioner rd_kafka_msg_partitioner_murmur2_random rand rkt m = Inr (Inr rkt') \<and> topic_ok rkt' \<and>
        same_content m m' \<and> rkm_partition m' = p \<and>
        mset (toppar_msgs (rkt_p rkt' ! nat p)) = add_mset m' (mset (toppar_msgs (rkt_p rkt ! nat p))) \<and>
        (\<forall>i. i \<noteq> nat p \<longrightarrow> rkt_p rkt' ! i = rkt_p rkt ! i) \<and> rkt_ua rkt' = rkt_ua rkt))"
    using same_key_same_partition [of 1 rd_kafka_msg_partitioner_murmur2_random "Some [65, 66]"] k by auto
  then have "p = 0" by linarith
  with p [THEN conjunct2, THEN conjunct2, rule_format, of sample_topic ?m "\<lambda>_. 5"] t m sample_ok(3) show ?thesis by auto
qed

end
