(* ===== verification/Rdbuf.thy ===== *)
theory Rdbuf
  imports Olog_Prelude
begin

unbundle bit_operations_syntax

text \<open>
  The segmented write buffers of librdkafka (\<open>rdbuf.c\<close>, \<open>rdbuf.h\<close>). A buffer is a list of
  segments, each with its own memory; a pointer to a segment is its position in the list. The
  bytes of a segment are \<open>None\<close> as long as nothing was stored there. The lemmas show that a
  buffer behaves as one array of bytes: writing appends to it, updating overwrites a part of it,
  seeking shortens it, and destroying it frees every block that was allocated for it once.
\<close>

section \<open>Sizes and memory\<close>

text \<open>
  \<open>size_t\<close> differences wrap around. Sums of sizes of memory that was allocated do not, since
  they are bounded by the size of the address space.
\<close>

definition usub :: "nat \<Rightarrow> nat \<Rightarrow> nat" where
  "usub a b = (if b \<le> a then a - b else a + 2 ^ 64 - b)"

definition RD_ROUNDUP :: "nat \<Rightarrow> nat \<Rightarrow> nat" where
  "RD_ROUNDUP x stride = (x + (stride - 1)) div stride * stride"

text \<open>The memory a pointer can point into: the extra memory of the buffer, a block of the heap, memory of the caller.\<close>

datatype block = Extra nat | Heap nat | Caller nat

type_synonym pointer = "block \<times> nat"

type_synonym cell = "byte option"

datatype free_fun = Rd_Free | Callback nat

definition patch :: "'a list \<Rightarrow> nat \<Rightarrow> 'a list \<Rightarrow> 'a list" where
  "patch xs i ys = take i xs @ ys @ drop (i + length ys) xs"

definition memcpy :: "cell list \<Rightarrow> nat \<Rightarrow> cell list \<Rightarrow> nat \<Rightarrow> cell list res" where
  "memcpy mem i src n =
     bindR (check Out_Of_Bounds (n \<le> length src)) (\<lambda>_.
     bindR (check Buffer_Overflow (i + n \<le> length mem)) (\<lambda>_.
     Inr (patch mem i (take n src))))"

section \<open>Segments and buffers\<close>

record rd_segment =
  seg_addr :: block                 \<comment> \<open>where the structure itself lives\<close>
  seg_p :: "pointer option"
  seg_mem :: "cell list"            \<comment> \<open>the memory at \<open>seg_p\<close>\<close>
  seg_of :: nat
  seg_size :: nat
  seg_absof :: nat
  seg_free :: "free_fun option"
  seg_flags :: "32 word"

definition RD_SEGMENT_F_RDONLY :: "32 word" where "RD_SEGMENT_F_RDONLY = 0x1"
definition RD_SEGMENT_F_FREE :: "32 word" where "RD_SEGMENT_F_FREE = 0x2"

definition sizeof_segment :: nat where
  "sizeof_segment = 64"

text \<open>\<open>rbuf_mallocs\<close> counts the blocks \<open>malloc\<close> has returned so far; the next one is new.\<close>

record rd_buf =
  rbuf_segments :: "rd_segment list"
  rbuf_segment_cnt :: nat
  rbuf_wpos :: "nat option"
  rbuf_len :: nat
  rbuf_size :: nat
  rbuf_extra :: "block option"
  rbuf_extra_len :: nat
  rbuf_extra_size :: nat
  rbuf_mallocs :: nat

definition seg_at :: "rd_buf \<Rightarrow> nat \<Rightarrow> rd_segment res" where
  "seg_at rbuf i = (if i < length (rbuf_segments rbuf) then Inr (rbuf_segments rbuf ! i) else Inl Use_After_Free)"

definition seg_put :: "rd_buf \<Rightarrow> nat \<Rightarrow> rd_segment \<Rightarrow> rd_buf" where
  "seg_put rbuf i seg = rbuf\<lparr>rbuf_segments := (rbuf_segments rbuf)[i := seg]\<rparr>"

definition rd_buf_write_pos :: "rd_buf \<Rightarrow> nat res" where
  "rd_buf_write_pos rbuf =
     (case rbuf_wpos rbuf of
        None \<Rightarrow> Inr 0
      | Some i \<Rightarrow> bindR (seg_at rbuf i) (\<lambda>seg. Inr (seg_absof seg + seg_of seg)))"

definition rd_buf_write_remains :: "rd_buf \<Rightarrow> nat" where
  "rd_buf_write_remains rbuf = usub (rbuf_size rbuf) (rbuf_len rbuf)"

definition rd_segment_write_remains :: "rd_segment \<Rightarrow> nat" where
  "rd_segment_write_remains seg =
     (if seg_flags seg AND RD_SEGMENT_F_RDONLY \<noteq> 0 then 0 else usub (seg_size seg) (seg_of seg))"

definition rd_buf_last :: "rd_buf \<Rightarrow> nat option" where
  "rd_buf_last rbuf = (if rbuf_segments rbuf = [] then None else Some (length (rbuf_segments rbuf) - 1))"

definition rd_buf_len :: "rd_buf \<Rightarrow> nat" where
  "rd_buf_len rbuf = rbuf_len rbuf"

section \<open>Destruction\<close>

text \<open>The calls that free memory, in order: of the function of a segment, of \<open>rd_free\<close> on a structure.\<close>

datatype freed = Free_Payload free_fun pointer | Free_Block block

definition rd_segment_destroy :: "rd_segment \<Rightarrow> freed list res" where
  "rd_segment_destroy seg =
     (let payload = (case (seg_free seg, seg_p seg) of (Some f, Some p) \<Rightarrow> [Free_Payload f p] | _ \<Rightarrow> [])
      in if seg_flags seg AND RD_SEGMENT_F_FREE \<noteq> 0 then
           case seg_addr seg of
             Heap n \<Rightarrow> Inr (payload @ [Free_Block (Heap n)])
           | _ \<Rightarrow> Inl Bad_Free
         else Inr payload)"

definition rd_segment_init :: "block \<Rightarrow> pointer option \<Rightarrow> nat \<Rightarrow> rd_segment" where
  "rd_segment_init addr mem sz =
     \<lparr>seg_addr = addr, seg_p = mem, seg_mem = replicate sz None, seg_of = 0, seg_size = sz, seg_absof = 0,
      seg_free = None, seg_flags = 0\<rparr>"

section \<open>The write position\<close>

text \<open>
  The loop from the write position on: the segments with the absolute offset of the one found
  corrected, the segment at which the loop ended, and the room in it.
\<close>

function writable_loop :: "rd_segment list \<Rightarrow> nat \<Rightarrow> nat \<Rightarrow> rd_segment list \<times> nat \<times> nat" where
  "writable_loop segs len i =
     (if i < length segs then
        (let seg = segs ! i; room = rd_segment_write_remains seg
         in if room = 0 then (if Suc i < length segs then writable_loop segs len (Suc i) else (segs, i, 0))
            else if seg_of seg = 0 \<and> seg_absof seg < len then (segs[i := seg\<lparr>seg_absof := len\<rparr>], i, room)
            else (segs, i, room))
      else (segs, i, 0))"
  by pat_completeness auto
termination
  by (relation "measure (\<lambda>(segs, len, i). length segs - i)") auto

declare writable_loop.simps [simp del]

text \<open>The buffer afterwards, the segment stored in \<open>*segp\<close> if any, and the number of contiguous bytes.\<close>

definition rd_buf_get_writable0 :: "rd_buf \<Rightarrow> rd_buf \<times> nat option \<times> nat" where
  "rd_buf_get_writable0 rbuf =
     (case rbuf_wpos rbuf of
        None \<Rightarrow> (rbuf, None, 0)
      | Some w \<Rightarrow>
          let (segs, i, room) = writable_loop (rbuf_segments rbuf) (rbuf_len rbuf) w
          in (rbuf\<lparr>rbuf_segments := segs, rbuf_wpos := Some i\<rparr>, Some i, room))"

definition rd_buf_get_writable :: "rd_buf \<Rightarrow> rd_buf \<times> nat" where
  "rd_buf_get_writable rbuf = (let (rbuf, segp, room) = rd_buf_get_writable0 rbuf in (rbuf, room))"

section \<open>Allocation\<close>

definition rd_buf_append_segment :: "rd_buf \<Rightarrow> rd_segment \<Rightarrow> rd_buf" where
  "rd_buf_append_segment rbuf seg =
     (let rbuf = rbuf\<lparr>rbuf_segments := rbuf_segments rbuf @ [seg\<lparr>seg_absof := rbuf_len rbuf\<rparr>],
                     rbuf_segment_cnt := rbuf_segment_cnt rbuf + 1,
                     rbuf_len := rbuf_len rbuf + seg_of seg,
                     rbuf_size := rbuf_size rbuf + seg_size seg\<rparr>
      in if rbuf_wpos rbuf = None then rbuf\<lparr>rbuf_wpos := Some (length (rbuf_segments rbuf) - 1)\<rparr>
         else fst (rd_buf_get_writable0 rbuf))"

definition extra_alloc :: "rd_buf \<Rightarrow> nat \<Rightarrow> rd_buf \<times> block option" where
  "extra_alloc rbuf sz =
     (let pos = RD_ROUNDUP (rbuf_extra_len rbuf) 8
      in if pos + sz > rbuf_extra_size rbuf then (rbuf, None)
         else (rbuf\<lparr>rbuf_extra_len := pos + sz\<rparr>, Some (Extra pos)))"

definition rd_buf_alloc_segment0 :: "rd_buf \<Rightarrow> nat \<Rightarrow> rd_buf \<times> rd_segment" where
  "rd_buf_alloc_segment0 rbuf sz =
     (case extra_alloc rbuf (sizeof_segment + sz) of
        (rbuf, Some a) \<Rightarrow> (rbuf, rd_segment_init a (if sz > 0 then Some (a, sizeof_segment) else None) sz)
      | (rbuf, None) \<Rightarrow>
        (case extra_alloc rbuf sizeof_segment of
           (rbuf, Some a) \<Rightarrow>
             if sz > 0 then (rbuf\<lparr>rbuf_mallocs := rbuf_mallocs rbuf + 1\<rparr>,
                             rd_segment_init a (Some (Heap (rbuf_mallocs rbuf), 0)) sz\<lparr>seg_free := Some Rd_Free\<rparr>)
             else (rbuf, rd_segment_init a None sz)
         | (rbuf, None) \<Rightarrow>
             let a = Heap (rbuf_mallocs rbuf)
             in (rbuf\<lparr>rbuf_mallocs := rbuf_mallocs rbuf + 1\<rparr>,
                 rd_segment_init a (if sz > 0 then Some (a, sizeof_segment) else None) sz\<lparr>seg_flags := RD_SEGMENT_F_FREE\<rparr>)))"

text \<open>The new segment is the last one.\<close>

definition rd_buf_alloc_segment :: "rd_buf \<Rightarrow> nat \<Rightarrow> nat \<Rightarrow> rd_buf" where
  "rd_buf_alloc_segment rbuf min_size max_size =
     (let max_size = (if min_size \<noteq> max_size \<or> max_size = 0
                      then max (sizeof_segment * 4) (max (min_size * 2) (rbuf_size rbuf div 2)) else max_size);
          (rbuf, seg) = rd_buf_alloc_segment0 rbuf max_size
      in rd_buf_append_segment rbuf seg)"

definition rd_buf_write_ensure_contig :: "rd_buf \<Rightarrow> nat \<Rightarrow> rd_buf res" where
  "rd_buf_write_ensure_contig rbuf sz =
     bindR (case rbuf_wpos rbuf of
              None \<Rightarrow> Inr False
            | Some i \<Rightarrow> bindR (seg_at rbuf i) (\<lambda>seg. Inr (rd_segment_write_remains seg \<ge> sz))) (\<lambda>enough.
     if enough then Inr rbuf
     else let rbuf = rd_buf_alloc_segment rbuf sz sz in Inr (rbuf\<lparr>rbuf_wpos := rd_buf_last rbuf\<rparr>))"

text \<open>A loop that does not end is \<open>None\<close>.\<close>

partial_function (option) rd_buf_write_ensure :: "rd_buf \<Rightarrow> nat \<Rightarrow> nat \<Rightarrow> rd_buf option" where
  "rd_buf_write_ensure rbuf min_size max_size =
     (let remains = rd_buf_write_remains rbuf
      in if remains < min_size
         then rd_buf_write_ensure
                (rd_buf_alloc_segment rbuf (min_size - remains) (if max_size = 0 then 0 else usub max_size remains))
                min_size max_size
         else Some rbuf)"

definition rd_buf_init :: "nat \<Rightarrow> nat \<Rightarrow> rd_buf res" where
  "rd_buf_init fixed_seg_cnt buf_size =
     (let rbuf = \<lparr>rbuf_segments = [], rbuf_segment_cnt = 0, rbuf_wpos = None, rbuf_len = 0, rbuf_size = 0,
                  rbuf_extra = None, rbuf_extra_len = 0, rbuf_extra_size = 0, rbuf_mallocs = 0\<rparr>
      in if fixed_seg_cnt = 0 then bindR (check Assert_Failed (buf_size = 0)) (\<lambda>_. Inr rbuf)
         else Inr (rbuf\<lparr>rbuf_extra_size := RD_ROUNDUP sizeof_segment 8 * fixed_seg_cnt + buf_size,
                        rbuf_extra := Some (Heap 0), rbuf_mallocs := 1\<rparr>))"

fun destroy_loop :: "rd_segment list \<Rightarrow> freed list res" where
  "destroy_loop [] = Inr []"
| "destroy_loop (seg # segs) = bindR (rd_segment_destroy seg) (\<lambda>f. bindR (destroy_loop segs) (\<lambda>g. Inr (f @ g)))"

definition rd_buf_destroy :: "rd_buf \<Rightarrow> freed list res" where
  "rd_buf_destroy rbuf =
     bindR (destroy_loop (rbuf_segments rbuf)) (\<lambda>f.
     Inr (f @ (case rbuf_extra rbuf of None \<Rightarrow> [] | Some b \<Rightarrow> [Free_Block b])))"

section \<open>Writing\<close>

text \<open>One pass of the loop: copy to the segment and move the write position.\<close>

definition write_some :: "rd_buf \<Rightarrow> nat \<Rightarrow> cell list option \<Rightarrow> nat \<Rightarrow> rd_buf res" where
  "write_some rbuf i psrc wlen =
     bindR (seg_at rbuf i) (\<lambda>seg.
     bindR (case psrc of None \<Rightarrow> Inr (seg_mem seg) | Some src \<Rightarrow> memcpy (seg_mem seg) (seg_of seg) src wlen) (\<lambda>mem.
     Inr ((seg_put rbuf i (seg\<lparr>seg_mem := mem, seg_of := seg_of seg + wlen\<rparr>))\<lparr>rbuf_len := rbuf_len rbuf + wlen\<rparr>)))"

partial_function (option) write_loop :: "rd_buf \<Rightarrow> cell list option \<Rightarrow> nat \<Rightarrow> rd_buf res option" where
  "write_loop rbuf psrc remains =
     (if remains = 0 then Some (Inr rbuf)
      else case rd_buf_get_writable0 rbuf of
             (rbuf, None, segremains) \<Rightarrow> Some (Inl Indeterminate)
           | (rbuf, Some i, segremains) \<Rightarrow>
             let wlen = min remains segremains
             in case write_some rbuf i psrc wlen of
                  Inl e \<Rightarrow> Some (Inl e)
                | Inr rbuf \<Rightarrow> write_loop rbuf (map_option (drop wlen) psrc) (remains - wlen))"

text \<open>The buffer and the position before the write; no payload only moves the position.\<close>

definition rd_buf_write :: "rd_buf \<Rightarrow> cell list option \<Rightarrow> nat \<Rightarrow> (rd_buf \<times> nat) res option" where
  "rd_buf_write rbuf payload sz =
     (let initial_absof = rbuf_len rbuf
      in case rd_buf_write_ensure rbuf sz 0 of
           None \<Rightarrow> None
         | Some rbuf \<Rightarrow>
           map_option (\<lambda>r. bindR r (\<lambda>rbuf. Inr (rbuf, initial_absof))) (write_loop rbuf payload sz))"

section \<open>Access by offset\<close>

fun seg_find :: "rd_segment list \<Rightarrow> nat \<Rightarrow> nat \<Rightarrow> nat option" where
  "seg_find [] i absof = None"
| "seg_find (seg # segs) i absof =
     (if absof \<ge> seg_absof seg \<and> absof < seg_absof seg + seg_of seg then Some i else seg_find segs (Suc i) absof)"

definition rd_buf_get_segment_at_offset :: "rd_buf \<Rightarrow> nat option \<Rightarrow> nat \<Rightarrow> nat option res" where
  "rd_buf_get_segment_at_offset rbuf hint absof =
     (if absof > rbuf_len rbuf then Inr None
      else
        bindR (case hint of
                 None \<Rightarrow> Inr 0
               | Some i \<Rightarrow> bindR (seg_at rbuf i) (\<lambda>seg. Inr (if absof < seg_absof seg then 0 else i))) (\<lambda>first.
        bindR (check Null_Deref (first < length (rbuf_segments rbuf))) (\<lambda>_.
        Inr (seg_find (drop first (rbuf_segments rbuf)) first absof))))"

definition rd_segment_split :: "rd_buf \<Rightarrow> nat \<Rightarrow> nat \<Rightarrow> (rd_buf \<times> rd_segment) res" where
  "rd_segment_split rbuf i absof =
     bindR (check Assert_Failed (rbuf_wpos rbuf = Some i)) (\<lambda>_.
     bindR (seg_at rbuf i) (\<lambda>seg.
     bindR (check Assert_Failed (absof \<ge> seg_absof seg \<and> absof \<le> seg_absof seg + seg_of seg)) (\<lambda>_.
     let relof = absof - seg_absof seg;
         (rbuf, newseg) = rd_buf_alloc_segment0 rbuf 0;
         newseg = newseg\<lparr>seg_p := map_option (\<lambda>(b, k). (b, k + relof)) (seg_p seg),
                         seg_mem := drop relof (seg_mem seg),
                         seg_of := seg_of seg - relof,
                         seg_size := usub (seg_size seg) relof,
                         seg_absof := 2 ^ 64 - 1,
                         seg_flags := seg_flags newseg OR seg_flags seg\<rparr>;
         rbuf = seg_put rbuf i (seg\<lparr>seg_mem := take relof (seg_mem seg), seg_of := relof, seg_size := relof\<rparr>)
     in Inr (rbuf\<lparr>rbuf_len := usub (rbuf_len rbuf) (seg_of newseg),
                  rbuf_size := usub (rbuf_size rbuf) (seg_size newseg)\<rparr>, newseg))))"

text \<open>Removing a segment moves the later ones one position forward.\<close>

definition rd_buf_destroy_segment :: "rd_buf \<Rightarrow> nat \<Rightarrow> (rd_buf \<times> freed list) res" where
  "rd_buf_destroy_segment rbuf i =
     bindR (seg_at rbuf i) (\<lambda>seg.
     bindR (check Assert_Failed (rbuf_segment_cnt rbuf > 0 \<and> rbuf_len rbuf \<ge> seg_of seg \<and> rbuf_size rbuf \<ge> seg_size seg)) (\<lambda>_.
     bindR (rd_segment_destroy seg) (\<lambda>freed.
     Inr (rbuf\<lparr>rbuf_segments := take i (rbuf_segments rbuf) @ drop (Suc i) (rbuf_segments rbuf),
               rbuf_segment_cnt := rbuf_segment_cnt rbuf - 1,
               rbuf_len := rbuf_len rbuf - seg_of seg,
               rbuf_size := rbuf_size rbuf - seg_size seg,
               rbuf_wpos := (case rbuf_wpos rbuf of
                   None \<Rightarrow> None
                 | Some w \<Rightarrow> if w = i then None else if i < w then Some (w - 1) else Some w)\<rparr>, freed))))"

text \<open>The copy within one segment, with the number of bytes copied.\<close>

definition rd_segment_write_update :: "rd_segment \<Rightarrow> nat \<Rightarrow> cell list \<Rightarrow> nat \<Rightarrow> (rd_segment \<times> nat) res" where
  "rd_segment_write_update seg absof payload sz =
     (let relof = usub absof (seg_absof seg)
      in bindR (check Assert_Failed (relof \<le> seg_of seg)) (\<lambda>_.
         let wlen = min sz (seg_of seg - relof)
         in bindR (memcpy (seg_mem seg) relof payload wlen) (\<lambda>mem.
            Inr (seg\<lparr>seg_mem := mem\<rparr>, wlen))))"

text \<open>The loop over the segments from the one found on; \<open>psrc\<close> is what is left to copy.\<close>

fun update_loop :: "nat \<Rightarrow> rd_segment list \<Rightarrow> nat \<Rightarrow> cell list \<Rightarrow> nat \<Rightarrow> rd_segment list res" where
  "update_loop len [] absof psrc remains = (if remains = 0 then Inr [] else Inl Null_Deref)"
| "update_loop len (seg # segs) absof psrc remains =
     (if remains = 0 then Inr (seg # segs)
      else
        bindR (check Assert_Failed (seg_absof seg \<le> len)) (\<lambda>_.
        bindR (rd_segment_write_update seg absof psrc remains) (\<lambda>(seg, wlen).
        bindR (update_loop len segs (absof + wlen) (drop wlen psrc) (remains - wlen)) (\<lambda>segs.
        Inr (seg # segs)))))"

definition rd_buf_write_update :: "rd_buf \<Rightarrow> nat \<Rightarrow> cell list \<Rightarrow> nat \<Rightarrow> (rd_buf \<times> nat) res" where
  "rd_buf_write_update rbuf absof payload sz =
     bindR (rd_buf_get_segment_at_offset rbuf (rbuf_wpos rbuf) absof) (\<lambda>seg.
     bindR (derefR Assert_Failed seg) (\<lambda>i.
     bindR (update_loop (rd_buf_len rbuf) (drop i (rbuf_segments rbuf)) absof payload sz) (\<lambda>segs.
     Inr (rbuf\<lparr>rbuf_segments := take i (rbuf_segments rbuf) @ segs\<rparr>, sz))))"

text \<open>The memory pushed is the caller's, at the pointer given.\<close>

definition push_segment :: "rd_buf \<Rightarrow> pointer \<Rightarrow> cell list \<Rightarrow> nat \<Rightarrow> free_fun option \<Rightarrow> rd_buf" where
  "push_segment rbuf ptr payload sz free_cb =
     (let (rbuf, seg) = rd_buf_alloc_segment0 rbuf 0
      in rd_buf_append_segment rbuf
           (seg\<lparr>seg_p := Some ptr, seg_mem := payload, seg_size := sz, seg_of := sz, seg_free := free_cb,
                seg_flags := seg_flags seg OR RD_SEGMENT_F_RDONLY\<rparr>))"

definition rd_buf_push :: "rd_buf \<Rightarrow> pointer \<Rightarrow> cell list \<Rightarrow> nat \<Rightarrow> free_fun option \<Rightarrow> rd_buf res" where
  "rd_buf_push rbuf ptr payload sz free_cb =
     bindR (case rbuf_wpos rbuf of
              None \<Rightarrow> Inr (rbuf, None)
            | Some i \<Rightarrow>
              bindR (seg_at rbuf i) (\<lambda>prevseg.
              if rd_segment_write_remains prevseg > 0
              then bindR (rd_segment_split rbuf i (seg_absof prevseg + seg_of prevseg)) (\<lambda>(rbuf, tailseg). Inr (rbuf, Some tailseg))
              else Inr (rbuf, None))) (\<lambda>(rbuf, tailseg).
     let rbuf = push_segment rbuf ptr payload sz free_cb
     in Inr (case tailseg of None \<Rightarrow> rbuf | Some tailseg \<Rightarrow> rd_buf_append_segment rbuf tailseg))"

function seek_loop :: "rd_buf \<Rightarrow> nat \<Rightarrow> (rd_buf \<times> freed list) res" where
  "seek_loop rbuf i =
     (if length (rbuf_segments rbuf) \<le> Suc i then Inr (rbuf, [])
      else
        bindR (rd_buf_destroy_segment rbuf (length (rbuf_segments rbuf) - 1)) (\<lambda>(rbuf, f).
        bindR (seek_loop rbuf i) (\<lambda>(rbuf, g). Inr (rbuf, f @ g))))"
  by pat_completeness auto
termination
  by (relation "measure (\<lambda>(rbuf, i). length (rbuf_segments rbuf))")
     (auto simp: rd_buf_destroy_segment_def res_simps seg_at_def)

declare seek_loop.simps [simp del]

text \<open>\<open>False\<close> stands for the result -1.\<close>

definition rd_buf_write_seek :: "rd_buf \<Rightarrow> nat \<Rightarrow> (rd_buf \<times> freed list \<times> bool) res" where
  "rd_buf_write_seek rbuf absof =
     bindR (rd_buf_get_segment_at_offset rbuf (rbuf_wpos rbuf) absof) (\<lambda>found.
     case found of
       None \<Rightarrow> Inr (rbuf, [], False)
     | Some i \<Rightarrow>
       bindR (seg_at rbuf i) (\<lambda>seg.
       let relof = usub absof (seg_absof seg)
       in if relof > seg_of seg then Inr (rbuf, [], False)
          else
            bindR (seek_loop rbuf i) (\<lambda>(rbuf, freed).
            let rbuf = (seg_put rbuf i (seg\<lparr>seg_of := relof\<rparr>))\<lparr>rbuf_wpos := Some i, rbuf_len := seg_absof seg + relof\<rparr>
            in bindR (check Assert_Failed (rbuf_len rbuf = absof)) (\<lambda>_. Inr (rbuf, freed, True)))))"

text \<open>The entries of the vector, as position and length, and their total length.\<close>

fun write_iov_loop :: "rd_segment list \<Rightarrow> nat \<Rightarrow> nat \<Rightarrow> nat \<Rightarrow> nat \<Rightarrow> nat \<Rightarrow> (nat \<times> nat \<times> nat) list \<times> nat" where
  "write_iov_loop [] i iov_max size_max iovcnt acc = ([], acc)"
| "write_iov_loop (seg # segs) i iov_max size_max iovcnt acc =
     (if iovcnt < iov_max \<and> acc < size_max then
        (let len = rd_segment_write_remains seg
         in if len = 0 then write_iov_loop segs (Suc i) iov_max size_max iovcnt acc
            else let (iovs, total) = write_iov_loop segs (Suc i) iov_max size_max (Suc iovcnt) (acc + len)
                 in ((i, seg_of seg, len) # iovs, total))
      else ([], acc))"

definition rd_buf_get_write_iov :: "rd_buf \<Rightarrow> nat \<Rightarrow> nat \<Rightarrow> (nat \<times> nat \<times> nat) list \<times> nat" where
  "rd_buf_get_write_iov rbuf iov_max size_max =
     (case rbuf_wpos rbuf of
        None \<Rightarrow> ([], 0)
      | Some w \<Rightarrow> write_iov_loop (drop w (rbuf_segments rbuf)) w iov_max size_max 0 0)"

section \<open>What a buffer holds\<close>

definition rdonly :: "rd_segment \<Rightarrow> bool" where
  "rdonly seg \<longleftrightarrow> seg_flags seg AND RD_SEGMENT_F_RDONLY \<noteq> 0"

definition seg_data :: "rd_segment \<Rightarrow> cell list" where
  "seg_data seg = take (seg_of seg) (seg_mem seg)"

definition buf_data :: "rd_buf \<Rightarrow> cell list" where
  "buf_data rbuf = concat (map seg_data (rbuf_segments rbuf))"

definition seg_ok :: "rd_segment \<Rightarrow> bool" where
  "seg_ok seg \<longleftrightarrow> length (seg_mem seg) = seg_size seg \<and> seg_of seg \<le> seg_size seg \<and> (rdonly seg \<longrightarrow> seg_of seg = seg_size seg)"

text \<open>A segment allocated ahead: empty, with room, its offset not beyond the end.\<close>

definition waiting :: "nat \<Rightarrow> rd_segment \<Rightarrow> bool" where
  "waiting len seg \<longleftrightarrow> seg_of seg = 0 \<and> 0 < seg_size seg \<and> \<not> rdonly seg \<and> seg_absof seg \<le> len"

fun absofs_ok :: "nat \<Rightarrow> rd_segment list \<Rightarrow> bool" where
  "absofs_ok n [] = True"
| "absofs_ok n (seg # segs) \<longleftrightarrow> seg_absof seg = n \<and> absofs_ok (n + seg_of seg) segs"

definition lens :: "rd_segment list \<Rightarrow> nat" where
  "lens segs = sum_list (map seg_of segs)"

definition sizes :: "rd_segment list \<Rightarrow> nat" where
  "sizes segs = sum_list (map seg_size segs)"

text \<open>
  The shape of a buffer: full segments, the segment of the write position, segments allocated
  ahead. The absolute offsets are exact up to the write position.
\<close>

definition buf_view :: "rd_buf \<Rightarrow> rd_segment list \<Rightarrow> rd_segment \<Rightarrow> rd_segment list \<Rightarrow> bool" where
  "buf_view rbuf pre seg post \<longleftrightarrow> rbuf_segments rbuf = pre @ seg # post \<and> rbuf_wpos rbuf = Some (length pre) \<and>
     rbuf_segment_cnt rbuf = Suc (length pre + length post) \<and>
     rbuf_len rbuf = lens pre + seg_of seg \<and> rbuf_size rbuf = sizes (pre @ seg # post) \<and>
     (\<forall>s \<in> set (pre @ seg # post). seg_ok s) \<and> (\<forall>s \<in> set pre. seg_of s = seg_size s) \<and>
     absofs_ok 0 (pre @ [seg]) \<and> (\<forall>s \<in> set post. waiting (lens pre + seg_of seg) s)"

definition buf_empty :: "rd_buf \<Rightarrow> bool" where
  "buf_empty rbuf \<longleftrightarrow> rbuf_segments rbuf = [] \<and> rbuf_wpos rbuf = None \<and> rbuf_segment_cnt rbuf = 0 \<and>
     rbuf_len rbuf = 0 \<and> rbuf_size rbuf = 0"

definition buf_ok :: "rd_buf \<Rightarrow> bool" where
  "buf_ok rbuf \<longleftrightarrow> buf_empty rbuf \<or> (\<exists>pre seg post. buf_view rbuf pre seg post)"

lemma buf_okI: "buf_view rbuf pre seg post \<Longrightarrow> buf_ok rbuf"
  by (auto simp: buf_ok_def)

lemma lens_simps [simp]:
  "lens [] = 0" "lens (s # ss) = seg_of s + lens ss" "lens (xs @ ys) = lens xs + lens ys"
  by (simp_all add: lens_def)

lemma sizes_simps [simp]:
  "sizes [] = 0" "sizes (s # ss) = seg_size s + sizes ss" "sizes (xs @ ys) = sizes xs + sizes ys"
  by (simp_all add: sizes_def)

lemma lens_waiting: "(\<forall>s \<in> set ss. waiting n s) \<Longrightarrow> lens ss = 0 \<and> concat (map seg_data ss) = []"
  by (induction ss) (auto simp: waiting_def seg_data_def)

lemma sizes_full: "(\<forall>s \<in> set ss. seg_of s = seg_size s) \<Longrightarrow> sizes ss = lens ss"
  by (induction ss) auto

lemma absofs_ok_append [simp]: "absofs_ok n (xs @ ys) \<longleftrightarrow> absofs_ok n xs \<and> absofs_ok (n + lens xs) ys"
  by (induction xs arbitrary: n) (auto simp: add.assoc)

lemma usub_le [simp]: "b \<le> a \<Longrightarrow> usub a b = a - b"
  by (simp add: usub_def)

lemma remains_ok: "seg_ok seg \<Longrightarrow> rd_segment_write_remains seg = seg_size seg - seg_of seg"
  by (auto simp: rd_segment_write_remains_def seg_ok_def rdonly_def)

lemma buf_view_data: "buf_view rbuf pre seg post \<Longrightarrow> buf_data rbuf = concat (map seg_data pre) @ seg_data seg"
  by (auto simp: buf_view_def buf_data_def waiting_def seg_data_def)

lemma length_seg_data: "seg_ok seg \<Longrightarrow> length (seg_data seg) = seg_of seg"
  by (simp add: seg_ok_def seg_data_def)

lemma length_segs_data: "(\<forall>s \<in> set ss. seg_ok s) \<Longrightarrow> length (concat (map seg_data ss)) = lens ss"
  by (induction ss) (auto simp: length_seg_data)

lemma buf_data_length: "buf_ok rbuf \<Longrightarrow> length (buf_data rbuf) = rbuf_len rbuf"
  by (auto simp: buf_ok_def buf_empty_def buf_data_def buf_view_def length_segs_data length_seg_data dest: lens_waiting)

lemma buf_ok_len_size: "buf_ok rbuf \<Longrightarrow> rbuf_len rbuf \<le> rbuf_size rbuf"
  by (auto simp: buf_ok_def buf_empty_def buf_view_def seg_ok_def sizes_full [symmetric])

lemma buf_ok_remains: "buf_ok rbuf \<Longrightarrow> rd_buf_write_remains rbuf = rbuf_size rbuf - rbuf_len rbuf"
  by (simp add: rd_buf_write_remains_def buf_ok_len_size)

lemma patch_at_end: "length xs = n \<Longrightarrow> n \<le> length ys \<Longrightarrow> take n ys = xs \<Longrightarrow> take (n + length zs) (patch ys n zs) = xs @ zs"
  by (simp add: patch_def)

lemma length_patch: "i + length ys \<le> length xs \<Longrightarrow> length (patch xs i ys) = length xs"
  by (simp add: patch_def)

section \<open>The write position moves to the first segment with room\<close>

lemma get_writable0_room:
  assumes "buf_view rbuf pre seg post" and "seg_of seg < seg_size seg"
  shows "rd_buf_get_writable0 rbuf = (rbuf, Some (length pre), seg_size seg - seg_of seg)"
proof -
  have "seg_ok seg" "seg_of seg = 0 \<Longrightarrow> \<not> seg_absof seg < rbuf_len rbuf" using assms(1) by (auto simp: buf_view_def)
  then show ?thesis
    using assms by (simp add: rd_buf_get_writable0_def buf_view_def writable_loop.simps [of _ _ "length pre"] remains_ok Let_def)
qed

lemma get_writable0_last:
  assumes "buf_view rbuf pre seg []" and "seg_of seg = seg_size seg"
  shows "rd_buf_get_writable0 rbuf = (rbuf, Some (length pre), 0)"
  using assms by (simp add: rd_buf_get_writable0_def buf_view_def writable_loop.simps [of _ _ "length pre"] remains_ok Let_def)

lemma get_writable0_next:
  assumes "buf_view rbuf pre seg (t # post)" and "seg_of seg = seg_size seg"
  defines "rbuf' \<equiv> rbuf\<lparr>rbuf_segments := (pre @ [seg]) @ t\<lparr>seg_absof := rbuf_len rbuf\<rparr> # post, rbuf_wpos := Some (Suc (length pre))\<rparr>"
  shows "rd_buf_get_writable0 rbuf = (rbuf', Some (Suc (length pre)), seg_size t)"
    and "buf_view rbuf' (pre @ [seg]) (t\<lparr>seg_absof := rbuf_len rbuf\<rparr>) post"
proof -
  note v = assms(1) [unfolded buf_view_def]
  have t: "seg_of t = 0" "0 < seg_size t" "seg_absof t \<le> rbuf_len rbuf" "seg_ok t" "seg_ok seg" "\<not> rdonly t"
    using v by (auto simp: waiting_def)
  have same: "\<not> seg_absof t < rbuf_len rbuf \<Longrightarrow> t\<lparr>seg_absof := rbuf_len rbuf\<rparr> = t" using t(3) by simp
  have nth: "(pre @ seg # t # post) ! Suc (length pre) = t" by (simp add: nth_append)
  have upd: "(pre @ seg # t # post)[Suc (length pre) := x] = (pre @ [seg]) @ x # post" for x by (simp add: list_update_append)
  have "writable_loop (pre @ seg # t # post) (rbuf_len rbuf) (length pre) =
      ((pre @ [seg]) @ t\<lparr>seg_absof := rbuf_len rbuf\<rparr> # post, Suc (length pre), seg_size t)"
  proof -
    have "writable_loop (pre @ seg # t # post) (rbuf_len rbuf) (length pre) =
        writable_loop (pre @ seg # t # post) (rbuf_len rbuf) (Suc (length pre))"
      by (subst writable_loop.simps) (simp add: remains_ok t assms(2) Let_def)
    also have "\<dots> = ((pre @ [seg]) @ t\<lparr>seg_absof := rbuf_len rbuf\<rparr> # post, Suc (length pre), seg_size t)"
      using same t by (subst writable_loop.simps) (simp add: nth remains_ok upd Let_def del: append_assoc)
    finally show ?thesis .
  qed
  then show "rd_buf_get_writable0 rbuf = (rbuf', Some (Suc (length pre)), seg_size t)"
    using v by (simp add: rd_buf_get_writable0_def rbuf'_def)
  show "buf_view rbuf' (pre @ [seg]) (t\<lparr>seg_absof := rbuf_len rbuf\<rparr>) post"
  proof -
    have "seg_ok (t\<lparr>seg_absof := rbuf_len rbuf\<rparr>)" using t(4) by (simp add: seg_ok_def rdonly_def)
    moreover have "lens (pre @ [seg]) = rbuf_len rbuf" using v by simp
    ultimately show ?thesis unfolding buf_view_def rbuf'_def using v t(1) assms(2) by simp
  qed
qed

text \<open>With room left, the write position ends at a segment with room.\<close>

lemma get_writable0_ok:
  assumes "buf_ok rbuf" and "rbuf_len rbuf < rbuf_size rbuf"
  shows "\<exists>rbuf' pre seg post. rd_buf_get_writable0 rbuf = (rbuf', Some (length pre), seg_size seg - seg_of seg) \<and>
    seg_of seg < seg_size seg \<and> buf_view rbuf' pre seg post \<and> buf_data rbuf' = buf_data rbuf \<and>
    rbuf_len rbuf' = rbuf_len rbuf \<and> rbuf_size rbuf' = rbuf_size rbuf"
proof -
  obtain pre seg post where v: "buf_view rbuf pre seg post" using assms by (auto simp: buf_ok_def buf_empty_def)
  show ?thesis
  proof (cases "seg_of seg < seg_size seg")
    case True
    then show ?thesis using get_writable0_room [OF v True] v by blast
  next
    case False
    then have full: "seg_of seg = seg_size seg" using v by (simp add: buf_view_def seg_ok_def)
    have "post \<noteq> []" using assms(2) v full by (auto simp: buf_view_def sizes_full)
    then obtain t post' where post: "post = t # post'" by (cases post) auto
    note nx = get_writable0_next [OF v [unfolded post] full]
    have "seg_of t = 0" "0 < seg_size t" using v post by (auto simp: buf_view_def waiting_def)
    then show ?thesis
      using nx buf_view_data [OF nx(2)] buf_view_data [OF v]
      by (intro exI [of _ "rbuf\<lparr>rbuf_segments := _, rbuf_wpos := _\<rparr>"] exI [of _ "pre @ [seg]"]
          exI [of _ "t\<lparr>seg_absof := rbuf_len rbuf\<rparr>"] exI [of _ post']) (simp add: seg_data_def)
  qed
qed

section \<open>Writing appends\<close>

lemma write_some_ok:
  assumes "buf_view rbuf pre seg post" and "n \<le> seg_size seg - seg_of seg" and "n \<le> length src"
    and "\<not> rdonly seg"
  shows "\<exists>rbuf'. write_some rbuf (length pre) (Some src) n = Inr rbuf' \<and> buf_ok rbuf' \<and>
    buf_data rbuf' = buf_data rbuf @ take n src \<and> rbuf_len rbuf' = rbuf_len rbuf + n \<and> rbuf_size rbuf' = rbuf_size rbuf"
proof -
  note v = assms(1) [unfolded buf_view_def]
  have ok: "seg_ok seg" using v by simp
  define seg' where "seg' = seg\<lparr>seg_mem := patch (seg_mem seg) (seg_of seg) (take n src), seg_of := seg_of seg + n\<rparr>"
  define rbuf' where "rbuf' = rbuf\<lparr>rbuf_segments := pre @ seg' # post, rbuf_len := rbuf_len rbuf + n\<rparr>"
  have le: "seg_of seg + n \<le> length (seg_mem seg)" "seg_of seg \<le> seg_size seg" using ok assms(2) by (auto simp: seg_ok_def)
  have seg': "seg_ok seg'" "seg_size seg' = seg_size seg" "seg_of seg' = seg_of seg + n" "seg_absof seg' = seg_absof seg"
    using ok le assms(3,4) by (simp_all add: seg'_def seg_ok_def length_patch rdonly_def)
  have data: "seg_data seg' = seg_data seg @ take n src"
  proof -
    have "take (seg_of seg + length (take n src)) (patch (seg_mem seg) (seg_of seg) (take n src)) = seg_data seg @ take n src"
      by (rule patch_at_end) (use ok le in \<open>simp_all add: seg_data_def seg_ok_def\<close>)
    moreover have "length (take n src) = n" using assms(3) by simp
    ultimately show ?thesis unfolding seg'_def seg_data_def by simp
  qed
  have w: "waiting (lens pre + seg_of seg) s \<Longrightarrow> waiting (lens pre + (seg_of seg + n)) s" for s by (auto simp: waiting_def)
  have view: "buf_view rbuf' pre seg' post"
    unfolding buf_view_def rbuf'_def using v seg' w by simp
  have "write_some rbuf (length pre) (Some src) n = Inr rbuf'"
    using v le assms(3) by (simp add: write_some_def seg_at_def memcpy_def seg_put_def rbuf'_def seg'_def)
  moreover have "buf_data rbuf' = buf_data rbuf @ take n src"
    using buf_view_data [OF view] buf_view_data [OF assms(1)] data by simp
  ultimately show ?thesis using view by (auto simp: buf_ok_def rbuf'_def)
qed

lemma write_loop_ok:
  assumes "buf_ok rbuf" and "remains \<le> rbuf_size rbuf - rbuf_len rbuf" and "length src = remains"
  shows "\<exists>rbuf'. write_loop rbuf (Some src) remains = Some (Inr rbuf') \<and> buf_ok rbuf' \<and>
    buf_data rbuf' = buf_data rbuf @ src \<and> rbuf_len rbuf' = rbuf_len rbuf + remains \<and> rbuf_size rbuf' = rbuf_size rbuf"
  using assms
proof (induction remains arbitrary: rbuf src rule: less_induct)
  case (less remains)
  show ?case
  proof (cases "remains = 0")
    case True
    then show ?thesis using less.prems by (simp add: write_loop.simps)
  next
    case False
    then have "rbuf_len rbuf < rbuf_size rbuf" using less.prems(2) by simp
    from get_writable0_ok [OF less.prems(1) this] obtain rbuf1 pre seg post where
      g: "rd_buf_get_writable0 rbuf = (rbuf1, Some (length pre), seg_size seg - seg_of seg)" "seg_of seg < seg_size seg"
        "buf_view rbuf1 pre seg post" "buf_data rbuf1 = buf_data rbuf" "rbuf_len rbuf1 = rbuf_len rbuf" "rbuf_size rbuf1 = rbuf_size rbuf"
      by blast
    define n where "n = min remains (seg_size seg - seg_of seg)"
    have n: "0 < n" "n \<le> remains" "n \<le> seg_size seg - seg_of seg" using False g(2) by (auto simp: n_def)
    have "\<not> rdonly seg" using g(2,3) by (auto simp: buf_view_def seg_ok_def)
    from write_some_ok [OF g(3) n(3) _ this, of src] n(2) less.prems(3) obtain rbuf2 where
      w: "write_some rbuf1 (length pre) (Some src) n = Inr rbuf2" "buf_ok rbuf2" "buf_data rbuf2 = buf_data rbuf1 @ take n src"
        "rbuf_len rbuf2 = rbuf_len rbuf1 + n" "rbuf_size rbuf2 = rbuf_size rbuf1" by auto
    have "\<exists>rbuf'. write_loop rbuf2 (Some (drop n src)) (remains - n) = Some (Inr rbuf') \<and> buf_ok rbuf' \<and>
        buf_data rbuf' = buf_data rbuf2 @ drop n src \<and> rbuf_len rbuf' = rbuf_len rbuf2 + (remains - n) \<and> rbuf_size rbuf' = rbuf_size rbuf2"
      by (rule less.IH) (use n False less.prems w g in auto)
    moreover have "write_loop rbuf (Some src) remains = write_loop rbuf2 (Some (drop n src)) (remains - n)"
      using False g(1) w(1) by (subst write_loop.simps) (simp add: n_def Let_def)
    ultimately show ?thesis using w g n by auto
  qed
qed

lemma alloc_segment0_fields:
  assumes "rd_buf_alloc_segment0 rbuf n = (rbuf', seg)"
  shows "seg_of seg = 0" and "seg_size seg = n" and "seg_mem seg = replicate n None" and "\<not> rdonly seg"
    and "rbuf' = rbuf\<lparr>rbuf_extra_len := rbuf_extra_len rbuf', rbuf_mallocs := rbuf_mallocs rbuf'\<rparr>"
  using assms
  by (auto simp: rd_buf_alloc_segment0_def extra_alloc_def rd_segment_init_def rdonly_def RD_SEGMENT_F_FREE_def RD_SEGMENT_F_RDONLY_def
      Let_def split: if_splits)

lemma buf_ok_extra:
  "buf_ok (rbuf\<lparr>rbuf_extra_len := e, rbuf_mallocs := n\<rparr>) = buf_ok rbuf"
  "buf_view (rbuf\<lparr>rbuf_extra_len := e, rbuf_mallocs := n\<rparr>) pre seg post = buf_view rbuf pre seg post"
  "buf_data (rbuf\<lparr>rbuf_extra_len := e, rbuf_mallocs := n\<rparr>) = buf_data rbuf"
  by (simp_all add: buf_ok_def buf_empty_def buf_view_def buf_data_def)

text \<open>Appending an empty segment with room.\<close>

lemma append_empty_segment_ok:
  assumes "buf_ok rbuf" and "seg_of seg = 0" and "0 < seg_size seg" and "length (seg_mem seg) = seg_size seg" and "\<not> rdonly seg"
  shows "buf_ok (rd_buf_append_segment rbuf seg) \<and> buf_data (rd_buf_append_segment rbuf seg) = buf_data rbuf \<and>
    rbuf_len (rd_buf_append_segment rbuf seg) = rbuf_len rbuf \<and>
    rbuf_size (rd_buf_append_segment rbuf seg) = rbuf_size rbuf + seg_size seg"
proof -
  let ?seg = "seg\<lparr>seg_absof := rbuf_len rbuf\<rparr>"
  let ?rbuf = "rbuf\<lparr>rbuf_segments := rbuf_segments rbuf @ [?seg], rbuf_segment_cnt := rbuf_segment_cnt rbuf + 1,
      rbuf_len := rbuf_len rbuf + seg_of seg, rbuf_size := rbuf_size rbuf + seg_size seg\<rparr>"
  have seg: "seg_ok ?seg" "waiting (rbuf_len rbuf) ?seg" using assms by (simp_all add: seg_ok_def waiting_def rdonly_def)
  show ?thesis
  proof (cases "rbuf_wpos rbuf")
    case None
    then have e: "buf_empty rbuf" using assms(1) by (auto simp: buf_ok_def buf_view_def)
    have v: "buf_view (?rbuf\<lparr>rbuf_wpos := Some 0\<rparr>) [] ?seg []" using e seg assms by (simp add: buf_empty_def buf_view_def)
    have "rd_buf_append_segment rbuf seg = ?rbuf\<lparr>rbuf_wpos := Some 0\<rparr>"
      using None e by (simp add: rd_buf_append_segment_def buf_empty_def)
    then show ?thesis using buf_okI [OF v] e assms(2) by (simp add: buf_empty_def buf_data_def seg_data_def)
  next
    case (Some w)
    then obtain pre s post where v: "buf_view rbuf pre s post" using assms(1) by (auto simp: buf_ok_def buf_empty_def)
    have v': "buf_view ?rbuf pre s (post @ [?seg])" using v seg assms(2) by (simp add: buf_view_def)
    have ok: "buf_ok ?rbuf" using v' by (auto simp: buf_ok_def)
    have room: "rbuf_len ?rbuf < rbuf_size ?rbuf" using buf_ok_len_size [OF assms(1)] assms(2,3) by simp
    obtain rbuf' pre' seg' post' where g: "rd_buf_get_writable0 ?rbuf = (rbuf', Some (length pre'), seg_size seg' - seg_of seg')"
      "buf_view rbuf' pre' seg' post'" "buf_data rbuf' = buf_data ?rbuf" "rbuf_len rbuf' = rbuf_len ?rbuf" "rbuf_size rbuf' = rbuf_size ?rbuf"
      using get_writable0_ok [OF ok room] by blast
    have "rd_buf_append_segment rbuf seg = rbuf'" using Some g(1) by (simp add: rd_buf_append_segment_def Let_def)
    moreover have "buf_data ?rbuf = buf_data rbuf" using assms(2) by (simp add: buf_data_def seg_data_def)
    ultimately show ?thesis using g assms(2) by (auto simp: buf_ok_def)
  qed
qed

lemma alloc_segment_ok:
  assumes "buf_ok rbuf" and "0 < min_size"
  shows "buf_ok (rd_buf_alloc_segment rbuf min_size max_size) \<and> buf_data (rd_buf_alloc_segment rbuf min_size max_size) = buf_data rbuf \<and>
    rbuf_len (rd_buf_alloc_segment rbuf min_size max_size) = rbuf_len rbuf \<and>
    rbuf_size rbuf + min_size \<le> rbuf_size (rd_buf_alloc_segment rbuf min_size max_size)"
proof -
  define n where "n = (if min_size \<noteq> max_size \<or> max_size = 0
                      then max (sizeof_segment * 4) (max (min_size * 2) (rbuf_size rbuf div 2)) else max_size)"
  obtain rbuf' seg where a: "rd_buf_alloc_segment0 rbuf n = (rbuf', seg)" by fastforce
  note f = alloc_segment0_fields [OF a]
  have n: "min_size \<le> n" using assms(2) by (auto simp: n_def)
  have ok: "buf_ok rbuf'" "buf_data rbuf' = buf_data rbuf" "rbuf_len rbuf' = rbuf_len rbuf" "rbuf_size rbuf' = rbuf_size rbuf"
    using assms(1) by (subst f(5); simp add: buf_ok_extra)+
  have "rd_buf_alloc_segment rbuf min_size max_size = rd_buf_append_segment rbuf' seg"
    unfolding rd_buf_alloc_segment_def n_def [symmetric] Let_def a by simp
  then show ?thesis using append_empty_segment_ok [OF ok(1) f(1) _ _ f(4)] f(2,3) n assms(2) ok by simp
qed

lemma write_ensure_ok:
  assumes "buf_ok rbuf"
  shows "\<exists>rbuf'. rd_buf_write_ensure rbuf n m = Some rbuf' \<and> buf_ok rbuf' \<and> buf_data rbuf' = buf_data rbuf \<and>
    rbuf_len rbuf' = rbuf_len rbuf \<and> n \<le> rbuf_size rbuf' - rbuf_len rbuf'"
proof (cases "rd_buf_write_remains rbuf < n")
  case False
  then show ?thesis using assms by (subst rd_buf_write_ensure.simps) (auto simp: buf_ok_remains)
next
  case True
  define r where "r = rd_buf_write_remains rbuf"
  define rbuf' where "rbuf' = rd_buf_alloc_segment rbuf (n - r) (if m = 0 then 0 else usub m r)"
  have a: "buf_ok rbuf'" "buf_data rbuf' = buf_data rbuf" "rbuf_len rbuf' = rbuf_len rbuf" "rbuf_size rbuf + (n - r) \<le> rbuf_size rbuf'"
    using alloc_segment_ok [OF assms, of "n - r" "if m = 0 then 0 else usub m r"] True by (simp_all add: rbuf'_def r_def)
  have enough: "n \<le> rbuf_size rbuf' - rbuf_len rbuf'"
    using a True buf_ok_remains [OF assms] buf_ok_len_size [OF assms] by (simp add: r_def)
  have "rd_buf_write_ensure rbuf n m = rd_buf_write_ensure rbuf' n m"
    using True by (subst rd_buf_write_ensure.simps) (simp add: rbuf'_def r_def Let_def)
  also have "\<dots> = Some rbuf'"
    using enough a by (subst rd_buf_write_ensure.simps) (simp add: buf_ok_remains Let_def)
  finally show ?thesis using a enough by auto
qed

section \<open>Updating overwrites\<close>

lemma take_patch: "i + length ys \<le> n \<Longrightarrow> n \<le> length xs \<Longrightarrow> take n (patch xs i ys) = patch (take n xs) i ys"
  by (cases "n = i") (auto simp: patch_def min_def drop_take)

lemma patch_append:
  "i \<le> length xs \<Longrightarrow> patch (xs @ ys) i zs = patch xs i (take (length xs - i) zs) @ patch ys 0 (drop (length xs - i) zs)"
proof (cases "length zs \<le> length xs - i")
  case False
  moreover have "zs @ ws = take (length xs - i) zs @ drop (length xs - i) zs @ ws" for ws by (metis append_assoc append_take_drop_id)
  ultimately show "i \<le> length xs \<Longrightarrow> ?thesis" by (simp add: patch_def min_def add.commute)
qed (auto simp: patch_def min_def)

lemma patch_Nil [simp]: "patch xs i [] = xs"
  by (simp add: patch_def)

text \<open>Segments that differ in the contents of their memory only.\<close>

definition same_shape :: "rd_segment \<Rightarrow> rd_segment \<Rightarrow> bool" where
  "same_shape a b \<longleftrightarrow> b = a\<lparr>seg_mem := seg_mem b\<rparr> \<and> length (seg_mem b) = length (seg_mem a)"

lemma same_shape_refl [simp]: "same_shape a a" "list_all2 same_shape xs xs"
  by (simp_all add: same_shape_def list_all2_refl)

lemma same_shape_fields:
  assumes "same_shape a b"
  shows "seg_of b = seg_of a" "seg_size b = seg_size a" "seg_absof b = seg_absof a" "seg_flags b = seg_flags a"
    "seg_addr b = seg_addr a" "seg_p b = seg_p a" "seg_free b = seg_free a" "seg_ok b = seg_ok a" "rdonly b = rdonly a"
proof -
  have b: "b = a\<lparr>seg_mem := seg_mem b\<rparr>" and l: "length (seg_mem b) = length (seg_mem a)" using assms by (simp_all add: same_shape_def)
  show f: "seg_of b = seg_of a" "seg_size b = seg_size a" "seg_absof b = seg_absof a" "seg_flags b = seg_flags a"
    "seg_addr b = seg_addr a" "seg_p b = seg_p a" "seg_free b = seg_free a"
    by (subst b, simp)+
  show r: "rdonly b = rdonly a" by (simp add: rdonly_def f)
  show "seg_ok b = seg_ok a" by (simp add: seg_ok_def f l r)
qed

lemma same_shapes:
  assumes "list_all2 same_shape xs ys"
  shows "length ys = length xs" "lens ys = lens xs" "sizes ys = sizes xs" "absofs_ok n ys = absofs_ok n xs"
    "(\<forall>s \<in> set ys. seg_ok s) = (\<forall>s \<in> set xs. seg_ok s)" "(\<forall>s \<in> set ys. seg_of s = seg_size s) = (\<forall>s \<in> set xs. seg_of s = seg_size s)"
proof -
  show "length ys = length xs" using assms by (simp add: list_all2_lengthD)
  show "lens ys = lens xs" "sizes ys = sizes xs"
    using assms by (induction rule: list_all2_induct) (simp_all add: same_shape_fields)
  show "absofs_ok n ys = absofs_ok n xs"
    using assms by (induction arbitrary: n rule: list_all2_induct) (simp_all add: same_shape_fields)
  show "(\<forall>s \<in> set ys. seg_ok s) = (\<forall>s \<in> set xs. seg_ok s)" "(\<forall>s \<in> set ys. seg_of s = seg_size s) = (\<forall>s \<in> set xs. seg_of s = seg_size s)"
    using assms by (induction rule: list_all2_induct) (simp_all add: same_shape_fields)
qed

lemma segment_update_ok:
  assumes "seg_ok seg" and "seg_absof seg \<le> absof" and "absof \<le> seg_absof seg + seg_of seg" and "length src = n"
  defines "k \<equiv> seg_of seg - (absof - seg_absof seg)"
  shows "\<exists>seg'. rd_segment_write_update seg absof src n = Inr (seg', min n k) \<and> same_shape seg seg' \<and>
    seg_data seg' = patch (seg_data seg) (absof - seg_absof seg) (take k src)"
proof -
  obtain r where r: "absof = seg_absof seg + r" using assms(2) le_Suc_ex by blast
  let ?seg = "seg\<lparr>seg_mem := patch (seg_mem seg) r (take (min n k) src)\<rparr>"
  have le: "r \<le> seg_of seg" "r + min n k \<le> seg_of seg" "seg_of seg \<le> length (seg_mem seg)" "k = seg_of seg - r"
    using assms(1,3) by (auto simp: seg_ok_def r k_def)
  have t: "take (min n k) src = take k src" "length (take k src) = min n k" using assms(4) by (auto simp: min_def)
  have "rd_segment_write_update seg absof src n = Inr (?seg, min n k)"
    using assms(4) le by (simp add: rd_segment_write_update_def memcpy_def Let_def r)
  moreover have "same_shape seg ?seg" using le t by (simp add: same_shape_def length_patch)
  moreover have "seg_data ?seg = patch (seg_data seg) r (take k src)"
    unfolding seg_data_def using take_patch [of r "take k src" "seg_of seg" "seg_mem seg"] le t by simp
  ultimately show ?thesis unfolding r by auto
qed

lemma update_loop_ok:
  assumes "absofs_ok n (seg # segs)" and "\<forall>s \<in> set (seg # segs). seg_ok s" and "n \<le> absof" and "absof \<le> n + seg_of seg"
    and "length src = remains" and "absof + remains \<le> n + lens (seg # segs)" and "n + lens (seg # segs) \<le> len"
  shows "\<exists>segs'. update_loop len ((seg # segs) @ post) absof src remains = Inr (segs' @ post) \<and> list_all2 same_shape (seg # segs) segs' \<and>
    concat (map seg_data segs') = patch (concat (map seg_data (seg # segs))) (absof - n) src"
  using assms
proof (induction segs arbitrary: n seg absof src remains)
  case Nil
  show ?case
  proof (cases "remains = 0")
    case True
    then show ?thesis using Nil.prems by (intro exI [of _ "[seg]"]) (simp add: same_shape_def)
  next
    case False
    have n: "seg_absof seg = n" "seg_ok seg" using Nil.prems by simp_all
    obtain seg' where u: "rd_segment_write_update seg absof src remains = Inr (seg', min remains (seg_of seg - (absof - n)))"
      "same_shape seg seg'" "seg_data seg' = patch (seg_data seg) (absof - n) (take (seg_of seg - (absof - n)) src)"
      using segment_update_ok [of seg absof src remains] n Nil.prems by auto
    have m: "min remains (seg_of seg - (absof - n)) = remains" "take (seg_of seg - (absof - n)) src = src" using Nil.prems by simp_all
    have fin: "update_loop len post a [] 0 = Inr post" for a by (cases post) simp_all
    show ?thesis using Nil.prems False u n fin by (intro exI [of _ "[seg']"]) (simp add: m)
  qed
next
  case (Cons t segs)
  show ?case
  proof (cases "remains = 0")
    case True
    show ?thesis using True Cons.prems by (intro exI [of _ "seg # t # segs"]) simp
  next
    case False
    let ?k = "seg_of seg - (absof - n)" let ?w = "min remains ?k"
    have n: "seg_absof seg = n" "seg_ok seg" using Cons.prems by simp_all
    obtain seg' where u: "rd_segment_write_update seg absof src remains = Inr (seg', ?w)"
      "same_shape seg seg'" "seg_data seg' = patch (seg_data seg) (absof - n) (take ?k src)"
      using segment_update_ok [of seg absof src remains] n Cons.prems by auto
    have rest: "\<exists>segs'. update_loop len ((t # segs) @ post) (absof + ?w) (drop ?w src) (remains - ?w) = Inr (segs' @ post) \<and>
      list_all2 same_shape (t # segs) segs' \<and>
      concat (map seg_data segs') = patch (concat (map seg_data (t # segs))) 0 (drop ?k src)"
    proof (cases "remains \<le> ?k")
      case True
      show ?thesis using True Cons.prems by (intro exI [of _ "t # segs"]) simp
    next
      case False
      then have w: "?w = ?k" "absof + ?k = n + seg_of seg" using Cons.prems by simp_all
      have "\<exists>segs'. update_loop len ((t # segs) @ post) (n + seg_of seg) (drop ?k src) (remains - ?k) = Inr (segs' @ post) \<and>
          list_all2 same_shape (t # segs) segs' \<and>
          concat (map seg_data segs') = patch (concat (map seg_data (t # segs))) (n + seg_of seg - (n + seg_of seg)) (drop ?k src)"
        by (rule Cons.IH) (use Cons.prems False in auto)
      then show ?thesis unfolding w diff_self_eq_0 .
    qed
    then obtain segs' where r: "update_loop len (t # segs @ post) (absof + ?w) (drop ?w src) (remains - ?w) = Inr (segs' @ post)"
      "list_all2 same_shape (t # segs) segs'" "concat (map seg_data segs') = patch (concat (map seg_data (t # segs))) 0 (drop ?k src)" by auto
    have d: "length (seg_data seg) = seg_of seg" using n by (simp add: length_seg_data)
    have "patch (concat (map seg_data (seg # t # segs))) (absof - n) src = concat (map seg_data (seg' # segs'))"
      using patch_append [of "absof - n" "seg_data seg" "concat (map seg_data (t # segs))" src] u(3) r(3) d Cons.prems by simp
    then show ?thesis using False u r n Cons.prems by (intro exI [of _ "seg' # segs'"]) simp
  qed
qed

lemma seg_find_ok:
  assumes "absofs_ok n xs" and "n \<le> absof" and "absof < n + lens xs"
  shows "\<exists>ys seg zs. xs = ys @ seg # zs \<and> seg_find (xs @ rest) k absof = Some (k + length ys) \<and> seg_absof seg = n + lens ys \<and>
    seg_absof seg \<le> absof \<and> absof < seg_absof seg + seg_of seg"
  using assms
proof (induction xs arbitrary: n k)
  case (Cons s xs)
  show ?case
  proof (cases "absof < n + seg_of s")
    case True
    then show ?thesis using Cons.prems by (intro exI [of _ "[]"] exI [of _ s] exI [of _ xs]) simp
  next
    case False
    obtain ys seg zs where "xs = ys @ seg # zs" "seg_find (xs @ rest) (Suc k) absof = Some (Suc k + length ys)"
      "seg_absof seg = n + seg_of s + lens ys" "seg_absof seg \<le> absof" "absof < seg_absof seg + seg_of seg"
      using Cons.IH [of "n + seg_of s" "Suc k"] Cons.prems False by (auto simp: add.assoc)
    then show ?thesis using False Cons.prems by (intro exI [of _ "s # ys"] exI [of _ seg] exI [of _ zs]) simp
  qed
qed simp

lemma get_segment_at_offset_ok:
  assumes "buf_view rbuf pre seg post" and "absof < rbuf_len rbuf" and "case hint of None \<Rightarrow> True | Some h \<Rightarrow> h \<le> length pre"
  shows "\<exists>ys s zs. pre @ [seg] = ys @ s # zs \<and> rd_buf_get_segment_at_offset rbuf hint absof = Inr (Some (length ys)) \<and>
    seg_absof s = lens ys \<and> seg_absof s \<le> absof \<and> absof < seg_absof s + seg_of s"
proof -
  note v = assms(1) [unfolded buf_view_def]
  define first where "first = (case hint of None \<Rightarrow> 0 | Some h \<Rightarrow> if absof < seg_absof ((pre @ [seg]) ! h) then 0 else h)"
  have segs: "rbuf_segments rbuf = (pre @ [seg]) @ post" using v by simp
  have le: "first \<le> length pre" using assms(3) by (auto simp: first_def split: option.splits)
  have split: "pre @ [seg] = take first (pre @ [seg]) @ drop first (pre @ [seg])" by (simp only: append_take_drop_id)
  have offs: "absofs_ok 0 (pre @ [seg])" "rbuf_len rbuf = lens (pre @ [seg])" using v by simp_all
  then have d: "absofs_ok (lens (take first (pre @ [seg]))) (drop first (pre @ [seg]))"
    by (metis absofs_ok_append add_0 split)
  have nth: "seg_absof ((pre @ [seg]) ! first) = lens (take first (pre @ [seg]))"
  proof -
    have "drop first (pre @ [seg]) = (pre @ [seg]) ! first # drop (Suc first) (pre @ [seg])"
      using le by (intro Cons_nth_drop_Suc [symmetric]) simp
    with d show ?thesis by (metis absofs_ok.simps(2))
  qed
  have ge: "lens (take first (pre @ [seg])) \<le> absof"
    using nth by (auto simp: first_def split: option.splits if_splits)
  have "absof < lens (take first (pre @ [seg])) + lens (drop first (pre @ [seg]))"
    using assms(2) offs(2) split by (metis lens_simps(3))
  from seg_find_ok [OF d ge this, of post first] obtain ys s zs where
    f: "drop first (pre @ [seg]) = ys @ s # zs" "seg_find (drop first (pre @ [seg]) @ post) first absof = Some (first + length ys)"
      "seg_absof s = lens (take first (pre @ [seg])) + lens ys" "seg_absof s \<le> absof" "absof < seg_absof s + seg_of s" by blast
  have "rd_buf_get_segment_at_offset rbuf hint absof = Inr (Some (first + length ys))"
  proof -
    have "(case hint of None \<Rightarrow> Inr 0 | Some i \<Rightarrow> bindR (seg_at rbuf i) (\<lambda>seg. Inr (if absof < seg_absof seg then 0 else i))) = (Inr first :: nat res)"
      using assms(3) by (auto simp: first_def seg_at_def segs nth_append split: option.splits)
    moreover have "drop first (rbuf_segments rbuf) = drop first (pre @ [seg]) @ post" using le by (simp add: segs)
    ultimately show ?thesis using assms(2) le f(2) by (simp add: rd_buf_get_segment_at_offset_def segs)
  qed
  moreover have "length (take first (pre @ [seg])) = first" using le by simp
  moreover have "pre @ [seg] = (take first (pre @ [seg]) @ ys) @ s # zs" using f(1) split by (metis append_assoc)
  ultimately show ?thesis using f(3-5) by (metis length_append lens_simps(3))
qed

lemma buf_view_shape:
  assumes "buf_view rbuf pre seg post" and "list_all2 same_shape (pre @ [seg]) xs"
  shows "\<exists>pre' seg'. buf_view (rbuf\<lparr>rbuf_segments := xs @ post\<rparr>) pre' seg' post \<and> xs = pre' @ [seg']"
proof -
  obtain pre' seg' where xs: "xs = pre' @ [seg']" using assms(2) by (cases xs rule: rev_cases) auto
  then have "length pre' = length pre" using assms(2) by (auto dest: list_all2_lengthD)
  then have sh: "list_all2 same_shape pre pre'" "same_shape seg seg'" using assms(2) list_all2_append [of pre pre'] by (simp_all add: xs)
  have "buf_view (rbuf\<lparr>rbuf_segments := xs @ post\<rparr>) pre' seg' post"
    using assms(1) same_shapes [OF sh(1)] same_shape_fields [OF sh(2)] unfolding buf_view_def xs by (simp add: ball_Un)
  then show ?thesis using xs by blast
qed

lemma patch_prefix: "length xs \<le> i \<Longrightarrow> patch (xs @ ys) i zs = xs @ patch ys (i - length xs) zs"
  by (simp add: patch_def)

lemma write_update_ok:
  assumes "buf_ok rbuf" and "absof < rbuf_len rbuf" and "absof + length src \<le> rbuf_len rbuf"
  shows "\<exists>rbuf'. rd_buf_write_update rbuf absof src (length src) = Inr (rbuf', length src) \<and> buf_ok rbuf' \<and>
    buf_data rbuf' = patch (buf_data rbuf) absof src"
proof -
  obtain pre seg post where view: "buf_view rbuf pre seg post" using assms by (auto simp: buf_ok_def buf_empty_def)
  note v = view [unfolded buf_view_def]
  obtain ys s zs where f: "pre @ [seg] = ys @ s # zs" "rd_buf_get_segment_at_offset rbuf (rbuf_wpos rbuf) absof = Inr (Some (length ys))"
    "seg_absof s = lens ys" "seg_absof s \<le> absof" "absof < seg_absof s + seg_of s"
    using get_segment_at_offset_ok [OF view assms(2), of "rbuf_wpos rbuf"] v by auto
  have len: "rbuf_len rbuf = lens (ys @ s # zs)" "absofs_ok 0 (ys @ s # zs)" "\<forall>x \<in> set (ys @ s # zs). seg_ok x"
    using v unfolding f(1) [symmetric] by simp_all
  have segs: "rbuf_segments rbuf = ys @ (s # zs) @ post" using v f(1) by simp
  from update_loop_ok [of "lens ys" s zs absof src "length src" "rbuf_len rbuf" post] obtain segs' where
    u: "update_loop (rbuf_len rbuf) ((s # zs) @ post) absof src (length src) = Inr (segs' @ post)" "list_all2 same_shape (s # zs) segs'"
      "concat (map seg_data segs') = patch (concat (map seg_data (s # zs))) (absof - lens ys) src"
    using len f assms(3) by auto
  have shape: "list_all2 same_shape (pre @ [seg]) (ys @ segs')" unfolding f(1) using u(2) by (simp add: list_all2_appendI)
  from buf_view_shape [OF view this] obtain pre' seg' where
    view': "buf_view (rbuf\<lparr>rbuf_segments := (ys @ segs') @ post\<rparr>) pre' seg' post" "ys @ segs' = pre' @ [seg']" by blast
  let ?rbuf = "rbuf\<lparr>rbuf_segments := (ys @ segs') @ post\<rparr>"
  have "buf_data ?rbuf = concat (map seg_data (ys @ segs'))" using buf_view_data [OF view'(1)] view'(2) by simp
  moreover have "buf_data rbuf = concat (map seg_data ys) @ concat (map seg_data (s # zs))"
    using buf_view_data [OF view] arg_cong [OF f(1), of "\<lambda>x. concat (map seg_data x)"] by simp
  moreover have "length (concat (map seg_data ys)) = lens ys" using len(3) by (simp add: length_segs_data)
  ultimately have "buf_data ?rbuf = patch (buf_data rbuf) absof src" using u(3) patch_prefix [of "concat (map seg_data ys)" absof] f(3,4) by simp
  moreover have "rd_buf_write_update rbuf absof src (length src) = Inr (?rbuf, length src)"
    using f(2) u(1) segs by (simp add: rd_buf_write_update_def rd_buf_len_def)
  ultimately show ?thesis using buf_okI [OF view'(1)] by blast
qed

section \<open>Pushing appends\<close>

lemma append_full_segment_ok:
  assumes "buf_empty rbuf \<or> (\<exists>pre s. buf_view rbuf pre s [] \<and> seg_of s = seg_size s)" and "seg_ok seg" and "seg_of seg = seg_size seg"
  shows "\<exists>pre. buf_view (rd_buf_append_segment rbuf seg) pre (seg\<lparr>seg_absof := rbuf_len rbuf\<rparr>) [] \<and>
    buf_data (rd_buf_append_segment rbuf seg) = buf_data rbuf @ seg_data seg"
proof -
  let ?seg = "seg\<lparr>seg_absof := rbuf_len rbuf\<rparr>"
  let ?rbuf = "rbuf\<lparr>rbuf_segments := rbuf_segments rbuf @ [?seg], rbuf_segment_cnt := rbuf_segment_cnt rbuf + 1,
      rbuf_len := rbuf_len rbuf + seg_of seg, rbuf_size := rbuf_size rbuf + seg_size seg\<rparr>"
  have seg: "seg_ok ?seg" using assms(2) by (simp add: seg_ok_def rdonly_def)
  have "\<exists>w pre. rd_buf_append_segment rbuf seg = ?rbuf\<lparr>rbuf_wpos := Some w\<rparr> \<and> buf_view (?rbuf\<lparr>rbuf_wpos := Some w\<rparr>) pre ?seg []"
    using assms(1)
  proof
    assume e: "buf_empty rbuf"
    then show ?thesis using seg
      by (intro exI [of _ 0] exI [of _ "[]"]) (simp add: buf_empty_def rd_buf_append_segment_def buf_view_def)
  next
    assume "\<exists>pre s. buf_view rbuf pre s [] \<and> seg_of s = seg_size s"
    then obtain pre s where v: "buf_view rbuf pre s []" and full: "seg_of s = seg_size s" by blast
    note v' = v [unfolded buf_view_def]
    have s: "rd_segment_write_remains s = 0" "rd_segment_write_remains ?seg = 0"
      using v' seg full assms(3) by (simp_all add: remains_ok)
    have "writable_loop (pre @ [s, ?seg]) n (length pre) = (pre @ [s, ?seg], Suc (length pre), 0)" for n
    proof -
      have "writable_loop (pre @ [s, ?seg]) n (length pre) = writable_loop (pre @ [s, ?seg]) n (Suc (length pre))"
        by (subst writable_loop.simps) (simp add: s(1) Let_def)
      also have "\<dots> = (pre @ [s, ?seg], Suc (length pre), 0)"
        by (subst writable_loop.simps) (simp add: s(2) nth_append Let_def)
      finally show ?thesis .
    qed
    then have "rd_buf_append_segment rbuf seg = ?rbuf\<lparr>rbuf_wpos := Some (Suc (length pre))\<rparr>"
      using v' by (simp add: rd_buf_append_segment_def rd_buf_get_writable0_def Let_def)
    moreover have "buf_view (?rbuf\<lparr>rbuf_wpos := Some (Suc (length pre))\<rparr>) (pre @ [s]) ?seg []"
      using v' seg full unfolding buf_view_def by simp
    ultimately show ?thesis by blast
  qed
  moreover have "buf_data (?rbuf\<lparr>rbuf_wpos := w\<rparr>) = buf_data rbuf @ seg_data seg" for w by (simp add: buf_data_def seg_data_def)
  ultimately show ?thesis by metis
qed

lemma split_ok:
  assumes "buf_view rbuf pre seg post" and "seg_of seg < seg_size seg"
  shows "\<exists>rbuf' seg' tail. rd_segment_split rbuf (length pre) (seg_absof seg + seg_of seg) = Inr (rbuf', tail) \<and>
    buf_view rbuf' pre seg' post \<and> seg_of seg' = seg_size seg' \<and> buf_data rbuf' = buf_data rbuf \<and> rbuf_len rbuf' = rbuf_len rbuf \<and>
    seg_of tail = 0 \<and> 0 < seg_size tail \<and> length (seg_mem tail) = seg_size tail \<and> \<not> rdonly tail"
proof -
  note v = assms(1) [unfolded buf_view_def]
  obtain rbuf1 new where a: "rd_buf_alloc_segment0 rbuf 0 = (rbuf1, new)" by fastforce
  note f = alloc_segment0_fields [OF a]
  have ok: "seg_ok seg" "\<not> rdonly seg" using v assms(2) by (auto simp: seg_ok_def)
  define tail where "tail = new\<lparr>seg_p := map_option (\<lambda>(b, k). (b, k + seg_of seg)) (seg_p seg), seg_mem := drop (seg_of seg) (seg_mem seg),
     seg_of := 0, seg_size := seg_size seg - seg_of seg, seg_absof := 2 ^ 64 - 1, seg_flags := seg_flags new OR seg_flags seg\<rparr>"
  define seg' where "seg' = seg\<lparr>seg_mem := take (seg_of seg) (seg_mem seg), seg_size := seg_of seg\<rparr>"
  define rbuf' where "rbuf' = rbuf1\<lparr>rbuf_segments := pre @ seg' # post, rbuf_size := rbuf_size rbuf - (seg_size seg - seg_of seg)\<rparr>"
  have r1: "rbuf_segments rbuf1 = pre @ seg # post" "rbuf_wpos rbuf1 = Some (length pre)" "rbuf_segment_cnt rbuf1 = rbuf_segment_cnt rbuf"
    "rbuf_len rbuf1 = rbuf_len rbuf" "rbuf_size rbuf1 = rbuf_size rbuf"
    using v by (subst f(5), simp)+
  have sz: "seg_size seg - seg_of seg \<le> rbuf_size rbuf" "seg_of seg \<le> seg_size seg" using v assms(2) by simp_all
  have "rd_segment_split rbuf (length pre) (seg_absof seg + seg_of seg) = Inr (rbuf', tail)"
    using v r1 sz a by (simp add: rd_segment_split_def seg_at_def Let_def seg_put_def tail_def seg'_def rbuf'_def)
  moreover have seg': "seg_ok seg'" using ok assms(2) by (simp add: seg'_def seg_ok_def rdonly_def)
  moreover have "buf_view rbuf' pre seg' post"
    unfolding buf_view_def using v r1 seg' sz by (simp add: rbuf'_def) (simp add: seg'_def)
  moreover have "buf_data rbuf' = buf_data rbuf"
    using v by (simp add: buf_data_def rbuf'_def) (simp add: seg'_def seg_data_def)
  moreover have "rdonly tail = (rdonly new \<or> rdonly seg)"
    unfolding rdonly_def tail_def by (simp add: flag_or_iff del: de_Morgan_conj)
  ultimately show ?thesis
    using f(4) ok assms(2) r1(4)
    by (intro exI [of _ rbuf'] exI [of _ seg'] exI [of _ tail]) (simp add: tail_def seg_ok_def rbuf'_def, simp add: seg'_def)
qed

lemma push_ok:
  assumes "buf_empty rbuf \<or> (\<exists>pre seg. buf_view rbuf pre seg [])" and "length payload = n"
  shows "\<exists>rbuf'. rd_buf_push rbuf ptr payload n free_cb = Inr rbuf' \<and> buf_ok rbuf' \<and> buf_data rbuf' = buf_data rbuf @ payload"
proof -
  let ?whole = "\<lambda>rbuf. push_segment rbuf ptr payload n free_cb"
  have whole: "\<exists>pre s. buf_view (?whole rbuf0) pre s [] \<and> seg_of s = seg_size s \<and> buf_data (?whole rbuf0) = buf_data rbuf0 @ payload"
    if "buf_empty rbuf0 \<or> (\<exists>pre s. buf_view rbuf0 pre s [] \<and> seg_of s = seg_size s)" for rbuf0
  proof -
    obtain rbuf1 seg where a: "rd_buf_alloc_segment0 rbuf0 0 = (rbuf1, seg)" by fastforce
    note f = alloc_segment0_fields [OF a]
    let ?seg = "seg\<lparr>seg_p := Some ptr, seg_mem := payload, seg_size := n, seg_of := n, seg_free := free_cb,
          seg_flags := seg_flags seg OR RD_SEGMENT_F_RDONLY\<rparr>"
    have "buf_empty rbuf1 \<or> (\<exists>pre s. buf_view rbuf1 pre s [] \<and> seg_of s = seg_size s)"
      using that by (subst f(5), subst (2) f(5)) (simp add: buf_ok_extra buf_empty_def)
    from append_full_segment_ok [OF this, of ?seg] obtain pre where
      "buf_view (rd_buf_append_segment rbuf1 ?seg) pre (?seg\<lparr>seg_absof := rbuf_len rbuf1\<rparr>) []"
      "buf_data (rd_buf_append_segment rbuf1 ?seg) = buf_data rbuf1 @ payload"
      using assms(2) by (auto simp: seg_ok_def seg_data_def)
    moreover have "buf_data rbuf1 = buf_data rbuf0" by (subst f(5)) (simp add: buf_ok_extra)
    ultimately show ?thesis unfolding push_segment_def a Let_def by (intro exI conjI) auto
  qed
  show ?thesis
    using assms(1)
  proof
    assume "buf_empty rbuf"
    then show ?thesis using whole [of rbuf] by (auto simp: rd_buf_push_def buf_empty_def buf_ok_def)
  next
    assume "\<exists>pre seg. buf_view rbuf pre seg []"
    then obtain pre seg where v: "buf_view rbuf pre seg []" by blast
    have at0: "rbuf_wpos rbuf = Some (length pre)" "seg_at rbuf (length pre) = Inr seg" "seg_ok seg"
      using v by (auto simp: buf_view_def seg_at_def)
    show ?thesis
    proof (cases "seg_of seg < seg_size seg")
      case True
      from split_ok [OF v True] obtain rbuf1 seg1 tail where
        sp: "rd_segment_split rbuf (length pre) (seg_absof seg + seg_of seg) = Inr (rbuf1, tail)"
          "buf_view rbuf1 pre seg1 []" "seg_of seg1 = seg_size seg1" "buf_data rbuf1 = buf_data rbuf"
          "seg_of tail = 0" "0 < seg_size tail" "length (seg_mem tail) = seg_size tail" "\<not> rdonly tail" by blast
      from whole [of rbuf1] sp(2,3) obtain pre2 s2 where w: "buf_view (?whole rbuf1) pre2 s2 []" "buf_data (?whole rbuf1) = buf_data rbuf1 @ payload" by blast
      show ?thesis
        using append_empty_segment_ok [OF buf_okI [OF w(1)] sp(5-8)] w(2) sp(1,4) at0 True by (simp add: rd_buf_push_def remains_ok)
    next
      case False
      then have "seg_of seg = seg_size seg" using at0(3) by (simp add: seg_ok_def)
      then show ?thesis using whole [of rbuf] v at0 by (auto simp: rd_buf_push_def remains_ok buf_ok_def)
    qed
  qed
qed

section \<open>A write that does not return\<close>

text \<open>At the end of the segments without room the loop repeats itself.\<close>

lemma write_loop_stuck:
  assumes "rbuf_wpos rbuf = Some i" and "length (rbuf_segments rbuf) = Suc i" and "rd_segment_write_remains (rbuf_segments rbuf ! i) = 0"
    and "seg_of (rbuf_segments rbuf ! i) \<le> length (seg_mem (rbuf_segments rbuf ! i))" and "0 < n"
  shows "write_loop rbuf (Some src) n = None"
proof -
  have loop: "rd_buf_get_writable0 rbuf = (rbuf, Some i, 0)"
    using assms(1-3) by (simp add: rd_buf_get_writable0_def writable_loop.simps [of _ _ i] Let_def)
  have same: "write_some rbuf i (Some s) 0 = Inr rbuf" for s
  proof -
    have "seg_put rbuf i (rbuf_segments rbuf ! i) = rbuf" by (simp add: seg_put_def)
    then show ?thesis using assms(2,4) by (simp add: write_some_def seg_at_def memcpy_def)
  qed
  have stuck: "a = rbuf \<longrightarrow> b \<noteq> None \<longrightarrow> 0 < c \<longrightarrow> False" if "write_loop a b c = Some r" for a b c r
  proof (rule write_loop.raw_induct [OF _ that, of "\<lambda>a b c r. a = rbuf \<longrightarrow> b \<noteq> None \<longrightarrow> 0 < c \<longrightarrow> False"])
    fix f a b c r
    assume IH: "\<And>a b c r. f a b c = Some r \<Longrightarrow> a = rbuf \<longrightarrow> b \<noteq> None \<longrightarrow> 0 < c \<longrightarrow> False"
      and body: "(if c = 0 then Some (Inr a)
        else case rd_buf_get_writable0 a of
               (rbuf, None, segremains) \<Rightarrow> Some (Inl Indeterminate)
             | (rbuf, Some i, segremains) \<Rightarrow>
               let wlen = min c segremains
               in case write_some rbuf i b wlen of
                    Inl e \<Rightarrow> Some (Inl e)
                  | Inr rbuf \<Rightarrow> f rbuf (map_option (drop wlen) b) (c - wlen)) = Some r"
    show "a = rbuf \<longrightarrow> b \<noteq> None \<longrightarrow> 0 < c \<longrightarrow> False"
    proof (intro impI)
      assume a: "a = rbuf" "b \<noteq> None" "0 < c"
      then obtain y where b: "b = Some y" by blast
      have "f rbuf (Some y) c = Some r" using body a(3) unfolding a(1) b loop by (simp add: same)
      then show False using IH a b by blast
    qed
  qed
  show ?thesis
  proof (cases "write_loop rbuf (Some src) n")
    case (Some r)
    from stuck [OF this] assms(5) show ?thesis by simp
  qed
qed

section \<open>A push before a segment allocated ahead\<close>

text \<open>
  The memory pushed goes behind all segments, also behind those allocated ahead, and the write position
  to the first of these: it is before the memory pushed.
\<close>

lemma append_behind_waiting:
  assumes "rbuf_segments rbuf = pre @ seg # e # post" and "rbuf_wpos rbuf = Some (length pre)"
    and "rd_segment_write_remains seg = 0" and "waiting (rbuf_len rbuf) e"
  shows "rd_buf_append_segment rbuf s = rbuf\<lparr>rbuf_segments :=
      pre @ seg # e\<lparr>seg_absof := rbuf_len rbuf + seg_of s\<rparr> # post @ [s\<lparr>seg_absof := rbuf_len rbuf\<rparr>],
    rbuf_wpos := Some (Suc (length pre)), rbuf_segment_cnt := rbuf_segment_cnt rbuf + 1,
    rbuf_len := rbuf_len rbuf + seg_of s, rbuf_size := rbuf_size rbuf + seg_size s\<rparr>"
proof -
  let ?segs = "pre @ seg # e # post @ [s\<lparr>seg_absof := rbuf_len rbuf\<rparr>]" and ?len = "rbuf_len rbuf + seg_of s"
  have nth: "(pre @ seg # x # ys) ! Suc (length pre) = x" "(pre @ seg # x # ys)[Suc (length pre) := y] = pre @ seg # y # ys" for x y ys
    by (simp_all add: nth_append list_update_append)
  have e: "0 < rd_segment_write_remains e" "seg_of e = 0" "\<not> seg_absof e < ?len \<Longrightarrow> e\<lparr>seg_absof := ?len\<rparr> = e"
    using assms(4) by (auto simp: waiting_def rd_segment_write_remains_def rdonly_def)
  have "writable_loop ?segs ?len (length pre) = writable_loop ?segs ?len (Suc (length pre))"
    using assms(3) by (subst writable_loop.simps) (simp add: Let_def)
  also have "\<dots> = (pre @ seg # e\<lparr>seg_absof := ?len\<rparr> # post @ [s\<lparr>seg_absof := rbuf_len rbuf\<rparr>], Suc (length pre), rd_segment_write_remains e)"
    using e by (subst writable_loop.simps) (simp add: Let_def nth)
  finally show ?thesis using assms(1,2) by (simp add: rd_buf_append_segment_def rd_buf_get_writable0_def Let_def)
qed

lemma push_segment_behind_waiting:
  assumes "buf_view rbuf pre seg (e # post)" and "seg_of seg = seg_size seg"
  shows "\<exists>rbuf' s. push_segment rbuf ptr payload (length payload) free_cb = rbuf' \<and>
    rbuf_segments rbuf' = pre @ seg # e\<lparr>seg_absof := rbuf_len rbuf'\<rparr> # post @ [s] \<and> seg_data s = payload \<and>
    rbuf_wpos rbuf' = Some (Suc (length pre)) \<and> rbuf_len rbuf' = rbuf_len rbuf + length payload \<and>
    rbuf_size rbuf' = rbuf_size rbuf + length payload"
proof -
  note v = assms(1) [unfolded buf_view_def]
  obtain r1 s where a: "rd_buf_alloc_segment0 rbuf 0 = (r1, s)" by fastforce
  note f = alloc_segment0_fields [OF a]
  have r1: "rbuf_segments r1 = pre @ seg # e # post" "rbuf_wpos r1 = Some (length pre)" "rbuf_len r1 = rbuf_len rbuf" "rbuf_size r1 = rbuf_size rbuf"
    using v by (subst f(5), simp)+
  have "rd_segment_write_remains seg = 0" "waiting (rbuf_len r1) e" using v assms(2) r1(3) by (simp_all add: remains_ok)
  from append_behind_waiting [OF r1(1,2) this] show ?thesis
    using r1 by (simp add: push_segment_def a seg_data_def)
qed

lemma push_behind_waiting:
  assumes "buf_view rbuf pre seg (e # post)"
  shows "\<exists>rbuf' seg' rest. rd_buf_push rbuf ptr payload (length payload) free_cb = Inr rbuf' \<and>
    rbuf_segments rbuf' = (pre @ [seg']) @ e\<lparr>seg_absof := rbuf_len rbuf'\<rparr> # post @ rest \<and>
    seg_data seg' = seg_data seg \<and> concat (map seg_data rest) = payload \<and>
    rbuf_wpos rbuf' = Some (length (pre @ [seg'])) \<and> rbuf_len rbuf' + seg_size e \<le> rbuf_size rbuf'"
proof -
  have at0: "rbuf_wpos rbuf = Some (length pre)" "seg_at rbuf (length pre) = Inr seg" "seg_ok seg"
    and e: "seg_ok e" "seg_of e = 0" "0 < seg_size e" "\<not> rdonly e"
    using assms by (auto simp: buf_view_def seg_at_def waiting_def)
  have room: "rbuf_len r + seg_size e \<le> rbuf_size r" if "buf_view r pre s (e # post)" for r s
    using that sizes_full [of pre] by (auto simp: buf_view_def seg_ok_def)
  show ?thesis
  proof (cases "seg_of seg < seg_size seg")
    case True
    obtain r1 seg1 tail where sp: "rd_segment_split rbuf (length pre) (seg_absof seg + seg_of seg) = Inr (r1, tail)"
        "buf_view r1 pre seg1 (e # post)" "seg_of seg1 = seg_size seg1" "buf_data r1 = buf_data rbuf" "seg_of tail = 0"
      using split_ok [OF assms True] by blast
    obtain r2 s where p: "push_segment r1 ptr payload (length payload) free_cb = r2" "rbuf_segments r2 = pre @ seg1 # e\<lparr>seg_absof := rbuf_len r2\<rparr> # post @ [s]"
        "seg_data s = payload" "rbuf_wpos r2 = Some (Suc (length pre))" "rbuf_len r2 = rbuf_len r1 + length payload" "rbuf_size r2 = rbuf_size r1 + length payload"
      using push_segment_behind_waiting [OF sp(2,3)] by blast
    have nth: "(pre @ seg1 # x # ys) ! Suc (length pre) = x" for x ys by (simp add: nth_append)
    have "rd_segment_write_remains (e\<lparr>seg_absof := n\<rparr>) = seg_size e" for n
      using e by (simp add: rd_segment_write_remains_def rdonly_def)
    then have "rd_buf_append_segment r2 tail = r2\<lparr>rbuf_segments := rbuf_segments r2 @ [tail\<lparr>seg_absof := rbuf_len r2\<rparr>],
        rbuf_segment_cnt := rbuf_segment_cnt r2 + 1, rbuf_size := rbuf_size r2 + seg_size tail\<rparr>"
      using p(2,4) sp(5) e
      by (simp add: rd_buf_append_segment_def rd_buf_get_writable0_def writable_loop.simps [of _ _ "Suc (length pre)"] nth Let_def)
    moreover have "rd_buf_push rbuf ptr payload (length payload) free_cb = Inr (rd_buf_append_segment r2 tail)"
      using at0 True sp(1) p(1) by (simp add: rd_buf_push_def remains_ok)
    moreover have "seg_data seg1 = seg_data seg"
      using sp(4) buf_view_data [OF sp(2)] buf_view_data [OF assms] by simp
    ultimately show ?thesis using p sp(5) room [OF sp(2)]
      by (intro exI [of _ "rd_buf_append_segment r2 tail"] exI [of _ seg1] exI [of _ "[s, tail\<lparr>seg_absof := rbuf_len r2\<rparr>]"])
        (simp add: seg_data_def)
  next
    case False
    then have full: "seg_of seg = seg_size seg" using at0(3) by (simp add: seg_ok_def)
    obtain r2 s where p: "push_segment rbuf ptr payload (length payload) free_cb = r2" "rbuf_segments r2 = pre @ seg # e\<lparr>seg_absof := rbuf_len r2\<rparr> # post @ [s]"
        "seg_data s = payload" "rbuf_wpos r2 = Some (Suc (length pre))" "rbuf_len r2 = rbuf_len rbuf + length payload" "rbuf_size r2 = rbuf_size rbuf + length payload"
      using push_segment_behind_waiting [OF assms full] by blast
    have "rd_buf_push rbuf ptr payload (length payload) free_cb = Inr r2"
      using at0 full p(1) by (simp add: rd_buf_push_def remains_ok)
    then show ?thesis using p room [OF assms] by (intro exI [of _ r2] exI [of _ seg] exI [of _ "[s]"]) simp
  qed
qed

lemma write_at_position:
  assumes "rbuf_segments rbuf = xs @ e # ys" and "rbuf_wpos rbuf = Some (length xs)" and "seg_of e = 0" and "\<not> rdonly e"
    and "length (seg_mem e) = seg_size e" and "seg_absof e = rbuf_len rbuf" and "rbuf_len rbuf + seg_size e \<le> rbuf_size rbuf"
    and "src \<noteq> []" and "length src \<le> seg_size e"
  shows "\<exists>rbuf'. rd_buf_write rbuf (Some src) (length src) = Some (Inr (rbuf', rbuf_len rbuf)) \<and>
    buf_data rbuf' = concat (map seg_data xs) @ src @ concat (map seg_data ys)"
proof -
  have room: "rd_segment_write_remains e = seg_size e" using assms(3,4) by (simp add: rd_segment_write_remains_def rdonly_def)
  have ensure: "rd_buf_write_ensure rbuf (length src) 0 = Some rbuf"
  proof -
    have "rbuf_len rbuf \<le> rbuf_size rbuf" "length src \<le> rbuf_size rbuf - rbuf_len rbuf" using assms(7,9) by linarith+
    then have "\<not> rd_buf_write_remains rbuf < length src" by (simp add: rd_buf_write_remains_def)
    then show ?thesis by (subst rd_buf_write_ensure.simps) simp
  qed
  have "0 < seg_size e" using assms(8,9) by (cases src) auto
  then have get: "rd_buf_get_writable0 rbuf = (rbuf, Some (length xs), seg_size e)"
    using assms(1,2,6) room by (simp add: rd_buf_get_writable0_def writable_loop.simps [of _ _ "length xs"] Let_def)
  obtain rbuf' where w: "write_some rbuf (length xs) (Some src) (length src) = Inr rbuf'" and
      segs: "rbuf_segments rbuf' = xs @ e\<lparr>seg_mem := patch (seg_mem e) 0 src, seg_of := length src\<rparr> # ys"
    using assms(1,3,5,9) by (simp add: write_some_def seg_at_def memcpy_def seg_put_def patch_def)
  have "write_loop rbuf (Some src) (length src) = Some (Inr rbuf')"
    using assms(8,9) get w by (subst write_loop.simps) (simp add: min_absorb1 write_loop.simps [of _ _ 0])
  moreover have "buf_data rbuf' = concat (map seg_data xs) @ src @ concat (map seg_data ys)"
    using segs assms(9) by (simp add: buf_data_def seg_data_def patch_def)
  ultimately show ?thesis using ensure by (simp add: rd_buf_write_def)
qed

lemma waiting_push_data:
  assumes "buf_view rbuf pre seg (e # post)" and "rbuf_segments rbuf1 = (pre @ [seg']) @ e\<lparr>seg_absof := n\<rparr> # post @ rest"
    and "seg_data seg' = seg_data seg" and "concat (map seg_data rest) = payload"
  shows "buf_data rbuf1 = buf_data rbuf @ payload"
proof -
  have "seg_of e = 0" "concat (map seg_data post) = []"
    using assms(1) lens_waiting [of post] by (auto simp: buf_view_def waiting_def)
  then show ?thesis
    using assms(2-4) buf_view_data [OF assms(1)] by (simp add: buf_data_def [of rbuf1] seg_data_def [of "_\<lparr>seg_absof := _\<rparr>"])
qed

text \<open>What is written after such a push stands before the memory pushed.\<close>

lemma write_after_push_reordered:
  assumes "buf_view rbuf pre seg (e # post)" and "src \<noteq> []" and "length src \<le> seg_size e"
  shows "\<exists>rbuf1 rbuf2 initial. rd_buf_push rbuf ptr payload (length payload) free_cb = Inr rbuf1 \<and>
    buf_data rbuf1 = buf_data rbuf @ payload \<and>
    rd_buf_write rbuf1 (Some src) (length src) = Some (Inr (rbuf2, initial)) \<and>
    buf_data rbuf2 = buf_data rbuf @ src @ payload"
proof -
  obtain rbuf1 seg' rest where p: "rd_buf_push rbuf ptr payload (length payload) free_cb = Inr rbuf1"
      "rbuf_segments rbuf1 = (pre @ [seg']) @ e\<lparr>seg_absof := rbuf_len rbuf1\<rparr> # post @ rest"
      "seg_data seg' = seg_data seg" "concat (map seg_data rest) = payload"
      "rbuf_wpos rbuf1 = Some (length (pre @ [seg']))" "rbuf_len rbuf1 + seg_size e \<le> rbuf_size rbuf1"
    using push_behind_waiting [OF assms(1)] by blast
  have e: "seg_of e = 0" "\<not> rdonly e" "length (seg_mem e) = seg_size e" "concat (map seg_data post) = []"
    using assms(1) lens_waiting [of post] by (auto simp: buf_view_def waiting_def seg_ok_def)
  note data = buf_view_data [OF assms(1)]
  have "buf_data rbuf1 = buf_data rbuf @ payload" by (rule waiting_push_data [OF assms(1) p(2-4)])
  moreover obtain rbuf2 where "rd_buf_write rbuf1 (Some src) (length src) = Some (Inr (rbuf2, rbuf_len rbuf1))"
      "buf_data rbuf2 = concat (map seg_data (pre @ [seg'])) @ src @ concat (map seg_data (post @ rest))"
    using write_at_position [OF p(2,5), of src] e p(6) assms(2,3) by (auto simp: rdonly_def)
  ultimately show ?thesis using p(1,3,4) e(4) by (simp add: data)
qed

section \<open>A contiguous segment\<close>

text \<open>A segment asked for while the current one still has room leaves that room behind.\<close>

lemma ensure_contig_new:
  assumes "buf_view rbuf pre seg []" and "seg_size seg - seg_of seg < n" and "seg_of seg < seg_size seg"
  shows "\<exists>rbuf' new. rd_buf_write_ensure_contig rbuf n = Inr rbuf' \<and> rbuf_segments rbuf' = pre @ [seg, new] \<and>
    rbuf_wpos rbuf' = Some (Suc (length pre)) \<and> rbuf_len rbuf' = rbuf_len rbuf \<and> rbuf_size rbuf' = rbuf_size rbuf + n \<and>
    seg_of new = 0 \<and> seg_size new = n \<and> length (seg_mem new) = n \<and> \<not> rdonly new \<and> seg_absof new = rbuf_len rbuf"
proof -
  note v = assms(1) [unfolded buf_view_def]
  obtain r1 s where a: "rd_buf_alloc_segment0 rbuf n = (r1, s)" by fastforce
  note f = alloc_segment0_fields [OF a]
  have r1: "rbuf_segments r1 = pre @ [seg]" "rbuf_wpos r1 = Some (length pre)" "rbuf_len r1 = rbuf_len rbuf" "rbuf_size r1 = rbuf_size rbuf"
    using v by (subst f(5), simp)+
  let ?new = "s\<lparr>seg_absof := rbuf_len rbuf\<rparr>"
  have room: "rd_segment_write_remains seg = seg_size seg - seg_of seg" "0 < seg_size seg - seg_of seg" "\<not> (seg_of seg = 0 \<and> seg_absof seg < rbuf_len rbuf)"
    using v assms(3) by (auto simp: remains_ok)
  have "writable_loop (pre @ [seg, ?new]) (rbuf_len rbuf) (length pre) = (pre @ [seg, ?new], length pre, seg_size seg - seg_of seg)"
    using room by (subst writable_loop.simps) (auto simp: Let_def)
  then have "rd_buf_append_segment r1 s = r1\<lparr>rbuf_segments := pre @ [seg, ?new], rbuf_segment_cnt := rbuf_segment_cnt r1 + 1,
      rbuf_size := rbuf_size rbuf + n\<rparr>"
    using r1 f(1,2) by (simp add: rd_buf_append_segment_def rd_buf_get_writable0_def Let_def)
  moreover have "rd_buf_alloc_segment rbuf n n = rd_buf_append_segment r1 s"
    using assms(2) a by (simp add: rd_buf_alloc_segment_def Let_def)
  moreover have "seg_at rbuf (length pre) = Inr seg" using v by (simp add: seg_at_def)
  ultimately show ?thesis
    using v room(1) assms(2) f r1 by (simp add: rd_buf_write_ensure_contig_def rd_buf_last_def rdonly_def Let_def)
qed

section \<open>Properties\<close>

text \<open>
  C30: a segmented buffer is one array of bytes. Writing any number of bytes returns, appends them
  and yields the position before the write; overwriting written bytes changes exactly these;
  memory that is pushed is appended. Nothing of this faults or writes outside the segments. All this
  leaves a buffer for which it holds again, a push only if the last segment is the current one: behind
  segments allocated ahead it leaves the write position before the memory pushed.
\<close>

theorem buf_is_byte_array:
  assumes "buf_ok rbuf"
  shows "(\<forall>src. \<exists>rbuf'. rd_buf_write rbuf (Some src) (length src) = Some (Inr (rbuf', length (buf_data rbuf))) \<and> buf_ok rbuf' \<and>
      buf_data rbuf' = buf_data rbuf @ src) \<and>
    (\<forall>absof src. absof < length (buf_data rbuf) \<and> absof + length src \<le> length (buf_data rbuf) \<longrightarrow>
      (\<exists>rbuf'. rd_buf_write_update rbuf absof src (length src) = Inr (rbuf', length src) \<and> buf_ok rbuf' \<and>
        buf_data rbuf' = take absof (buf_data rbuf) @ src @ drop (absof + length src) (buf_data rbuf))) \<and>
    (\<forall>ptr payload free_cb. \<exists>rbuf'. rd_buf_push rbuf ptr payload (length payload) free_cb = Inr rbuf' \<and>
      buf_data rbuf' = buf_data rbuf @ payload \<and> (rbuf_wpos rbuf = rd_buf_last rbuf \<longrightarrow> buf_ok rbuf'))"
proof (intro conjI allI impI)
  fix src :: "cell list"
  from write_ensure_ok [OF assms] obtain r1 where e: "rd_buf_write_ensure rbuf (length src) 0 = Some r1" "buf_ok r1"
    "buf_data r1 = buf_data rbuf" "length src \<le> rbuf_size r1 - rbuf_len r1" by blast
  from write_loop_ok [OF e(2,4) refl] obtain r2 where "write_loop r1 (Some src) (length src) = Some (Inr r2)" "buf_ok r2" "buf_data r2 = buf_data r1 @ src"
    by blast
  then show "\<exists>rbuf'. rd_buf_write rbuf (Some src) (length src) = Some (Inr (rbuf', length (buf_data rbuf))) \<and> buf_ok rbuf' \<and>
      buf_data rbuf' = buf_data rbuf @ src"
    using e buf_data_length [OF assms] by (simp add: rd_buf_write_def Let_def)
next
  fix absof and src :: "cell list"
  assume "absof < length (buf_data rbuf) \<and> absof + length src \<le> length (buf_data rbuf)"
  then show "\<exists>rbuf'. rd_buf_write_update rbuf absof src (length src) = Inr (rbuf', length src) \<and> buf_ok rbuf' \<and>
        buf_data rbuf' = take absof (buf_data rbuf) @ src @ drop (absof + length src) (buf_data rbuf)"
    using write_update_ok [OF assms, of absof src] buf_data_length [OF assms] by (simp add: patch_def)
next
  fix ptr payload free_cb
  consider "buf_empty rbuf \<or> (\<exists>pre seg. buf_view rbuf pre seg [])" | pre seg e post where "buf_view rbuf pre seg (e # post)"
    using assms unfolding buf_ok_def by (metis list.exhaust)
  then show "\<exists>rbuf'. rd_buf_push rbuf ptr payload (length payload) free_cb = Inr rbuf' \<and> buf_data rbuf' = buf_data rbuf @ payload \<and>
      (rbuf_wpos rbuf = rd_buf_last rbuf \<longrightarrow> buf_ok rbuf')"
  proof cases
    case 1
    then show ?thesis using push_ok [of rbuf payload "length payload" ptr free_cb] by blast
  next
    case 2
    have "rbuf_wpos rbuf \<noteq> rd_buf_last rbuf" using 2 by (auto simp: buf_view_def rd_buf_last_def)
    then show ?thesis using push_behind_waiting [OF 2, of ptr payload free_cb] waiting_push_data [OF 2] by metis
  qed
qed

definition sample_buf :: rd_buf where
  "sample_buf = \<lparr>rbuf_segments = [], rbuf_segment_cnt = 0, rbuf_wpos = None, rbuf_len = 0, rbuf_size = 0,
     rbuf_extra = Some (Heap 0), rbuf_extra_len = 0, rbuf_extra_size = 72, rbuf_mallocs = 1\<rparr>"

theorem buf_is_byte_array_witness:
  "\<exists>rbuf'. rd_buf_write sample_buf (Some [Some 1, Some 2, Some 3]) 3 = Some (Inr (rbuf', 0)) \<and> buf_data rbuf' = [Some 1, Some 2, Some 3]"
proof -
  have ok: "buf_ok sample_buf" and none: "buf_data sample_buf = []" by (simp_all add: buf_ok_def buf_empty_def sample_buf_def buf_data_def)
  from buf_is_byte_array [OF ok, THEN conjunct1, THEN spec, of "[Some 1, Some 2, Some 3]"] show ?thesis
    by (auto simp: none numeral_3_eq_3)
qed

text \<open>
  C33: the loop that writes does not return if a segment was made contiguous while the current
  segment still had room, and more is written than the new segment holds but no more than the
  buffer counts as free: the room left behind is counted, but never found.
\<close>

theorem write_after_ensure_contig_hangs:
  assumes "buf_view rbuf pre seg []" and "seg_of seg < seg_size seg" and "seg_size seg - seg_of seg < n"
    and "rd_buf_write_ensure_contig rbuf n = Inr rbuf'" and "n < length src" and "length src \<le> n + (seg_size seg - seg_of seg)"
  shows "rd_buf_write rbuf' (Some src) (length src) = None"
proof -
  obtain new where r: "rbuf_segments rbuf' = pre @ [seg, new]" "rbuf_wpos rbuf' = Some (Suc (length pre))" "rbuf_len rbuf' = rbuf_len rbuf"
    "rbuf_size rbuf' = rbuf_size rbuf + n" "seg_of new = 0" "seg_size new = n" "length (seg_mem new) = n" "\<not> rdonly new" "seg_absof new = rbuf_len rbuf"
    using ensure_contig_new [OF assms(1,3,2)] assms(4) by auto
  have nth: "(pre @ [seg, x]) ! Suc (length pre) = x" for x by (simp add: nth_append)
  have rem: "rd_segment_write_remains new = n" using r by (simp add: rd_segment_write_remains_def rdonly_def)
  have size: "rbuf_size rbuf = rbuf_len rbuf + (seg_size seg - seg_of seg)"
    using assms(1,2) by (simp add: buf_view_def sizes_full)
  have ensure: "rd_buf_write_ensure rbuf' (length src) 0 = Some rbuf'"
    using assms(6) size r by (subst rd_buf_write_ensure.simps) (simp add: rd_buf_write_remains_def)
  have g: "rd_buf_get_writable0 rbuf' = (rbuf', Some (Suc (length pre)), n)"
    using r rem assms(2,3) by (simp add: rd_buf_get_writable0_def writable_loop.simps [of _ _ "Suc (length pre)"] nth Let_def)
  define full where "full = new\<lparr>seg_mem := patch (seg_mem new) 0 (take n src), seg_of := n\<rparr>"
  define rbuf2 where "rbuf2 = rbuf'\<lparr>rbuf_segments := pre @ [seg, full], rbuf_len := rbuf_len rbuf + n\<rparr>"
  have upd: "(pre @ [seg, new])[Suc (length pre) := x] = pre @ [seg, x]" for x by (simp add: list_update_append)
  have w: "write_some rbuf' (Suc (length pre)) (Some src) n = Inr rbuf2"
    using r assms(5) by (simp add: write_some_def seg_at_def memcpy_def seg_put_def nth upd full_def rbuf2_def)
  have "write_loop rbuf' (Some src) (length src) = write_loop rbuf2 (Some (drop n src)) (length src - n)"
    using g w assms(5) by (subst write_loop.simps) (auto simp: min_def)
  also have "\<dots> = None"
  proof (rule write_loop_stuck)
    show "rbuf_wpos rbuf2 = Some (Suc (length pre))" "length (rbuf_segments rbuf2) = Suc (Suc (length pre))" by (simp_all add: rbuf2_def r)
    have "length (take n src) = n" using assms(5) by simp
    then show "seg_of (rbuf_segments rbuf2 ! Suc (length pre)) \<le> length (seg_mem (rbuf_segments rbuf2 ! Suc (length pre)))"
      using r(7) by (simp add: rbuf2_def nth full_def length_patch)
    show "rd_segment_write_remains (rbuf_segments rbuf2 ! Suc (length pre)) = 0"
      using r by (simp add: rbuf2_def nth full_def rd_segment_write_remains_def)
  qed (use assms(5) in simp)
  finally show ?thesis using ensure by (simp add: rd_buf_write_def Let_def)
qed

definition half_segment :: rd_segment where
  "half_segment = (rd_segment_init (Extra 0) (Some (Extra 0, 64)) 2)\<lparr>seg_of := 1\<rparr>"

definition half_full_buf :: rd_buf where
  "half_full_buf = sample_buf\<lparr>rbuf_segments := [half_segment], rbuf_segment_cnt := 1, rbuf_wpos := Some 0, rbuf_len := 1, rbuf_size := 2, rbuf_extra_len := 66\<rparr>"

theorem write_after_ensure_contig_hangs_witness:
  "\<exists>rbuf'. rd_buf_write_ensure_contig half_full_buf 3 = Inr rbuf' \<and> rd_buf_write rbuf' (Some [None, None, None, None]) 4 = None"
proof -
  have v: "buf_view half_full_buf [] half_segment []" "seg_of half_segment = 1" "seg_size half_segment = 2"
    by (simp_all add: buf_view_def half_full_buf_def half_segment_def sample_buf_def rd_segment_init_def seg_ok_def rdonly_def)
  then obtain rbuf' where "rd_buf_write_ensure_contig half_full_buf 3 = Inr rbuf'" using ensure_contig_new [OF v(1), of 3] by auto
  moreover from write_after_ensure_contig_hangs [OF v(1) _ _ this, of "[None, None, None, None]"]
  have "rd_buf_write rbuf' (Some [None, None, None, None]) 4 = None" using v by (simp add: numeral_eq_Suc)
  ultimately show ?thesis by blast
qed

end
