(* ===== verification/Rdbuf_Memory.thy ===== *)
theory Rdbuf_Memory
  imports Rdbuf "HOL-Library.Multiset"
begin

unbundle bit_operations_syntax

text \<open>
  Allocation and freeing of the memory of a buffer: in any sequence of operations every heap
  block is freed exactly once, the free function of every payload pushed is called exactly once
  on it, nothing else is freed, and nothing is left over at the end.
\<close>

section \<open>Ownership\<close>

text \<open>The members of a segment that matter to its memory: its own place, the payload, who frees it, the flags.\<close>

type_synonym seg_core = "block \<times> pointer option \<times> free_fun option \<times> 32 word"

definition seg_core :: "rd_segment \<Rightarrow> seg_core" where
  "seg_core seg = (seg_addr seg, seg_p seg, seg_free seg, seg_flags seg)"

text \<open>
  A call of \<open>rd_free\<close> on the start of a heap block frees the block, as the one on a structure does;
  any other call is kept as it is.
\<close>

fun released :: "freed \<Rightarrow> freed" where
  "released (Free_Payload Rd_Free (Heap n, 0)) = Free_Block (Heap n)"
| "released f = f"

fun payload_block :: "seg_core \<Rightarrow> freed list" where
  "payload_block (a, p, f, fl) = (case (f, p) of (Some f, Some p) \<Rightarrow> [released (Free_Payload f p)] | _ \<Rightarrow> [])"

fun struct_block :: "seg_core \<Rightarrow> freed list" where
  "struct_block (a, p, f, fl) = (case a of Heap n \<Rightarrow> [Free_Block (Heap n)] | _ \<Rightarrow> [])"

fun free_flag :: "seg_core \<Rightarrow> bool" where
  "free_flag (a, p, f, fl) \<longleftrightarrow> fl AND RD_SEGMENT_F_FREE \<noteq> 0"

text \<open>The flag says where the structure lives.\<close>

fun core_ok :: "seg_core \<Rightarrow> bool" where
  "core_ok (a, p, f, fl) \<longleftrightarrow> (fl AND RD_SEGMENT_F_FREE \<noteq> 0 \<longleftrightarrow> (case a of Heap n \<Rightarrow> True | _ \<Rightarrow> False))"

definition blocks :: "seg_core list \<Rightarrow> freed list" where
  "blocks cores = concat (map (\<lambda>c. payload_block c @ struct_block c) cores)"

definition cores :: "rd_buf \<Rightarrow> seg_core list" where
  "cores rbuf = map seg_core (rbuf_segments rbuf)"

definition extra_block :: "rd_buf \<Rightarrow> freed list" where
  "extra_block rbuf = (case rbuf_extra rbuf of Some b \<Rightarrow> [Free_Block b] | _ \<Rightarrow> [])"

text \<open>The frees that are due: of every block allocated, and of every payload pushed with a free function.\<close>

definition heap_frees :: "nat \<Rightarrow> freed list" where
  "heap_frees n = map (\<lambda>k. Free_Block (Heap k)) [0..<n]"

definition payload_free :: "free_fun option \<Rightarrow> pointer \<Rightarrow> freed list" where
  "payload_free free_cb ptr = (case free_cb of Some f \<Rightarrow> [Free_Payload f ptr] | None \<Rightarrow> [])"

definition header_room :: "rd_buf \<Rightarrow> bool" where
  "header_room rbuf \<longleftrightarrow> RD_ROUNDUP (rbuf_extra_len rbuf) 8 + sizeof_segment \<le> rbuf_extra_size rbuf"

text \<open>
  Every block that was allocated and every payload that was pushed is owned by the buffer, by one of
  the segments \<open>loose\<close> not yet appended, or was freed, once; the ledger has what was freed and what
  was pushed. A structure is on the heap only if the extra memory is used up.
\<close>

definition heap_ok :: "rd_buf \<Rightarrow> seg_core list \<Rightarrow> freed list \<times> freed list \<Rightarrow> bool" where
  "heap_ok rbuf loose ledger \<longleftrightarrow>
     mset (blocks (cores rbuf)) + mset (blocks loose) + mset (extra_block rbuf) + mset (map released (fst ledger)) =
       mset (heap_frees (rbuf_mallocs rbuf)) + mset (snd ledger) \<and>
     (\<forall>c \<in> set (cores rbuf) \<union> set loose. core_ok c \<and> (free_flag c \<longrightarrow> \<not> header_room rbuf)) \<and>
     (\<forall>b. rbuf_extra rbuf = Some b \<longrightarrow> (\<exists>n. b = Heap n))"

lemma heap_frees_simps [simp]: "heap_frees 0 = []" "heap_frees (Suc n) = heap_frees n @ [Free_Block (Heap n)]"
  by (simp_all add: heap_frees_def)

lemma blocks_simps [simp]:
  "blocks [] = []" "blocks (c # cs) = payload_block c @ struct_block c @ blocks cs" "blocks (cs @ ds) = blocks cs @ blocks ds"
  by (simp_all add: blocks_def)

section \<open>Destroying\<close>

lemma segment_destroy_frees:
  assumes "core_ok (seg_core seg)"
  shows "\<exists>fs. rd_segment_destroy seg = Inr fs \<and> map released fs = payload_block (seg_core seg) @ struct_block (seg_core seg)"
  using assms
  by (auto simp: seg_core_def rd_segment_destroy_def Let_def split: option.splits free_fun.splits block.splits)

lemma destroy_loop_frees:
  "(\<forall>c \<in> set (map seg_core segs). core_ok c) \<Longrightarrow> \<exists>fs. destroy_loop segs = Inr fs \<and> map released fs = blocks (map seg_core segs)"
proof (induction segs)
  case (Cons seg segs)
  then obtain fs where "destroy_loop segs = Inr fs" "map released fs = blocks (map seg_core segs)" by auto
  moreover obtain gs where "rd_segment_destroy seg = Inr gs" "map released gs = payload_block (seg_core seg) @ struct_block (seg_core seg)"
    using segment_destroy_frees [of seg] Cons.prems by auto
  ultimately show ?case by simp
qed simp

lemma destroy_frees:
  assumes "heap_ok rbuf [] (gone, pushed)"
  shows "\<exists>fs. rd_buf_destroy rbuf = Inr fs \<and>
           mset (map released (gone @ fs)) = mset (heap_frees (rbuf_mallocs rbuf)) + mset pushed"
proof -
  obtain fs where fs: "destroy_loop (rbuf_segments rbuf) = Inr fs" "map released fs = blocks (cores rbuf)"
    using destroy_loop_frees [of "rbuf_segments rbuf"] assms by (auto simp: heap_ok_def cores_def)
  have "map released (case rbuf_extra rbuf of None \<Rightarrow> [] | Some b \<Rightarrow> [Free_Block b]) = extra_block rbuf"
    by (simp add: extra_block_def split: option.splits)
  then show ?thesis using assms fs by (auto simp: rd_buf_destroy_def heap_ok_def union_ac simp del: mset_map)
qed

section \<open>The operations\<close>

lemma heap_cong:
  assumes "cores r = cores q" and "rbuf_extra r = rbuf_extra q" and "rbuf_mallocs r = rbuf_mallocs q"
    and "rbuf_extra_len r = rbuf_extra_len q" and "rbuf_extra_size r = rbuf_extra_size q"
  shows "heap_ok r loose gone = heap_ok q loose gone"
  using assms by (simp add: heap_ok_def extra_block_def header_room_def)

lemma map_update_same: "i < length xs \<Longrightarrow> f y = f (xs ! i) \<Longrightarrow> map f (xs[i := y]) = map f xs"
  by (simp add: map_update) (metis length_map list_update_id nth_map)

lemma writable_loop_core: "map seg_core (fst (writable_loop segs len i)) = map seg_core segs"
proof (induction segs len i rule: writable_loop.induct)
  case (1 segs len i)
  have c: "seg_core (s\<lparr>seg_absof := n\<rparr>) = seg_core s" for s n by (simp add: seg_core_def)
  show ?case using 1 by (subst writable_loop.simps) (simp add: Let_def map_update_same c)
qed

lemma get_writable0_heap: "heap_ok (fst (rd_buf_get_writable0 rbuf)) loose gone = heap_ok rbuf loose gone"
proof (cases "rbuf_wpos rbuf")
  case (Some w)
  then show ?thesis
    using writable_loop_core [of "rbuf_segments rbuf" "rbuf_len rbuf" w]
    by (intro heap_cong) (simp_all add: rd_buf_get_writable0_def case_prod_beta Let_def cores_def)
qed (simp add: rd_buf_get_writable0_def)

lemma append_segment_heap:
  assumes "heap_ok rbuf (seg_core seg # loose) gone"
  shows "heap_ok (rd_buf_append_segment rbuf seg) loose gone"
proof -
  have c: "seg_core (seg\<lparr>seg_absof := n\<rparr>) = seg_core seg" for n by (simp add: seg_core_def)
  let ?rbuf = "rbuf\<lparr>rbuf_segments := rbuf_segments rbuf @ [seg\<lparr>seg_absof := rbuf_len rbuf\<rparr>], rbuf_segment_cnt := rbuf_segment_cnt rbuf + 1,
      rbuf_len := rbuf_len rbuf + seg_of seg, rbuf_size := rbuf_size rbuf + seg_size seg\<rparr>"
  have ok: "heap_ok ?rbuf loose gone"
    using assms by (auto simp: heap_ok_def cores_def c extra_block_def header_room_def union_ac)
  show ?thesis
  proof (cases "rbuf_wpos rbuf")
    case None
    then have "rd_buf_append_segment rbuf seg = ?rbuf\<lparr>rbuf_wpos := Some (length (rbuf_segments rbuf))\<rparr>"
      by (simp add: rd_buf_append_segment_def)
    then show ?thesis using ok heap_cong [of "?rbuf\<lparr>rbuf_wpos := Some (length (rbuf_segments rbuf))\<rparr>" ?rbuf] by (simp add: cores_def)
  next
    case Some
    then show ?thesis using ok get_writable0_heap [of ?rbuf] by (simp add: rd_buf_append_segment_def Let_def)
  qed
qed

lemma extra_alloc_room:
  assumes "extra_alloc rbuf n = (rbuf', a)"
  shows "rbuf' = rbuf\<lparr>rbuf_extra_len := rbuf_extra_len rbuf'\<rparr>" and "rbuf_extra_len rbuf \<le> rbuf_extra_len rbuf'"
    and "\<not> header_room rbuf \<Longrightarrow> \<not> header_room rbuf'" and "a = None \<Longrightarrow> rbuf' = rbuf"
    and "a = None \<Longrightarrow> n = sizeof_segment \<Longrightarrow> \<not> header_room rbuf" and "a = Some b \<Longrightarrow> \<exists>k. b = Extra k"
    and "a = Some b \<Longrightarrow> sizeof_segment \<le> n \<Longrightarrow> header_room rbuf"
proof -
  have up: "x \<le> RD_ROUNDUP x 8" for x
    by (simp add: RD_ROUNDUP_def)
  have mono: "x \<le> y \<Longrightarrow> RD_ROUNDUP x 8 \<le> RD_ROUNDUP y 8" for x y by (simp add: RD_ROUNDUP_def div_le_mono)
  show "rbuf' = rbuf\<lparr>rbuf_extra_len := rbuf_extra_len rbuf'\<rparr>" "a = None \<Longrightarrow> rbuf' = rbuf"
    "a = None \<Longrightarrow> n = sizeof_segment \<Longrightarrow> \<not> header_room rbuf" "a = Some b \<Longrightarrow> \<exists>k. b = Extra k"
    "a = Some b \<Longrightarrow> sizeof_segment \<le> n \<Longrightarrow> header_room rbuf"
    using assms by (auto simp: extra_alloc_def Let_def header_room_def split: if_splits)
  show le: "rbuf_extra_len rbuf \<le> rbuf_extra_len rbuf'"
    using assms up [of "rbuf_extra_len rbuf"] by (auto simp: extra_alloc_def Let_def split: if_splits)
  have "rbuf_extra_size rbuf' = rbuf_extra_size rbuf" using assms by (auto simp: extra_alloc_def Let_def split: if_splits)
  then show "\<not> header_room rbuf \<Longrightarrow> \<not> header_room rbuf'" using mono [OF le] by (simp add: header_room_def)
qed

lemma heap_extra:
  assumes "heap_ok rbuf loose gone" and "\<not> header_room rbuf \<Longrightarrow> \<not> header_room (rbuf\<lparr>rbuf_extra_len := k\<rparr>)"
  shows "heap_ok (rbuf\<lparr>rbuf_extra_len := k\<rparr>) loose gone"
  using assms by (auto simp: heap_ok_def cores_def extra_block_def)

lemma alloc_segment0_heap:
  assumes "heap_ok rbuf loose gone" and "rd_buf_alloc_segment0 rbuf n = (rbuf', seg)"
  shows "heap_ok rbuf' (seg_core seg # loose) gone"
    and "n = 0 \<Longrightarrow> seg_free seg = None" and "\<not> free_flag (seg_core seg) \<Longrightarrow> header_room rbuf"
proof -
  obtain r1 a1 where e1: "extra_alloc rbuf (sizeof_segment + n) = (r1, a1)" by fastforce
  obtain r2 a2 where e2: "extra_alloc r1 sizeof_segment = (r2, a2)" by fastforce
  note x1 = extra_alloc_room [OF e1] and x2 = extra_alloc_room [OF e2]
  have h1: "heap_ok r1 loose gone" using heap_extra [OF assms(1)] x1(1,3) by metis
  have h2: "heap_ok r2 loose gone" using heap_extra [OF h1] x2(1,3) by metis
  show "n = 0 \<Longrightarrow> seg_free seg = None"
    using assms(2) e1 e2 by (auto simp: rd_buf_alloc_segment0_def rd_segment_init_def Let_def split: option.splits)
  consider (one) b where "a1 = Some b" "rbuf' = r1" "seg = rd_segment_init b (if n > 0 then Some (b, sizeof_segment) else None) n"
    | (two) b where "a1 = None" "a2 = Some b" "n > 0" "rbuf' = r2\<lparr>rbuf_mallocs := rbuf_mallocs r2 + 1\<rparr>"
        "seg = rd_segment_init b (Some (Heap (rbuf_mallocs r2), 0)) n\<lparr>seg_free := Some Rd_Free\<rparr>"
    | (three) b where "a1 = None" "a2 = Some b" "n = 0" "rbuf' = r2" "seg = rd_segment_init b None n"
    | (four) "a1 = None" "a2 = None" "rbuf' = r2\<lparr>rbuf_mallocs := rbuf_mallocs r2 + 1\<rparr>"
        "seg = rd_segment_init (Heap (rbuf_mallocs r2)) (if n > 0 then Some (Heap (rbuf_mallocs r2), sizeof_segment) else None) n\<lparr>seg_flags := RD_SEGMENT_F_FREE\<rparr>"
    using assms(2) e1 e2 by (cases a1; cases a2) (auto simp: rd_buf_alloc_segment0_def Let_def split: if_splits)
  then have "heap_ok rbuf' (seg_core seg # loose) gone \<and> (\<not> free_flag (seg_core seg) \<longrightarrow> header_room rbuf)"
  proof cases
    case one
    then obtain k where "b = Extra k" using x1(6) by blast
    then have "heap_ok rbuf' (seg_core seg # loose) gone" using h1 one by (auto simp: heap_ok_def seg_core_def rd_segment_init_def)
    moreover have "header_room rbuf" using x1(7) one by simp
    ultimately show ?thesis by simp
  next
    case two
    then obtain k where "b = Extra k" using x2(6) by blast
    then have "heap_ok rbuf' (seg_core seg # loose) gone"
      using h2 two by (auto simp: heap_ok_def seg_core_def rd_segment_init_def cores_def extra_block_def header_room_def)
    moreover have "header_room rbuf" using x2(7) two x1(3) by auto
    ultimately show ?thesis by simp
  next
    case three
    then obtain k where "b = Extra k" using x2(6) by blast
    then have "heap_ok rbuf' (seg_core seg # loose) gone" using h2 three by (auto simp: heap_ok_def seg_core_def rd_segment_init_def)
    moreover have "header_room rbuf" using x2(7) three x1(3) by auto
    ultimately show ?thesis by simp
  next
    case four
    then have "\<not> header_room r2" using x2(3,5) by simp
    then have "heap_ok rbuf' (seg_core seg # loose) gone"
      using h2 four by (auto simp: heap_ok_def seg_core_def rd_segment_init_def cores_def extra_block_def header_room_def RD_SEGMENT_F_FREE_def)
    moreover have "free_flag (seg_core seg)" using four by (simp add: seg_core_def RD_SEGMENT_F_FREE_def)
    ultimately show ?thesis by simp
  qed
  then show "heap_ok rbuf' (seg_core seg # loose) gone" and "\<not> free_flag (seg_core seg) \<Longrightarrow> header_room rbuf" by blast+
qed

lemma alloc_segment_heap:
  assumes "heap_ok rbuf loose gone"
  shows "heap_ok (rd_buf_alloc_segment rbuf min_size max_size) loose gone"
proof -
  define n where "n = (if min_size \<noteq> max_size \<or> max_size = 0
                      then max (sizeof_segment * 4) (max (min_size * 2) (rbuf_size rbuf div 2)) else max_size)"
  obtain rbuf' seg where a: "rd_buf_alloc_segment0 rbuf n = (rbuf', seg)" by fastforce
  then show ?thesis
    unfolding rd_buf_alloc_segment_def n_def [symmetric] Let_def
    using append_segment_heap [OF alloc_segment0_heap(1) [OF assms a]] by simp
qed

lemma write_ensure_heap:
  assumes "rd_buf_write_ensure rbuf n m = Some rbuf'"
  shows "heap_ok rbuf loose gone \<longrightarrow> heap_ok rbuf' loose gone"
proof (rule rd_buf_write_ensure.raw_induct [OF _ assms, of "\<lambda>a b c y. heap_ok a loose gone \<longrightarrow> heap_ok y loose gone"])
  fix f a b c y
  assume IH: "\<And>a b c y. f a b c = Some y \<Longrightarrow> heap_ok a loose gone \<longrightarrow> heap_ok y loose gone"
    and body: "(let remains = rd_buf_write_remains a
      in if remains < b then f (rd_buf_alloc_segment a (b - remains) (if c = 0 then 0 else usub c remains)) b c else Some a) = Some y"
  show "heap_ok a loose gone \<longrightarrow> heap_ok y loose gone"
    using body IH alloc_segment_heap [of a loose gone] by (auto simp: Let_def split: if_splits)
qed

lemma seg_put_heap:
  assumes "seg_at rbuf i = Inr seg" and "seg_core seg' = seg_core seg"
  shows "heap_ok (seg_put rbuf i seg') loose gone = heap_ok rbuf loose gone"
  using assms by (intro heap_cong) (auto simp: seg_put_def cores_def seg_at_def map_update_same split: if_splits)

lemma len_heap: "heap_ok (rbuf\<lparr>rbuf_len := n\<rparr>) loose gone = heap_ok rbuf loose gone"
  "heap_ok (rbuf\<lparr>rbuf_wpos := w\<rparr>) loose gone = heap_ok rbuf loose gone"
  "heap_ok (rbuf\<lparr>rbuf_size := k\<rparr>) loose gone = heap_ok rbuf loose gone"
  by (rule heap_cong; simp add: cores_def)+

lemma write_some_heap:
  assumes "write_some rbuf i psrc n = Inr rbuf'" and "heap_ok rbuf loose gone"
  shows "heap_ok rbuf' loose gone"
proof -
  obtain seg mem where "seg_at rbuf i = Inr seg"
    "rbuf' = (seg_put rbuf i (seg\<lparr>seg_mem := mem, seg_of := seg_of seg + n\<rparr>))\<lparr>rbuf_len := rbuf_len rbuf + n\<rparr>"
    using assms(1) by (auto simp: write_some_def res_simps)
  then show ?thesis using assms(2) seg_put_heap by (simp add: len_heap seg_core_def)
qed

lemma write_loop_heap:
  assumes "write_loop rbuf psrc n = Some r"
  shows "heap_ok rbuf loose gone \<longrightarrow> (\<forall>rbuf'. r = Inr rbuf' \<longrightarrow> heap_ok rbuf' loose gone)"
proof (rule write_loop.raw_induct [OF _ assms, of "\<lambda>a b c r. heap_ok a loose gone \<longrightarrow> (\<forall>a'. r = Inr a' \<longrightarrow> heap_ok a' loose gone)"])
  fix f a b c r
  assume IH: "\<And>a b c r. f a b c = Some r \<Longrightarrow> heap_ok a loose gone \<longrightarrow> (\<forall>a'. r = Inr a' \<longrightarrow> heap_ok a' loose gone)"
    and body: "(if c = 0 then Some (Inr a)
      else case rd_buf_get_writable0 a of
             (rbuf, None, segremains) \<Rightarrow> Some (Inl Indeterminate)
           | (rbuf, Some i, segremains) \<Rightarrow>
             let wlen = min c segremains
             in case write_some rbuf i b wlen of
                  Inl e \<Rightarrow> Some (Inl e)
                | Inr rbuf \<Rightarrow> f rbuf (map_option (drop wlen) b) (c - wlen)) = Some r"
  obtain a1 segp room where g: "rd_buf_get_writable0 a = (a1, segp, room)" by (cases "rd_buf_get_writable0 a")
  show "heap_ok a loose gone \<longrightarrow> (\<forall>a'. r = Inr a' \<longrightarrow> heap_ok a' loose gone)"
  proof
    assume ok: "heap_ok a loose gone"
    then have h: "heap_ok a1 loose gone" using get_writable0_heap [of a loose gone] g by simp
    show "\<forall>a'. r = Inr a' \<longrightarrow> heap_ok a' loose gone"
      using body g ok write_some_heap [OF _ h] IH by (auto simp: Let_def split: if_splits option.splits sum.splits)
  qed
qed

lemma write_heap:
  assumes "rd_buf_write rbuf payload n = Some (Inr (rbuf', pos))" and "heap_ok rbuf loose gone"
  shows "heap_ok rbuf' loose gone"
proof -
  obtain rbuf1 r where "rd_buf_write_ensure rbuf n 0 = Some rbuf1" "write_loop rbuf1 payload n = Some r" "r = Inr rbuf'"
    using assms(1) by (auto simp: rd_buf_write_def Let_def res_simps split: option.splits)
  then show ?thesis using write_ensure_heap write_loop_heap assms(2) by blast
qed

lemma update_loop_core: "update_loop len segs absof src n = Inr segs' \<Longrightarrow> map seg_core segs' = map seg_core segs"
proof (induction len segs absof src n arbitrary: segs' rule: update_loop.induct)
  case (2 len seg segs absof psrc remains)
  then show ?case
    by (auto simp: res_simps rd_segment_write_update_def Let_def seg_core_def split: if_splits)
qed (simp split: if_splits)

lemma update_heap:
  assumes "rd_buf_write_update rbuf absof src n = Inr (rbuf', k)" and "heap_ok rbuf loose gone"
  shows "heap_ok rbuf' loose gone"
proof -
  obtain i segs where "update_loop (rd_buf_len rbuf) (drop i (rbuf_segments rbuf)) absof src n = Inr segs"
    "rbuf' = rbuf\<lparr>rbuf_segments := take i (rbuf_segments rbuf) @ segs\<rparr>"
    using assms(1) by (auto simp: rd_buf_write_update_def res_simps)
  moreover from update_loop_core [OF this(1)] have "map seg_core segs = drop i (cores rbuf)" by (simp add: cores_def drop_map)
  ultimately show ?thesis using assms(2) by (subst heap_cong [of _ rbuf]) (simp_all add: cores_def take_map [symmetric])
qed

lemma split_heap:
  assumes "rd_segment_split rbuf i absof = Inr (rbuf', tail)" and "heap_ok rbuf [] gone"
  shows "heap_ok rbuf' [seg_core tail] gone"
proof -
  obtain seg where seg: "seg_at rbuf i = Inr seg" using assms(1) by (auto simp: rd_segment_split_def res_simps)
  obtain r1 new where a: "rd_buf_alloc_segment0 rbuf 0 = (r1, new)" by fastforce
  note h = alloc_segment0_heap [OF assms(2) a]
  have segs: "rbuf_segments r1 = rbuf_segments rbuf" by (subst alloc_segment0_fields(5) [OF a]) simp
  then have seg1: "seg_at r1 i = Inr seg" using seg by (simp add: seg_at_def split: if_splits)
  obtain p s n relof l z where t: "seg_core tail = (seg_addr new, p, None, seg_flags new OR seg_flags seg)"
    and r: "rbuf' = (seg_put r1 i (seg\<lparr>seg_mem := s, seg_of := relof, seg_size := relof\<rparr>))\<lparr>rbuf_len := l, rbuf_size := z\<rparr>"
    using assms(1) seg a h(2) by (auto simp: rd_segment_split_def res_simps Let_def seg_core_def)
  have "seg \<in> set (rbuf_segments rbuf)" using seg by (auto simp: seg_at_def split: if_splits)
  then have seg_flag: "free_flag (seg_core seg) \<Longrightarrow> \<not> header_room rbuf" using assms(2) by (auto simp: heap_ok_def cores_def)
  have new: "core_ok (seg_core new)" "free_flag (seg_core new) \<longrightarrow> \<not> header_room r1"
    "payload_block (seg_core new) = []" using h by (auto simp: heap_ok_def seg_core_def)
  have flag: "free_flag (seg_core tail) = free_flag (seg_core new)"
  proof -
    have "free_flag (seg_core tail) \<longleftrightarrow> free_flag (seg_core new) \<or> free_flag (seg_core seg)"
      unfolding t by (simp add: seg_core_def flag_or_iff del: de_Morgan_conj)
    then show ?thesis using seg_flag h(3) by blast
  qed
  have "struct_block (seg_core tail) = struct_block (seg_core new)" "payload_block (seg_core tail) = []" "core_ok (seg_core tail)"
    using new(1) flag unfolding t by (auto simp: seg_core_def)
  then have "heap_ok r1 [seg_core tail] gone" using h(1) flag new by (auto simp: heap_ok_def)
  then show ?thesis using seg_put_heap [OF seg1] by (simp add: r len_heap seg_core_def)
qed

lemma push_segment_heap:
  assumes "heap_ok rbuf loose (gone, pushed)" and "\<forall>n. fst ptr \<noteq> Heap n"
  shows "heap_ok (push_segment rbuf ptr payload n free_cb) loose (gone, pushed @ payload_free free_cb ptr)"
proof -
  obtain r1 new where a: "rd_buf_alloc_segment0 rbuf 0 = (r1, new)" by fastforce
  note h = alloc_segment0_heap [OF assms(1) a]
  let ?seg = "new\<lparr>seg_p := Some ptr, seg_mem := payload, seg_size := n, seg_of := n, seg_free := free_cb,
                seg_flags := seg_flags new OR RD_SEGMENT_F_RDONLY\<rparr>"
  obtain b k where ptr: "ptr = (b, k)" "\<forall>n. b \<noteq> Heap n" using assms(2) by (cases ptr) auto
  have "seg_flags ?seg AND RD_SEGMENT_F_FREE \<noteq> 0 \<longleftrightarrow> seg_flags new AND RD_SEGMENT_F_FREE \<noteq> 0"
    by (simp add: flag_or_iff RD_SEGMENT_F_RDONLY_def RD_SEGMENT_F_FREE_def del: de_Morgan_conj)
  moreover have "released (Free_Payload f ptr) = Free_Payload f ptr" for f
    using ptr by (cases f; cases b) auto
  then have "payload_block (seg_core ?seg) = payload_free free_cb ptr" "payload_block (seg_core new) = []"
    using h(2) by (auto simp: seg_core_def payload_free_def split: option.splits)
  ultimately have "heap_ok r1 (seg_core ?seg # loose) (gone, pushed @ payload_free free_cb ptr)"
    using h(1) by (auto simp: heap_ok_def seg_core_def union_ac)
  then show ?thesis using append_segment_heap a by (simp add: push_segment_def)
qed

lemma push_heap:
  assumes "rd_buf_push rbuf ptr payload n free_cb = Inr rbuf'" and "heap_ok rbuf [] (gone, pushed)" and "\<forall>n. fst ptr \<noteq> Heap n"
  shows "heap_ok rbuf' [] (gone, pushed @ payload_free free_cb ptr)"
proof -
  obtain r1 tail where t: "heap_ok r1 (case tail of None \<Rightarrow> [] | Some s \<Rightarrow> [seg_core s]) (gone, pushed)"
    "rbuf' = (case tail of None \<Rightarrow> push_segment r1 ptr payload n free_cb
       | Some s \<Rightarrow> rd_buf_append_segment (push_segment r1 ptr payload n free_cb) s)"
    using assms(1,2) split_heap [OF _ assms(2)]
    by (fastforce simp: rd_buf_push_def res_simps Let_def split: option.splits if_splits)
  then show ?thesis using push_segment_heap [OF t(1) assms(3)] append_segment_heap by (auto split: option.splits)
qed

lemma blocks_remove: "i < length cs \<Longrightarrow> mset (blocks cs) = mset (blocks (take i cs @ drop (Suc i) cs)) + mset (payload_block (cs ! i) @ struct_block (cs ! i))"
proof -
  assume "i < length cs"
  then have "blocks cs = blocks (take i cs @ cs ! i # drop (Suc i) cs)" by (metis id_take_nth_drop)
  then show ?thesis by (simp only: blocks_simps mset_append union_ac)
qed

lemma destroy_segment_heap:
  assumes "rd_buf_destroy_segment rbuf i = Inr (rbuf', fs)" and "heap_ok rbuf [] (gone, pushed)"
  shows "heap_ok rbuf' [] (gone @ fs, pushed)"
proof -
  let ?segs = "rbuf_segments rbuf"
  have i: "i < length ?segs" "rd_segment_destroy (?segs ! i) = Inr fs"
    and r: "rbuf_segments rbuf' = take i ?segs @ drop (Suc i) ?segs" "rbuf_extra rbuf' = rbuf_extra rbuf" "rbuf_mallocs rbuf' = rbuf_mallocs rbuf"
      "rbuf_extra_len rbuf' = rbuf_extra_len rbuf" "rbuf_extra_size rbuf' = rbuf_extra_size rbuf"
    using assms(1) by (auto simp: rd_buf_destroy_segment_def res_simps seg_at_def split: if_splits)
  have c: "cores rbuf ! i = seg_core (?segs ! i)" "i < length (cores rbuf)" using i by (simp_all add: cores_def)
  then have "core_ok (seg_core (?segs ! i))" using assms(2) by (metis UnI1 heap_ok_def nth_mem)
  from segment_destroy_frees [OF this] have f: "map released fs = payload_block (cores rbuf ! i) @ struct_block (cores rbuf ! i)"
    using i(2) c by auto
  have r': "cores rbuf' = take i (cores rbuf) @ drop (Suc i) (cores rbuf)" by (simp add: cores_def r take_map drop_map)
  then have "set (cores rbuf') \<subseteq> set (cores rbuf)" by (auto dest: in_set_takeD in_set_dropD)
  then show ?thesis
    using assms(2) blocks_remove [OF c(2)] f r unfolding heap_ok_def r'
    by (auto simp: extra_block_def header_room_def union_ac simp del: mset_map)
qed

lemma seek_loop_heap:
  "seek_loop rbuf i = Inr (rbuf', fs) \<Longrightarrow> heap_ok rbuf [] (gone, pushed) \<Longrightarrow> heap_ok rbuf' [] (gone @ fs, pushed)"
proof (induction rbuf i arbitrary: rbuf' fs gone rule: seek_loop.induct)
  case (1 rbuf i)
  show ?case
  proof (cases "length (rbuf_segments rbuf) \<le> Suc i")
    case True
    then show ?thesis using 1(2,3) by (simp add: seek_loop.simps [of rbuf])
  next
    case False
    then obtain r1 f g where s: "rd_buf_destroy_segment rbuf (length (rbuf_segments rbuf) - 1) = Inr (r1, f)"
      "seek_loop r1 i = Inr (rbuf', g)" "fs = f @ g"
      using 1(2) by (subst (asm) seek_loop.simps) (auto simp: res_simps)
    show ?thesis using 1(1) [OF False s(1) refl s(2) destroy_segment_heap [OF s(1) 1(3)]] s(3) by simp
  qed
qed

lemma seek_loop_keeps:
  "seek_loop rbuf i = Inr (rbuf', fs) \<Longrightarrow> rbuf_segments rbuf' = take (Suc i) (rbuf_segments rbuf)"
proof (induction rbuf i arbitrary: rbuf' fs rule: seek_loop.induct)
  case (1 rbuf i)
  show ?case
  proof (cases "length (rbuf_segments rbuf) \<le> Suc i")
    case True
    then show ?thesis using 1(2) by (simp add: seek_loop.simps [of rbuf])
  next
    case False
    then obtain r1 f g where s: "rd_buf_destroy_segment rbuf (length (rbuf_segments rbuf) - 1) = Inr (r1, f)" "seek_loop r1 i = Inr (rbuf', g)"
      using 1(2) by (subst (asm) seek_loop.simps) (auto simp: res_simps)
    have "rbuf_segments r1 = take (length (rbuf_segments rbuf) - 1) (rbuf_segments rbuf)"
      using s(1) by (auto simp: rd_buf_destroy_segment_def res_simps)
    moreover have "Suc i \<le> length (rbuf_segments rbuf) - 1" using False by linarith
    ultimately show ?thesis using 1(1) [OF False s(1) refl s(2)] by (simp add: min_absorb1)
  qed
qed

lemma seek_heap:
  assumes "rd_buf_write_seek rbuf absof = Inr (rbuf', fs, ok)" and "heap_ok rbuf [] (gone, pushed)"
  shows "heap_ok rbuf' [] (gone @ fs, pushed)"
proof -
  consider "rbuf' = rbuf" "fs = []" | i r1 seg relof l where "seg_at rbuf i = Inr seg" "seek_loop rbuf i = Inr (r1, fs)"
      "rbuf' = (seg_put r1 i (seg\<lparr>seg_of := relof\<rparr>))\<lparr>rbuf_wpos := Some i, rbuf_len := l\<rparr>"
    using assms(1) by (auto simp: rd_buf_write_seek_def res_simps Let_def split: option.splits if_splits)
  then show ?thesis
  proof cases
    case 2
    have "seg_at r1 i = Inr seg" using 2(1) seek_loop_keeps [OF 2(2)] by (auto simp: seg_at_def split: if_splits)
    then show ?thesis using seek_loop_heap [OF 2(2) assms(2)] 2(3) by (simp add: len_heap seg_put_heap seg_core_def)
  qed (use assms(2) in simp)
qed

lemma ensure_contig_heap:
  assumes "rd_buf_write_ensure_contig rbuf n = Inr rbuf'" and "heap_ok rbuf [] gone"
  shows "heap_ok rbuf' [] gone"
  using assms alloc_segment_heap [OF assms(2)]
  by (auto simp: rd_buf_write_ensure_contig_def res_simps Let_def len_heap split: option.splits if_splits)

lemma init_heap: "rd_buf_init k n = Inr rbuf \<Longrightarrow> heap_ok rbuf [] ([], [])"
  by (auto simp: rd_buf_init_def heap_ok_def cores_def extra_block_def Let_def res_simps split: if_splits)

section \<open>Runs\<close>

text \<open>
  The buffers that the operations can produce from a new one, with what was freed on the way and
  the payloads pushed with a free function. Memory that is pushed is memory of the caller.
\<close>

inductive buf_run :: "rd_buf \<Rightarrow> freed list \<Rightarrow> freed list \<Rightarrow> bool" where
  run_init: "rd_buf_init cnt n = Inr rbuf \<Longrightarrow> buf_run rbuf [] []"
| run_write: "buf_run rbuf fs ps \<Longrightarrow> rd_buf_write rbuf payload n = Some (Inr (rbuf', pos)) \<Longrightarrow> buf_run rbuf' fs ps"
| run_update: "buf_run rbuf fs ps \<Longrightarrow> rd_buf_write_update rbuf absof src n = Inr (rbuf', k) \<Longrightarrow> buf_run rbuf' fs ps"
| run_push: "buf_run rbuf fs ps \<Longrightarrow> rd_buf_push rbuf (Caller a, k) payload n free_cb = Inr rbuf' \<Longrightarrow>
    buf_run rbuf' fs (ps @ payload_free free_cb (Caller a, k))"
| run_seek: "buf_run rbuf fs ps \<Longrightarrow> rd_buf_write_seek rbuf absof = Inr (rbuf', gs, ok) \<Longrightarrow> buf_run rbuf' (fs @ gs) ps"
| run_ensure: "buf_run rbuf fs ps \<Longrightarrow> rd_buf_write_ensure rbuf n m = Some rbuf' \<Longrightarrow> buf_run rbuf' fs ps"
| run_ensure_contig: "buf_run rbuf fs ps \<Longrightarrow> rd_buf_write_ensure_contig rbuf n = Inr rbuf' \<Longrightarrow> buf_run rbuf' fs ps"
| run_writable: "buf_run rbuf fs ps \<Longrightarrow> rd_buf_get_writable0 rbuf = (rbuf', segp, room) \<Longrightarrow> buf_run rbuf' fs ps"

lemma buf_run_heap: "buf_run rbuf fs ps \<Longrightarrow> heap_ok rbuf [] (fs, ps)"
proof (induction rule: buf_run.induct)
  case (run_push rbuf fs ps a k payload n free_cb rbuf')
  then show ?case using push_heap [OF run_push(2)] by fastforce
next
  case (run_seek rbuf fs ps absof rbuf' gs ok)
  then show ?case using seek_heap [OF run_seek(2)] by fastforce
next
  case (run_writable rbuf fs ps rbuf' segp room)
  then show ?case using get_writable0_heap [of rbuf "[]" "(fs, ps)"] by simp
qed (auto dest: init_heap write_heap update_heap write_ensure_heap ensure_contig_heap)

text \<open>
  C32: whatever is done with a buffer, destroying it ends normally, and the calls of free functions
  made on the way and by it are exactly these: one for every heap block that was allocated, at its
  start, and one for every payload that was pushed with a free function, with that function and
  that pointer. Nothing is freed twice, nothing is left over and nothing else is freed, neither a
  place inside a block nor one in the extra memory.
\<close>

theorem buf_frees_everything_once:
  assumes "buf_run rbuf fs ps"
  shows "\<exists>gs. rd_buf_destroy rbuf = Inr gs \<and>
           mset (map released (fs @ gs)) = mset (map (\<lambda>n. Free_Block (Heap n)) [0..<rbuf_mallocs rbuf]) + mset ps"
  using destroy_frees [OF buf_run_heap [OF assms]] by (simp add: heap_frees_def)

theorem buf_frees_everything_once_witness:
  "\<exists>rbuf rbuf' gs. rd_buf_init 1 8 = Inr rbuf \<and> rd_buf_push rbuf (Caller 5, 0) [Some 1, Some 2] 2 (Some Rd_Free) = Inr rbuf' \<and>
     rd_buf_destroy rbuf' = Inr gs \<and>
     mset (map released gs) = {#Free_Block (Heap 0), Free_Payload Rd_Free (Caller 5, 0)#}"
proof -
  obtain rbuf where r: "rd_buf_init 1 8 = Inr rbuf" by (auto simp: rd_buf_init_def)
  obtain rbuf' where p: "rd_buf_push rbuf (Caller 5, 0) [Some 1, Some 2] 2 (Some Rd_Free) = Inr rbuf'" "rbuf_mallocs rbuf' = 1"
    using r by (auto simp: rd_buf_init_def rd_buf_push_def push_segment_def rd_buf_alloc_segment0_def extra_alloc_def
      rd_buf_append_segment_def rd_segment_init_def RD_ROUNDUP_def Let_def res_simps sizeof_segment_def)
  from buf_frees_everything_once [OF buf_run.run_push [OF buf_run.run_init [OF r] p(1)]] r p
  show ?thesis by (auto simp: payload_free_def)
qed

end
