(* ===== verification/Crc32c.thy ===== *)
theory Crc32c
  imports Crc_Bits
begin

unbundle bit_operations_syntax

text \<open>
  \<open>crc32c.c\<close>: the CRC-32C of the message format version 2, as the slicing-by-eight software
  routine and as the three-lane routine over the processor's \<open>crc32\<close> instruction. A buffer is
  the list of its bytes together with its address, whose low bits decide the alignment loops.
  The instruction is a parameter; what is assumed of it is its documented effect.
\<close>

section \<open>The software routine\<close>

definition POLY :: "32 word" where
  "POLY = 0x82f63b78"

definition crc32c_bit :: "32 word \<Rightarrow> 32 word" where
  "crc32c_bit crc = (if crc AND 1 \<noteq> 0 then drop_bit 1 crc XOR POLY else drop_bit 1 crc)"

text \<open>The two loops of \<open>crc32c_init_sw\<close>: row 0, then the seven rows derived from it.\<close>

definition init_row0 :: "nat \<Rightarrow> 32 word list list \<Rightarrow> 32 word list list" where
  "init_row0 n tbl =
     (let crc = crc32c_bit (crc32c_bit (crc32c_bit (crc32c_bit
                  (crc32c_bit (crc32c_bit (crc32c_bit (crc32c_bit (word_of_nat n))))))))
      in tbl[0 := (tbl ! 0)[n := crc]])"

definition init_cell :: "nat \<Rightarrow> nat \<Rightarrow> 32 word \<times> 32 word list list \<Rightarrow> 32 word \<times> 32 word list list" where
  "init_cell n k s =
     (let (crc, tbl) = s;
          crc1 = tbl ! 0 ! unat (crc AND 0xff) XOR drop_bit 8 crc
      in (crc1, tbl[k := (tbl ! k)[n := crc1]]))"

definition init_column :: "nat \<Rightarrow> 32 word list list \<Rightarrow> 32 word list list" where
  "init_column n tbl = snd (fold (init_cell n) [1..<8] (tbl ! 0 ! n, tbl))"

definition crc32c_init_sw :: "32 word list list \<Rightarrow> 32 word list list" where
  "crc32c_init_sw tbl = fold init_column [0..<256] (fold init_row0 [0..<256] tbl)"

definition sw_byte :: "32 word list list \<Rightarrow> 64 word \<Rightarrow> byte \<Rightarrow> 64 word" where
  "sw_byte tbl crc b = ucast (tbl ! 0 ! unat ((crc XOR ucast b) AND 0xff)) XOR drop_bit 8 crc"

definition sw_slice :: "32 word list list \<Rightarrow> 64 word \<Rightarrow> 64 word" where
  "sw_slice tbl crc = ucast (
     tbl ! 7 ! unat (crc AND 0xff) XOR
     tbl ! 6 ! unat (drop_bit 8 crc AND 0xff) XOR
     tbl ! 5 ! unat (drop_bit 16 crc AND 0xff) XOR
     tbl ! 4 ! unat (drop_bit 24 crc AND 0xff) XOR
     tbl ! 3 ! unat (drop_bit 32 crc AND 0xff) XOR
     tbl ! 2 ! unat (drop_bit 40 crc AND 0xff) XOR
     tbl ! 1 ! unat (drop_bit 48 crc AND 0xff) XOR
     tbl ! 0 ! unat (drop_bit 56 crc))"

text \<open>
  The alignment loop, for any byte step: the register and the bytes that are left.
\<close>

fun align_loop :: "(64 word \<Rightarrow> byte \<Rightarrow> 64 word) \<Rightarrow> 64 word \<Rightarrow> 64 word \<Rightarrow> byte list \<Rightarrow> 64 word \<times> byte list" where
  "align_loop f crc addr [] = (crc, [])"
| "align_loop f crc addr (b # bs) =
     (if addr AND 7 \<noteq> 0 then align_loop f (f crc b) (addr + 1) bs else (crc, b # bs))"

text \<open>\<open>le64toh(*(uint64_t *)next)\<close> is the little endian number of the next eight bytes.\<close>

function slice_loop :: "32 word list list \<Rightarrow> 64 word \<Rightarrow> byte list \<Rightarrow> 64 word \<times> byte list" where
  "slice_loop tbl crc bs =
     (if 8 \<le> length bs then slice_loop tbl (sw_slice tbl (crc XOR le_word (take 8 bs))) (drop 8 bs)
      else (crc, bs))"
  by pat_completeness auto
termination by (relation "measure (\<lambda>(tbl, crc, bs). length bs)") auto

declare slice_loop.simps [simp del]

definition crc32c_sw :: "32 word list list \<Rightarrow> 32 word \<Rightarrow> 64 word \<Rightarrow> byte list \<Rightarrow> 32 word" where
  "crc32c_sw tbl crci addr buf =
     (let crc = ucast (crci XOR 0xffffffff);
          (crc, rest) = align_loop (sw_byte tbl) crc addr buf;
          (crc, rest) = slice_loop tbl crc rest;
          crc = foldl (sw_byte tbl) crc rest
      in ucast crc XOR 0xffffffff)"

section \<open>The hardware routine\<close>

text \<open>
  Matrices over the field of two elements, one word per row. A row past the end is not read as
  long as the vector has no more bits than the matrix has rows.
\<close>

function gf2_loop :: "32 word list \<Rightarrow> 32 word \<Rightarrow> 32 word \<Rightarrow> 32 word" where
  "gf2_loop mat vec acc =
     (if vec = 0 then acc
      else gf2_loop (tl mat) (drop_bit 1 vec) (if vec AND 1 \<noteq> 0 then acc XOR hd mat else acc))"
  by pat_completeness auto
termination
proof (relation "measure (\<lambda>(mat, vec, acc). unat vec)", goal_cases)
  case (2 mat vec acc)
  have "unat (drop_bit 1 vec) = unat vec div 2" by (simp add: drop_bit_eq_div unat_div_distrib)
  moreover have "unat vec \<noteq> 0" using 2 by (simp add: unat_eq_zero)
  ultimately show ?case by simp
qed simp

declare gf2_loop.simps [simp del]

definition gf2_matrix_times :: "32 word list \<Rightarrow> 32 word \<Rightarrow> 32 word" where
  "gf2_matrix_times mat vec = gf2_loop mat vec 0"

definition gf2_matrix_square :: "32 word list \<Rightarrow> 32 word list" where
  "gf2_matrix_square mat = map (\<lambda>n. gf2_matrix_times mat (mat ! n)) [0..<32]"

function zeros_loop :: "32 word list \<Rightarrow> nat \<Rightarrow> 32 word list" where
  "zeros_loop od len =
     (let ev = gf2_matrix_square od; len1 = len div 2
      in if len1 = 0 then ev
         else
           let od1 = gf2_matrix_square ev; len2 = len1 div 2
           in if len2 \<noteq> 0 then zeros_loop od1 len2 else od1)"
  by pat_completeness auto
termination by (relation "measure snd") auto

declare zeros_loop.simps [simp del]

definition one_zero_bit :: "32 word list" where
  "one_zero_bit = POLY # map (\<lambda>n. push_bit (n - 1) 1) [1..<32]"

definition crc32c_zeros_op :: "nat \<Rightarrow> 32 word list" where
  "crc32c_zeros_op len =
     (let od = one_zero_bit;
          ev = gf2_matrix_square od;
          od = gf2_matrix_square ev
      in zeros_loop od len)"

definition crc32c_zeros :: "nat \<Rightarrow> 32 word list list" where
  "crc32c_zeros len =
     (let op = crc32c_zeros_op len
      in map (\<lambda>j. map (\<lambda>n. gf2_matrix_times op (push_bit (8 * j) (word_of_nat n))) [0..<256]) [0..<4])"

definition crc32c_shift :: "32 word list list \<Rightarrow> 32 word \<Rightarrow> 32 word" where
  "crc32c_shift zeros crc =
     zeros ! 0 ! unat (crc AND 0xff) XOR zeros ! 1 ! unat (drop_bit 8 crc AND 0xff) XOR
     zeros ! 2 ! unat (drop_bit 16 crc AND 0xff) XOR zeros ! 3 ! unat (drop_bit 24 crc)"

definition LONG :: nat where
  "LONG = 8192"

definition SHORT :: nat where
  "SHORT = 256"

text \<open>Three lanes of \<open>block\<close> bytes each; \<open>ofs\<close> is the distance of \<open>next\<close> from its start.\<close>

function hw_lanes :: "(64 word \<Rightarrow> 64 word \<Rightarrow> 64 word) \<Rightarrow> nat \<Rightarrow> byte list \<Rightarrow> nat \<Rightarrow>
    64 word \<times> 64 word \<times> 64 word \<Rightarrow> 64 word \<times> 64 word \<times> 64 word" where
  "hw_lanes crc32q block buf ofs s =
     (let (crc0, crc1, crc2) = s;
          word_at = (\<lambda>i. le_word (take 8 (drop i buf)));
          s1 = (crc32q crc0 (word_at ofs), crc32q crc1 (word_at (ofs + block)), crc32q crc2 (word_at (ofs + 2 * block)))
      in if ofs + 8 < block then hw_lanes crc32q block buf (ofs + 8) s1 else s1)"
  by pat_completeness auto
termination by (relation "measure (\<lambda>(q, block, buf, ofs, s). block - ofs)") auto

declare hw_lanes.simps [simp del]

text \<open>The loop over triples of blocks; the block sizes are the positive \<open>LONG\<close> and \<open>SHORT\<close>.\<close>

function hw_blocks :: "(64 word \<Rightarrow> 64 word \<Rightarrow> 64 word) \<Rightarrow> 32 word list list \<Rightarrow> nat \<Rightarrow> 64 word \<Rightarrow> byte list \<Rightarrow>
    64 word \<times> byte list" where
  "hw_blocks crc32q zeros block crc0 buf =
     (if block = 0 \<or> length buf < block * 3 then (crc0, buf)
      else
        let (crc0, crc1, crc2) = hw_lanes crc32q block buf 0 (crc0, 0, 0);
            crc0 = ucast (crc32c_shift zeros (ucast crc0)) XOR crc1;
            crc0 = ucast (crc32c_shift zeros (ucast crc0)) XOR crc2
        in hw_blocks crc32q zeros block crc0 (drop (block * 3) buf))"
  by pat_completeness auto
termination by (relation "measure (\<lambda>(q, zeros, block, crc0, buf). length buf)") auto

declare hw_blocks.simps [simp del]

function hw_words :: "(64 word \<Rightarrow> 64 word \<Rightarrow> 64 word) \<Rightarrow> 64 word \<Rightarrow> byte list \<Rightarrow> 64 word \<times> byte list" where
  "hw_words crc32q crc0 buf =
     (if 8 \<le> length buf then hw_words crc32q (crc32q crc0 (le_word (take 8 buf))) (drop 8 buf) else (crc0, buf))"
  by pat_completeness auto
termination by (relation "measure (\<lambda>(q, crc0, buf). length buf)") auto

declare hw_words.simps [simp del]

definition crc32c_hw :: "(64 word \<Rightarrow> byte \<Rightarrow> 64 word) \<Rightarrow> (64 word \<Rightarrow> 64 word \<Rightarrow> 64 word) \<Rightarrow>
    32 word list list \<Rightarrow> 32 word list list \<Rightarrow> 32 word \<Rightarrow> 64 word \<Rightarrow> byte list \<Rightarrow> 32 word" where
  "crc32c_hw crc32b crc32q crc32c_long crc32c_short crc addr buf =
     (let crc0 = ucast (crc XOR 0xffffffff);
          (crc0, buf) = align_loop crc32b crc0 addr buf;
          (crc0, buf) = hw_blocks crc32q crc32c_long LONG crc0 buf;
          (crc0, buf) = hw_blocks crc32q crc32c_short SHORT crc0 buf;
          (crc0, buf) = hw_words crc32q crc0 buf;
          crc0 = foldl crc32b crc0 buf
      in ucast crc0 XOR 0xffffffff)"

section \<open>Dispatch\<close>

text \<open>The static variables of the file, and their initialization.\<close>

record crc32c_state =
  sse42 :: bool
  crc32c_table :: "32 word list list"
  crc32c_long :: "32 word list list"
  crc32c_short :: "32 word list list"

definition crc32c_init_hw :: "crc32c_state \<Rightarrow> crc32c_state" where
  "crc32c_init_hw st = st\<lparr>crc32c_long := crc32c_zeros LONG, crc32c_short := crc32c_zeros SHORT\<rparr>"

definition crc32c_global_init :: "bool \<Rightarrow> crc32c_state \<Rightarrow> crc32c_state" where
  "crc32c_global_init have_sse42 st =
     (let st = st\<lparr>sse42 := have_sse42\<rparr>
      in if sse42 st then crc32c_init_hw st
         else st\<lparr>crc32c_table := crc32c_init_sw (crc32c_table st)\<rparr>)"

definition crc32c :: "(64 word \<Rightarrow> byte \<Rightarrow> 64 word) \<Rightarrow> (64 word \<Rightarrow> 64 word \<Rightarrow> 64 word) \<Rightarrow> crc32c_state \<Rightarrow>
    32 word \<Rightarrow> 64 word \<Rightarrow> byte list \<Rightarrow> 32 word" where
  "crc32c crc32b crc32q st crc addr buf =
     (if sse42 st then crc32c_hw crc32b crc32q (crc32c_long st) (crc32c_short st) crc addr buf
      else crc32c_sw (crc32c_table st) crc addr buf)"

text \<open>The tables before the initialization are static, hence zero.\<close>

definition crc32c_static :: crc32c_state where
  "crc32c_static = \<lparr>sse42 = False, crc32c_table = replicate 8 (replicate 256 0),
     crc32c_long = replicate 4 (replicate 256 0), crc32c_short = replicate 4 (replicate 256 0)\<rparr>"

section \<open>The software tables\<close>

abbreviation S :: "nat \<Rightarrow> 32 word \<Rightarrow> 32 word" where
  "S \<equiv> crc_bits POLY"

lemma crc32c_bit_eq: "crc32c_bit c = crc_bit POLY c"
  by (simp add: crc32c_bit_def crc_bit_def and_one_eq bit_0 odd_iff_mod_2_eq_one)

definition shaped :: "32 word list list \<Rightarrow> bool" where
  "shaped tbl \<longleftrightarrow> length tbl = 8 \<and> (\<forall>k < 8. length (tbl ! k) = 256)"

lemma init_row0_loop:
  "shaped tbl \<Longrightarrow> m \<le> 256 \<Longrightarrow>
   shaped (fold init_row0 [0..<m] tbl) \<and> (\<forall>n < m. fold init_row0 [0..<m] tbl ! 0 ! n = S 8 (word_of_nat n))"
proof (induction m)
  case (Suc m)
  let ?t = "fold init_row0 [0..<m] tbl"
  have t: "shaped ?t" "\<forall>n < m. ?t ! 0 ! n = S 8 (word_of_nat n)" using Suc by simp_all
  have "fold init_row0 [0..<Suc m] tbl = ?t[0 := (?t ! 0)[m := S 8 (word_of_nat m)]]"
    by (simp add: init_row0_def Let_def crc32c_bit_eq crc_bits_8)
  then show ?case using t Suc.prems(2) by (auto simp: shaped_def nth_list_update less_Suc_eq simp del: funpow.simps)
qed simp

lemma init_cell_loop:
  assumes "shaped tbl" and row0: "\<forall>i < 256. tbl ! 0 ! i = S 8 (word_of_nat i)" and "n < 256" and "m < 8"
  shows "\<exists>tbl'. fold (init_cell n) [1..<Suc m] (S 8 (word_of_nat n), tbl) = (S (8 * Suc m) (word_of_nat n), tbl') \<and>
    shaped tbl' \<and> tbl' ! 0 = tbl ! 0 \<and> (\<forall>k < 8. \<forall>i < 256. tbl' ! k ! i =
      (if i = n \<and> 1 \<le> k \<and> k \<le> m then S (8 * Suc k) (word_of_nat n) else tbl ! k ! i))"
  using assms(4)
proof (induction m)
  case 0
  then show ?case using assms(1) by (auto simp del: funpow.simps)
next
  case (Suc m)
  let ?c = "S (8 * Suc m) (word_of_nat n)"
  from Suc obtain t where t: "fold (init_cell n) [1..<Suc m] (S 8 (word_of_nat n), tbl) = (?c, t)"
    "shaped t" "t ! 0 = tbl ! 0" "\<forall>k < 8. \<forall>i < 256. t ! k ! i =
      (if i = n \<and> 1 \<le> k \<and> k \<le> m then S (8 * Suc k) (word_of_nat n) else tbl ! k ! i)" by auto
  have "t ! 0 ! unat (take_bit 8 ?c) = S 8 (take_bit 8 ?c)"
    using row0 t(3) unat_take_bit_8 [of ?c] by (simp del: funpow.simps)
  then have "t ! 0 ! unat (?c AND 0xff) XOR drop_bit 8 ?c = S 8 ?c"
    using crc_bits_split [of 8 POLY ?c] by (simp only: and_ff)
  also have "S 8 ?c = S (8 * Suc (Suc m)) (word_of_nat n)" by (simp only: crc_bits_add) (simp del: funpow.simps)
  finally have cell: "init_cell n (Suc m) (?c, t) =
      (S (8 * Suc (Suc m)) (word_of_nat n), t[Suc m := (t ! Suc m)[n := S (8 * Suc (Suc m)) (word_of_nat n)]])"
    by (simp add: init_cell_def Let_def del: funpow.simps)
  have "fold (init_cell n) [1..<Suc (Suc m)] (S 8 (word_of_nat n), tbl) = init_cell n (Suc m) (?c, t)"
    using t(1) by (simp del: funpow.simps)
  then show ?case unfolding cell using t(2-) Suc.prems assms(3)
    by (auto simp: shaped_def nth_list_update less_Suc_eq le_Suc_eq simp del: funpow.simps)
qed


lemma init_column_loop:
  assumes "shaped tbl" and row0: "\<forall>i < 256. tbl ! 0 ! i = S 8 (word_of_nat i)" and "m \<le> 256"
  shows "let t = fold init_column [0..<m] tbl in shaped t \<and> t ! 0 = tbl ! 0 \<and>
    (\<forall>k < 8. \<forall>i < m. t ! k ! i = S (8 * Suc k) (word_of_nat i))"
  using assms(3)
proof (induction m)
  case 0
  then show ?case using assms(1) by (simp add: Let_def)
next
  case (Suc m)
  let ?t = "fold init_column [0..<m] tbl"
  have t: "shaped ?t" "?t ! 0 = tbl ! 0" "\<forall>k < 8. \<forall>i < m. ?t ! k ! i = S (8 * Suc k) (word_of_nat i)"
    using Suc by (auto simp: Let_def)
  have m: "m < 256" using Suc.prems by simp
  obtain t' where t': "fold (init_cell m) [1..<Suc 7] (S 8 (word_of_nat m), ?t) = (S (8 * Suc 7) (word_of_nat m), t')"
    "shaped t'" "t' ! 0 = ?t ! 0" and cells: "\<forall>k < 8. \<forall>i < 256. t' ! k ! i =
      (if i = m \<and> 1 \<le> k \<and> k \<le> 7 then S (8 * Suc k) (word_of_nat m) else ?t ! k ! i)"
    using init_cell_loop [OF t(1) _ m, of 7] row0 t(2) by auto
  have "?t ! 0 ! m = S 8 (word_of_nat m)" "Suc 7 = 8" using row0 t(2) m by (simp_all del: funpow.simps)
  moreover have "[0..<Suc m] = [0..<m] @ [m]" by simp
  ultimately have "fold init_column [0..<Suc m] tbl = t'"
    using t'(1) by (simp add: init_column_def del: funpow.simps upt_Suc upt_rec_numeral)
  moreover have "t' ! k ! i = S (8 * Suc k) (word_of_nat i)" if "k < 8" "i < Suc m" for k i
  proof (cases "k = 0")
    case True
    then show ?thesis using t'(3) t(2) row0 that m by (simp del: funpow.simps)
  next
    case False
    then show ?thesis using cells [rule_format, OF that(1), of i] t(3) that m
      by (cases "i = m") (auto simp del: funpow.simps)
  qed
  ultimately show ?case using t' t(2) by (simp add: Let_def del: funpow.simps)
qed

lemma crc32c_init_sw_nth:
  assumes "shaped tbl"
  shows "shaped (crc32c_init_sw tbl)"
    and "k < 8 \<Longrightarrow> n < 256 \<Longrightarrow> crc32c_init_sw tbl ! k ! n = S (8 * Suc k) (word_of_nat n)"
  using init_row0_loop [OF assms, of 256] init_column_loop [of "fold init_row0 [0..<256] tbl" 256]
  by (simp_all add: crc32c_init_sw_def Let_def del: funpow.simps upt_rec_numeral)

section \<open>The software routine computes the reference\<close>

text \<open>Tables of remainders, as the routine needs them.\<close>

definition remainders :: "32 word list list \<Rightarrow> bool" where
  "remainders tbl \<longleftrightarrow> (\<forall>k < 8. \<forall>n < 256. tbl ! k ! n = S (8 * Suc k) (word_of_nat n))"

lemma remainder_at:
  assumes "remainders tbl" and "k < 8"
  shows "tbl ! k ! unat (take_bit 8 (c :: 64 word)) = S (8 * Suc k) (ucast (take_bit 8 c))"
proof -
  have "word_of_nat (unat (take_bit 8 c)) = (ucast (take_bit 8 c) :: 32 word)" by (rule of_nat_unat)
  then show ?thesis using assms unat_take_bit_8 [of c] by (simp add: remainders_def del: funpow.simps)
qed

lemma ucast_low: "ucast (take_bit 8 (ucast x :: 64 word)) = take_bit 8 (x :: 32 word)"
  by (rule bit_word_eqI) (auto simp: bit_take_bit_iff bit_ucast_iff dest: bit_imp_le_length)

lemma drop_bit_56: "drop_bit 56 x = take_bit 8 (drop_bit 56 (x :: 64 word))"
  by (rule bit_word_eqI) (auto simp: bit_take_bit_iff bit_drop_bit_eq dest: bit_imp_le_length)

lemma sw_byte_eq:
  assumes "remainders tbl"
  shows "sw_byte tbl (ucast c) b = ucast (crc_byte POLY c b)"
proof -
  let ?x = "c XOR ucast b"
  have x: "ucast c XOR ucast b = (ucast ?x :: 64 word)"
    by (rule bit_word_eqI) (auto simp: bit_xor_iff bit_ucast_iff dest: bit_imp_le_length)
  have t: "tbl ! 0 ! unat (take_bit 8 (ucast ?x :: 64 word)) = S 8 (take_bit 8 ?x)"
    using remainder_at [OF assms, of 0 "ucast ?x"] by (simp only: ucast_low) simp
  have d: "drop_bit 8 ?x = drop_bit 8 c"
    by (rule bit_word_eqI) (auto simp: bit_drop_bit_eq bit_xor_iff bit_ucast_iff dest: bit_imp_le_length)
  have "ucast (S 8 (take_bit 8 ?x)) XOR drop_bit 8 (ucast c) = (ucast (S 8 (take_bit 8 ?x) XOR drop_bit 8 c) :: 64 word)"
    by (rule bit_word_eqI) (auto simp: bit_xor_iff bit_ucast_iff bit_drop_bit_eq dest: bit_imp_le_length simp del: funpow.simps)
  then show ?thesis unfolding sw_byte_def x and_ff t using crc_bits_split [of 8 POLY ?x]
    by (simp only: crc_byte_def d)
qed

text \<open>The two sides of the slicing step as sums over the bytes.\<close>

lemma crc_bytes_0_Cons: "crc_bytes p 0 (b # bs) = crc_bits p (8 * Suc (length bs)) (ucast b) XOR crc_bytes p 0 bs"
proof -
  have "crc_bytes p 0 (b # bs) = crc_bytes p (crc_bits p 8 (ucast b)) bs" by (simp add: crc_byte_def del: funpow.simps)
  also have "\<dots> = crc_bits p (8 * length bs) (crc_bits p 8 (ucast b)) XOR crc_bytes p 0 bs" by (rule crc_bytes_linear)
  finally show ?thesis by (simp add: crc_bits_add add.commute del: funpow.simps)
qed

lemma crc_bits_byte: "8 \<le> n \<Longrightarrow> crc_bits p n c = crc_bits p n (take_bit 8 c) XOR crc_bits p (n - 8) (drop_bit 8 c)"
proof -
  assume "8 \<le> n"
  then have n: "n - 8 + 8 = n" by simp
  have "crc_bits p (n - 8) (crc_bits p 8 c) = crc_bits p (n - 8) (crc_bits p 8 (take_bit 8 c) XOR drop_bit 8 c)"
    using crc_bits_split [of 8 p c] by (rule arg_cong)
  then show ?thesis by (simp only: crc_bits_xor crc_bits_add n)
qed

lemma crc_64_bits:
  "crc_bits p 64 (c :: 32 word) = crc_bits p 64 (take_bit 8 c) XOR crc_bits p 56 (take_bit 8 (drop_bit 8 c)) XOR
     crc_bits p 48 (take_bit 8 (drop_bit 16 c)) XOR crc_bits p 40 (take_bit 8 (drop_bit 24 c))"
proof -
  have "drop_bit 32 c = 0" by (rule bit_word_eqI) (auto simp: bit_drop_bit_eq dest: bit_imp_le_length)
  then show ?thesis
    using crc_bits_byte [of 64 p c] crc_bits_byte [of 56 p "drop_bit 8 c"] crc_bits_byte [of 48 p "drop_bit 16 c"]
      crc_bits_byte [of 40 p "drop_bit 24 c"]
    by (simp add: drop_bit_drop_bit xor.assoc del: funpow.simps)
qed

lemma slice_bytes:
  fixes c :: "32 word"
  assumes "length bs = 8" and "i < 8"
  shows "ucast (take_bit 8 (drop_bit (8 * i) (ucast c XOR le_word bs :: 64 word))) =
    (take_bit 8 (drop_bit (8 * i) c) XOR ucast (bs ! i) :: 32 word)"
proof (rule bit_word_eqI)
  fix n
  assume "n < LENGTH(32)"
  have d: "n < 8 \<Longrightarrow> (8 * i + n) div 8 = i" "n < 8 \<Longrightarrow> (8 * i + n) mod 8 = n" by simp_all
  show "bit (ucast (take_bit 8 (drop_bit (8 * i) (ucast c XOR le_word bs :: 64 word))) :: 32 word) n =
      bit (take_bit 8 (drop_bit (8 * i) c) XOR ucast (bs ! i) :: 32 word) n"
    using assms d bit_imp_le_length [of "bs ! i" n] bit_imp_le_length [of c "8 * i + n"]
    by (auto simp: bit_take_bit_iff bit_drop_bit_eq bit_xor_iff bit_ucast_iff bit_le_word)
qed

lemma list_of_8: "length bs = 8 \<Longrightarrow> bs = [bs ! 0, bs ! 1, bs ! 2, bs ! 3, bs ! 4, bs ! 5, bs ! 6, bs ! 7]"
  by (auto simp: list_eq_iff_nth_eq nth_Cons' numeral_eq_Suc less_Suc_eq)

lemma sw_slice_eq:
  assumes "remainders tbl" and "length bs = 8"
  shows "sw_slice tbl (ucast c XOR le_word bs) = ucast (crc_bytes POLY c bs)"
proof -
  let ?x = "ucast c XOR le_word bs :: 64 word"
  have cell: "tbl ! (7 - i) ! unat (take_bit 8 (drop_bit (8 * i) ?x)) =
      S (64 - 8 * i) (take_bit 8 (drop_bit (8 * i) c)) XOR S (64 - 8 * i) (ucast (bs ! i))" if "i < 8" for i
  proof -
    have "8 * Suc (7 - i) = 64 - 8 * i" using that by simp
    then show ?thesis using remainder_at [OF assms(1), of "7 - i" "drop_bit (8 * i) ?x"] slice_bytes [OF assms(2) that, of c]
      by (simp only: crc_bits_xor)
  qed
  have z: "drop_bit n c = 0" if "32 \<le> n" for n
    using that by (intro bit_word_eqI) (auto simp: bit_drop_bit_eq dest: bit_imp_le_length)
  have rhs: "crc_bytes POLY 0 bs = S 64 (ucast (bs ! 0)) XOR S 56 (ucast (bs ! 1)) XOR S 48 (ucast (bs ! 2)) XOR
      S 40 (ucast (bs ! 3)) XOR S 32 (ucast (bs ! 4)) XOR S 24 (ucast (bs ! 5)) XOR S 16 (ucast (bs ! 6)) XOR S 8 (ucast (bs ! 7))"
    by (subst list_of_8 [OF assms(2)]) (simp only: crc_bytes_0_Cons list.size crc_bytes_simps(1), simp del: funpow.simps)
  have "crc_bytes POLY c bs = S 64 c XOR crc_bytes POLY 0 bs" using crc_bytes_linear [of POLY c bs] assms(2) by simp
  then show ?thesis
    using cell [of 0] cell [of 1] cell [of 2] cell [of 3] cell [of 4] cell [of 5] cell [of 6] cell [of 7] arg_cong [OF drop_bit_56 [of ?x], of unat]
    by (simp add: sw_slice_def and_ff rhs crc_64_bits [of POLY c] z xor.assoc xor.commute xor.left_commute del: funpow.simps drop_bit_xor take_bit_xor)
qed


text \<open>Loops whose step is a byte of the reference, in a 64-bit register.\<close>

lemma align_loop_eq:
  assumes "\<And>c b. f (ucast c) b = ucast (crc_byte POLY c b)"
  shows "align_loop f (ucast c) addr bs = (crc, rest) \<Longrightarrow>
    \<exists>c'. crc = ucast c' \<and> crc_bytes POLY c' rest = crc_bytes POLY c bs"
proof (induction bs arbitrary: c addr)
  case (Cons b bs)
  show ?case
  proof (cases "addr AND 7 \<noteq> 0")
    case True
    then show ?thesis using Cons.IH [of "crc_byte POLY c b" "addr + 1"] Cons.prems by (simp add: assms)
  next
    case False
    then show ?thesis using Cons.prems by auto
  qed
qed auto

lemma foldl_byte_eq:
  assumes "\<And>c b. f (ucast c) b = ucast (crc_byte POLY c b)"
  shows "foldl f (ucast c :: 64 word) bs = ucast (crc_bytes POLY c bs)"
  by (induction bs arbitrary: c) (simp_all add: assms)

lemma slice_loop_eq:
  assumes "remainders tbl"
  shows "slice_loop tbl (ucast c) bs = (crc, rest) \<Longrightarrow>
    \<exists>c'. crc = ucast c' \<and> crc_bytes POLY c' rest = crc_bytes POLY c bs"
proof (induction "length bs" arbitrary: c bs rule: less_induct)
  case less
  show ?case
  proof (cases "8 \<le> length bs")
    case True
    have "crc_bytes POLY (crc_bytes POLY c (take 8 bs)) (drop 8 bs) = crc_bytes POLY c bs"
      using crc_bytes_simps(3) [of POLY c "take 8 bs" "drop 8 bs"] by simp
    then show ?thesis
      using less.hyps [of "drop 8 bs" "crc_bytes POLY c (take 8 bs)"] less.prems True sw_slice_eq [OF assms, of "take 8 bs" c]
      by (simp add: slice_loop.simps [of tbl "ucast c" bs] del: crc_bytes_simps)
  next
    case False
    then show ?thesis using less.prems by (auto simp: slice_loop.simps [of tbl "ucast c" bs])
  qed
qed

lemma ucast_ucast_32 [simp]: "(ucast (ucast (c :: 32 word) :: 64 word) :: 32 word) = c"
  by (rule bit_word_eqI) (auto simp: bit_ucast_iff)

text \<open>The value both routines compute.\<close>

definition crc32c_reference :: "32 word \<Rightarrow> byte list \<Rightarrow> 32 word" where
  "crc32c_reference crc buf = crc_bytes POLY (crc XOR 0xffffffff) buf XOR 0xffffffff"

lemma crc32c_sw_eq:
  assumes "remainders tbl"
  shows "crc32c_sw tbl crci addr buf = crc32c_reference crci buf"
proof -
  note byte = sw_byte_eq [OF assms]
  obtain crc rest where a: "align_loop (sw_byte tbl) (ucast (crci XOR 0xffffffff)) addr buf = (crc, rest)" by force
  obtain c1 where c1: "crc = ucast c1" "crc_bytes POLY c1 rest = crc_bytes POLY (crci XOR 0xffffffff) buf"
    using align_loop_eq [OF byte a] by blast
  obtain crc' rest' where b: "slice_loop tbl (ucast c1) rest = (crc', rest')" by force
  obtain c2 where "crc' = ucast c2" "crc_bytes POLY c2 rest' = crc_bytes POLY c1 rest"
    using slice_loop_eq [OF assms b] by blast
  then show ?thesis using a b c1 foldl_byte_eq [OF byte, of c2 rest']
    by (simp add: crc32c_sw_def crc32c_reference_def Let_def)
qed

section \<open>The hardware routine computes the reference\<close>

text \<open>A matrix that has the images of the unit vectors as its rows applies the function.\<close>

definition represents :: "32 word list \<Rightarrow> (32 word \<Rightarrow> 32 word) \<Rightarrow> bool" where
  "represents mat f \<longleftrightarrow> length mat = 32 \<and> (\<forall>n < 32. mat ! n = f (push_bit n 1))"

lemma bit_unit: "bit (push_bit j 1 :: 32 word) n \<longleftrightarrow> n = j \<and> j < 32"
  by (auto simp: bit_exp_iff)

lemma gf2_loop_linear:
  assumes lin: "\<And>a b. f (a XOR b) = f a XOR f b"
  shows "\<forall>n < length mat. mat ! n = f (push_bit (j + n) 1) \<Longrightarrow> unat vec < 2 ^ length mat \<Longrightarrow>
    gf2_loop mat vec acc = acc XOR f (push_bit j vec)"
proof (induction mat arbitrary: j vec acc)
  case Nil
  have "f 0 = 0" using lin [of 0 0] by simp
  moreover have "vec = 0" using Nil.prems by (simp add: unat_eq_zero)
  ultimately show ?case by (simp add: gf2_loop.simps)
next
  case (Cons row mat)
  have f0: "f 0 = 0" using lin [of 0 0] by simp
  show ?case
  proof (cases "vec = 0")
    case True
    then show ?thesis by (simp add: gf2_loop.simps f0)
  next
    case False
    have row: "row = f (push_bit j 1)" using Cons.prems(1) by force
    have rows: "\<forall>n < length mat. mat ! n = f (push_bit (Suc j + n) 1)"
    proof (intro allI impI)
      fix n
      assume "n < length mat"
      then show "mat ! n = f (push_bit (Suc j + n) 1)" using Cons.prems(1) [rule_format, of "Suc n"] by simp
    qed
    have "unat (drop_bit 1 vec) = unat vec div 2" by (simp add: drop_bit_eq_div unat_div_distrib)
    then have small: "unat (drop_bit 1 vec) < 2 ^ length mat" using Cons.prems(2) by simp
    have split: "push_bit j vec = (if bit vec 0 then push_bit j 1 else 0) XOR push_bit (Suc j) (drop_bit 1 vec)"
    proof (rule bit_word_eqI)
      fix n
      have "bit vec (n - j) = bit (drop_bit 1 vec) (n - Suc j)" if "Suc j \<le> n"
        using that by (simp add: bit_drop_bit_eq Suc_diff_Suc)
      then show "bit (push_bit j vec) n = bit ((if bit vec 0 then push_bit j 1 else 0) XOR push_bit (Suc j) (drop_bit 1 vec)) n"
        by (cases n j rule: linorder_cases) (auto simp: bit_push_bit_iff [of _ vec] bit_push_bit_iff [of _ "drop_bit (Suc 0) vec"] bit_xor_iff bit_unit
          simp del: push_bit_Suc push_bit_of_1)
    qed
    have odd: "vec AND 1 \<noteq> 0 \<longleftrightarrow> bit vec 0" by (simp add: and_one_eq bit_0 odd_iff_mod_2_eq_one)
    have "gf2_loop (row # mat) vec acc = gf2_loop mat (drop_bit 1 vec) (if bit vec 0 then acc XOR row else acc)"
      using False odd by (simp add: gf2_loop.simps [of "row # mat" vec acc])
    then show ?thesis unfolding Cons.IH [OF rows small] split unfolding row by (simp add: lin f0 xor.assoc)
  qed
qed

lemma gf2_matrix_times_linear:
  assumes "represents mat f" and "\<And>a b. f (a XOR b) = f a XOR f b"
  shows "gf2_matrix_times mat vec = f vec"
  using gf2_loop_linear [where f = f and mat = mat and j = 0 and vec = vec and acc = 0, OF assms(2)] assms(1) unsigned_less [of vec]
  by (simp add: represents_def gf2_matrix_times_def)

lemma represents_square:
  assumes "represents mat (S n)"
  shows "represents (gf2_matrix_square mat) (S (2 * n))"
proof -
  have "gf2_matrix_square mat ! i = S (2 * n) (push_bit i 1)" if "i < 32" for i
  proof -
    have "gf2_matrix_square mat ! i = gf2_matrix_times mat (mat ! i)" using that by (simp add: gf2_matrix_square_def del: upt_rec_numeral)
    also have "\<dots> = S n (S n (push_bit i 1))"
      using gf2_matrix_times_linear [OF assms crc_bits_xor] assms that by (simp add: represents_def del: funpow.simps)
    finally show ?thesis by (simp only: crc_bits_add mult_2)
  qed
  then show ?thesis by (simp add: represents_def gf2_matrix_square_def)
qed

lemma represents_one_zero_bit: "represents one_zero_bit (S 1)"
proof -
  have "one_zero_bit ! n = crc_bit POLY (push_bit n 1)" if "n < 32" for n
  proof (cases n)
    case 0
    then show ?thesis by (simp add: one_zero_bit_def crc_bit_def)
  next
    case (Suc m)
    have "drop_bit 1 (push_bit (Suc m) 1 :: 32 word) = push_bit m 1" "\<not> bit (push_bit (Suc m) 1 :: 32 word) 0"
      using that Suc by (auto intro!: bit_word_eqI simp: bit_drop_bit_eq bit_unit simp del: push_bit_Suc push_bit_of_1)
    then show ?thesis using that Suc by (simp add: one_zero_bit_def crc_bit_def del: push_bit_Suc push_bit_of_1 upt_rec_numeral)
  qed
  then show ?thesis by (simp add: represents_def one_zero_bit_def)
qed

text \<open>
  The zeros operator, for every length: the largest power of two that is not greater counts,
  and 0 counts as 1.
\<close>

lemma zeros_loop_represents:
  "represents od (S n) \<Longrightarrow> len < 2 ^ Suc k \<Longrightarrow> 2 ^ k \<le> max 1 len \<Longrightarrow> represents (zeros_loop od len) (S (2 ^ Suc k * n))"
proof (induction od len arbitrary: n k rule: zeros_loop.induct)
  case (1 od len)
  let ?ev = "gf2_matrix_square od"
  have ev: "represents ?ev (S (2 * n))" and od: "represents (gf2_matrix_square ?ev) (S (2 * (2 * n)))"
    using represents_square represents_square [OF represents_square] "1.prems"(1) by blast+
  show ?case
  proof (cases "len div 2 = 0")
    case True
    then have "k = 0" using "1.prems"(3) one_less_power [of "2 :: nat" k] by (cases "k = 0") auto
    then show ?thesis using True ev by (simp add: zeros_loop.simps [of od len] Let_def)
  next
    case False
    then obtain k' where k: "k = Suc k'" using "1.prems"(2) by (cases k) auto
    show ?thesis
    proof (cases "len div 2 div 2 = 0")
      case True
      then have "k' = 0" using "1.prems"(3) k False one_less_power [of "2 :: nat" k'] by (cases "k' = 0") auto
      then show ?thesis using True False od k by (simp add: zeros_loop.simps [of od len] Let_def)
    next
      case nz: False
      then obtain k'' where k': "k' = Suc k''" using "1.prems"(2) k by (cases k') auto
      have "len div 2 div 2 < 2 ^ Suc k''" "2 ^ k'' \<le> max 1 (len div 2 div 2)"
        using "1.prems"(2,3) nz k k' by (auto simp: max_def split: if_splits)
      from "1.IH" [OF refl refl False refl refl nz od this] show ?thesis
        using nz False k k' by (auto simp: zeros_loop.simps [of od len] Let_def mult.assoc mult.left_commute)
    qed
  qed
qed


lemma crc32c_zeros_op_represents:
  assumes "len = 2 ^ k"
  shows "represents (crc32c_zeros_op len) (S (8 * len))"
proof -
  have "represents (gf2_matrix_square (gf2_matrix_square one_zero_bit)) (S 4)"
    using represents_square [OF represents_square [OF represents_one_zero_bit]] by (simp del: funpow.simps)
  from zeros_loop_represents [OF this, of len k] assms show ?thesis
    by (simp add: crc32c_zeros_op_def Let_def mult.commute del: funpow.simps)
qed

lemma four_bytes:
  "(c :: 32 word) = take_bit 8 c XOR push_bit 8 (take_bit 8 (drop_bit 8 c)) XOR
     push_bit 16 (take_bit 8 (drop_bit 16 c)) XOR push_bit 24 (drop_bit 24 c)"
  by (rule bit_word_eqI)
    (auto simp: bit_xor_iff bit_take_bit_iff bit_push_bit_iff bit_drop_bit_eq
      simp del: push_bit_numeral)

lemma crc32c_shift_eq:
  assumes "len = 2 ^ k"
  shows "crc32c_shift (crc32c_zeros len) c = S (8 * len) c"
proof -
  have cell: "crc32c_zeros len ! j ! unat w = S (8 * len) (push_bit (8 * j) w)" if "j < 4" "unat w < 256" for j and w :: "32 word"
    using that gf2_matrix_times_linear [OF crc32c_zeros_op_represents [OF assms] crc_bits_xor]
    by (simp add: crc32c_zeros_def Let_def del: upt_rec_numeral funpow.simps)
  have hi: "unat (drop_bit 24 c) < 256"
  proof -
    have "unat (drop_bit 24 c) = unat c div 2 ^ 24" by (simp add: drop_bit_eq_div unat_div_distrib)
    moreover have "unat c < 2 ^ LENGTH(32)" by (rule unsigned_less)
    ultimately show ?thesis by simp
  qed
  have "crc32c_shift (crc32c_zeros len) c = S (8 * len) (take_bit 8 c XOR push_bit 8 (take_bit 8 (drop_bit 8 c)) XOR
     push_bit 16 (take_bit 8 (drop_bit 16 c)) XOR push_bit 24 (drop_bit 24 c))"
    using cell [of 0 "take_bit 8 c"] cell [of 1 "take_bit 8 (drop_bit 8 c)"] cell [of 2 "take_bit 8 (drop_bit 16 c)"]
      cell [of 3 "drop_bit 24 c"] hi
    by (simp add: crc32c_shift_def and_ff unat_take_bit_8 crc_bits_xor del: funpow.simps)
  then show ?thesis using four_bytes [of c] by simp
qed

text \<open>
  What the processor manual says of the two forms of the instruction: the low half of the
  destination advances by the bytes of the source, lowest first, and the high half is cleared.
\<close>

definition crc32_instructions :: "(64 word \<Rightarrow> byte \<Rightarrow> 64 word) \<Rightarrow> (64 word \<Rightarrow> 64 word \<Rightarrow> 64 word) \<Rightarrow> bool" where
  "crc32_instructions crc32b crc32q \<longleftrightarrow>
     (\<forall>c b. crc32b c b = ucast (crc_byte POLY (ucast c) b)) \<and>
     (\<forall>c bs. length bs = 8 \<longrightarrow> crc32q c (le_word bs) = ucast (crc_bytes POLY (ucast c) bs))"

lemma take_lane:
  assumes "ofs + 8 \<le> block"
  shows "take (block - ofs) (drop i bs) = take 8 (drop i bs) @ take (block - (ofs + 8)) (drop (i + 8) bs)"
proof -
  have "block - ofs = 8 + (block - (ofs + 8))" using assms by simp
  then show ?thesis by (simp only: take_add drop_drop) (simp add: add.commute)
qed

lemma hw_lanes_eq:
  assumes "crc32_instructions crc32b crc32q" and "8 dvd block" and "3 * block \<le> length buf"
  shows "8 dvd ofs \<Longrightarrow> ofs < block \<Longrightarrow> hw_lanes crc32q block buf ofs (ucast a, ucast b, ucast c) =
    (ucast (crc_bytes POLY a (take (block - ofs) (drop ofs buf))),
     ucast (crc_bytes POLY b (take (block - ofs) (drop (ofs + block) buf))),
     ucast (crc_bytes POLY c (take (block - ofs) (drop (ofs + 2 * block) buf))))"
proof (induction "block - ofs" arbitrary: ofs a b c rule: less_induct)
  case less
  have q: "crc32q (ucast x) (le_word bs) = ucast (crc_bytes POLY x bs)" if "length bs = 8" for x bs
    using assms(1) that by (simp add: crc32_instructions_def)
  have room: "ofs + 8 \<le> block" using less.prems assms(2) by (auto elim!: dvdE)
  then have lane: "length (take 8 (drop ofs buf)) = 8" "length (take 8 (drop (ofs + block) buf)) = 8"
    "length (take 8 (drop (ofs + 2 * block) buf)) = 8" using assms(3) by auto
  note step = hw_lanes.simps [of crc32q block buf ofs "(ucast a, ucast b, ucast c)"]
  show ?case
  proof (cases "ofs + 8 < block")
    case True
    have "8 dvd ofs + 8" "block - (ofs + 8) < block - ofs" using less.prems by simp_all
    note IH = less.hyps [OF this(2,1) True, of "crc_bytes POLY a (take 8 (drop ofs buf))"
        "crc_bytes POLY b (take 8 (drop (ofs + block) buf))" "crc_bytes POLY c (take 8 (drop (ofs + 2 * block) buf))"]
    have next_lane: "ofs + block + 8 = ofs + 8 + block" "ofs + 2 * block + 8 = ofs + 8 + 2 * block" by simp_all
    show ?thesis unfolding take_lane [OF room, of _ buf] next_lane using True IH
      by (simp add: step q [OF lane(1)] q [OF lane(2)] q [OF lane(3)] Let_def)
  next
    case False
    then have "block - ofs = 8" using room by simp
    then show ?thesis using False by (simp add: step q [OF lane(1)] q [OF lane(2)] q [OF lane(3)] Let_def)
  qed
qed

lemma hw_blocks_eq:
  assumes "crc32_instructions crc32b crc32q" and "block = 2 ^ k" and "8 dvd block"
  shows "hw_blocks crc32q (crc32c_zeros block) block (ucast c) buf = (crc, rest) \<Longrightarrow>
    \<exists>c'. crc = ucast c' \<and> crc_bytes POLY c' rest = crc_bytes POLY c buf"
proof (induction "length buf" arbitrary: c buf rule: less_induct)
  case less
  note step = hw_blocks.simps [of crc32q "crc32c_zeros block" block "ucast c" buf]
  have pos: "0 < block" using assms(2) by simp
  show ?case
  proof (cases "length buf < block * 3")
    case True
    then show ?thesis using less.prems by (auto simp: step)
  next
    case False
    let ?A = "take block buf" and ?B = "take block (drop block buf)" and ?C = "take block (drop (2 * block) buf)"
    have lanes: "hw_lanes crc32q block buf 0 (ucast c, 0, 0) =
        (ucast (crc_bytes POLY c ?A), ucast (crc_bytes POLY 0 ?B), ucast (crc_bytes POLY 0 ?C))"
      using hw_lanes_eq [OF assms(1,3), of buf 0 c 0 0] False pos by (simp add: mult.commute)
    have len: "length ?B = block" "length ?C = block" using False by auto
    have buf: "buf = ?A @ ?B @ ?C @ drop (block * 3) buf"
    proof -
      have "drop (2 * block) buf = ?C @ drop (block * 3) buf"
        by (metis append_take_drop_id drop_drop mult.commute add_mult_distrib2 numeral_3_eq_3 numeral_2_eq_2 mult_Suc_right)
      moreover have "drop block buf = ?B @ drop (2 * block) buf" by (metis append_take_drop_id drop_drop mult_2)
      ultimately show ?thesis by (metis append_take_drop_id)
    qed
    have join: "ucast (crc32c_shift (crc32c_zeros block) a) XOR ucast (crc_bytes POLY 0 bs) = (ucast (crc_bytes POLY a bs) :: 64 word)"
      if "length bs = block" for a bs
    proof -
      have "crc_bytes POLY a bs = crc32c_shift (crc32c_zeros block) a XOR crc_bytes POLY 0 bs"
        using crc_bytes_linear [of POLY a bs] that crc32c_shift_eq [OF assms(2)] by simp
      then show ?thesis by (simp only:) (rule bit_word_eqI, auto simp: bit_xor_iff bit_ucast_iff)
    qed
    let ?c = "crc_bytes POLY c (?A @ ?B @ ?C)"
    have "hw_blocks crc32q (crc32c_zeros block) block (ucast c) buf =
        hw_blocks crc32q (crc32c_zeros block) block (ucast ?c) (drop (block * 3) buf)"
      using False pos by (simp add: step lanes Let_def join [OF len(1)] join [OF len(2)])
    then have "\<exists>c'. crc = ucast c' \<and> crc_bytes POLY c' rest = crc_bytes POLY ?c (drop (block * 3) buf)"
      using less.hyps [of "drop (block * 3) buf" ?c] less.prems False pos by simp
    then show ?thesis using buf crc_bytes_simps(3) [of POLY c "?A @ ?B @ ?C" "drop (block * 3) buf"] by (metis append_assoc)
  qed
qed

lemma hw_words_eq:
  assumes "crc32_instructions crc32b crc32q"
  shows "hw_words crc32q (ucast c) buf = (crc, rest) \<Longrightarrow>
    \<exists>c'. crc = ucast c' \<and> crc_bytes POLY c' rest = crc_bytes POLY c buf"
proof (induction "length buf" arbitrary: c buf rule: less_induct)
  case less
  show ?case
  proof (cases "8 \<le> length buf")
    case True
    have "crc32q (ucast c) (le_word (take 8 buf)) = ucast (crc_bytes POLY c (take 8 buf))"
      using assms True by (simp add: crc32_instructions_def)
    moreover have "crc_bytes POLY (crc_bytes POLY c (take 8 buf)) (drop 8 buf) = crc_bytes POLY c buf"
      using crc_bytes_simps(3) [of POLY c "take 8 buf" "drop 8 buf"] by simp
    ultimately show ?thesis
      using less.hyps [of "drop 8 buf" "crc_bytes POLY c (take 8 buf)"] less.prems True
      by (simp add: hw_words.simps [of crc32q "ucast c" buf] del: crc_bytes_simps)
  next
    case False
    then show ?thesis using less.prems by (auto simp: hw_words.simps [of crc32q "ucast c" buf])
  qed
qed

lemma crc32c_hw_eq:
  assumes "crc32_instructions crc32b crc32q"
  shows "crc32c_hw crc32b crc32q (crc32c_zeros LONG) (crc32c_zeros SHORT) crc addr buf = crc32c_reference crc buf"
proof -
  have byte: "crc32b (ucast c) b = ucast (crc_byte POLY c b)" for c b
    using assms by (simp add: crc32_instructions_def)
  have L: "LONG = 2 ^ 13" "8 dvd LONG" and Sh: "SHORT = 2 ^ 8" "8 dvd SHORT" by (simp_all add: LONG_def SHORT_def)
  obtain x1 r1 where 1: "align_loop crc32b (ucast (crc XOR 0xffffffff)) addr buf = (x1, r1)" by force
  obtain c1 where c1: "x1 = ucast c1" "crc_bytes POLY c1 r1 = crc_bytes POLY (crc XOR 0xffffffff) buf"
    using align_loop_eq [OF byte 1] by blast
  obtain x2 r2 where 2: "hw_blocks crc32q (crc32c_zeros LONG) LONG (ucast c1) r1 = (x2, r2)" by force
  obtain c2 where c2: "x2 = ucast c2" "crc_bytes POLY c2 r2 = crc_bytes POLY c1 r1"
    using hw_blocks_eq [OF assms L 2] by blast
  obtain x3 r3 where 3: "hw_blocks crc32q (crc32c_zeros SHORT) SHORT (ucast c2) r2 = (x3, r3)" by force
  obtain c3 where c3: "x3 = ucast c3" "crc_bytes POLY c3 r3 = crc_bytes POLY c2 r2"
    using hw_blocks_eq [OF assms Sh 3] by blast
  obtain x4 r4 where 4: "hw_words crc32q (ucast c3) r3 = (x4, r4)" by force
  obtain c4 where c4: "x4 = ucast c4" "crc_bytes POLY c4 r4 = crc_bytes POLY c3 r3"
    using hw_words_eq [OF assms 4] by blast
  show ?thesis using 1 2 3 4 c1 c2 c3 c4 foldl_byte_eq [OF byte, of c4 r4]
    by (simp add: crc32c_hw_def crc32c_reference_def Let_def)
qed

lemma crc32c_eq_reference:
  assumes "crc32_instructions crc32b crc32q"
  shows "crc32c crc32b crc32q (crc32c_global_init have_sse42 crc32c_static) crc addr buf = crc32c_reference crc buf"
proof (cases have_sse42)
  case True
  then show ?thesis using crc32c_hw_eq [OF assms]
    by (simp add: crc32c_def crc32c_global_init_def crc32c_init_hw_def Let_def)
next
  case False
  have "shaped (replicate 8 (replicate 256 0))" by (simp add: shaped_def)
  then have "remainders (crc32c_init_sw (replicate 8 (replicate 256 0)))"
    using crc32c_init_sw_nth(2) by (simp only: remainders_def) blast
  with False show ?thesis
    using crc32c_sw_eq by (simp add: crc32c_def crc32c_global_init_def crc32c_static_def Let_def)
qed

section \<open>What the checksum promises\<close>

text \<open>
  C21: whatever processor the library runs on and wherever the buffer lies, \<open>crc32c\<close> is the bitwise
  CRC-32C: the slicing-by-eight tables, the alignment loops, the three lanes joined by the
  zeros operator and the instruction itself all compute the same remainder.
\<close>

theorem crc32c_is_reference:
  assumes "crc32_instructions crc32b crc32q"
  shows "crc32c crc32b crc32q (crc32c_global_init have_sse42 crc32c_static) crc addr buf = crc32c_reference crc buf"
  by (rule crc32c_eq_reference [OF assms])

text \<open>The eight bytes of a register, to state an instruction that satisfies the assumption.\<close>

definition le_bytes :: "64 word \<Rightarrow> byte list" where
  "le_bytes w = map (\<lambda>i. ucast (drop_bit (8 * i) w)) [0..<8]"

lemma le_bytes_le_word: "length bs = 8 \<Longrightarrow> le_bytes (le_word bs) = bs"
  by (rule nth_equalityI)
    (auto intro!: bit_word_eqI simp: le_bytes_def bit_ucast_iff bit_drop_bit_eq bit_le_word simp del: upt_rec_numeral)

theorem crc32c_is_reference_witness:
  "crc32c (\<lambda>c b. ucast (crc_byte POLY (ucast c) b)) (\<lambda>c w. ucast (crc_bytes POLY (ucast c) (le_bytes w)))
     (crc32c_global_init True crc32c_static) 0 3 [1, 2, 3] = crc32c_reference 0 [1, 2, 3]"
  by (rule crc32c_is_reference) (simp add: crc32_instructions_def le_bytes_le_word)

end
