(* ===== verification/Rdslice.thy ===== *)
theory Rdslice
  imports Rdbuf Rdcrc32 Crc32c Rdvarint
begin

unbundle bit_operations_syntax

text \<open>
  Reading from the segmented buffers (\<open>rdbuf.c\<close>, \<open>rdbuf.h\<close>): a slice is a range of a buffer with a
  read position. The lemmas show that reading a slice is reading from the one array of bytes the
  buffer holds, and that the checksums computed segment by segment are those of the whole range.
\<close>

section \<open>Slices\<close>

text \<open>Offsets and sizes come from the caller here, and their sums wrap around.\<close>

definition uadd :: "nat \<Rightarrow> nat \<Rightarrow> nat" where
  "uadd a b = (a + b) mod 2 ^ 64"

record rd_slice =
  slice_seg :: "nat option"
  slice_rof :: nat
  slice_start :: nat
  slice_end :: nat

definition rd_slice_abs_offset :: "rd_buf \<Rightarrow> rd_slice \<Rightarrow> nat res" where
  "rd_slice_abs_offset rbuf sl =
     (case slice_seg sl of
        None \<Rightarrow> Inr (slice_end sl)
      | Some i \<Rightarrow> bindR (seg_at rbuf i) (\<lambda>seg. Inr (seg_absof seg + slice_rof sl)))"

definition rd_slice_remains :: "rd_buf \<Rightarrow> rd_slice \<Rightarrow> nat res" where
  "rd_slice_remains rbuf sl = bindR (rd_slice_abs_offset rbuf sl) (\<lambda>pos. Inr (usub (slice_end sl) pos))"

definition rd_slice_size :: "rd_slice \<Rightarrow> nat" where
  "rd_slice_size sl = usub (slice_end sl) (slice_start sl)"

definition rd_slice_pos :: "rd_buf \<Rightarrow> rd_slice \<Rightarrow> rd_slice res" where
  "rd_slice_pos rbuf sl =
     (case slice_seg sl of
        None \<Rightarrow> Inr sl
      | Some i \<Rightarrow> bindR (seg_at rbuf i) (\<lambda>seg. Inr (sl\<lparr>slice_start := seg_absof seg + slice_rof sl\<rparr>)))"

definition rd_slice_offset :: "rd_buf \<Rightarrow> rd_slice \<Rightarrow> nat res" where
  "rd_slice_offset rbuf sl =
     (case slice_seg sl of
        None \<Rightarrow> Inr (rd_slice_size sl)
      | Some i \<Rightarrow> bindR (seg_at rbuf i) (\<lambda>seg. Inr (usub (seg_absof seg + slice_rof sl) (slice_start sl))))"

text \<open>\<open>None\<close> stands for the result -1.\<close>

definition rd_slice_init_seg :: "rd_buf \<Rightarrow> nat \<Rightarrow> nat \<Rightarrow> nat \<Rightarrow> rd_slice option res" where
  "rd_slice_init_seg rbuf i rof sz =
     bindR (seg_at rbuf i) (\<lambda>seg.
     if rbuf_len rbuf < uadd (seg_absof seg + rof) sz then Inr None
     else
       let start = seg_absof seg + rof; fin = uadd start sz
       in bindR (check Assert_Failed (seg_absof seg + rof \<ge> start \<and> seg_absof seg + rof \<le> fin)) (\<lambda>_.
          bindR (check Assert_Failed (fin \<le> rd_buf_len rbuf)) (\<lambda>_.
          Inr (Some \<lparr>slice_seg = Some i, slice_rof = rof, slice_start = start, slice_end = fin\<rparr>))))"

definition rd_slice_init :: "rd_buf \<Rightarrow> nat \<Rightarrow> nat \<Rightarrow> rd_slice option res" where
  "rd_slice_init rbuf absof sz =
     bindR (rd_buf_get_segment_at_offset rbuf None absof) (\<lambda>found.
     case found of
       None \<Rightarrow> Inr None
     | Some i \<Rightarrow> bindR (seg_at rbuf i) (\<lambda>seg. rd_slice_init_seg rbuf i (absof - seg_absof seg) sz))"

definition rd_slice_init_full :: "rd_buf \<Rightarrow> rd_slice res" where
  "rd_slice_init_full rbuf = bindR (rd_slice_init rbuf 0 (rd_buf_len rbuf)) (derefR Assert_Failed)"

section \<open>Reading\<close>

text \<open>The loop that looks for a segment with bytes left: where it stops, and the offset there.\<close>

function reader_loop :: "rd_segment list \<Rightarrow> nat \<Rightarrow> nat \<Rightarrow> nat \<Rightarrow> nat option \<times> nat" where
  "reader_loop segs fin i rof =
     (if i < length segs then
        (if seg_absof (segs ! i) + rof < fin \<and> seg_of (segs ! i) = rof then reader_loop segs fin (Suc i) 0 else (Some i, rof))
      else (None, rof))"
  by pat_completeness auto
termination
  by (relation "measure (\<lambda>(segs, fin, i, rof). length segs - i)") auto

declare reader_loop.simps [simp del]

text \<open>The slice afterwards, and the place \<open>*p\<close> with the bytes there; no piece at the end.\<close>

type_synonym piece = "nat \<times> nat \<times> cell list"

definition rd_slice_reader0 :: "rd_buf \<Rightarrow> rd_slice \<Rightarrow> bool \<Rightarrow> (rd_slice \<times> piece option) res" where
  "rd_slice_reader0 rbuf sl update_pos =
     (case slice_seg sl of
        None \<Rightarrow> Inr (sl, None)
      | Some start \<Rightarrow>
        (case reader_loop (rbuf_segments rbuf) (slice_end sl) start (slice_rof sl) of
           (None, rof) \<Rightarrow> Inr (sl, None)
         | (Some i, rof) \<Rightarrow>
           bindR (seg_at rbuf i) (\<lambda>seg.
           if seg_absof seg + rof \<ge> slice_end sl then Inr (sl, None)
           else
             bindR (check Assert_Failed (seg_absof seg + rof \<le> slice_end sl)) (\<lambda>_.
             bindR (rd_slice_remains rbuf sl) (\<lambda>remains.
             let rlen = min (usub (seg_of seg) rof) remains
             in bindR (check Out_Of_Bounds (rof + rlen \<le> length (seg_mem seg))) (\<lambda>_.
                bindR (if update_pos then
                         if slice_seg sl \<noteq> Some i then
                           bindR (check Assert_Failed (seg_absof seg + rof \<ge> slice_start sl \<and> seg_absof seg + rof + rlen \<le> slice_end sl))
                             (\<lambda>_. Inr (sl\<lparr>slice_seg := Some i, slice_rof := rlen\<rparr>))
                         else Inr (sl\<lparr>slice_rof := slice_rof sl + rlen\<rparr>)
                       else Inr sl) (\<lambda>sl.
                Inr (sl, if rlen = 0 then None else Some (i, rof, take rlen (drop rof (seg_mem seg)))))))))))"

definition rd_slice_reader :: "rd_buf \<Rightarrow> rd_slice \<Rightarrow> (rd_slice \<times> piece option) res" where
  "rd_slice_reader rbuf sl = rd_slice_reader0 rbuf sl True"

definition rd_slice_peeker :: "rd_buf \<Rightarrow> rd_slice \<Rightarrow> piece option res" where
  "rd_slice_peeker rbuf sl = bindR (rd_slice_reader0 rbuf sl False) (\<lambda>(sl, p). Inr p)"

text \<open>
  The loops that read until nothing is left, with \<open>step\<close> as their body. \<open>None\<close> is a loop that
  does not end.
\<close>

partial_function (option) read_loop :: "rd_buf \<Rightarrow> ('a \<Rightarrow> piece \<Rightarrow> 'a res) \<Rightarrow> rd_slice \<Rightarrow> 'a \<Rightarrow> (rd_slice \<times> 'a) res option" where
  "read_loop rbuf step sl acc =
     (case rd_slice_reader rbuf sl of
        Inl e \<Rightarrow> Some (Inl e)
      | Inr (sl, None) \<Rightarrow> Some (Inr (sl, acc))
      | Inr (sl, Some p) \<Rightarrow>
        (case step acc p of
           Inl e \<Rightarrow> Some (Inl e)
         | Inr acc \<Rightarrow> read_loop rbuf step sl acc))"

text \<open>The slice, the size returned and the bytes copied; without a destination nothing is copied.\<close>

definition rd_slice_read :: "rd_buf \<Rightarrow> rd_slice \<Rightarrow> nat \<Rightarrow> (rd_slice \<times> nat \<times> cell list) res option" where
  "rd_slice_read rbuf sl sz =
     (let orig_end = slice_end sl
      in case bindR (rd_slice_remains rbuf sl) (\<lambda>remains. bindR (rd_slice_abs_offset rbuf sl) (\<lambda>pos. Inr (remains, pos))) of
           Inl e \<Rightarrow> Some (Inl e)
         | Inr (remains, pos) \<Rightarrow>
           if remains < sz then Some (Inr (sl, 0, []))
           else map_option (\<lambda>r. bindR r (\<lambda>(sl, bytes). Inr (sl\<lparr>slice_end := orig_end\<rparr>, sz, bytes)))
                  (read_loop rbuf (\<lambda>acc (i, k, bytes). Inr (acc @ bytes)) (sl\<lparr>slice_end := pos + sz\<rparr>) []))"

definition rd_slice_seek :: "rd_buf \<Rightarrow> rd_slice \<Rightarrow> nat \<Rightarrow> rd_slice option res" where
  "rd_slice_seek rbuf sl offset =
     (let absof = uadd (slice_start sl) offset
      in if absof \<ge> slice_end sl then Inr None
         else
           bindR (rd_buf_get_segment_at_offset rbuf (slice_seg sl) absof) (\<lambda>found.
           bindR (derefR Assert_Failed found) (\<lambda>i.
           bindR (seg_at rbuf i) (\<lambda>seg.
           let rof = absof - seg_absof seg
           in bindR (check Assert_Failed (seg_absof seg + rof \<ge> slice_start sl \<and> seg_absof seg + rof \<le> slice_end sl)) (\<lambda>_.
              Inr (Some (sl\<lparr>slice_seg := Some i, slice_rof := rof\<rparr>)))))))"

definition rd_slice_peek :: "rd_buf \<Rightarrow> rd_slice \<Rightarrow> nat \<Rightarrow> nat \<Rightarrow> (nat \<times> cell list) res option" where
  "rd_slice_peek rbuf sl offset sz =
     (case rd_slice_seek rbuf sl offset of
        Inl e \<Rightarrow> Some (Inl e)
      | Inr None \<Rightarrow> Some (Inr (0, []))
      | Inr (Some sub) \<Rightarrow> map_option (\<lambda>r. bindR r (\<lambda>(sub, n, bytes). Inr (n, bytes))) (rd_slice_read rbuf sub sz))"

text \<open>The contiguous bytes at the read position, if there are enough in its segment.\<close>

definition rd_slice_ensure_contig :: "rd_buf \<Rightarrow> rd_slice \<Rightarrow> nat \<Rightarrow> (rd_slice \<times> cell list option) res option" where
  "rd_slice_ensure_contig rbuf sl sz =
     (case rd_slice_remains rbuf sl of
        Inl e \<Rightarrow> Some (Inl e)
      | Inr remains \<Rightarrow>
        if remains < sz then Some (Inr (sl, None))
        else
          case slice_seg sl of
            None \<Rightarrow> Some (Inl Null_Deref)
          | Some i \<Rightarrow>
            (case seg_at rbuf i of
               Inl e \<Rightarrow> Some (Inl e)
             | Inr seg \<Rightarrow>
               if uadd (slice_rof sl) sz > seg_of seg then Some (Inr (sl, None))
               else map_option (\<lambda>r. bindR r (\<lambda>(sl, n, bytes). Inr (sl, Some (take sz (drop (slice_rof sl) (seg_mem seg))))))
                      (rd_slice_read rbuf sl sz)))"

section \<open>Narrowing\<close>

text \<open>The narrowed slice and the saved one; \<open>None\<close> stands for the result 0.\<close>

definition rd_slice_narrow :: "rd_buf \<Rightarrow> rd_slice \<Rightarrow> nat \<Rightarrow> (rd_slice \<times> rd_slice) option res" where
  "rd_slice_narrow rbuf sl sz =
     (if uadd (slice_start sl) sz > slice_end sl then Inr None
      else
        let narrow = sl\<lparr>slice_end := uadd (slice_start sl) sz\<rparr>
        in bindR (rd_slice_abs_offset rbuf narrow) (\<lambda>pos.
           bindR (check Assert_Failed (pos \<le> slice_end narrow)) (\<lambda>_. Inr (Some (narrow, sl)))))"

definition rd_slice_narrow_relative :: "rd_buf \<Rightarrow> rd_slice \<Rightarrow> nat \<Rightarrow> (rd_slice \<times> rd_slice) option res" where
  "rd_slice_narrow_relative rbuf sl relsize =
     bindR (rd_slice_offset rbuf sl) (\<lambda>offset. rd_slice_narrow rbuf sl (uadd offset relsize))"

definition rd_slice_widen :: "rd_slice \<Rightarrow> rd_slice \<Rightarrow> rd_slice" where
  "rd_slice_widen sl save_slice = sl\<lparr>slice_end := slice_end save_slice\<rparr>"

definition rd_slice_narrow_copy :: "rd_buf \<Rightarrow> rd_slice \<Rightarrow> nat \<Rightarrow> rd_slice option res" where
  "rd_slice_narrow_copy rbuf orig sz =
     (if uadd (slice_start orig) sz > slice_end orig then Inr None
      else
        let new_slice = orig\<lparr>slice_end := uadd (slice_start orig) sz\<rparr>
        in bindR (rd_slice_abs_offset rbuf new_slice) (\<lambda>pos.
           bindR (check Assert_Failed (pos \<le> slice_end new_slice)) (\<lambda>_. Inr (Some new_slice))))"

definition rd_slice_narrow_copy_relative :: "rd_buf \<Rightarrow> rd_slice \<Rightarrow> nat \<Rightarrow> rd_slice option res" where
  "rd_slice_narrow_copy_relative rbuf orig relsize =
     bindR (rd_slice_offset rbuf orig) (\<lambda>offset. rd_slice_narrow_copy rbuf orig (uadd offset relsize))"

section \<open>Consumers\<close>

text \<open>The pieces of the vector and their sum_len length.\<close>

function get_iov_loop :: "rd_buf \<Rightarrow> rd_slice \<Rightarrow> nat \<Rightarrow> nat \<Rightarrow> nat \<Rightarrow> nat \<Rightarrow> (piece list \<times> nat) res" where
  "get_iov_loop rbuf sl iov_max size_max iovcnt acc =
     (if acc < size_max \<and> iovcnt < iov_max then
        bindR (rd_slice_reader rbuf sl) (\<lambda>(sl, p).
        case p of
          None \<Rightarrow> Inr ([], acc)
        | Some (i, k, bytes) \<Rightarrow>
          bindR (get_iov_loop rbuf sl iov_max size_max (Suc iovcnt) (acc + length bytes)) (\<lambda>(iovs, sum_len).
          Inr ((i, k, bytes) # iovs, sum_len)))
      else Inr ([], acc))"
  by pat_completeness auto
termination
  by (relation "measure (\<lambda>(rbuf, sl, iov_max, size_max, iovcnt, acc). iov_max - iovcnt)") auto

declare get_iov_loop.simps [simp del]

definition rd_slice_get_iov :: "rd_buf \<Rightarrow> rd_slice \<Rightarrow> nat \<Rightarrow> nat \<Rightarrow> (piece list \<times> nat) res" where
  "rd_slice_get_iov rbuf sl iov_max size_max = get_iov_loop rbuf sl iov_max size_max 0 0"

text \<open>Checksums read the bytes, which must have been stored.\<close>

fun stored :: "cell list \<Rightarrow> byte list res" where
  "stored [] = Inr []"
| "stored (c # cs) = bindR (derefR Indeterminate c) (\<lambda>b. bindR (stored cs) (\<lambda>bs. Inr (b # bs)))"

definition rd_slice_crc32 :: "rd_buf \<Rightarrow> rd_slice \<Rightarrow> (rd_slice \<times> 32 word) res option" where
  "rd_slice_crc32 rbuf sl =
     map_option (\<lambda>r. bindR r (\<lambda>(sl, crc). Inr (sl, rd_crc32_finalize crc)))
       (read_loop rbuf (\<lambda>crc (i, k, bytes). bindR (stored bytes) (\<lambda>data. Inr (rd_crc32_update crc data))) sl rd_crc32_init)"

text \<open>
  \<open>addr\<close> gives the addresses of the memory, and \<open>crc\<close> is the function \<open>crc32c\<close> at these addresses.
\<close>

definition rd_slice_crc32c :: "(32 word \<Rightarrow> 64 word \<Rightarrow> byte list \<Rightarrow> 32 word) \<Rightarrow> (nat \<Rightarrow> nat \<Rightarrow> 64 word) \<Rightarrow> rd_buf \<Rightarrow> rd_slice \<Rightarrow>
    (rd_slice \<times> 32 word) res option" where
  "rd_slice_crc32c crc32c_fun addr rbuf sl =
     read_loop rbuf (\<lambda>crc (i, k, bytes). bindR (stored bytes) (\<lambda>data. Inr (crc32c_fun crc (addr i k) data))) sl 0"

text \<open>The slice is written to another buffer piece by piece; the result adds up the positions.\<close>

definition write_piece :: "(rd_buf \<times> nat) \<Rightarrow> piece \<Rightarrow> (rd_buf \<times> nat) res option" where
  "write_piece acc p =
     (case (acc, p) of ((dst, sum_len), (i, k, bytes)) \<Rightarrow>
        map_option (\<lambda>r. bindR r (\<lambda>(dst, pos). Inr (dst, sum_len + pos))) (rd_buf_write dst (Some bytes) (length bytes)))"

partial_function (option) write_slice_loop :: "rd_buf \<Rightarrow> rd_slice \<Rightarrow> rd_buf \<times> nat \<Rightarrow> (rd_slice \<times> rd_buf \<times> nat) res option" where
  "write_slice_loop src sl acc =
     (case rd_slice_reader src sl of
        Inl e \<Rightarrow> Some (Inl e)
      | Inr (sl, None) \<Rightarrow> Some (Inr (sl, acc))
      | Inr (sl, Some p) \<Rightarrow>
        (case write_piece acc p of
           None \<Rightarrow> None
         | Some (Inl e) \<Rightarrow> Some (Inl e)
         | Some (Inr acc) \<Rightarrow> write_slice_loop src sl acc))"

definition rd_buf_write_slice :: "rd_buf \<Rightarrow> rd_buf \<Rightarrow> rd_slice \<Rightarrow> (rd_slice \<times> rd_buf \<times> nat) res option" where
  "rd_buf_write_slice dst src sl = write_slice_loop src sl (dst, 0)"

text \<open>
  The varint decoder over a slice. A shift by 64 bits or more has no defined result.
\<close>

partial_function (option) dec_slice_loop :: "rd_buf \<Rightarrow> rd_slice \<Rightarrow> 64 word \<Rightarrow> nat \<Rightarrow> (rd_slice \<times> nat \<times> 64 word option) res option" where
  "dec_slice_loop rbuf sl num shift =
     (case rd_slice_read rbuf sl 1 of
        None \<Rightarrow> None
      | Some (Inl e) \<Rightarrow> Some (Inl e)
      | Some (Inr (sl, r, bytes)) \<Rightarrow>
        if r = 0 then Some (Inr (sl, 0, None))
        else
          case stored bytes of
            Inl e \<Rightarrow> Some (Inl e)
          | Inr data \<Rightarrow>
            if data = [] then Some (Inl Indeterminate)
            else if 64 \<le> shift then Some (Inl Bad_Shift)
            else
              let oct = hd data; num = num OR push_bit shift (ucast (oct AND 0x7f)); shift = shift + 7
              in if oct AND 0x80 \<noteq> 0 then dec_slice_loop rbuf sl num shift
                 else Some (Inr (sl, shift div 7, Some (zigzag_dec num))))"

definition rd_varint_dec_slice :: "rd_buf \<Rightarrow> rd_slice \<Rightarrow> (rd_slice \<times> nat \<times> 64 word option) res option" where
  "rd_varint_dec_slice rbuf sl = dec_slice_loop rbuf sl 0 0"

section \<open>Reading is reading from the array of bytes\<close>

text \<open>A slice of a buffer whose read position is \<open>pos\<close>.\<close>

definition slice_ok :: "rd_buf \<Rightarrow> rd_slice \<Rightarrow> nat \<Rightarrow> bool" where
  "slice_ok rbuf sl pos \<longleftrightarrow> (\<exists>pre seg post i. buf_view rbuf pre seg post \<and> slice_seg sl = Some i \<and> i \<le> length pre \<and>
     slice_rof sl \<le> seg_of (rbuf_segments rbuf ! i) \<and> seg_absof (rbuf_segments rbuf ! i) + slice_rof sl = pos) \<and>
     slice_start sl \<le> pos \<and> pos \<le> slice_end sl \<and> slice_end sl \<le> rbuf_len rbuf"

lemma absofs_nth: "absofs_ok n segs \<Longrightarrow> i < length segs \<Longrightarrow> seg_absof (segs ! i) = n + lens (take i segs)"
proof (induction segs arbitrary: n i)
  case (Cons s segs)
  then show ?case by (cases i) (auto simp: add.assoc)
qed simp

lemma lens_take_Suc: "i < length segs \<Longrightarrow> lens (take (Suc i) segs) = lens (take i segs) + seg_of (segs ! i)"
  by (simp add: take_Suc_conv_app_nth)

lemma view_nth:
  assumes "buf_view rbuf pre seg post" and "i \<le> length pre"
  shows "rbuf_segments rbuf ! i = (pre @ [seg]) ! i" and "i < length (rbuf_segments rbuf)"
    and "seg_absof (rbuf_segments rbuf ! i) = lens (take i (pre @ [seg]))" and "seg_ok (rbuf_segments rbuf ! i)"
proof -
  note v = assms(1) [unfolded buf_view_def]
  show n: "rbuf_segments rbuf ! i = (pre @ [seg]) ! i" "i < length (rbuf_segments rbuf)" using v assms(2) by (auto simp: nth_append)
  have "absofs_ok 0 (pre @ [seg])" using v by simp
  then show "seg_absof (rbuf_segments rbuf ! i) = lens (take i (pre @ [seg]))"
    using absofs_nth [of 0 "pre @ [seg]" i] assms(2) n by simp
  have "\<forall>s \<in> set (pre @ [seg]). seg_ok s" using v by simp
  then show "seg_ok (rbuf_segments rbuf ! i)" using n(1) assms(2) by (metis le_imp_less_Suc length_append_singleton nth_mem)
qed

lemma drop_data:
  assumes "buf_view rbuf pre seg post" and "i \<le> length pre" and "k \<le> seg_of (rbuf_segments rbuf ! i)"
  shows "\<exists>rest. drop (seg_absof (rbuf_segments rbuf ! i) + k) (buf_data rbuf) = drop k (seg_data (rbuf_segments rbuf ! i)) @ rest"
proof -
  note n = view_nth [OF assms(1,2)]
  let ?all = "pre @ [seg]"
  have ok: "\<forall>s \<in> set (take i ?all). seg_ok s" using assms(1) by (auto simp: buf_view_def dest!: in_set_takeD)
  have split: "?all = take i ?all @ ?all ! i # drop (Suc i) ?all" using assms(2) by (intro id_take_nth_drop) simp
  have "buf_data rbuf = concat (map seg_data ?all)" using buf_view_data [OF assms(1)] by simp
  also have "\<dots> = concat (map seg_data (take i ?all @ ?all ! i # drop (Suc i) ?all))" using split by (rule arg_cong)
  also have "\<dots> = concat (map seg_data (take i ?all)) @ seg_data (?all ! i) @ concat (map seg_data (drop (Suc i) ?all))" by simp
  finally show ?thesis
    using length_segs_data [OF ok] n(1,3) assms(3) length_seg_data [OF n(4)] by simp
qed

lemma reader_loop_ok:
  assumes "buf_view rbuf pre seg post" and "i \<le> length pre" and "rof \<le> seg_of (rbuf_segments rbuf ! i)"
    and "seg_absof (rbuf_segments rbuf ! i) + rof = pos" and "pos < fin" and "fin \<le> rbuf_len rbuf"
  shows "\<exists>j k. reader_loop (rbuf_segments rbuf) fin i rof = (Some j, k) \<and> i \<le> j \<and> j \<le> length pre \<and>
    k < seg_of (rbuf_segments rbuf ! j) \<and> seg_absof (rbuf_segments rbuf ! j) + k = pos \<and> (j = i \<longrightarrow> k = rof) \<and> (j \<noteq> i \<longrightarrow> k = 0)"
  using assms(2-4)
proof (induction "length pre - i" arbitrary: i rof rule: less_induct)
  case less
  note n = view_nth [OF assms(1) less.prems(1)]
  show ?case
  proof (cases "seg_of (rbuf_segments rbuf ! i) = rof")
    case False
    then have "reader_loop (rbuf_segments rbuf) fin i rof = (Some i, rof)" using n(2) by (simp add: reader_loop.simps [of _ _ i])
    then show ?thesis using False less.prems by auto
  next
    case True
    have "i \<noteq> length pre"
    proof
      assume "i = length pre"
      then have "pos = rbuf_len rbuf" using less.prems(3) True n(1,3) assms(1) by (simp add: buf_view_def)
      then show False using assms(5,6) by simp
    qed
    then have i: "Suc i \<le> length pre" using less.prems(1) by simp
    note n' = view_nth [OF assms(1) i]
    have pos: "seg_absof (rbuf_segments rbuf ! Suc i) + 0 = pos"
      using n(1,3) n'(3) less.prems(1,3) True by (simp add: lens_take_Suc del: take_append)
    have "reader_loop (rbuf_segments rbuf) fin i rof = reader_loop (rbuf_segments rbuf) fin (Suc i) 0"
      using n(2) True less.prems(3) assms(5) by (simp add: reader_loop.simps [of _ _ i])
    moreover obtain j k where "reader_loop (rbuf_segments rbuf) fin (Suc i) 0 = (Some j, k)" "Suc i \<le> j" "j \<le> length pre"
      "k < seg_of (rbuf_segments rbuf ! j)" "seg_absof (rbuf_segments rbuf ! j) + k = pos" "j = Suc i \<longrightarrow> k = 0" "j \<noteq> Suc i \<longrightarrow> k = 0"
      using less.hyps [OF diff_less_mono2 [OF lessI] i _ pos] i by (auto simp: Suc_le_eq)
    ultimately show ?thesis by auto
  qed
qed

lemma reader_ok:
  assumes "slice_ok rbuf sl pos" and "pos < slice_end sl"
  shows "\<exists>sl' i k bytes. rd_slice_reader rbuf sl = Inr (sl', Some (i, k, bytes)) \<and> bytes \<noteq> [] \<and> slice_ok rbuf sl' (pos + length bytes) \<and>
    slice_start sl' = slice_start sl \<and> slice_end sl' = slice_end sl \<and> bytes = take (length bytes) (drop pos (buf_data rbuf)) \<and>
    pos + length bytes \<le> slice_end sl"
proof -
  obtain pre seg post i where s: "buf_view rbuf pre seg post" "slice_seg sl = Some i" "i \<le> length pre"
    "slice_rof sl \<le> seg_of (rbuf_segments rbuf ! i)" "seg_absof (rbuf_segments rbuf ! i) + slice_rof sl = pos"
    "slice_start sl \<le> pos" "pos \<le> slice_end sl" "slice_end sl \<le> rbuf_len rbuf"
    using assms(1) by (auto simp: slice_ok_def)
  from reader_loop_ok [OF s(1,3,4,5) assms(2) s(8)] obtain j k where
    l: "reader_loop (rbuf_segments rbuf) (slice_end sl) i (slice_rof sl) = (Some j, k)" "j \<le> length pre"
      "k < seg_of (rbuf_segments rbuf ! j)" "seg_absof (rbuf_segments rbuf ! j) + k = pos" "j = i \<longrightarrow> k = slice_rof sl" "j \<noteq> i \<longrightarrow> k = 0" by blast
  define t where "t = rbuf_segments rbuf ! j"
  define n where "n = min (seg_of t - k) (slice_end sl - pos)"
  have n: "0 < n" "k + n \<le> seg_of t" "pos + n \<le> slice_end sl" using l(3) assms(2) by (auto simp: n_def t_def)
  note at_i = view_nth [OF s(1,3)] and at_j = view_nth [OF s(1) l(2)]
  have t: "length (seg_mem t) = seg_size t" "seg_of t \<le> seg_size t" using at_j(4) by (simp_all add: t_def seg_ok_def)
  have rem: "rd_slice_remains rbuf sl = Inr (slice_end sl - pos)"
    using s(2,5,7) at_i(2) by (simp add: rd_slice_remains_def rd_slice_abs_offset_def seg_at_def)
  define sl' where "sl' = sl\<lparr>slice_seg := Some j, slice_rof := k + n\<rparr>"
  have mn: "min (usub (seg_of t) k) (slice_end sl - pos) = n" using n(2) by (simp add: n_def)
  have at_t: "seg_at rbuf j = Inr t" "seg_absof t + k = pos" using at_j(2) l(4) by (simp_all add: seg_at_def t_def)
  have at_pos: "slice_start sl \<le> pos" "\<not> slice_end sl \<le> pos" "pos \<le> slice_end sl" "k + n \<le> length (seg_mem t)" "n \<noteq> 0"
    using s(6) assms(2) n t by simp_all
  have "rd_slice_reader rbuf sl = Inr (sl', Some (j, k, take n (drop k (seg_mem t))))"
  proof (cases "j = i")
    case True
    then have "sl\<lparr>slice_rof := slice_rof sl + n\<rparr> = sl'" using l(5) s(2) by (cases sl) (simp add: sl'_def)
    then show ?thesis
      using True at_pos unfolding rd_slice_reader_def rd_slice_reader0_def s(2) option.case l(1) prod.case at_t bindR_Inr rem Let_def mn by simp
  next
    case False
    then have "sl\<lparr>slice_seg := Some j, slice_rof := n\<rparr> = sl'" using l(6) by (simp add: sl'_def)
    then show ?thesis
      using False at_pos n(3) unfolding rd_slice_reader_def rd_slice_reader0_def s(2) option.case l(1) prod.case at_t bindR_Inr rem Let_def mn by simp
  qed
  moreover have "length (take n (drop k (seg_mem t))) = n" using n t by simp
  moreover have "slice_ok rbuf sl' (pos + n)"
    unfolding slice_ok_def using s(1,6,8) l(2,4) n by (auto simp: sl'_def t_def)
  moreover have "take n (drop k (seg_mem t)) = take n (drop pos (buf_data rbuf))"
  proof -
    obtain rest where "drop pos (buf_data rbuf) = drop k (seg_data t) @ rest"
      using drop_data [OF s(1) l(2), of k] l(3,4) by (auto simp: t_def)
    moreover have "n \<le> seg_of t - k" "n \<le> seg_size t - k" using n(2) t(2) by linarith+
    ultimately show ?thesis using t by (simp add: seg_data_def drop_take min_def)
  qed
  ultimately show ?thesis using n by (intro exI [of _ sl'] exI [of _ j] exI [of _ k] exI [of _ "take n (drop k (seg_mem t))"]) (auto simp: sl'_def)
qed

lemma reader_end:
  assumes "slice_ok rbuf sl (slice_end sl)"
  shows "rd_slice_reader rbuf sl = Inr (sl, None)"
proof -
  obtain pre seg post i where s: "buf_view rbuf pre seg post" "slice_seg sl = Some i" "i \<le> length pre"
    "seg_absof (rbuf_segments rbuf ! i) + slice_rof sl = slice_end sl"
    using assms by (auto simp: slice_ok_def)
  then show ?thesis using view_nth(2) [OF s(1,3)]
    by (simp add: rd_slice_reader_def rd_slice_reader0_def reader_loop.simps [of _ _ i] seg_at_def)
qed

text \<open>The bytes of a slice from its read position on.\<close>

definition slice_data :: "rd_buf \<Rightarrow> rd_slice \<Rightarrow> nat \<Rightarrow> cell list" where
  "slice_data rbuf sl pos = take (slice_end sl - pos) (drop pos (buf_data rbuf))"

lemma read_loop_ok:
  assumes "slice_ok rbuf sl pos"
    and "\<And>acc i k bs. set bs \<subseteq> set (slice_data rbuf sl pos) \<Longrightarrow> step acc (i, k, bs) = Inr (g acc bs)"
    and "\<And>acc. g acc [] = acc" and "\<And>acc xs ys. g acc (xs @ ys) = g (g acc xs) ys"
  shows "\<exists>sl'. read_loop rbuf step sl acc = Some (Inr (sl', g acc (slice_data rbuf sl pos))) \<and> slice_ok rbuf sl' (slice_end sl) \<and>
    slice_start sl' = slice_start sl \<and> slice_end sl' = slice_end sl"
  using assms(1,2)
proof (induction "slice_end sl - pos" arbitrary: sl pos acc rule: less_induct)
  case less
  show ?case
  proof (cases "pos < slice_end sl")
    case False
    then have "pos = slice_end sl" using less.prems(1) by (simp add: slice_ok_def)
    then show ?thesis using reader_end [of rbuf sl] less.prems(1) by (simp add: read_loop.simps [of rbuf step sl] slice_data_def assms(3))
  next
    case True
    from reader_ok [OF less.prems(1) True] obtain sl1 i k bs where
      r: "rd_slice_reader rbuf sl = Inr (sl1, Some (i, k, bs))" "bs \<noteq> []" "slice_ok rbuf sl1 (pos + length bs)"
        "slice_start sl1 = slice_start sl" "slice_end sl1 = slice_end sl" "bs = take (length bs) (drop pos (buf_data rbuf))"
        "pos + length bs \<le> slice_end sl" by blast
    have split: "slice_data rbuf sl pos = bs @ slice_data rbuf sl1 (pos + length bs)"
    proof -
      have "slice_end sl - pos = length bs + (slice_end sl - (pos + length bs))" using r(7) by simp
      then have "slice_data rbuf sl pos = take (length bs) (drop pos (buf_data rbuf)) @
          take (slice_end sl - (pos + length bs)) (drop (length bs) (drop pos (buf_data rbuf)))"
        unfolding slice_data_def by (metis take_add)
      then show ?thesis using r(5,6) by (simp add: slice_data_def add.commute)
    qed
    have step: "step acc (i, k, bs) = Inr (g acc bs)" by (rule less.prems(2)) (simp add: split)
    have dec: "slice_end sl1 - (pos + length bs) < slice_end sl - pos" using r(2,5,7) True by (cases bs) simp_all
    have "\<exists>sl'. read_loop rbuf step sl1 (g acc bs) = Some (Inr (sl', g (g acc bs) (slice_data rbuf sl1 (pos + length bs)))) \<and>
        slice_ok rbuf sl' (slice_end sl1) \<and> slice_start sl' = slice_start sl1 \<and> slice_end sl' = slice_end sl1"
      by (rule less.hyps [OF dec r(3)]) (rule less.prems(2), auto simp: split)
    then show ?thesis using r(1,4,5) step by (simp add: read_loop.simps [of rbuf step sl] split assms(4))
  qed
qed

lemma slice_position: "slice_ok rbuf sl pos \<Longrightarrow> rd_slice_abs_offset rbuf sl = Inr pos \<and> rd_slice_remains rbuf sl = Inr (slice_end sl - pos)"
  using view_nth(2) by (fastforce simp: slice_ok_def rd_slice_abs_offset_def rd_slice_remains_def seg_at_def)

lemma slice_read_ok:
  assumes "slice_ok rbuf sl pos" and "n \<le> slice_end sl - pos"
  shows "\<exists>sl'. rd_slice_read rbuf sl n = Some (Inr (sl', n, take n (drop pos (buf_data rbuf)))) \<and> slice_ok rbuf sl' (pos + n) \<and>
    slice_start sl' = slice_start sl \<and> slice_end sl' = slice_end sl"
proof -
  let ?sl = "sl\<lparr>slice_end := pos + n\<rparr>"
  have le: "pos + n \<le> slice_end sl" using assms by (auto simp: slice_ok_def)
  have ok: "slice_ok rbuf ?sl pos" using assms(1) le by (auto simp: slice_ok_def)
  from read_loop_ok [OF ok, of "\<lambda>acc (i, k, bytes). Inr (acc @ bytes)" "(@)" "[]"] obtain sl1 where
    r: "read_loop rbuf (\<lambda>acc (i, k, bytes). Inr (acc @ bytes)) ?sl [] = Some (Inr (sl1, slice_data rbuf ?sl pos))"
      "slice_ok rbuf sl1 (pos + n)" "slice_start sl1 = slice_start sl" "slice_end sl1 = pos + n" by auto
  have "slice_data rbuf ?sl pos = take n (drop pos (buf_data rbuf))" by (simp add: slice_data_def)
  moreover have "slice_ok rbuf (sl1\<lparr>slice_end := slice_end sl\<rparr>) (pos + n)" using r(2) le assms(1) by (auto simp: slice_ok_def)
  ultimately show ?thesis using r slice_position [OF assms(1)] assms(2) by (simp add: rd_slice_read_def Let_def)
qed

lemma slice_read_short:
  assumes "slice_ok rbuf sl pos" and "slice_end sl - pos < n"
  shows "rd_slice_read rbuf sl n = Some (Inr (sl, 0, []))"
  using assms(2) unfolding rd_slice_read_def Let_def
    slice_position [OF assms(1), THEN conjunct1] slice_position [OF assms(1), THEN conjunct2] bindR_Inr sum.case prod.case
  by (simp only: if_True)

lemma slice_init_ok:
  assumes "buf_ok rbuf" and "absof < rbuf_len rbuf" and "absof + n \<le> rbuf_len rbuf" and "rbuf_len rbuf < 2 ^ 64"
  shows "\<exists>sl. rd_slice_init rbuf absof n = Inr (Some sl) \<and> slice_ok rbuf sl absof \<and> slice_start sl = absof \<and> slice_end sl = absof + n"
proof -
  obtain pre seg post where v: "buf_view rbuf pre seg post" using assms(1,2) by (auto simp: buf_ok_def buf_empty_def)
  obtain ys s zs where f: "pre @ [seg] = ys @ s # zs" "rd_buf_get_segment_at_offset rbuf None absof = Inr (Some (length ys))"
    "seg_absof s = lens ys" "seg_absof s \<le> absof" "absof < seg_absof s + seg_of s"
    using get_segment_at_offset_ok [OF v assms(2), of None] by auto
  have i: "length ys \<le> length pre" using arg_cong [OF f(1), of length] by simp
  note n = view_nth [OF v i]
  have s: "rbuf_segments rbuf ! length ys = s" using n(1) f(1) by simp
  let ?sl = "\<lparr>slice_seg = Some (length ys), slice_rof = absof - seg_absof s, slice_start = absof, slice_end = absof + n\<rparr>"
  have "rd_slice_init rbuf absof n = Inr (Some ?sl)"
    using f(2,4) n(2) s assms(3,4) by (simp add: rd_slice_init_def rd_slice_init_seg_def seg_at_def uadd_def rd_buf_len_def Let_def)
  moreover have "slice_ok rbuf ?sl absof"
  proof -
    have "absof - seg_absof s \<le> seg_of s" using f(5) by simp
    then show ?thesis unfolding slice_ok_def using v i s f(4) assms(3)
      by (intro conjI exI [of _ pre] exI [of _ seg] exI [of _ post] exI [of _ "length ys"]) simp_all
  qed
  ultimately show ?thesis by auto
qed

lemma stored_part: "set cs \<subseteq> Some ` UNIV \<Longrightarrow> stored cs = Inr (map the cs)"
  by (induction cs) auto

section \<open>Checksums over slices\<close>

lemma crc32_update_append: "rd_crc32_update (rd_crc32_update crc xs) ys = rd_crc32_update crc (xs @ ys)"
  by (simp add: rd_crc32_update_def )

lemma crc32c_reference_append: "crc32c_reference (crc32c_reference crc xs) ys = crc32c_reference crc (xs @ ys)"
  by (simp add: crc32c_reference_def crc_bytes_def xor.assoc)

lemma crc32c_reference_Nil: "crc32c_reference crc [] = crc"
  by (simp add: crc32c_reference_def xor.assoc)

section \<open>Varints in slices\<close>

lemma slice_within: "slice_ok rbuf sl pos \<Longrightarrow> slice_end sl \<le> length (buf_data rbuf)"
  using buf_data_length [OF buf_okI] by (fastforce simp: slice_ok_def)

lemma dec_loop_advances: "dec_loop bs n ofs num shift = Inr (r, Some v) \<Longrightarrow> ofs < r"
  by (induction bs n ofs num shift rule: dec_loop.induct) (auto simp: res_simps Let_def split: if_splits)

lemma dec_slice_ok:
  assumes "slice_ok rbuf sl pos" and "slice_data rbuf sl pos = map Some bs" and "dec_loop bs (length bs) ofs num shift = Inr (r, v)" and "shift = 7 * ofs"
  shows "\<exists>sl'. dec_slice_loop rbuf sl num shift = Some (Inr (sl', r, map_option zigzag_dec v)) \<and> (v \<noteq> None \<longrightarrow> slice_ok rbuf sl' (pos + (r - ofs)))"
  using assms
proof (induction bs arbitrary: sl pos ofs num shift)
  case Nil
  then have "slice_end sl - pos = 0 \<or> length (buf_data rbuf) \<le> pos" by (auto simp: slice_data_def)
  moreover have "slice_end sl \<le> length (buf_data rbuf)" using slice_within [OF Nil.prems(1)] .
  ultimately have "slice_end sl - pos < 1" using Nil.prems(1) by (auto simp: slice_ok_def)
  from slice_read_short [OF Nil.prems(1) this] Nil.prems(3) show ?case by (subst dec_slice_loop.simps) simp
next
  case (Cons b bs)
  have data: "take (slice_end sl - pos) (drop pos (buf_data rbuf)) = Some b # map Some bs" using Cons.prems(2) by (simp add: slice_data_def)
  then have one: "1 \<le> slice_end sl - pos" by (cases "slice_end sl - pos") auto
  have "take 1 (drop pos (buf_data rbuf)) = take 1 (take (slice_end sl - pos) (drop pos (buf_data rbuf)))" using one by (simp add: min_def)
  then have first: "take 1 (drop pos (buf_data rbuf)) = [Some b]" by (simp add: data)
  obtain sl1 where r: "rd_slice_read rbuf sl 1 = Some (Inr (sl1, 1, [Some b]))" "slice_ok rbuf sl1 (pos + 1)" "slice_end sl1 = slice_end sl"
    using slice_read_ok [OF Cons.prems(1) one] first by auto
  have data1: "slice_data rbuf sl1 (pos + 1) = map Some bs"
  proof -
    have "slice_data rbuf sl1 (pos + 1) = drop 1 (take (slice_end sl - pos) (drop pos (buf_data rbuf)))"
      by (simp add: slice_data_def r(3) drop_take add.commute)
    then show ?thesis by (simp add: data)
  qed
  have shift: "shift < 64" using Cons.prems(3) by (simp add: res_simps)
  let ?num = "num OR push_bit shift (ucast (b AND 0x7f))"
  have loop: "dec_slice_loop rbuf sl num shift = (if b AND 0x80 \<noteq> 0 then dec_slice_loop rbuf sl1 ?num (shift + 7)
      else Some (Inr (sl1, (shift + 7) div 7, Some (zigzag_dec ?num))))"
    using r(1) shift by (subst dec_slice_loop.simps) (simp add: Let_def)
  show ?case
  proof (cases "b AND 0x80 = 0")
    case True
    then show ?thesis using loop Cons.prems(3,4) shift r(2) by (auto simp: res_simps)
  next
    case False
    then have dec: "dec_loop bs (length bs) (ofs + 1) ?num (shift + 7) = Inr (r, v)" using Cons.prems(3) shift by (simp add: Let_def)
    from Cons.IH [OF r(2) data1 dec] Cons.prems(4) obtain sl' where
      i: "dec_slice_loop rbuf sl1 ?num (shift + 7) = Some (Inr (sl', r, map_option zigzag_dec v))"
        "v \<noteq> None \<longrightarrow> slice_ok rbuf sl' (pos + 1 + (r - (ofs + 1)))" by auto
    have "v \<noteq> None \<Longrightarrow> ofs + 1 < r" using dec_loop_advances dec by fastforce
    then have "v \<noteq> None \<Longrightarrow> pos + 1 + (r - (ofs + 1)) = pos + (r - ofs)" by simp
    then show ?thesis using loop False i by metis
  qed
qed

section \<open>Properties\<close>

text \<open>
  C31: what was written is what is read. Any range of the written bytes can be made a slice, however
  the bytes are spread over segments; a read within it returns exactly the bytes of the range, a
  longer one returns nothing and leaves the slice as it was, and none of this faults.
\<close>

theorem slice_reads_written_bytes:
  assumes "buf_ok rbuf" and "absof < length (buf_data rbuf)" and "absof + n \<le> length (buf_data rbuf)" and "length (buf_data rbuf) < 2 ^ 64"
  shows "\<exists>sl. rd_slice_init rbuf absof n = Inr (Some sl) \<and>
    (\<forall>k. if k \<le> n then \<exists>sl'. rd_slice_read rbuf sl k = Some (Inr (sl', k, take k (drop absof (buf_data rbuf)))) \<and>
                         rd_slice_remains rbuf sl' = Inr (n - k)
         else rd_slice_read rbuf sl k = Some (Inr (sl, 0, [])))"
proof -
  have len: "length (buf_data rbuf) = rbuf_len rbuf" by (rule buf_data_length [OF assms(1)])
  obtain sl where i: "rd_slice_init rbuf absof n = Inr (Some sl)" "slice_ok rbuf sl absof" "slice_start sl = absof" "slice_end sl = absof + n"
    using slice_init_ok [of rbuf absof n] assms len by auto
  show ?thesis
  proof (intro exI [of _ sl] conjI allI i(1))
    fix k
    show "if k \<le> n then \<exists>sl'. rd_slice_read rbuf sl k = Some (Inr (sl', k, take k (drop absof (buf_data rbuf)))) \<and>
                         rd_slice_remains rbuf sl' = Inr (n - k)
         else rd_slice_read rbuf sl k = Some (Inr (sl, 0, []))"
    proof (cases "k \<le> n")
      case True
      then have "k \<le> slice_end sl - absof" by (simp add: i(4))
      from slice_read_ok [OF i(2) this] obtain sl' where
        r: "rd_slice_read rbuf sl k = Some (Inr (sl', k, take k (drop absof (buf_data rbuf))))" "slice_ok rbuf sl' (absof + k)" "slice_end sl' = absof + n"
        unfolding i(4) by blast
      then have "rd_slice_remains rbuf sl' = Inr (n - k)" using slice_position [OF r(2)] by simp
      with True r(1) show ?thesis by simp
    next
      case False
      then show ?thesis using slice_read_short [OF i(2), of k] i(4) by simp
    qed
  qed
qed

text \<open>
  The checksums of a slice, computed segment by segment, are the checksums of its bytes taken
  as one block, wherever the segments lie in memory and whichever of the CRC-32C routines runs.
\<close>

theorem slice_checksums:
  assumes "slice_ok rbuf sl pos" and "slice_data rbuf sl pos = map Some bs" and "crc32_instructions crc32b crc32q"
  shows "(\<exists>sl'. rd_slice_crc32 rbuf sl = Some (Inr (sl', rd_crc32 bs))) \<and>
    (\<exists>sl'. rd_slice_crc32c (crc32c crc32b crc32q (crc32c_global_init have_sse42 crc32c_static)) addr rbuf sl =
       Some (Inr (sl', crc32c_reference 0 bs)))"
proof
  have st: "stored cs = Inr (map the cs)" if "set cs \<subseteq> set (slice_data rbuf sl pos)" for cs
    using that assms(2) by (intro stored_part) auto
  have m: "map the (slice_data rbuf sl pos) = bs" using assms(2) by (simp add: comp_def)
  have "\<exists>sl'. read_loop rbuf (\<lambda>crc (i, k, bytes). bindR (stored bytes) (\<lambda>data. Inr (rd_crc32_update crc data))) sl rd_crc32_init =
      Some (Inr (sl', rd_crc32_update rd_crc32_init (map the (slice_data rbuf sl pos)))) \<and> slice_ok rbuf sl' (slice_end sl) \<and>
      slice_start sl' = slice_start sl \<and> slice_end sl' = slice_end sl"
    by (rule read_loop_ok [OF assms(1)]) (simp_all add: st crc32_update_append, simp add: rd_crc32_update_def)
  then show "\<exists>sl'. rd_slice_crc32 rbuf sl = Some (Inr (sl', rd_crc32 bs))" by (auto simp: rd_slice_crc32_def rd_crc32_def m)
  let ?crc = "crc32c crc32b crc32q (crc32c_global_init have_sse42 crc32c_static)"
  have ref: "?crc c a xs = crc32c_reference c xs" for c a xs by (rule crc32c_eq_reference [OF assms(3)])
  have "\<exists>sl'. read_loop rbuf (\<lambda>crc (i, k, bytes). bindR (stored bytes) (\<lambda>data. Inr (?crc crc (addr i k) data))) sl 0 =
      Some (Inr (sl', crc32c_reference 0 (map the (slice_data rbuf sl pos)))) \<and> slice_ok rbuf sl' (slice_end sl) \<and>
      slice_start sl' = slice_start sl \<and> slice_end sl' = slice_end sl"
    by (rule read_loop_ok [OF assms(1)]) (simp_all add: st ref crc32c_reference_append crc32c_reference_Nil)
  then show "\<exists>sl'. rd_slice_crc32c ?crc addr rbuf sl = Some (Inr (sl', crc32c_reference 0 bs))" by (auto simp: rd_slice_crc32c_def m)
qed

definition filled_segment :: rd_segment where
  "filled_segment = (rd_segment_init (Extra 0) (Some (Extra 0, 64)) 2)\<lparr>seg_mem := [Some 7, Some 9], seg_of := 2\<rparr>"

definition filled_buf :: rd_buf where
  "filled_buf = sample_buf\<lparr>rbuf_segments := [filled_segment], rbuf_segment_cnt := 1, rbuf_wpos := Some 0, rbuf_len := 2, rbuf_size := 2, rbuf_extra_len := 66\<rparr>"

lemma filled_view: "buf_view filled_buf [] filled_segment []" "buf_data filled_buf = [Some 7, Some 9]"
  by (simp_all add: buf_view_def filled_buf_def filled_segment_def sample_buf_def rd_segment_init_def seg_ok_def rdonly_def buf_data_def seg_data_def)

theorem slice_reads_written_bytes_witness:
  "\<exists>sl sl'. rd_slice_init filled_buf 1 1 = Inr (Some sl) \<and> rd_slice_read filled_buf sl 1 = Some (Inr (sl', 1, [Some 9]))"
proof -
  have len: "length (buf_data filled_buf) = 2" by (simp add: filled_view(2))
  obtain sl where i: "rd_slice_init filled_buf 1 1 = Inr (Some sl)"
    "\<forall>k. if k \<le> 1 then \<exists>sl'. rd_slice_read filled_buf sl k = Some (Inr (sl', k, take k (drop 1 (buf_data filled_buf)))) \<and>
        rd_slice_remains filled_buf sl' = Inr (1 - k) else rd_slice_read filled_buf sl k = Some (Inr (sl, 0, []))"
    using slice_reads_written_bytes [OF buf_okI [OF filled_view(1)], of 1 1] unfolding len by auto
  show ?thesis using i(1) i(2) [rule_format, of 1] by (auto simp: filled_view(2))
qed

theorem slice_checksums_witness:
  "\<exists>sl'. rd_slice_crc32 filled_buf \<lparr>slice_seg = Some 0, slice_rof = 0, slice_start = 0, slice_end = 2\<rparr> = Some (Inr (sl', rd_crc32 [7, 9]))"
proof -
  let ?sl = "\<lparr>slice_seg = Some 0, slice_rof = 0, slice_start = 0, slice_end = 2\<rparr>"
  have ok: "slice_ok filled_buf ?sl 0"
    unfolding slice_ok_def using filled_view(1)
    by (intro conjI exI [of _ "[]"] exI [of _ filled_segment] exI [of _ "[]"] exI [of _ "0 :: nat"])
       (simp_all add: filled_buf_def filled_segment_def rd_segment_init_def)
  have data: "slice_data filled_buf ?sl 0 = map Some [7, 9]" by (simp add: slice_data_def filled_view(2))
  have "crc32_instructions (\<lambda>c b. ucast (crc_byte POLY (ucast c) b)) (\<lambda>c w. ucast (crc_bytes POLY (ucast c) (le_bytes w)))"
    by (simp add: crc32_instructions_def le_bytes_le_word)
  from slice_checksums [OF ok data this, THEN conjunct1] show ?thesis .
qed

end
