(* ===== verification/C_Stdlib.thy ===== *)
theory C_Stdlib
  imports C_String "HOL-Library.Multiset"
begin

text \<open>
  Sorting and searching of the C library, as the sources use them. \<open>c_qsort\<close> is what C promises of
  \<open>qsort\<close>: a permutation of the array, in order when the comparator is a total preorder on it; the
  order of elements that compare equal is left open. \<open>qsort\<close> is the merge sort of the GNU library and
  \<open>bsearch\<close> its binary search.
\<close>

section \<open>Comparators\<close>

definition cmp_ok :: "('a \<Rightarrow> 'a \<Rightarrow> int) \<Rightarrow> 'a set \<Rightarrow> bool" where
  "cmp_ok cmp S \<longleftrightarrow>
     (\<forall>x\<in>S. \<forall>y\<in>S. cmp x y \<le> 0 \<or> cmp y x \<le> 0) \<and>
     (\<forall>x\<in>S. \<forall>y\<in>S. \<forall>z\<in>S. cmp x y \<le> 0 \<longrightarrow> cmp y z \<le> 0 \<longrightarrow> cmp x z \<le> 0)"

lemma cmp_ok_total: "cmp_ok cmp S \<Longrightarrow> x \<in> S \<Longrightarrow> y \<in> S \<Longrightarrow> \<not> cmp x y \<le> 0 \<Longrightarrow> cmp y x \<le> 0"
  unfolding cmp_ok_def by blast

lemma cmp_ok_trans: "cmp_ok cmp S \<Longrightarrow> x \<in> S \<Longrightarrow> y \<in> S \<Longrightarrow> z \<in> S \<Longrightarrow> cmp x y \<le> 0 \<Longrightarrow> cmp y z \<le> 0 \<Longrightarrow> cmp x z \<le> 0"
  unfolding cmp_ok_def by blast

lemma cmp_ok_mono: "cmp_ok cmp S \<Longrightarrow> T \<subseteq> S \<Longrightarrow> cmp_ok cmp T"
  unfolding cmp_ok_def by blast

lemma strcmp_le_trans: "strcmp s t \<le> 0 \<Longrightarrow> strcmp t u \<le> 0 \<Longrightarrow> strcmp s u \<le> 0"
  using strcmp_trans [of s t u] strcmp_eq_0 [of s t] strcmp_eq_0 [of t u] by (cases "s = t"; cases "t = u") auto

lemma strcmp_ok: "cmp_ok strcmp S"
  unfolding cmp_ok_def using strcmp_le_trans strcmp_flip by (metis linear neg_le_0_iff_le)

lemma strcmp_ok_key: "cmp_ok (\<lambda>x y. strcmp (f x) (f y)) S"
  using strcmp_ok [of UNIV] unfolding cmp_ok_def by blast


section \<open>Sorting\<close>

locale c_qsort =
  fixes qs :: "('a \<Rightarrow> 'a \<Rightarrow> int) \<Rightarrow> 'a list \<Rightarrow> 'a list"
  assumes qs_mset: "mset (qs cmp xs) = mset xs"
    and qs_sorted: "cmp_ok cmp (set xs) \<Longrightarrow> sorted_wrt (\<lambda>x y. cmp x y \<le> 0) (qs cmp xs)"
begin

lemma qs_set: "set (qs cmp xs) = set xs"
  using qs_mset mset_eq_setD by blast

lemma qs_length: "length (qs cmp xs) = length xs"
  using qs_mset mset_eq_length by blast

lemma qs_distinct: "distinct (qs cmp xs) = distinct xs"
  using qs_mset mset_eq_imp_distinct_iff by blast

lemma qs_Nil: "qs cmp [] = []"
  using qs_length [of cmp "[]"] by simp

end

fun merge_by :: "('a \<Rightarrow> 'a \<Rightarrow> int) \<Rightarrow> 'a list \<Rightarrow> 'a list \<Rightarrow> 'a list" where
  "merge_by cmp [] ys = ys"
| "merge_by cmp xs [] = xs"
| "merge_by cmp (x # xs) (y # ys) =
     (if cmp x y \<le> 0 then x # merge_by cmp xs (y # ys) else y # merge_by cmp (x # xs) ys)"

function qsort :: "('a \<Rightarrow> 'a \<Rightarrow> int) \<Rightarrow> 'a list \<Rightarrow> 'a list" where
  "qsort cmp xs =
     (if length xs \<le> 1 then xs
      else merge_by cmp (qsort cmp (take (length xs div 2) xs)) (qsort cmp (drop (length xs div 2) xs)))"
  by pat_completeness auto
termination by (relation "measure (\<lambda>(cmp, xs). length xs)") auto

declare qsort.simps [simp del]

lemma merge_by_mset: "mset (merge_by cmp xs ys) = mset xs + mset ys"
  by (induction cmp xs ys rule: merge_by.induct) auto

lemma merge_by_set: "set (merge_by cmp xs ys) = set xs \<union> set ys"
  by (induction cmp xs ys rule: merge_by.induct) auto

lemma merge_by_sorted:
  "cmp_ok cmp (set xs \<union> set ys) \<Longrightarrow> sorted_wrt (\<lambda>x y. cmp x y \<le> 0) xs \<Longrightarrow> sorted_wrt (\<lambda>x y. cmp x y \<le> 0) ys \<Longrightarrow>
   sorted_wrt (\<lambda>x y. cmp x y \<le> 0) (merge_by cmp xs ys)"
proof (induction cmp xs ys rule: merge_by.induct)
  case (3 cmp x xs y ys)
  note ok = 3(3)
  show ?case
  proof (cases "cmp x y \<le> 0")
    case True
    have "cmp x z \<le> 0" if "z \<in> set ys" for z
      using cmp_ok_trans [OF ok, of x y z] True that 3(5) by auto
    then show ?thesis
      using True 3(1) [OF True cmp_ok_mono [OF ok]] 3(4,5) by (auto simp: merge_by_set)
  next
    case False
    then have yx: "cmp y x \<le> 0" using cmp_ok_total [OF ok, of x y] by simp
    have "cmp y z \<le> 0" if "z \<in> set xs" for z
      using cmp_ok_trans [OF ok, of y x z] yx that 3(4) by auto
    then show ?thesis
      using False yx 3(2) [OF False cmp_ok_mono [OF ok]] 3(4,5) by (auto simp: merge_by_set)
  qed
qed auto

lemma qsort_mset: "mset (qsort cmp xs) = mset xs"
proof (induction cmp xs rule: qsort.induct)
  case (1 cmp xs)
  then show ?case
    by (subst qsort.simps) (auto simp: merge_by_mset simp flip: mset_append)
qed

lemma qsort_sorted: "cmp_ok cmp (set xs) \<Longrightarrow> sorted_wrt (\<lambda>x y. cmp x y \<le> 0) (qsort cmp xs)"
proof (induction cmp xs rule: qsort.induct)
  case (1 cmp xs)
  show ?case
  proof (cases "length xs \<le> 1")
    case True
    then show ?thesis by (subst qsort.simps) (cases xs; auto)
  next
    case False
    let ?k = "length xs div 2"
    have sets: "set (qsort cmp (take ?k xs)) \<subseteq> set xs" "set (qsort cmp (drop ?k xs)) \<subseteq> set xs"
      by (simp_all add: mset_eq_setD [OF qsort_mset] set_take_subset set_drop_subset)
    have "sorted_wrt (\<lambda>x y. cmp x y \<le> 0) (merge_by cmp (qsort cmp (take ?k xs)) (qsort cmp (drop ?k xs)))"
      using sets cmp_ok_mono [OF 1(3)] set_take_subset [of ?k xs] set_drop_subset [of ?k xs]
      by (intro merge_by_sorted 1(1) [OF False] 1(2) [OF False]) auto
    then show ?thesis using False by (subst qsort.simps) simp
  qed
qed

interpretation glibc: c_qsort qsort
  by unfold_locales (rule qsort_mset, rule qsort_sorted)


section \<open>Searching\<close>

text \<open>\<open>get\<close> reads a slot of the array; the index of the element found.\<close>

function bsearch_loop :: "(nat \<Rightarrow> 'a res) \<Rightarrow> ('a \<Rightarrow> int) \<Rightarrow> nat \<Rightarrow> nat \<Rightarrow> nat option res" where
  "bsearch_loop get cmp l u =
     (if l < u then
        bindR (get ((l + u) div 2)) (\<lambda>x.
        if cmp x < 0 then bsearch_loop get cmp l ((l + u) div 2)
        else if cmp x > 0 then bsearch_loop get cmp ((l + u) div 2 + 1) u
        else Inr (Some ((l + u) div 2)))
      else Inr None)"
  by pat_completeness auto
termination by (relation "measure (\<lambda>(get, cmp, l, u). u - l)") auto

declare bsearch_loop.simps [simp del]

definition bsearch :: "(nat \<Rightarrow> 'a res) \<Rightarrow> ('a \<Rightarrow> int) \<Rightarrow> nat \<Rightarrow> nat option res" where
  "bsearch get cmp n = bsearch_loop get cmp 0 n"

text \<open>The array is in order for the key: first what the key is above, then what it equals, then the rest.\<close>

definition in_order_for :: "('a \<Rightarrow> int) \<Rightarrow> 'a list \<Rightarrow> bool" where
  "in_order_for cmp xs \<longleftrightarrow> sorted_wrt (\<lambda>x y. (cmp x < 0 \<longrightarrow> cmp y < 0) \<and> (cmp y > 0 \<longrightarrow> cmp x > 0)) xs"

lemma in_order_forD:
  "in_order_for cmp xs \<Longrightarrow> i < j \<Longrightarrow> j < length xs \<Longrightarrow>
   (cmp (xs ! i) < 0 \<longrightarrow> cmp (xs ! j) < 0) \<and> (cmp (xs ! j) > 0 \<longrightarrow> cmp (xs ! i) > 0)"
  unfolding in_order_for_def sorted_wrt_iff_nth_less by blast

lemma bsearch_loop_finds:
  assumes "\<And>i. i < length xs \<Longrightarrow> get i = Inr (xs ! i)" "in_order_for cmp xs" "u \<le> length xs"
    and "\<And>i. i < l \<Longrightarrow> cmp (xs ! i) \<noteq> 0" "\<And>i. u \<le> i \<Longrightarrow> i < length xs \<Longrightarrow> cmp (xs ! i) \<noteq> 0"
  shows "\<exists>r. bsearch_loop get cmp l u = Inr r \<and>
    (case r of None \<Rightarrow> \<forall>x\<in>set xs. cmp x \<noteq> 0 | Some i \<Rightarrow> i < length xs \<and> cmp (xs ! i) = 0)"
  using assms
proof (induction get cmp l u rule: bsearch_loop.induct)
  case (1 get cmp l u)
  note get = 1(3) and ord = 1(4) and u = 1(5) and lo = 1(6) and hi = 1(7)
  let ?m = "(l + u) div 2"
  show ?case
  proof (cases "l < u")
    case False
    then have "cmp (xs ! i) \<noteq> 0" if "i < length xs" for i using lo [of i] hi [of i] that by linarith
    then have "\<forall>x\<in>set xs. cmp x \<noteq> 0" by (auto simp: in_set_conv_nth)
    then show ?thesis using False by (subst bsearch_loop.simps) simp
  next
    case True
    then have m: "?m < u" "l \<le> ?m" "?m < length xs" using u by auto
    have less: "cmp (xs ! i) < 0" if "cmp (xs ! ?m) < 0" "?m \<le> i" "i < length xs" for i
      using in_order_forD [OF ord, of ?m i] that by (cases "i = ?m") auto
    have more: "cmp (xs ! i) > 0" if "cmp (xs ! ?m) > 0" "i \<le> ?m" for i
      using in_order_forD [OF ord, of i ?m] that m(3) by (cases "i = ?m") auto
    consider "cmp (xs ! ?m) < 0" | "cmp (xs ! ?m) > 0" | "cmp (xs ! ?m) = 0" by linarith
    then show ?thesis
    proof cases
      case 1
      have "\<And>i. ?m \<le> i \<Longrightarrow> i < length xs \<Longrightarrow> cmp (xs ! i) \<noteq> 0" using less [OF 1] by fastforce
      from "1.IH"(1) [OF True _ 1 get ord _ lo this] get [OF m(3)] m 1 True show ?thesis
        by (subst bsearch_loop.simps) auto
    next
      case 2
      have "\<And>i. i < ?m + 1 \<Longrightarrow> cmp (xs ! i) \<noteq> 0" using more [OF 2] less_Suc_eq_le by fastforce
      from "1.IH"(2) [OF True _ _ 2 get ord u this hi] get [OF m(3)] m 2 True show ?thesis
        by (subst bsearch_loop.simps) auto
    next
      case 3
      then show ?thesis using get [OF m(3)] m True by (subst bsearch_loop.simps) auto
    qed
  qed
qed

lemma bsearch_finds:
  assumes "\<And>i. i < length xs \<Longrightarrow> get i = Inr (xs ! i)" "in_order_for cmp xs"
  shows "\<exists>r. bsearch get cmp (length xs) = Inr r \<and>
    (case r of None \<Rightarrow> \<forall>x\<in>set xs. cmp x \<noteq> 0 | Some i \<Rightarrow> i < length xs \<and> cmp (xs ! i) = 0)"
  unfolding bsearch_def by (rule bsearch_loop_finds [OF assms]) auto

end
