(* ===== verification/Rdlist.thy ===== *)
theory Rdlist
  imports C_Stdlib
begin

unbundle bit_operations_syntax

text \<open>
  The list of pointers of \<open>rdlist.c\<close> and \<open>rdlist.h\<close>: growth, appending, removal, sorting, lookup,
  copying, and lists whose elements are preallocated. The well-formed lists refine sequences.
\<close>

section \<open>State\<close>

text \<open>
  A slot of the element array: what \<open>realloc\<close> leaves there, a null pointer, or a pointer. \<open>rl_p\<close> is the
  memory of preallocated elements, by number of the element, \<open>None\<close> where nothing was written yet.
\<close>

datatype 'a slot = Junk | Null | Elem 'a

record ('a, 'm) rd_list =
  rl_size :: int
  rl_cnt :: int
  rl_elems :: "'a slot list option"
  rl_free_cb :: bool            \<comment> \<open>a callback that frees elements is set\<close>
  rl_flags :: "32 word"
  rl_elemsize :: int
  rl_p :: "'m option list"

definition RD_LIST_F_ALLOCATED :: "32 word" where "RD_LIST_F_ALLOCATED = 0x1"
definition RD_LIST_F_SORTED :: "32 word" where "RD_LIST_F_SORTED = 0x2"
definition RD_LIST_F_FIXED_SIZE :: "32 word" where "RD_LIST_F_FIXED_SIZE = 0x4"

definition slot_of :: "'a option \<Rightarrow> 'a slot" where
  "slot_of p = (case p of None \<Rightarrow> Null | Some x \<Rightarrow> Elem x)"

text \<open>Reading and writing a slot, and using the pointer that was read.\<close>

definition slot_at :: "('a, 'm) rd_list \<Rightarrow> int \<Rightarrow> 'a slot res" where
  "slot_at rl i =
     (case rl_elems rl of
        None \<Rightarrow> Inl Null_Deref
      | Some es \<Rightarrow> if 0 \<le> i \<and> i < int (length es) then Inr (es ! nat i) else Inl Out_Of_Bounds)"

definition slot_put :: "('a, 'm) rd_list \<Rightarrow> int \<Rightarrow> 'a slot \<Rightarrow> ('a, 'm) rd_list res" where
  "slot_put rl i s =
     (case rl_elems rl of
        None \<Rightarrow> Inl Null_Deref
      | Some es \<Rightarrow>
          if 0 \<le> i \<and> i < int (length es) then Inr (rl\<lparr>rl_elems := Some (es[nat i := s])\<rparr>) else Inl Out_Of_Bounds)"

definition slot_pointer :: "'a slot \<Rightarrow> 'a option res" where
  "slot_pointer s = (case s of Junk \<Rightarrow> Inl Indeterminate | Null \<Rightarrow> Inr None | Elem x \<Rightarrow> Inr (Some x))"

definition elem_at :: "('a, 'm) rd_list \<Rightarrow> int \<Rightarrow> 'a res" where
  "elem_at rl i = bindR (slot_at rl i) (\<lambda>s. bindR (slot_pointer s) (derefR Null_Deref))"

section \<open>Creation and growth\<close>

text \<open>\<open>rd_realloc\<close> asserts that the allocation succeeds; a negative count is a size no allocator grants.\<close>

definition realloc :: "'a slot list option \<Rightarrow> int \<Rightarrow> 'a slot list res" where
  "realloc p n =
     bindR (check Assert_Failed (0 \<le> n)) (\<lambda>_.
     let es = (case p of None \<Rightarrow> [] | Some es \<Rightarrow> es)
     in Inr (take (nat n) es @ replicate (nat n - length es) Junk))"

definition rd_list_grow :: "('a, 'm) rd_list \<Rightarrow> int \<Rightarrow> ('a, 'm) rd_list res" where
  "rd_list_grow rl sz =
     bindR (check Assert_Failed (rl_flags rl AND RD_LIST_F_FIXED_SIZE = 0)) (\<lambda>_.
     let rl = rl\<lparr>rl_size := s32 (rl_size rl + s32 sz)\<rparr>
     in if rl_size rl = 0 then Inr rl
        else bindR (realloc (rl_elems rl) (rl_size rl)) (\<lambda>es. Inr (rl\<lparr>rl_elems := Some es\<rparr>)))"

definition rd_list_init :: "int \<Rightarrow> bool \<Rightarrow> ('a, 'm) rd_list res" where
  "rd_list_init initial_size free_cb =
     (let rl = \<lparr>rl_size = 0, rl_cnt = 0, rl_elems = None, rl_free_cb = False, rl_flags = 0, rl_elemsize = 0, rl_p = []\<rparr>
      in bindR (if initial_size > 0 then rd_list_grow rl initial_size else Inr rl) (\<lambda>rl.
         Inr (rl\<lparr>rl_free_cb := free_cb\<rparr>)))"

definition rd_list_new :: "int \<Rightarrow> bool \<Rightarrow> ('a, 'm) rd_list res" where
  "rd_list_new initial_size free_cb =
     bindR (rd_list_init initial_size free_cb) (\<lambda>rl. Inr (rl\<lparr>rl_flags := rl_flags rl OR RD_LIST_F_ALLOCATED\<rparr>))"

text \<open>\<open>cell i\<close> is the address of the \<open>i\<close>th preallocated element and \<open>zero\<close> an element of zero bytes.\<close>

definition rd_list_prealloc_elems :: "(nat \<Rightarrow> 'a) \<Rightarrow> 'm \<Rightarrow> ('a, 'm) rd_list \<Rightarrow> int \<Rightarrow> nat \<Rightarrow> bool \<Rightarrow> ('a, 'm) rd_list res" where
  "rd_list_prealloc_elems cell zero rl elemsize cnt memzero =
     bindR (check Assert_Failed (rl_elems rl = None)) (\<lambda>_.
     Inr (rl\<lparr>rl_elems := Some (map (\<lambda>i. if elemsize > 0 then Elem (cell i) else Null) [0..<cnt]),
             rl_p := (if elemsize > 0 then replicate cnt (if memzero then Some zero else None) else []),
             rl_size := s32 (int cnt),
             rl_cnt := 0,
             rl_flags := rl_flags rl OR RD_LIST_F_FIXED_SIZE,
             rl_elemsize := elemsize\<rparr>))"

definition rd_list_cnt :: "('a, 'm) rd_list \<Rightarrow> int" where
  "rd_list_cnt rl = rl_cnt rl"

definition rd_list_empty :: "('a, 'm) rd_list \<Rightarrow> bool" where
  "rd_list_empty rl \<longleftrightarrow> rd_list_cnt rl = 0"

definition rd_list_init_copy :: "(nat \<Rightarrow> 'a) \<Rightarrow> 'm \<Rightarrow> ('a, 'm) rd_list \<Rightarrow> ('a, 'm) rd_list res" where
  "rd_list_init_copy cell zero src =
     (if rl_flags src AND RD_LIST_F_FIXED_SIZE \<noteq> 0 then
        bindR (rd_list_init 0 (rl_free_cb src)) (\<lambda>dst.
        rd_list_prealloc_elems cell zero dst (rl_elemsize src) (nat (rl_size src)) True)
      else rd_list_init (rd_list_cnt src) (rl_free_cb src))"

definition rd_list_set_cnt :: "('a, 'm) rd_list \<Rightarrow> int \<Rightarrow> ('a, 'm) rd_list res" where
  "rd_list_set_cnt rl cnt =
     bindR (check Assert_Failed (rl_flags rl AND RD_LIST_F_FIXED_SIZE \<noteq> 0)) (\<lambda>_.
     bindR (check Assert_Failed (s32 cnt \<le> rl_size rl)) (\<lambda>_.
     Inr (rl\<lparr>rl_cnt := s32 cnt\<rparr>)))"

text \<open>The pointer handed to the callback, if any.\<close>

definition rd_list_free_cb :: "('a, 'm) rd_list \<Rightarrow> 'a option \<Rightarrow> 'a list" where
  "rd_list_free_cb rl ptr = (case ptr of Some x \<Rightarrow> (if rl_free_cb rl then [x] else []) | None \<Rightarrow> [])"

section \<open>Adding and removing\<close>

definition rd_list_add :: "('a, 'm) rd_list \<Rightarrow> 'a option \<Rightarrow> (('a, 'm) rd_list \<times> 'a slot) res" where
  "rd_list_add rl elem =
     bindR (if rl_cnt rl = rl_size rl
            then rd_list_grow rl (if rl_size rl \<noteq> 0 then s32 (rl_size rl * 2) else 16) else Inr rl) (\<lambda>rl.
     let rl = rl\<lparr>rl_flags := rl_flags rl AND NOT RD_LIST_F_SORTED\<rparr>
     in bindR (if elem \<noteq> None then slot_put rl (rl_cnt rl) (slot_of elem) else Inr rl) (\<lambda>rl.
        bindR (slot_at rl (rl_cnt rl)) (\<lambda>s.
        Inr (rl\<lparr>rl_cnt := rl_cnt rl + 1\<rparr>, s))))"

definition rd_list_set :: "('a, 'm) rd_list \<Rightarrow> int \<Rightarrow> 'a option \<Rightarrow> ('a, 'm) rd_list res" where
  "rd_list_set rl idx ptr =
     bindR (if idx \<ge> rl_size rl then rd_list_grow rl (idx + 1) else Inr rl) (\<lambda>rl.
     bindR (if idx \<ge> rl_cnt rl then
              bindR (derefR Null_Deref (rl_elems rl)) (\<lambda>es.
              bindR (check Out_Of_Bounds (0 \<le> rl_cnt rl \<and> idx \<le> int (length es))) (\<lambda>_.
              Inr (rl\<lparr>rl_elems := Some (take (nat (rl_cnt rl)) es @ replicate (nat (idx - rl_cnt rl)) Null @ drop (nat idx) es),
                      rl_cnt := idx + 1\<rparr>)))
            else
              bindR (slot_at rl idx) (\<lambda>s.
              bindR (slot_pointer s) (\<lambda>p.
              bindR (check Assert_Failed (p = None)) (\<lambda>_. Inr rl)))) (\<lambda>rl.
     slot_put rl idx (slot_of ptr)))"

text \<open>The slot that the elements moved away from keeps its content.\<close>

definition rd_list_remove_elem :: "('a, 'm) rd_list \<Rightarrow> int \<Rightarrow> ('a, 'm) rd_list res" where
  "rd_list_remove_elem rl idx =
     bindR (check Assert_Failed (idx < rl_cnt rl)) (\<lambda>_.
     bindR (if idx + 1 < rl_cnt rl then
              bindR (derefR Null_Deref (rl_elems rl)) (\<lambda>es.
              bindR (check Out_Of_Bounds (0 \<le> idx \<and> rl_cnt rl \<le> int (length es))) (\<lambda>_.
              Inr (rl\<lparr>rl_elems := Some (take (nat idx) es @ take (nat (rl_cnt rl - (idx + 1))) (drop (nat (idx + 1)) es)
                                       @ drop (nat (rl_cnt rl) - 1) es)\<rparr>)))
            else Inr rl) (\<lambda>rl.
     Inr (rl\<lparr>rl_cnt := rl_cnt rl - 1\<rparr>)))"

definition rd_list_elem :: "('a, 'm) rd_list \<Rightarrow> int \<Rightarrow> 'a option res" where
  "rd_list_elem rl idx = (if idx < rl_cnt rl then bindR (slot_at rl idx) slot_pointer else Inr None)"

text \<open>
  The macro \<open>RD_LIST_FOREACH\<close> with a body that leaves the list alone: it visits the elements up to the
  first null pointer, and the body may end it with a result.
\<close>

function RD_LIST_FOREACH :: "('a, 'm) rd_list \<Rightarrow> (int \<Rightarrow> 'a \<Rightarrow> 'r option) \<Rightarrow> int \<Rightarrow> 'r option res" where
  "RD_LIST_FOREACH rl body i =
     bindR (rd_list_elem rl i) (\<lambda>elem.
     case elem of
       None \<Rightarrow> Inr None
     | Some x \<Rightarrow> (case body i x of Some r \<Rightarrow> Inr (Some r) | None \<Rightarrow> RD_LIST_FOREACH rl body (i + 1)))"
  by pat_completeness auto
termination
  by (relation "measure (\<lambda>(rl, body, i). nat (rl_cnt rl - i))") (auto simp: rd_list_elem_def split: if_splits)

declare RD_LIST_FOREACH.simps [simp del]

definition remove_found :: "('a, 'm) rd_list \<Rightarrow> (int \<times> 'a) option \<Rightarrow> (('a, 'm) rd_list \<times> 'a option) res" where
  "remove_found rl found =
     (case found of
        None \<Rightarrow> Inr (rl, None)
      | Some (i, x) \<Rightarrow> bindR (rd_list_remove_elem rl i) (\<lambda>rl. Inr (rl, Some x)))"

definition rd_list_remove :: "('a, 'm) rd_list \<Rightarrow> 'a \<Rightarrow> (('a, 'm) rd_list \<times> 'a option) res" where
  "rd_list_remove rl match_elem =
     bindR (RD_LIST_FOREACH rl (\<lambda>i x. if x = match_elem then Some (i, x) else None) 0) (remove_found rl)"

definition rd_list_remove_cmp :: "('a, 'm) rd_list \<Rightarrow> 'a \<Rightarrow> ('a \<Rightarrow> 'a \<Rightarrow> int) \<Rightarrow> (('a, 'm) rd_list \<times> 'a option) res" where
  "rd_list_remove_cmp rl match_elem cmp =
     bindR (RD_LIST_FOREACH rl (\<lambda>i x. if x = match_elem \<or> cmp x match_elem = 0 then Some (i, x) else None) 0) (remove_found rl)"

text \<open>
  The test \<open>match_elem == cmp\<close> of the source compares an element with the comparator function, which
  no element is.
\<close>

function remove_multi_loop :: "('a, 'm) rd_list \<Rightarrow> 'a \<Rightarrow> ('a \<Rightarrow> 'a \<Rightarrow> int) \<Rightarrow> int \<Rightarrow> int \<Rightarrow> (('a, 'm) rd_list \<times> int) res" where
  "remove_multi_loop rl match_elem cmp i cnt =
     (if i < 0 then Inr (rl, cnt)
      else
        bindR (rd_list_elem rl i) (\<lambda>elem.
        case elem of
          None \<Rightarrow> Inr (rl, cnt)
        | Some x \<Rightarrow>
            if cmp x match_elem = 0
            then bindR (rd_list_remove_elem rl i) (\<lambda>rl. remove_multi_loop rl match_elem cmp (i - 1) (cnt + 1))
            else remove_multi_loop rl match_elem cmp (i - 1) cnt))"
  by pat_completeness auto
termination by (relation "measure (\<lambda>(rl, m, cmp, i, cnt). nat (i + 1))") auto

declare remove_multi_loop.simps [simp del]

definition rd_list_remove_multi_cmp :: "('a, 'm) rd_list \<Rightarrow> 'a \<Rightarrow> ('a \<Rightarrow> 'a \<Rightarrow> int) \<Rightarrow> (('a, 'm) rd_list \<times> int) res" where
  "rd_list_remove_multi_cmp rl match_elem cmp = remove_multi_loop rl match_elem cmp (rl_cnt rl - 1) 0"

section \<open>Sorting, emptying and destroying\<close>

text \<open>The elements that the comparator gets to see.\<close>

fun read_elems :: "'a slot list \<Rightarrow> 'a list res" where
  "read_elems [] = Inr []"
| "read_elems (s # ss) =
     bindR (slot_pointer s) (\<lambda>p. bindR (derefR Null_Deref p) (\<lambda>x. bindR (read_elems ss) (\<lambda>xs. Inr (x # xs))))"

definition rd_list_sort :: "(('a \<Rightarrow> 'a \<Rightarrow> int) \<Rightarrow> 'a list \<Rightarrow> 'a list) \<Rightarrow> ('a, 'm) rd_list \<Rightarrow> ('a \<Rightarrow> 'a \<Rightarrow> int) \<Rightarrow> ('a, 'm) rd_list res" where
  "rd_list_sort qs rl cmp =
     bindR (if rl_cnt rl = 0 then Inr rl
            else
              bindR (derefR Null_Deref (rl_elems rl)) (\<lambda>es.
              bindR (check Out_Of_Bounds (0 \<le> rl_cnt rl \<and> rl_cnt rl \<le> int (length es))) (\<lambda>_.
              bindR (read_elems (take (nat (rl_cnt rl)) es)) (\<lambda>xs.
              Inr (rl\<lparr>rl_elems := Some (map Elem (qs cmp xs) @ drop (nat (rl_cnt rl)) es)\<rparr>))))) (\<lambda>rl.
     Inr (rl\<lparr>rl_flags := rl_flags rl OR RD_LIST_F_SORTED\<rparr>))"

definition rd_list_clear :: "('a, 'm) rd_list \<Rightarrow> ('a, 'm) rd_list" where
  "rd_list_clear rl = rl\<lparr>rl_cnt := 0, rl_flags := rl_flags rl AND NOT RD_LIST_F_SORTED\<rparr>"

function rl_destroy_loop :: "('a, 'm) rd_list \<Rightarrow> int \<Rightarrow> 'a list res" where
  "rl_destroy_loop rl i =
     (if i < rl_cnt rl then
        bindR (slot_at rl i) (\<lambda>s.
        bindR (slot_pointer s) (\<lambda>p.
        bindR (rl_destroy_loop rl (i + 1)) (\<lambda>freed.
        Inr ((case p of Some x \<Rightarrow> [x] | None \<Rightarrow> []) @ freed))))
      else Inr [])"
  by pat_completeness auto
termination by (relation "measure (\<lambda>(rl, i). nat (rl_cnt rl - i))") auto

declare rl_destroy_loop.simps [simp del]

text \<open>The elements freed, whether the element array and whether the list itself is freed.\<close>

definition rd_list_destroy :: "('a, 'm) rd_list \<Rightarrow> ('a list \<times> bool \<times> bool) res" where
  "rd_list_destroy rl =
     bindR (if rl_elems rl \<noteq> None \<and> rl_free_cb rl then rl_destroy_loop rl 0 else Inr []) (\<lambda>freed.
     Inr (freed, rl_elems rl \<noteq> None, rl_flags rl AND RD_LIST_F_ALLOCATED \<noteq> 0))"

section \<open>Lookup and comparison\<close>

definition rd_list_index :: "('a, 'm) rd_list \<Rightarrow> 'k \<Rightarrow> ('k \<Rightarrow> 'a \<Rightarrow> int) \<Rightarrow> int res" where
  "rd_list_index rl match cmp =
     bindR (RD_LIST_FOREACH rl (\<lambda>i x. if cmp match x = 0 then Some i else None) 0) (\<lambda>r.
     Inr (case r of Some i \<Rightarrow> i | None \<Rightarrow> -1))"

definition rd_list_find :: "('a, 'm) rd_list \<Rightarrow> 'k \<Rightarrow> ('k \<Rightarrow> 'a \<Rightarrow> int) \<Rightarrow> 'a option res" where
  "rd_list_find rl match cmp =
     (if rl_flags rl AND RD_LIST_F_SORTED \<noteq> 0 then
        bindR (bsearch (\<lambda>i. elem_at rl (int i)) (cmp match) (nat (rl_cnt rl))) (\<lambda>r.
        case r of None \<Rightarrow> Inr None | Some i \<Rightarrow> bindR (slot_at rl (int i)) slot_pointer)
      else RD_LIST_FOREACH rl (\<lambda>i x. if cmp match x = 0 then Some x else None) 0)"

function cmp_loop :: "('a, 'm) rd_list \<Rightarrow> ('a, 'm) rd_list \<Rightarrow> ('a option \<Rightarrow> 'a option \<Rightarrow> int res) \<Rightarrow> int \<Rightarrow> int res" where
  "cmp_loop a b cmp i =
     (if i < rl_cnt a then
        bindR (bindR (slot_at a i) slot_pointer) (\<lambda>x.
        bindR (bindR (slot_at b i) slot_pointer) (\<lambda>y.
        bindR (cmp x y) (\<lambda>r. if r \<noteq> 0 then Inr r else cmp_loop a b cmp (i + 1))))
      else Inr 0)"
  by pat_completeness auto
termination by (relation "measure (\<lambda>(a, b, cmp, i). nat (rl_cnt a - i))") auto

declare cmp_loop.simps [simp del]

text \<open>The comparator gets the pointers, also null ones.\<close>

definition rd_list_cmp :: "('a, 'm) rd_list \<Rightarrow> ('a, 'm) rd_list \<Rightarrow> ('a option \<Rightarrow> 'a option \<Rightarrow> int res) \<Rightarrow> int res" where
  "rd_list_cmp a b cmp =
     (let i = s32 (rl_cnt a - rl_cnt b)
      in if i \<noteq> 0 then Inr i else cmp_loop a b cmp 0)"

text \<open>Pointers by their addresses.\<close>

definition rd_list_cmp_ptr :: "nat \<Rightarrow> nat \<Rightarrow> int" where
  "rd_list_cmp_ptr a b = (if a < b then -1 else if a > b then 1 else 0)"

section \<open>Applying and copying\<close>

text \<open>The callback gets the element and threads the state that the opaque pointer reaches.\<close>

function apply_loop :: "('a, 'm) rd_list \<Rightarrow> ('a \<Rightarrow> 's \<Rightarrow> bool \<times> 's) \<Rightarrow> 's \<Rightarrow> int \<Rightarrow> (('a, 'm) rd_list \<times> 's) res" where
  "apply_loop rl cb st i =
     bindR (rd_list_elem rl i) (\<lambda>elem.
     case elem of
       None \<Rightarrow> Inr (rl, st)
     | Some x \<Rightarrow>
         if fst (cb x st) then apply_loop rl cb (snd (cb x st)) (i + 1)
         else bindR (rd_list_remove_elem rl i) (\<lambda>rl. apply_loop rl cb (snd (cb x st)) i))"
  by pat_completeness auto
termination
  by (relation "measure (\<lambda>(rl, cb, st, i). nat (rl_cnt rl - i))")
    (auto simp: rd_list_elem_def rd_list_remove_elem_def res_simps split: if_splits)

declare apply_loop.simps [simp del]

definition rd_list_apply :: "('a, 'm) rd_list \<Rightarrow> ('a \<Rightarrow> 's \<Rightarrow> bool \<times> 's) \<Rightarrow> 's \<Rightarrow> (('a, 'm) rd_list \<times> 's) res" where
  "rd_list_apply rl cb opaque = apply_loop rl cb opaque 0"

definition rd_list_nocopy_ptr :: "'a \<Rightarrow> 'a option" where
  "rd_list_nocopy_ptr elem = Some elem"

function copy_loop :: "('b, 'n) rd_list \<Rightarrow> ('a, 'm) rd_list \<Rightarrow> ('a \<Rightarrow> 'b option) \<Rightarrow> int \<Rightarrow> ('b, 'n) rd_list res" where
  "copy_loop dst src copy_cb i =
     bindR (rd_list_elem src i) (\<lambda>elem.
     case elem of
       None \<Rightarrow> Inr dst
     | Some x \<Rightarrow>
         bindR (case copy_cb x of
                  Some y \<Rightarrow> bindR (rd_list_add dst (Some y)) (\<lambda>(dst, s). Inr dst)
                | None \<Rightarrow> Inr dst) (\<lambda>dst.
         copy_loop dst src copy_cb (i + 1)))"
  by pat_completeness auto
termination
  by (relation "measure (\<lambda>(dst, src, cb, i). nat (rl_cnt src - i))") (auto simp: rd_list_elem_def split: if_splits)

declare copy_loop.simps [simp del]

text \<open>A copy between two lists; without a callback the pointers themselves are copied.\<close>

definition rd_list_copy_to :: "('a, 'm) rd_list \<Rightarrow> ('a, 'm) rd_list \<Rightarrow> ('a \<Rightarrow> 'a option) option \<Rightarrow> ('a, 'm) rd_list res" where
  "rd_list_copy_to dst src copy_cb =
     copy_loop dst src (case copy_cb of None \<Rightarrow> rd_list_nocopy_ptr | Some cb \<Rightarrow> cb) 0"

definition rd_list_copy :: "('a, 'm) rd_list \<Rightarrow> ('a \<Rightarrow> 'a option) option \<Rightarrow> ('a, 'm) rd_list res" where
  "rd_list_copy src copy_cb =
     bindR (rd_list_new (rl_cnt src) (rl_free_cb src)) (\<lambda>dst. rd_list_copy_to dst src copy_cb)"

text \<open>The elements are addressed by their number within the allocation of their list.\<close>

definition rd_list_copy_preallocated0 :: "'m \<Rightarrow> 32 word \<Rightarrow> (nat, 'm) rd_list \<Rightarrow> (nat, 'm) rd_list res" where
  "rd_list_copy_preallocated0 zero dst_flags src =
     bindR (rd_list_init_copy id zero src) (\<lambda>dst.
     let dst = dst\<lparr>rl_flags := rl_flags dst OR (dst_flags AND RD_LIST_F_ALLOCATED)\<rparr>
     in bindR (check Assert_Failed (rl_flags dst AND RD_LIST_F_FIXED_SIZE \<noteq> 0)) (\<lambda>_.
        bindR (check Assert_Failed (rl_flags src AND RD_LIST_F_FIXED_SIZE \<noteq> 0)) (\<lambda>_.
        bindR (check Assert_Failed (rl_elemsize dst = rl_elemsize src \<and> rl_size dst = rl_size src)) (\<lambda>_.
        Inr (dst\<lparr>rl_p := rl_p src, rl_cnt := rl_cnt src\<rparr>)))))"

definition rd_list_copy_preallocated :: "'m \<Rightarrow> (nat, 'm) rd_list \<Rightarrow> (nat, 'm) rd_list res" where
  "rd_list_copy_preallocated zero src =
     bindR (rd_list_new 0 False) (\<lambda>dst :: (nat, 'm) rd_list. rd_list_copy_preallocated0 zero (rl_flags dst) src)"

section \<open>Lists of 32-bit integers\<close>

type_synonym int32_list = "(nat, int) rd_list"

definition rd_list_init_int32 :: "int32_list \<Rightarrow> nat \<Rightarrow> int32_list res" where
  "rd_list_init_int32 rl max_size =
     (let fl = rl_flags rl AND RD_LIST_F_ALLOCATED
      in bindR (rd_list_init 0 False) (\<lambda>rl.
         rd_list_prealloc_elems id 0 (rl\<lparr>rl_flags := rl_flags rl OR fl\<rparr>) 4 max_size True))"

definition rd_list_set_int32 :: "int32_list \<Rightarrow> int \<Rightarrow> int \<Rightarrow> int32_list res" where
  "rd_list_set_int32 rl idx val =
     bindR (check Assert_Failed (rl_flags rl AND RD_LIST_F_FIXED_SIZE \<noteq> 0 \<and> rl_elemsize rl = 4)) (\<lambda>_.
     bindR (check Assert_Failed (idx < rl_size rl)) (\<lambda>_.
     bindR (elem_at rl idx) (\<lambda>c.
     bindR (check Out_Of_Bounds (c < length (rl_p rl))) (\<lambda>_.
     Inr (rl\<lparr>rl_p := (rl_p rl)[c := Some val],
             rl_cnt := (if rl_cnt rl \<le> idx then idx + 1 else rl_cnt rl)\<rparr>)))))"

definition rd_list_get_int32 :: "int32_list \<Rightarrow> int \<Rightarrow> int res" where
  "rd_list_get_int32 rl idx =
     bindR (check Assert_Failed (rl_flags rl AND RD_LIST_F_FIXED_SIZE \<noteq> 0 \<and> rl_elemsize rl = 4 \<and> idx < rl_cnt rl)) (\<lambda>_.
     bindR (elem_at rl idx) (\<lambda>c.
     bindR (check Out_Of_Bounds (c < length (rl_p rl))) (\<lambda>_.
     derefR Indeterminate (rl_p rl ! c))))"

section \<open>Lists as sequences\<close>

text \<open>The list holds the sequence \<open>xs\<close> of pointers, none of them null.\<close>

definition rl_slots :: "('a, 'm) rd_list \<Rightarrow> 'a slot list" where
  "rl_slots rl = (case rl_elems rl of None \<Rightarrow> [] | Some es \<Rightarrow> es)"

definition rl_rep :: "('a, 'm) rd_list \<Rightarrow> 'a list \<Rightarrow> bool" where
  "rl_rep rl xs \<longleftrightarrow>
     rl_cnt rl = int (length xs) \<and> rl_size rl = int (length (rl_slots rl)) \<and> rl_size rl < 2 ^ 31 \<and>
     (\<exists>rest. rl_slots rl = map Elem xs @ rest)"

text \<open>The list may still be appended to.\<close>

definition rl_room :: "('a, 'm) rd_list \<Rightarrow> bool" where
  "rl_room rl \<longleftrightarrow>
     rl_cnt rl < rl_size rl \<or> rl_flags rl AND RD_LIST_F_FIXED_SIZE = 0 \<and> rl_size rl < 2 ^ 29"

lemma rl_rep_unique: "rl_rep rl xs \<Longrightarrow> rl_rep rl ys \<Longrightarrow> xs = ys"
proof -
  assume a: "rl_rep rl xs" "rl_rep rl ys"
  then obtain r t where "map Elem xs @ r = map Elem ys @ t" by (auto simp: rl_rep_def)
  moreover have "length xs = length ys" using a by (auto simp: rl_rep_def)
  ultimately have "map Elem xs = map Elem ys" by simp
  then show ?thesis by (metis (mono_tags, lifting) inj_map_eq_map injI slot.inject)
qed

lemma rl_rep_cnt: "rl_rep rl xs \<Longrightarrow> rl_cnt rl = int (length xs)"
  by (simp add: rl_rep_def)

lemma rl_rep_flags [simp]: "rl_rep (rl\<lparr>rl_flags := f\<rparr>) xs = rl_rep rl xs"
  by (simp add: rl_rep_def rl_slots_def)

lemma rl_rep_free_cb [simp]: "rl_rep (rl\<lparr>rl_free_cb := f\<rparr>) xs = rl_rep rl xs"
  by (simp add: rl_rep_def rl_slots_def)

lemma slot_at_slots: "rl_slots rl \<noteq> [] \<Longrightarrow> 0 \<le> i \<Longrightarrow> i < int (length (rl_slots rl)) \<Longrightarrow> slot_at rl i = Inr (rl_slots rl ! nat i)"
  by (auto simp: slot_at_def rl_slots_def split: option.splits)

lemma slot_at_rep: "rl_rep rl xs \<Longrightarrow> i < length xs \<Longrightarrow> slot_at rl (int i) = Inr (Elem (xs ! i))"
  by (subst slot_at_slots) (auto simp: rl_rep_def nth_append)

lemma elem_at_rep: "rl_rep rl xs \<Longrightarrow> i < length xs \<Longrightarrow> elem_at rl (int i) = Inr (xs ! i)"
  by (simp add: elem_at_def slot_at_rep slot_pointer_def)

lemma rd_list_elem_rep:
  "rl_rep rl xs \<Longrightarrow> rd_list_elem rl (int i) = Inr (if i < length xs then Some (xs ! i) else None)"
  by (simp add: rd_list_elem_def rl_rep_cnt slot_at_rep slot_pointer_def)

text \<open>The first result of the body along a sequence.\<close>

fun scan :: "(int \<Rightarrow> 'a \<Rightarrow> 'r option) \<Rightarrow> nat \<Rightarrow> 'a list \<Rightarrow> 'r option" where
  "scan body i [] = None"
| "scan body i (x # xs) = (case body (int i) x of Some r \<Rightarrow> Some r | None \<Rightarrow> scan body (Suc i) xs)"

lemma foreach_rep_from:
  "rl_rep rl xs \<Longrightarrow> i \<le> length xs \<Longrightarrow> RD_LIST_FOREACH rl body (int i) = Inr (scan body i (drop i xs))"
proof (induction "length xs - i" arbitrary: i)
  case 0
  then show ?case by (subst RD_LIST_FOREACH.simps) (simp add: rd_list_elem_rep)
next
  case (Suc n)
  then have i: "i < length xs" by simp
  have "RD_LIST_FOREACH rl body (int i + 1) = Inr (scan body (Suc i) (drop (Suc i) xs))"
    using Suc(1) [of "Suc i"] Suc.hyps(2) Suc.prems i by (simp add: add.commute)
  then show ?case using i Suc.prems
    by (subst RD_LIST_FOREACH.simps) (simp add: rd_list_elem_rep Cons_nth_drop_Suc [symmetric] split: option.split)
qed

lemma foreach_rep: "rl_rep rl xs \<Longrightarrow> RD_LIST_FOREACH rl body 0 = Inr (scan body 0 xs)"
  using foreach_rep_from [of rl xs 0 body] by simp

lemma scan_find: "scan (\<lambda>i x. if P x then Some x else None) k xs = List.find P xs"
  by (induction xs arbitrary: k) auto

lemma scan_position:
  "scan (\<lambda>i x. if P x then Some (i, x) else None) k xs =
   (case dropWhile (\<lambda>x. \<not> P x) xs of [] \<Rightarrow> None
    | x # _ \<Rightarrow> Some (int (k + length (takeWhile (\<lambda>x. \<not> P x) xs)), x))"
  by (induction xs arbitrary: k) (auto split: list.splits simp del: dropWhile_eq_Nil_conv)

lemma scan_index:
  "scan (\<lambda>i x. if P x then Some i else None) k xs =
   (if \<exists>x\<in>set xs. P x then Some (int (k + length (takeWhile (\<lambda>x. \<not> P x) xs))) else None)"
  by (induction xs arbitrary: k) auto

subsection \<open>Growth and appending\<close>

lemma realloc_rep:
  "length es \<le> nat n \<Longrightarrow> 0 \<le> n \<Longrightarrow> rl_slots rl = es \<Longrightarrow>
   realloc (rl_elems rl) n = Inr (es @ replicate (nat n - length es) Junk)"
  by (auto simp: realloc_def rl_slots_def Let_def split: option.splits)

lemma grow_rep:
  assumes "rl_rep rl xs" "rl_flags rl AND RD_LIST_F_FIXED_SIZE = 0" "0 < n" "rl_size rl + n < 2 ^ 31"
  shows "\<exists>es. rd_list_grow rl n = Inr (rl\<lparr>rl_size := rl_size rl + n, rl_elems := Some (rl_slots rl @ es)\<rparr>) \<and> int (length es) = n"
proof -
  have sz: "0 \<le> rl_size rl" "rl_size rl = int (length (rl_slots rl))" using assms(1) by (auto simp: rl_rep_def)
  then have "s32 n = n" "s32 (rl_size rl + n) = rl_size rl + n" using assms(3,4) by (auto intro!: s32_id)
  then show ?thesis
    using assms sz realloc_rep [of "rl_slots rl" "rl_size rl + n" "rl\<lparr>rl_size := rl_size rl + n\<rparr>"]
    by (auto simp: rd_list_grow_def Let_def rl_slots_def)
qed

lemma grown_rep:
  "rl_rep rl xs \<Longrightarrow> int (length es) = n \<Longrightarrow> rl_size rl + n < 2 ^ 31 \<Longrightarrow>
   rl_rep (rl\<lparr>rl_size := rl_size rl + n, rl_elems := Some (rl_slots rl @ es)\<rparr>) xs"
  by (auto simp: rl_rep_def rl_slots_def)

lemma put_next_rep:
  assumes "rl_rep rl xs" "rl_cnt rl < rl_size rl"
  shows "\<exists>rl'. slot_put rl (rl_cnt rl) (Elem x) = Inr rl' \<and> slot_at rl' (rl_cnt rl) = Inr (Elem x) \<and>
    rl_rep (rl'\<lparr>rl_cnt := rl_cnt rl + 1\<rparr>) (xs @ [x]) \<and> rl_cnt rl' = rl_cnt rl \<and> rl_size rl' = rl_size rl \<and>
    rl_flags rl' = rl_flags rl \<and> rl_free_cb rl' = rl_free_cb rl"
proof -
  obtain rest where rest: "rl_slots rl = map Elem xs @ rest" using assms(1) by (auto simp: rl_rep_def)
  obtain r rs where r: "rest = r # rs" using assms rest by (cases rest) (auto simp: rl_rep_def)
  obtain es where es: "rl_elems rl = Some es" using rest r by (auto simp: rl_slots_def split: option.splits)
  have "rl_cnt rl = int (length xs)" "rl_size rl = int (length es)" "rl_size rl < 2 ^ 31" "es = map Elem xs @ r # rs"
    using assms(1) rest r es by (auto simp: rl_rep_def rl_slots_def)
  then show ?thesis using es
    by (auto simp: slot_put_def slot_at_def rl_rep_def rl_slots_def nth_append list_update_append)
qed

lemma rd_list_add_rep:
  assumes rep: "rl_rep rl xs" and room: "rl_room rl"
  shows "\<exists>rl'. rd_list_add rl (Some x) = Inr (rl', Elem x) \<and> rl_rep rl' (xs @ [x]) \<and>
    rl_flags rl' = rl_flags rl AND NOT RD_LIST_F_SORTED \<and> rl_free_cb rl' = rl_free_cb rl \<and>
    rl_size rl' = (if rl_cnt rl < rl_size rl then rl_size rl else if rl_size rl = 0 then 16 else 3 * rl_size rl)"
proof -
  let ?n = "if rl_size rl \<noteq> 0 then s32 (rl_size rl * 2) else 16"
  have cnt: "rl_cnt rl \<le> rl_size rl" "0 \<le> rl_size rl" using rep by (auto simp: rl_rep_def)
  let ?size = "if rl_cnt rl < rl_size rl then rl_size rl else if rl_size rl = 0 then 16 else 3 * rl_size rl"
  have "\<exists>rl1. (if rl_cnt rl = rl_size rl then rd_list_grow rl ?n else Inr rl) = Inr rl1 \<and> rl_rep rl1 xs \<and>
      rl_cnt rl1 < rl_size rl1 \<and> rl_flags rl1 = rl_flags rl \<and> rl_free_cb rl1 = rl_free_cb rl \<and> rl_size rl1 = ?size"
  proof (cases "rl_cnt rl = rl_size rl")
    case True
    then have sz: "rl_flags rl AND RD_LIST_F_FIXED_SIZE = 0" "rl_size rl < 2 ^ 29" using room by (auto simp: rl_room_def)
    have "s32 (rl_size rl * 2) = rl_size rl * 2" using cnt sz by (intro s32_id) auto
    then have n: "0 < ?n" "rl_size rl + ?n < 2 ^ 31" "rl_size rl + ?n = ?size" using cnt sz True by auto
    obtain es where "rd_list_grow rl ?n = Inr (rl\<lparr>rl_size := rl_size rl + ?n, rl_elems := Some (rl_slots rl @ es)\<rparr>)" "int (length es) = ?n"
      using grow_rep [OF rep sz(1) n(1,2)] by blast
    then show ?thesis using True grown_rep [OF rep _ n(2)] n by simp
  qed (use cnt rep in auto)
  then obtain rl1 where rl1: "(if rl_cnt rl = rl_size rl then rd_list_grow rl ?n else Inr rl) = Inr rl1" "rl_rep rl1 xs"
      "rl_cnt rl1 < rl_size rl1" "rl_flags rl1 = rl_flags rl" "rl_free_cb rl1 = rl_free_cb rl" "rl_size rl1 = ?size" by blast
  let ?rl2 = "rl1\<lparr>rl_flags := rl_flags rl1 AND NOT RD_LIST_F_SORTED\<rparr>"
  obtain rl3 where rl3: "slot_put ?rl2 (rl_cnt rl1) (Elem x) = Inr rl3" "slot_at rl3 (rl_cnt rl1) = Inr (Elem x)"
      "rl_rep (rl3\<lparr>rl_cnt := rl_cnt rl1 + 1\<rparr>) (xs @ [x])" "rl_cnt rl3 = rl_cnt rl1" "rl_size rl3 = rl_size rl1"
      "rl_flags rl3 = rl_flags rl1 AND NOT RD_LIST_F_SORTED" "rl_free_cb rl3 = rl_free_cb rl1"
    using put_next_rep [of ?rl2 xs x] rl1(2,3) by auto
  have "rd_list_add rl (Some x) = Inr (rl3\<lparr>rl_cnt := rl_cnt rl1 + 1\<rparr>, Elem x)"
    unfolding rd_list_add_def rl1(1) using rl3(1,2,4) by (simp add: Let_def slot_of_def)
  then show ?thesis using rl3 rl1(4-6) by simp
qed

lemma rd_list_add_fixed_full:
  "rl_cnt rl = rl_size rl \<Longrightarrow> rl_flags rl AND RD_LIST_F_FIXED_SIZE \<noteq> 0 \<Longrightarrow> rd_list_add rl elem = Inl Assert_Failed"
  by (simp add: rd_list_add_def rd_list_grow_def)

lemma rd_list_init_rep:
  assumes "n < 2 ^ 31"
  shows "\<exists>rl :: ('a, 'm) rd_list. rd_list_init n cb = Inr rl \<and> rl_rep rl [] \<and> rl_flags rl = 0 \<and> rl_free_cb rl = cb \<and> rl_size rl = max 0 n"
proof (cases "0 < n")
  case True
  let ?rl = "\<lparr>rl_size = 0, rl_cnt = 0, rl_elems = None, rl_free_cb = False, rl_flags = 0, rl_elemsize = 0, rl_p = []\<rparr> :: ('a, 'm) rd_list"
  have "rl_rep ?rl []" by (simp add: rl_rep_def rl_slots_def)
  from grow_rep [OF this _ True] obtain es
    where "rd_list_grow ?rl n = Inr (?rl\<lparr>rl_size := rl_size ?rl + n, rl_elems := Some (rl_slots ?rl @ es)\<rparr>)" "int (length es) = n"
    using assms by auto
  then show ?thesis using True assms by (simp add: rd_list_init_def Let_def rl_rep_def rl_slots_def)
qed (simp add: rd_list_init_def rl_rep_def rl_slots_def)

subsection \<open>Removal\<close>

lemma rd_list_remove_elem_rep:
  assumes "rl_rep rl xs" "i < length xs"
  shows "\<exists>rl'. rd_list_remove_elem rl (int i) = Inr rl' \<and> rl_rep rl' (take i xs @ drop (Suc i) xs) \<and>
    rl_flags rl' = rl_flags rl \<and> rl_free_cb rl' = rl_free_cb rl"
proof -
  obtain rest where rest: "rl_slots rl = map Elem xs @ rest" using assms(1) by (auto simp: rl_rep_def)
  have c: "rl_cnt rl = int (length xs)" "rl_size rl = int (length xs + length rest)" "rl_size rl < 2 ^ 31"
    using assms(1) rest by (auto simp: rl_rep_def)
  have es: "rl_elems rl = Some (map Elem xs @ rest)" using rest assms(2) by (auto simp: rl_slots_def split: option.splits)
  show ?thesis
  proof (cases "Suc i = length xs")
    case True
    have "xs = take i xs @ [xs ! i]" using True assms(2) by (metis take_Suc_conv_app_nth take_all le_refl)
    then have "map Elem xs @ rest = map Elem (take i xs) @ Elem (xs ! i) # rest" by (metis append.assoc append_Cons append_Nil list.simps(8,9) map_append)
    then show ?thesis using True c es by (auto simp: rd_list_remove_elem_def rl_rep_def rl_slots_def)
  next
    case False
    then have i: "Suc i < length xs" using assms(2) by simp
    have "nat (int (length xs) - (int i + 1)) = length xs - Suc i" by simp
    then show ?thesis using i c es
      by (auto simp: rd_list_remove_elem_def rl_rep_def rl_slots_def nat_add_distrib take_map drop_map)
  qed
qed

lemma take_drop_remove1:
  "take (length (takeWhile (\<lambda>x. x \<noteq> a) xs)) xs @ drop (Suc (length (takeWhile (\<lambda>x. x \<noteq> a) xs))) xs = remove1 a xs"
  by (induction xs) auto

lemma dropWhile_position: "dropWhile P xs = y # ys \<Longrightarrow> length (takeWhile P xs) < length xs"
  by (induction xs) auto

lemma dropWhile_neq: "a \<in> set xs \<Longrightarrow> \<exists>ys. dropWhile (\<lambda>x. x \<noteq> a) xs = a # ys"
  by (induction xs) auto

lemma rd_list_remove_rep:
  assumes "rl_rep rl xs"
  shows "\<exists>rl'. rd_list_remove rl a = Inr (rl', if a \<in> set xs then Some a else None) \<and> rl_rep rl' (remove1 a xs) \<and>
    rl_flags rl' = rl_flags rl"
proof (cases "a \<in> set xs")
  case True
  then obtain ys where ys: "dropWhile (\<lambda>x. x \<noteq> a) xs = a # ys" using dropWhile_neq by fast
  show ?thesis
    using rd_list_remove_elem_rep [OF assms dropWhile_position [OF ys]] True ys
    by (auto simp: rd_list_remove_def foreach_rep [OF assms] scan_position remove_found_def take_drop_remove1)
next
  case False
  then have "dropWhile (\<lambda>x. x \<noteq> a) xs = []" by auto
  then show ?thesis using assms False
    by (simp add: rd_list_remove_def foreach_rep [OF assms] scan_position remove_found_def remove1_idem del: dropWhile_eq_Nil_conv)
qed

lemma rd_list_remove_cmp_rep:
  assumes "rl_rep rl xs"
  shows "\<exists>rl'. rd_list_remove_cmp rl a cmp = Inr (rl', List.find (\<lambda>x. x = a \<or> cmp x a = 0) xs) \<and>
    rl_rep rl' (takeWhile (\<lambda>x. x \<noteq> a \<and> cmp x a \<noteq> 0) xs @ tl (dropWhile (\<lambda>x. x \<noteq> a \<and> cmp x a \<noteq> 0) xs))"
proof -
  let ?P = "\<lambda>x. x = a \<or> cmp x a = 0"
  show ?thesis
  proof (cases "dropWhile (\<lambda>x. \<not> ?P x) xs")
    case Nil
    then have "List.find ?P xs = None" "takeWhile (\<lambda>x. \<not> ?P x) xs = xs" by (auto simp: find_None_iff dropWhile_eq_Nil_conv takeWhile_eq_all_conv)
    then show ?thesis using assms Nil
      by (simp add: rd_list_remove_cmp_def foreach_rep [OF assms] scan_position remove_found_def del: dropWhile_eq_Nil_conv takeWhile_eq_all_conv)
  next
    case (Cons y ys)
    then have "List.find ?P xs = Some y" by (simp add: find_dropWhile comp_def)
    moreover have "take (length (takeWhile (\<lambda>x. \<not> ?P x) xs)) xs @ drop (Suc (length (takeWhile (\<lambda>x. \<not> ?P x) xs))) xs =
        takeWhile (\<lambda>x. \<not> ?P x) xs @ tl (dropWhile (\<lambda>x. \<not> ?P x) xs)"
      by (simp only: takeWhile_eq_take [symmetric] dropWhile_eq_drop drop_Suc tl_drop)
    ultimately show ?thesis
      using rd_list_remove_elem_rep [OF assms dropWhile_position [OF Cons]] Cons
      by (auto simp: rd_list_remove_cmp_def foreach_rep [OF assms] scan_position remove_found_def)
  qed
qed

lemma remove_multi_loop_rep:
  assumes "rl_rep rl (xs @ ys)"
  shows "\<exists>rl'. remove_multi_loop rl a cmp (int (length xs) - 1) n =
      Inr (rl', n + int (length (filter (\<lambda>x. cmp x a = 0) xs))) \<and>
    rl_rep rl' (filter (\<lambda>x. cmp x a \<noteq> 0) xs @ ys)"
  using assms
proof (induction xs arbitrary: rl ys n rule: rev_induct)
  case Nil
  then show ?case by (subst remove_multi_loop.simps) simp
next
  case (snoc x xs)
  have el: "rd_list_elem rl (int (length xs)) = Inr (Some x)"
    using rd_list_elem_rep [OF snoc.prems, of "length xs"] by (simp add: nth_append)
  show ?case
  proof (cases "cmp x a = 0")
    case True
    obtain rl1 where "rd_list_remove_elem rl (int (length xs)) = Inr rl1" "rl_rep rl1 (xs @ ys)"
      using rd_list_remove_elem_rep [OF snoc.prems, of "length xs"] by auto
    then show ?thesis using snoc.IH [of rl1 ys "n + 1"] True el
      by (subst remove_multi_loop.simps) (auto simp: algebra_simps)
  next
    case False
    then show ?thesis using snoc.IH [of rl "x # ys" n] snoc.prems el
      by (subst remove_multi_loop.simps) auto
  qed
qed

lemma rd_list_remove_multi_cmp_rep:
  assumes "rl_rep rl xs"
  shows "\<exists>rl'. rd_list_remove_multi_cmp rl a cmp = Inr (rl', int (length (filter (\<lambda>x. cmp x a = 0) xs))) \<and>
    rl_rep rl' (filter (\<lambda>x. cmp x a \<noteq> 0) xs)"
  using remove_multi_loop_rep [of rl xs "[]" a cmp 0] assms by (simp add: rd_list_remove_multi_cmp_def rl_rep_cnt)

subsection \<open>Sorting and lookup\<close>

lemma read_elems_map: "read_elems (map Elem xs) = Inr xs"
  by (induction xs) (auto simp: slot_pointer_def)

lemma rd_list_sort_rep:
  assumes "c_qsort qs" "rl_rep rl xs"
  shows "\<exists>rl'. rd_list_sort qs rl cmp = Inr rl' \<and> rl_rep rl' (qs cmp xs) \<and>
    rl_flags rl' = rl_flags rl OR RD_LIST_F_SORTED"
proof (cases "xs = []")
  case True
  then show ?thesis using assms c_qsort.qs_Nil [OF assms(1), of cmp]
    by (auto simp: rd_list_sort_def rl_rep_cnt [OF assms(2)])
next
  case False
  obtain rest where rest: "rl_slots rl = map Elem xs @ rest" using assms(2) by (auto simp: rl_rep_def)
  then have es: "rl_elems rl = Some (map Elem xs @ rest)" using False by (auto simp: rl_slots_def split: option.splits)
  have c: "rl_cnt rl = int (length xs)" "rl_size rl = int (length xs + length rest)" "rl_size rl < 2 ^ 31"
    using assms(2) rest by (auto simp: rl_rep_def)
  show ?thesis
    using False c es c_qsort.qs_length [OF assms(1), of cmp xs]
    by (auto simp: rd_list_sort_def read_elems_map rl_rep_def rl_slots_def)
qed

lemma rd_list_index_rep:
  assumes "rl_rep rl xs"
  shows "rd_list_index rl match cmp =
    Inr (if \<exists>x\<in>set xs. cmp match x = 0 then int (length (takeWhile (\<lambda>x. cmp match x \<noteq> 0) xs)) else -1)"
  by (simp add: rd_list_index_def foreach_rep [OF assms] scan_index)

lemma rd_list_find_rep:
  assumes "rl_rep rl xs" "rl_flags rl AND RD_LIST_F_SORTED = 0"
  shows "rd_list_find rl match cmp = Inr (List.find (\<lambda>x. cmp match x = 0) xs)"
  using assms(2) by (simp add: rd_list_find_def foreach_rep [OF assms(1)] scan_find)

lemma rd_list_find_sorted_rep:
  assumes "rl_rep rl xs" "rl_flags rl AND RD_LIST_F_SORTED \<noteq> 0" "in_order_for (cmp match) xs"
  shows "\<exists>r. rd_list_find rl match cmp = Inr r \<and>
    (case r of None \<Rightarrow> \<forall>x\<in>set xs. cmp match x \<noteq> 0 | Some x \<Rightarrow> x \<in> set xs \<and> cmp match x = 0)"
proof -
  obtain r where r: "bsearch (\<lambda>i. elem_at rl (int i)) (cmp match) (length xs) = Inr r"
      "case r of None \<Rightarrow> \<forall>x\<in>set xs. cmp match x \<noteq> 0 | Some i \<Rightarrow> i < length xs \<and> cmp match (xs ! i) = 0"
    using bsearch_finds [of xs "\<lambda>i. elem_at rl (int i)" "cmp match"] elem_at_rep [OF assms(1)] assms(3) by blast
  show ?thesis
  proof (cases r)
    case None
    then show ?thesis using r assms(1,2) by (simp add: rd_list_find_def rl_rep_cnt)
  next
    case (Some i)
    then show ?thesis using r assms(1,2) slot_at_rep [OF assms(1), of i]
      by (simp add: rd_list_find_def rl_rep_cnt slot_pointer_def)
  qed
qed

text \<open>After a sort, a lookup with the same comparator finds an element exactly when there is one.\<close>

lemma sorted_in_order:
  assumes "cmp_ok cmp UNIV" "\<And>x y. sgn (cmp y x) = - sgn (cmp x y)" "sorted_wrt (\<lambda>x y. cmp x y \<le> 0) xs"
  shows "in_order_for (cmp k) xs"
  unfolding in_order_for_def
proof (rule sorted_wrt_mono_rel [OF _ assms(3)])
  fix x y
  assume xy: "cmp x y \<le> 0"
  have neg: "cmp a b < 0 \<longleftrightarrow> \<not> cmp b a \<le> 0" for a b
    using assms(2) [of a b] by (auto simp: sgn_if split: if_splits)
  have tr: "cmp a c \<le> 0" if "cmp a b \<le> 0" "cmp b c \<le> 0" for a b c
    using cmp_ok_trans [OF assms(1)] that by blast
  show "(cmp k x < 0 \<longrightarrow> cmp k y < 0) \<and> (0 < cmp k y \<longrightarrow> 0 < cmp k x)"
    using tr [OF xy, of k] tr [of k x y] xy neg [of k x] neg [of k y] by (meson not_le)
qed

lemma rd_list_sort_find:
  assumes "c_qsort qs" "rl_rep rl xs" "cmp_ok cmp UNIV" "\<And>x y. sgn (cmp y x) = - sgn (cmp x y)"
  shows "\<exists>rl' r. rd_list_sort qs rl cmp = Inr rl' \<and> rd_list_find rl' k cmp = Inr r \<and>
    (case r of None \<Rightarrow> \<forall>x\<in>set xs. cmp k x \<noteq> 0 | Some x \<Rightarrow> x \<in> set xs \<and> cmp k x = 0)"
proof -
  obtain rl' where rl': "rd_list_sort qs rl cmp = Inr rl'" "rl_rep rl' (qs cmp xs)" "rl_flags rl' = rl_flags rl OR RD_LIST_F_SORTED"
    using rd_list_sort_rep [OF assms(1,2)] by blast
  have "RD_LIST_F_SORTED AND RD_LIST_F_SORTED \<noteq> 0" by (simp add: RD_LIST_F_SORTED_def)
  then have fl: "rl_flags rl' AND RD_LIST_F_SORTED \<noteq> 0" using rl'(3) flag_or_iff by metis
  have "in_order_for (cmp k) (qs cmp xs)"
    using c_qsort.qs_sorted [OF assms(1)] cmp_ok_mono [OF assms(3)] by (intro sorted_in_order [OF assms(3,4)]) auto
  from rd_list_find_sorted_rep [where cmp = cmp and match = k, OF rl'(2) fl this] show ?thesis
    using rl'(1) by (simp add: c_qsort.qs_set [OF assms(1)] cong: option.case_cong)
qed

subsection \<open>Destroying, applying, copying\<close>

lemma destroy_loop_rep:
  "rl_rep rl xs \<Longrightarrow> i \<le> length xs \<Longrightarrow> rl_destroy_loop rl (int i) = Inr (drop i xs)"
proof (induction "length xs - i" arbitrary: i)
  case 0
  then show ?case by (subst rl_destroy_loop.simps) (simp add: rl_rep_cnt)
next
  case (Suc n)
  then have i: "i < length xs" by simp
  have "rl_destroy_loop rl (int i + 1) = Inr (drop (Suc i) xs)"
    using Suc(1) [of "Suc i"] Suc.hyps(2) Suc.prems i by (simp add: add.commute)
  then show ?case using i Suc.prems
    by (subst rl_destroy_loop.simps) (simp add: rl_rep_cnt slot_at_rep slot_pointer_def Cons_nth_drop_Suc [symmetric])
qed

lemma rd_list_destroy_rep:
  assumes "rl_rep rl xs"
  shows "rd_list_destroy rl =
    Inr (if rl_free_cb rl then xs else [], rl_elems rl \<noteq> None, rl_flags rl AND RD_LIST_F_ALLOCATED \<noteq> 0)"
proof -
  have "rl_elems rl = None \<Longrightarrow> xs = []" using assms by (auto simp: rl_rep_def rl_slots_def)
  then show ?thesis using destroy_loop_rep [OF assms, of 0] by (auto simp: rd_list_destroy_def)
qed

text \<open>What the callback keeps of a sequence, and its final state.\<close>

fun kept :: "('a \<Rightarrow> 's \<Rightarrow> bool \<times> 's) \<Rightarrow> 's \<Rightarrow> 'a list \<Rightarrow> 'a list \<times> 's" where
  "kept cb st [] = ([], st)"
| "kept cb st (x # xs) =
     (let (ys, st') = kept cb (snd (cb x st)) xs in (if fst (cb x st) then x # ys else ys, st'))"

lemma apply_loop_rep:
  "rl_rep rl (xs @ ys) \<Longrightarrow>
   \<exists>rl'. apply_loop rl cb st (int (length xs)) = Inr (rl', snd (kept cb st ys)) \<and> rl_rep rl' (xs @ fst (kept cb st ys))"
proof (induction ys arbitrary: rl xs st)
  case Nil
  then show ?case using rd_list_elem_rep [OF Nil, of "length xs"] by (subst apply_loop.simps) simp
next
  case (Cons y ys)
  have el: "rd_list_elem rl (int (length xs)) = Inr (Some y)"
    using rd_list_elem_rep [OF Cons.prems, of "length xs"] by simp
  show ?case
  proof (cases "fst (cb y st)")
    case True
    then show ?thesis using Cons.IH [of rl "xs @ [y]" "snd (cb y st)"] Cons.prems el
      by (subst apply_loop.simps) (auto simp: split_beta add.commute)
  next
    case False
    obtain rl1 where "rd_list_remove_elem rl (int (length xs)) = Inr rl1" "rl_rep rl1 (xs @ ys)"
      using rd_list_remove_elem_rep [OF Cons.prems, of "length xs"] by auto
    then show ?thesis using Cons.IH [of rl1 xs "snd (cb y st)"] False el
      by (subst apply_loop.simps) (auto simp: split_beta)
  qed
qed

lemma rd_list_apply_rep:
  "rl_rep rl xs \<Longrightarrow>
   \<exists>rl'. rd_list_apply rl cb st = Inr (rl', snd (kept cb st xs)) \<and> rl_rep rl' (fst (kept cb st xs))"
  using apply_loop_rep [of rl "[]" xs cb st] by (simp add: rd_list_apply_def)

lemma rd_list_cmp_rep:
  assumes "rl_rep a xs" "rl_rep b ys" "\<And>x y. cmp (Some x) (Some y) = Inr (c x y)" "\<And>x y. c x y = 0 \<longleftrightarrow> x = y"
  shows "\<exists>r. rd_list_cmp a b cmp = Inr r \<and> (r = 0 \<longleftrightarrow> xs = ys)"
proof -
  have loop: "\<exists>r. cmp_loop a b cmp (int i) = Inr r \<and> (r = 0 \<longleftrightarrow> drop i xs = drop i ys)"
    if "length xs = length ys" "i \<le> length xs" for i
    using that
  proof (induction "length xs - i" arbitrary: i)
    case 0
    then show ?case using assms(1) by (subst cmp_loop.simps) (simp add: rl_rep_cnt)
  next
    case (Suc n)
    then have i: "i < length xs" "i < length ys" by simp_all
    obtain r where r: "cmp_loop a b cmp (int i + 1) = Inr r" "r = 0 \<longleftrightarrow> drop (Suc i) xs = drop (Suc i) ys"
      using Suc(1) [of "Suc i", OF _ Suc.prems(1)] Suc.hyps(2) i by (force simp: add.commute)
    then show ?case using i slot_at_rep [OF assms(1), of i] slot_at_rep [OF assms(2), of i] assms(1,3,4)
      by (subst cmp_loop.simps)
        (auto simp: rl_rep_cnt slot_pointer_def Cons_nth_drop_Suc [symmetric])
  qed
  have "s32 (int (length xs) - int (length ys)) = int (length xs) - int (length ys)"
    using assms(1,2) by (intro s32_id) (auto simp: rl_rep_def)
  then show ?thesis using loop [of 0] assms(1,2) by (auto simp: rd_list_cmp_def rl_rep_cnt Let_def)
qed

subsection \<open>Lists that stay open for appending\<close>

definition rl_open :: "('a, 'm) rd_list \<Rightarrow> bool" where
  "rl_open rl \<longleftrightarrow>
     rl_flags rl AND RD_LIST_F_FIXED_SIZE = 0 \<and> rl_flags rl AND RD_LIST_F_SORTED = 0 \<and> rl_size rl < 2 ^ 29"

lemma unsorted_flags: "(f AND NOT RD_LIST_F_SORTED) AND RD_LIST_F_SORTED = 0"
  by (rule bit_word_eqI) (auto simp: bit_and_iff bit_not_iff)

lemma kept_fixed_flag: "f AND RD_LIST_F_FIXED_SIZE = 0 \<Longrightarrow> (f AND NOT RD_LIST_F_SORTED) AND RD_LIST_F_FIXED_SIZE = 0"
proof -
  assume "f AND RD_LIST_F_FIXED_SIZE = 0"
  moreover have "(f AND NOT RD_LIST_F_SORTED) AND RD_LIST_F_FIXED_SIZE = (f AND RD_LIST_F_FIXED_SIZE) AND NOT RD_LIST_F_SORTED"
    by (rule bit_word_eqI) (auto simp: bit_and_iff)
  ultimately show ?thesis by simp
qed

lemma rd_list_add_open:
  assumes "rl_rep rl xs" "rl_open rl" "length xs < 2 ^ 27"
  shows "\<exists>rl'. rd_list_add rl (Some x) = Inr (rl', Elem x) \<and> rl_rep rl' (xs @ [x]) \<and> rl_open rl' \<and> rl_free_cb rl' = rl_free_cb rl"
proof -
  have "rl_room rl" using assms(2) by (simp add: rl_room_def rl_open_def)
  moreover have "rl_cnt rl = int (length xs)" "rl_cnt rl \<le> rl_size rl" using assms(1) by (auto simp: rl_rep_def)
  ultimately show ?thesis
    using rd_list_add_rep [OF assms(1), of x] assms(2,3) unsorted_flags kept_fixed_flag
    by (auto simp: rl_open_def split: if_splits)
qed

lemma rd_list_init_open:
  assumes "n < 2 ^ 29"
  shows "\<exists>rl :: ('a, 'm) rd_list. rd_list_init n cb = Inr rl \<and> rl_rep rl [] \<and> rl_open rl"
proof -
  obtain rl :: "('a, 'm) rd_list" where "rd_list_init n cb = Inr rl" "rl_rep rl []" "rl_flags rl = 0" "rl_size rl = max 0 n"
    using rd_list_init_rep [of n cb] assms by auto
  then show ?thesis using assms by (intro exI [of _ rl]) (simp add: rl_open_def)
qed

lemma rd_list_remove_elem_open: "rd_list_remove_elem rl i = Inr rl' \<Longrightarrow> rl_open rl' = rl_open rl"
  by (auto simp: rd_list_remove_elem_def rl_open_def bindR_eq_Inr split: if_splits)

lemma copy_loop_rep:
  assumes "rl_rep src xs" "rl_rep dst ys" "rl_open dst" "i \<le> length xs" "length ys + (length xs - i) \<le> 2 ^ 27"
  shows "\<exists>dst'. copy_loop dst src cb (int i) = Inr dst' \<and> rl_rep dst' (ys @ List.map_filter cb (drop i xs)) \<and>
    rl_open dst' \<and> rl_free_cb dst' = rl_free_cb dst"
  using assms(2-)
proof (induction "length xs - i" arbitrary: dst ys i)
  case 0
  then show ?case using rd_list_elem_rep [OF assms(1), of i]
    by (subst copy_loop.simps) (simp add: map_filter_simps)
next
  case (Suc n)
  then have i: "i < length xs" by simp
  have el: "rd_list_elem src (int i) = Inr (Some (xs ! i))" using rd_list_elem_rep [OF assms(1), of i] i by simp
  have n: "n = length xs - Suc i" using Suc.hyps(2) by simp
  have len: "length ys < 2 ^ 27" using Suc.prems(4) i by linarith
  show ?case
  proof (cases "cb (xs ! i)")
    case None
    then show ?thesis using Suc(1) [OF n Suc.prems(1,2)] Suc.prems i el
      by (subst copy_loop.simps) (simp add: add.commute Cons_nth_drop_Suc [symmetric] map_filter_simps)
  next
    case (Some y)
    obtain dst1 where dst1: "rd_list_add dst (Some y) = Inr (dst1, Elem y)" "rl_rep dst1 (ys @ [y])" "rl_open dst1" "rl_free_cb dst1 = rl_free_cb dst"
      using rd_list_add_open [OF Suc.prems(1,2) len, of y] by blast
    then show ?thesis using Suc(1) [OF n dst1(2,3)] Suc.prems i el Some
      by (subst copy_loop.simps) (simp add: add.commute Cons_nth_drop_Suc [symmetric] map_filter_simps)
  qed
qed

lemma rd_list_copy_rep:
  assumes "rl_rep src xs" "length xs \<le> 2 ^ 27"
  shows "\<exists>dst. rd_list_copy src cb = Inr dst \<and> rl_free_cb dst = rl_free_cb src \<and>
    rl_rep dst (case cb of None \<Rightarrow> xs | Some f \<Rightarrow> List.map_filter f xs)"
proof -
  obtain rl :: "('a, 'b) rd_list" where rl: "rd_list_init (rl_cnt src) (rl_free_cb src) = Inr rl" "rl_rep rl []" "rl_flags rl = 0"
      "rl_free_cb rl = rl_free_cb src" "rl_size rl = max 0 (rl_cnt src)"
    using rd_list_init_rep [of "rl_cnt src" "rl_free_cb src"] assms by (auto simp: rl_rep_cnt)
  let ?dst = "rl\<lparr>rl_flags := rl_flags rl OR RD_LIST_F_ALLOCATED\<rparr>"
  have fl: "(rl_flags rl OR RD_LIST_F_ALLOCATED) AND RD_LIST_F_FIXED_SIZE = 0" "(rl_flags rl OR RD_LIST_F_ALLOCATED) AND RD_LIST_F_SORTED = 0"
    using rl(3) by (simp_all add: RD_LIST_F_ALLOCATED_def RD_LIST_F_FIXED_SIZE_def RD_LIST_F_SORTED_def)
  have "rl_open ?dst" using fl rl(5) assms by (simp add: rl_open_def rl_rep_cnt)
  moreover have "rl_rep ?dst []" using rl(2) by simp
  moreover have "List.map_filter rd_list_nocopy_ptr xs = xs" by (induction xs) (auto simp: map_filter_simps rd_list_nocopy_ptr_def)
  ultimately show ?thesis
    using copy_loop_rep [OF assms(1), of ?dst "[]" 0 "case cb of None \<Rightarrow> rd_list_nocopy_ptr | Some f \<Rightarrow> f"] rl(1,4) assms(2)
    by (cases cb) (auto simp: rd_list_copy_def rd_list_copy_to_def rd_list_new_def)
qed

text \<open>
  The interface that callers who collect distinct things rely on: what they look for is found when an
  element matches, and what they append is there afterwards.
\<close>

locale pointer_list =
  fixes rep :: "'l \<Rightarrow> 'a list \<Rightarrow> bool"
    and is_open :: "'l \<Rightarrow> bool"
    and add :: "'l \<Rightarrow> 'a option \<Rightarrow> ('l \<times> 'a slot) res"
    and find :: "'l \<Rightarrow> 'k \<Rightarrow> ('k \<Rightarrow> 'a \<Rightarrow> int) \<Rightarrow> 'a option res"
    and bound :: nat
  assumes add_law: "rep l xs \<Longrightarrow> is_open l \<Longrightarrow> length xs < bound \<Longrightarrow>
      \<exists>l'. add l (Some x) = Inr (l', Elem x) \<and> rep l' (xs @ [x]) \<and> is_open l'"
    and find_law: "rep l xs \<Longrightarrow> is_open l \<Longrightarrow> find l k cmp = Inr (List.find (\<lambda>x. cmp k x = 0) xs)"
begin

lemma find_or_add:
  assumes "rep l xs" "is_open l" "length xs < bound"
  shows "\<exists>l'. bindR (find l k cmp) (\<lambda>r. if r = None then bindR (add l (Some x)) (\<lambda>(l, s). Inr (l, True)) else Inr (l, False)) =
      Inr (l', \<not> (\<exists>y\<in>set xs. cmp k y = 0)) \<and>
    rep l' (if \<exists>y\<in>set xs. cmp k y = 0 then xs else xs @ [x]) \<and> is_open l'"
proof (cases "\<exists>y\<in>set xs. cmp k y = 0")
  case True
  then have "List.find (\<lambda>x. cmp k x = 0) xs \<noteq> None" by (auto simp: find_None_iff)
  then show ?thesis using True assms find_law [OF assms(1,2)] by auto
next
  case False
  then have "List.find (\<lambda>x. cmp k x = 0) xs = None" by (auto simp: find_None_iff)
  then show ?thesis using False add_law [OF assms, of x] find_law [OF assms(1,2)] by auto
qed

end

interpretation rdl: pointer_list rl_rep rl_open rd_list_add rd_list_find "2 ^ 27"
  using rd_list_add_open by unfold_locales (fastforce, simp add: rl_open_def rd_list_find_rep)

subsection \<open>Preallocated integers\<close>

text \<open>The list holds the integers \<open>vs\<close>, each in its own cell.\<close>

definition i32_rep :: "int32_list \<Rightarrow> int list \<Rightarrow> bool" where
  "i32_rep rl vs \<longleftrightarrow>
     rl_flags rl AND RD_LIST_F_FIXED_SIZE \<noteq> 0 \<and> rl_elemsize rl = 4 \<and>
     rl_elems rl = Some (map Elem [0..<length (rl_p rl)]) \<and> rl_size rl = int (length (rl_p rl)) \<and> rl_size rl < 2 ^ 31 \<and>
     rl_cnt rl = int (length vs) \<and> length vs \<le> length (rl_p rl) \<and> take (length vs) (rl_p rl) = map Some vs"

lemma fixed_flag: "(f OR RD_LIST_F_FIXED_SIZE) AND RD_LIST_F_FIXED_SIZE \<noteq> 0"
  by (simp add: flag_or_iff RD_LIST_F_FIXED_SIZE_def)

lemma rd_list_init_int32_rep:
  "n < 2 ^ 31 \<Longrightarrow> \<exists>rl'. rd_list_init_int32 rl n = Inr rl' \<and> i32_rep rl' [] \<and> rl_size rl' = int n"
  using fixed_flag by (auto simp: rd_list_init_int32_def rd_list_init_def rd_list_prealloc_elems_def i32_rep_def s32_id)

lemma i32_elem_at: "i32_rep rl vs \<Longrightarrow> i < length (rl_p rl) \<Longrightarrow> elem_at rl (int i) = Inr i"
  by (auto simp: i32_rep_def elem_at_def slot_at_def slot_pointer_def)

lemma i32_value: "i32_rep rl vs \<Longrightarrow> i < length vs \<Longrightarrow> rl_p rl ! i = Some (vs ! i)"
  by (metis i32_rep_def length_map nth_map nth_take)

lemma rd_list_get_int32_rep:
  assumes "i32_rep rl vs" "i < length vs"
  shows "rd_list_get_int32 rl (int i) = Inr (vs ! i)"
proof -
  have "i < length (rl_p rl)" using assms by (simp add: i32_rep_def)
  then show ?thesis using assms i32_elem_at [OF assms(1)] i32_value [OF assms]
    by (simp add: rd_list_get_int32_def i32_rep_def)
qed

lemma rd_list_set_int32_rep:
  assumes "i32_rep rl vs" "i \<le> length vs" "int i < rl_size rl"
  shows "\<exists>rl'. rd_list_set_int32 rl (int i) v = Inr rl' \<and>
    i32_rep rl' (if i < length vs then vs[i := v] else vs @ [v]) \<and> rl_size rl' = rl_size rl"
proof -
  have i: "i < length (rl_p rl)" using assms by (simp add: i32_rep_def)
  have "take (Suc i) ((rl_p rl)[i := Some v]) = map Some (vs @ [v])" if "length vs = i"
    using assms(1) i that by (simp add: take_Suc_conv_app_nth i32_rep_def)
  then show ?thesis
    using assms i i32_elem_at [OF assms(1) i]
    by (auto simp: rd_list_set_int32_def i32_rep_def take_update_swap map_update)
qed

text \<open>Writing the values in order, as the callers do.\<close>

fun set_all :: "int32_list \<Rightarrow> nat \<Rightarrow> int list \<Rightarrow> int32_list res" where
  "set_all rl i [] = Inr rl"
| "set_all rl i (v # vs) = bindR (rd_list_set_int32 rl (int i) v) (\<lambda>rl. set_all rl (Suc i) vs)"

lemma set_all_rep:
  "i32_rep rl us \<Longrightarrow> int (length us + length vs) \<le> rl_size rl \<Longrightarrow>
   \<exists>rl'. set_all rl (length us) vs = Inr rl' \<and> i32_rep rl' (us @ vs)"
proof (induction vs arbitrary: rl us)
  case (Cons v vs)
  obtain rl1 where rl1: "rd_list_set_int32 rl (int (length us)) v = Inr rl1" "i32_rep rl1 (us @ [v])" "rl_size rl1 = rl_size rl"
    using rd_list_set_int32_rep [OF Cons.prems(1), of "length us" v] Cons.prems(2) by auto
  then show ?case using Cons.IH [OF rl1(2)] Cons.prems(2) by simp
qed simp

lemma int32_list_round_trip:
  assumes "length vs < 2 ^ 31" "i < length vs"
  shows "bindR (rd_list_init_int32 rl (length vs)) (\<lambda>rl. bindR (set_all rl 0 vs) (\<lambda>rl. rd_list_get_int32 rl (int i))) = Inr (vs ! i)"
proof -
  obtain rl1 where rl1: "rd_list_init_int32 rl (length vs) = Inr rl1" "i32_rep rl1 []" "rl_size rl1 = int (length vs)"
    using rd_list_init_int32_rep [of "length vs" rl] assms(1) by auto
  obtain rl2 where rl2: "set_all rl1 0 vs = Inr rl2" "i32_rep rl2 vs"
    using set_all_rep [OF rl1(2), of vs] rl1(3) by auto
  then show ?thesis using rl1(1) rl2 rd_list_get_int32_rep [OF rl2(2) assms(2)] by simp
qed

lemma rd_list_copy_preallocated_rep:
  assumes "i32_rep rl vs"
  shows "\<exists>rl'. rd_list_copy_preallocated 0 rl = Inr rl' \<and> i32_rep rl' vs"
  using assms fixed_flag
  by (auto simp: rd_list_copy_preallocated_def rd_list_copy_preallocated0_def rd_list_new_def rd_list_init_def
      rd_list_init_copy_def rd_list_prealloc_elems_def i32_rep_def flag_or_iff s32_id Let_def)

text \<open>
  Removing an element of a preallocated list leaves its last pointer behind, and the next appending
  without an element hands out that pointer again: two elements share one cell.
\<close>

lemma prealloc_remove_then_add_aliases:
  assumes "i32_rep rl vs" "Suc i < length vs"
  shows "\<exists>rl1 rl2. rd_list_remove_elem rl (int i) = Inr rl1 \<and> rd_list_add rl1 None = Inr (rl2, Elem (length vs - 1)) \<and>
    slot_at rl2 (int (length vs) - 2) = Inr (Elem (length vs - 1)) \<and> slot_at rl2 (int (length vs) - 1) = Inr (Elem (length vs - 1))"
proof -
  let ?n = "length (rl_p rl)" and ?k = "length vs"
  have kn: "?k \<le> ?n" using assms(1) by (simp add: i32_rep_def)
  have d: "nat (int ?k - (int i + 1)) = ?k - Suc i" by simp
  let ?es = "map Elem [0..<i] @ map Elem [Suc i..<?k] @ map Elem [?k - 1..<?n]"
  have "Suc i + (?k - Suc i) = ?k" using assms(2) by simp
  then have tk: "take i [0..<?n] = [0..<i]" "take (?k - Suc i) [Suc i..<?n] = [Suc i..<?k]"
    using take_upt [of "Suc i" "?k - Suc i" ?n] take_upt [of 0 i ?n] kn assms(2) by simp_all
  have rm: "rd_list_remove_elem rl (int i) = Inr (rl\<lparr>rl_elems := Some ?es, rl_cnt := int ?k - 1\<rparr>)"
    using assms kn d tk by (simp add: rd_list_remove_elem_def i32_rep_def take_map drop_map nat_add_distrib)
  have nth: "?es ! (?k - 2) = Elem (?k - 1)" "?es ! (?k - 1) = Elem (?k - 1)" "length ?es = ?n"
    using assms(2) kn by (auto simp: nth_append)
  have "nat (int ?k - 1) = ?k - 1" "nat (int ?k - 2) = ?k - 2" "int ?k - 1 < int ?n" "int ?k - 1 \<noteq> rl_size rl"
    using kn assms by (auto simp: i32_rep_def)
  moreover have "vs \<noteq> []" using assms(2) by auto
  ultimately show ?thesis using rm nth assms(2) by (simp add: rd_list_add_def slot_at_def Let_def)
qed

text \<open>
  \<open>rd_list_set\<close> keeps the flag of a sorted list, so a later lookup searches an array out of order by
  bisection and can miss an element that is there.
\<close>

lemma set_after_sort_hides_element:
  "bindR (rd_list_init 0 False :: (nat, unit) rd_list res) (\<lambda>rl.
   bindR (rd_list_add rl (Some 20)) (\<lambda>(rl, _).
   bindR (rd_list_add rl (Some 30)) (\<lambda>(rl, _).
   bindR (rd_list_sort qsort rl rd_list_cmp_ptr) (\<lambda>rl.
   bindR (rd_list_set rl 2 (Some 10)) (\<lambda>rl.
   bindR (rd_list_find rl 10 rd_list_cmp_ptr) (\<lambda>found.
   bindR (rd_list_index rl 10 rd_list_cmp_ptr) (\<lambda>index.
   Inr (found, index)))))))) = Inr (None, 2)"
  by code_simp

end
