(* ===== verification/Topic_Partitions.thy ===== *)
theory Topic_Partitions
  imports Rdlist
begin

unbundle bit_operations_syntax

text \<open>
  Lists of topic partitions, the second half of \<open>rdkafka_partition.c\<close>: growth, appending, lookup,
  deletion, copying with the reference counts of the partitions they point to, sorting, and the
  operations on offsets and errors. The regular expression library is a parameter.
\<close>

section \<open>State\<close>

definition RD_KAFKA_RESP_ERR_NO_ERROR :: int where "RD_KAFKA_RESP_ERR_NO_ERROR = 0"
definition RD_KAFKA_RESP_ERR__UNKNOWN_PARTITION :: int where "RD_KAFKA_RESP_ERR__UNKNOWN_PARTITION = - 190"
definition RD_KAFKA_OFFSET_INVALID :: int where "RD_KAFKA_OFFSET_INVALID = - 1001"

definition RD_KAFKA_OFFSET_IS_LOGICAL :: "int \<Rightarrow> bool" where
  "RD_KAFKA_OFFSET_IS_LOGICAL off \<longleftrightarrow> off < 0"

text \<open>
  One element. \<open>par_metadata\<close> is the memory of \<open>metadata_size\<close> bytes, \<open>par_private\<close> the partition object
  (a number) that the element holds a reference on.
\<close>

record rd_kafka_topic_partition =
  par_topic :: string
  par_partition :: int
  par_offset :: int
  par_metadata :: "byte list"
  par_opaque :: nat
  par_err :: int
  par_private :: "nat option"

text \<open>The elements in use, \<open>cnt\<close> of them, and the allocated size.\<close>

record rd_kafka_topic_partition_list =
  elems :: "rd_kafka_topic_partition list"
  list_size :: int

abbreviation list_cnt :: "rd_kafka_topic_partition_list \<Rightarrow> int" where
  "list_cnt l \<equiv> int (length (elems l))"

text \<open>The partition objects: reference count and the offsets that the lists read.\<close>

record toppar_obj =
  tp_refcnt :: int
  tp_stored_offset :: int
  tp_committed_offset :: int

type_synonym toppars = "nat \<rightharpoonup> toppar_obj"

definition rd_kafka_toppar_keep :: "toppars \<Rightarrow> nat \<Rightarrow> toppars res" where
  "rd_kafka_toppar_keep tps p =
     bindR (derefR Use_After_Free (tps p)) (\<lambda>tp. Inr (tps(p \<mapsto> tp\<lparr>tp_refcnt := tp_refcnt tp + 1\<rparr>)))"

text \<open>The last reference destroys the object.\<close>

definition rd_kafka_toppar_destroy :: "toppars \<Rightarrow> nat \<Rightarrow> toppars res" where
  "rd_kafka_toppar_destroy tps p =
     bindR (derefR Use_After_Free (tps p)) (\<lambda>tp.
     bindR (check Assert_Failed (0 \<le> tp_refcnt tp - 1)) (\<lambda>_.
     Inr (if tp_refcnt tp - 1 = 0 then tps(p := None) else tps(p \<mapsto> tp\<lparr>tp_refcnt := tp_refcnt tp - 1\<rparr>))))"

section \<open>Creation, growth and destruction\<close>

definition rd_kafka_topic_partition_list_grow :: "rd_kafka_topic_partition_list \<Rightarrow> int \<Rightarrow> rd_kafka_topic_partition_list" where
  "rd_kafka_topic_partition_list_grow l add_size =
     (let add_size = (if add_size < list_size l then max (list_size l) 32 else add_size)
      in l\<lparr>list_size := s32 (list_size l + add_size)\<rparr>)"

definition rd_kafka_topic_partition_list_new :: "int \<Rightarrow> rd_kafka_topic_partition_list" where
  "rd_kafka_topic_partition_list_new sz =
     (let l = \<lparr>elems = [], list_size = sz\<rparr>
      in if sz > 0 then rd_kafka_topic_partition_list_grow l sz else l)"

definition rd_kafka_topic_partition_new :: "string \<Rightarrow> int \<Rightarrow> rd_kafka_topic_partition" where
  "rd_kafka_topic_partition_new topic part =
     \<lparr>par_topic = topic, par_partition = part, par_offset = 0, par_metadata = [], par_opaque = 0, par_err = 0, par_private = None\<rparr>"

definition rd_kafka_topic_partition_destroy0 :: "toppars \<Rightarrow> rd_kafka_topic_partition \<Rightarrow> toppars res" where
  "rd_kafka_topic_partition_destroy0 tps par =
     (case par_private par of None \<Rightarrow> Inr tps | Some p \<Rightarrow> rd_kafka_toppar_destroy tps p)"

fun destroy_elems :: "toppars \<Rightarrow> rd_kafka_topic_partition list \<Rightarrow> toppars res" where
  "destroy_elems tps [] = Inr tps"
| "destroy_elems tps (par # pars) =
     bindR (rd_kafka_topic_partition_destroy0 tps par) (\<lambda>tps. destroy_elems tps pars)"

definition rd_kafka_topic_partition_list_destroy :: "toppars \<Rightarrow> rd_kafka_topic_partition_list \<Rightarrow> toppars res" where
  "rd_kafka_topic_partition_list_destroy tps l = destroy_elems tps (elems l)"

section \<open>Adding\<close>

text \<open>The added element is the last one.\<close>

definition rd_kafka_topic_partition_list_add0 ::
    "rd_kafka_topic_partition_list \<Rightarrow> string \<Rightarrow> int \<Rightarrow> nat option \<Rightarrow> rd_kafka_topic_partition_list res" where
  "rd_kafka_topic_partition_list_add0 l topic part private =
     (let l = (if list_cnt l = list_size l then rd_kafka_topic_partition_list_grow l 1 else l)
      in bindR (check Assert_Failed (list_cnt l < list_size l)) (\<lambda>_.
         Inr (l\<lparr>elems := elems l @
           [(rd_kafka_topic_partition_new topic part)\<lparr>par_offset := RD_KAFKA_OFFSET_INVALID, par_private := private\<rparr>]\<rparr>)))"

definition rd_kafka_topic_partition_list_add ::
    "rd_kafka_topic_partition_list \<Rightarrow> string \<Rightarrow> int \<Rightarrow> rd_kafka_topic_partition_list res" where
  "rd_kafka_topic_partition_list_add l topic part = rd_kafka_topic_partition_list_add0 l topic part None"

text \<open>With \<open>stop\<close> the largest 32-bit integer the counter overflows and the loop has no end.\<close>

function rd_kafka_topic_partition_list_add_range ::
    "rd_kafka_topic_partition_list \<Rightarrow> string \<Rightarrow> int \<Rightarrow> int \<Rightarrow> rd_kafka_topic_partition_list res" where
  "rd_kafka_topic_partition_list_add_range l topic start stop =
     (if start \<le> stop then
        bindR (rd_kafka_topic_partition_list_add l topic start) (\<lambda>l.
        bindR (check Int_Overflow (start < 2147483647)) (\<lambda>_.
        rd_kafka_topic_partition_list_add_range l topic (start + 1) stop))
      else Inr l)"
  by pat_completeness auto
termination by (relation "measure (\<lambda>(l, t, start, stop). nat (stop + 1 - start))") auto

declare rd_kafka_topic_partition_list_add_range.simps [simp del]

section \<open>Lookup and deletion\<close>

definition rd_kafka_topic_partition_cmp :: "rd_kafka_topic_partition \<Rightarrow> rd_kafka_topic_partition \<Rightarrow> int" where
  "rd_kafka_topic_partition_cmp a b =
     (let r = strcmp (par_topic a) (par_topic b)
      in if r \<noteq> 0 then r else s32 (par_partition a - par_partition b))"

fun find0_loop :: "rd_kafka_topic_partition \<Rightarrow> int \<Rightarrow> rd_kafka_topic_partition list \<Rightarrow> int" where
  "find0_loop skel i [] = -1"
| "find0_loop skel i (par # pars) =
     (if rd_kafka_topic_partition_cmp skel par = 0 then i else find0_loop skel (i + 1) pars)"

definition rd_kafka_topic_partition_list_find0 :: "rd_kafka_topic_partition_list \<Rightarrow> string \<Rightarrow> int \<Rightarrow> int" where
  "rd_kafka_topic_partition_list_find0 l topic part =
     find0_loop (rd_kafka_topic_partition_new topic part) 0 (elems l)"

text \<open>A pointer into the element array is its index.\<close>

definition rd_kafka_topic_partition_list_find :: "rd_kafka_topic_partition_list \<Rightarrow> string \<Rightarrow> int \<Rightarrow> nat option" where
  "rd_kafka_topic_partition_list_find l topic part =
     (let i = rd_kafka_topic_partition_list_find0 l topic part in if i = -1 then None else Some (nat i))"

definition rd_kafka_topic_partition_list_upsert ::
    "rd_kafka_topic_partition_list \<Rightarrow> string \<Rightarrow> int \<Rightarrow> (rd_kafka_topic_partition_list \<times> nat) res" where
  "rd_kafka_topic_partition_list_upsert l topic part =
     (case rd_kafka_topic_partition_list_find l topic part of
        Some i \<Rightarrow> Inr (l, i)
      | None \<Rightarrow> bindR (rd_kafka_topic_partition_list_add l topic part) (\<lambda>l'. Inr (l', length (elems l))))"

definition rd_kafka_topic_partition_list_del_by_idx ::
    "toppars \<Rightarrow> rd_kafka_topic_partition_list \<Rightarrow> int \<Rightarrow> (toppars \<times> rd_kafka_topic_partition_list \<times> bool) res" where
  "rd_kafka_topic_partition_list_del_by_idx tps l idx =
     (if idx < 0 \<or> idx \<ge> list_cnt l then Inr (tps, l, False)
      else
        bindR (rd_kafka_topic_partition_destroy0 tps (elems l ! nat idx)) (\<lambda>tps.
        Inr (tps, l\<lparr>elems := take (nat idx) (elems l) @ drop (nat idx + 1) (elems l)\<rparr>, True)))"

definition rd_kafka_topic_partition_list_del ::
    "toppars \<Rightarrow> rd_kafka_topic_partition_list \<Rightarrow> string \<Rightarrow> int \<Rightarrow> (toppars \<times> rd_kafka_topic_partition_list \<times> bool) res" where
  "rd_kafka_topic_partition_list_del tps l topic part =
     (let i = rd_kafka_topic_partition_list_find0 l topic part
      in if i = -1 then Inr (tps, l, False) else rd_kafka_topic_partition_list_del_by_idx tps l i)"

text \<open>
  The regular expression library: the outcome of matching a pattern against a topic, \<open>None\<close> for an
  invalid pattern. The result says whether the topic matches, and how if it does.
\<close>

type_synonym regex = "string \<Rightarrow> string \<Rightarrow> bool option"

datatype topic_match = No_Match | By_Regex | By_Name

definition is_regex_topic :: "string \<Rightarrow> bool" where
  "is_regex_topic topic \<longleftrightarrow> topic \<noteq> [] \<and> hd topic = CHR ''^''"

definition rd_kafka_topic_partition_match :: "regex \<Rightarrow> rd_kafka_topic_partition \<Rightarrow> string \<Rightarrow> topic_match" where
  "rd_kafka_topic_partition_match rx par topic =
     (if is_regex_topic (par_topic par) then
        (case rx (par_topic par) topic of None \<Rightarrow> No_Match | Some ret \<Rightarrow> if ret then By_Regex else No_Match)
      else if strcmp (par_topic par) topic = 0 then By_Name else No_Match)"

section \<open>Copying\<close>

definition rd_kafka_topic_partition_copy ::
    "toppars \<Rightarrow> rd_kafka_topic_partition_list \<Rightarrow> rd_kafka_topic_partition \<Rightarrow> (toppars \<times> rd_kafka_topic_partition_list) res" where
  "rd_kafka_topic_partition_copy tps l par =
     bindR (case par_private par of None \<Rightarrow> Inr tps | Some p \<Rightarrow> rd_kafka_toppar_keep tps p) (\<lambda>tps.
     bindR (rd_kafka_topic_partition_list_add0 l (par_topic par) (par_partition par) (par_private par)) (\<lambda>l.
     Inr (tps, l\<lparr>elems := butlast (elems l) @
       [(last (elems l))\<lparr>par_offset := par_offset par, par_opaque := par_opaque par, par_err := par_err par,
          par_metadata := par_metadata par\<rparr>]\<rparr>)))"

fun copy_elems ::
    "toppars \<Rightarrow> rd_kafka_topic_partition_list \<Rightarrow> rd_kafka_topic_partition list \<Rightarrow> (toppars \<times> rd_kafka_topic_partition_list) res" where
  "copy_elems tps l [] = Inr (tps, l)"
| "copy_elems tps l (par # pars) =
     bindR (rd_kafka_topic_partition_copy tps l par) (\<lambda>(tps, l). copy_elems tps l pars)"

definition rd_kafka_topic_partition_list_copy ::
    "toppars \<Rightarrow> rd_kafka_topic_partition_list \<Rightarrow> (toppars \<times> rd_kafka_topic_partition_list) res" where
  "rd_kafka_topic_partition_list_copy tps src =
     copy_elems tps (rd_kafka_topic_partition_list_new (list_size src)) (elems src)"

fun match_elems ::
    "(rd_kafka_topic_partition \<Rightarrow> bool) \<Rightarrow> toppars \<Rightarrow> rd_kafka_topic_partition_list \<Rightarrow> rd_kafka_topic_partition list \<Rightarrow>
     (toppars \<times> rd_kafka_topic_partition_list) res" where
  "match_elems match tps l [] = Inr (tps, l)"
| "match_elems match tps l (par # pars) =
     (if \<not> match par then match_elems match tps l pars
      else bindR (rd_kafka_topic_partition_copy tps l par) (\<lambda>(tps, l). match_elems match tps l pars))"

definition rd_kafka_topic_partition_list_match ::
    "toppars \<Rightarrow> rd_kafka_topic_partition_list \<Rightarrow> (rd_kafka_topic_partition \<Rightarrow> bool) \<Rightarrow> (toppars \<times> rd_kafka_topic_partition_list) res" where
  "rd_kafka_topic_partition_list_match tps l match =
     match_elems match tps (rd_kafka_topic_partition_list_new 0) (elems l)"

section \<open>Sorting\<close>

definition rd_kafka_topic_partition_list_sort ::
    "((rd_kafka_topic_partition \<Rightarrow> rd_kafka_topic_partition \<Rightarrow> int) \<Rightarrow> rd_kafka_topic_partition list \<Rightarrow> rd_kafka_topic_partition list) \<Rightarrow>
     rd_kafka_topic_partition_list \<Rightarrow> (rd_kafka_topic_partition \<Rightarrow> rd_kafka_topic_partition \<Rightarrow> int) option \<Rightarrow> rd_kafka_topic_partition_list" where
  "rd_kafka_topic_partition_list_sort qs l cmp =
     l\<lparr>elems := qs (case cmp of None \<Rightarrow> rd_kafka_topic_partition_cmp | Some c \<Rightarrow> c) (elems l)\<rparr>"

definition rd_kafka_topic_partition_list_sort_by_topic ::
    "((rd_kafka_topic_partition \<Rightarrow> rd_kafka_topic_partition \<Rightarrow> int) \<Rightarrow> rd_kafka_topic_partition list \<Rightarrow> rd_kafka_topic_partition list) \<Rightarrow>
     rd_kafka_topic_partition_list \<Rightarrow> rd_kafka_topic_partition_list" where
  "rd_kafka_topic_partition_list_sort_by_topic qs l =
     rd_kafka_topic_partition_list_sort qs l (Some rd_kafka_topic_partition_cmp)"

section \<open>Offsets and errors\<close>

definition rd_kafka_topic_partition_list_set_offset ::
    "rd_kafka_topic_partition_list \<Rightarrow> string \<Rightarrow> int \<Rightarrow> int \<Rightarrow> rd_kafka_topic_partition_list \<times> int" where
  "rd_kafka_topic_partition_list_set_offset l topic part offset =
     (case rd_kafka_topic_partition_list_find l topic part of
        None \<Rightarrow> (l, RD_KAFKA_RESP_ERR__UNKNOWN_PARTITION)
      | Some i \<Rightarrow> (l\<lparr>elems := (elems l)[i := (elems l ! i)\<lparr>par_offset := offset\<rparr>]\<rparr>, RD_KAFKA_RESP_ERR_NO_ERROR))"

definition rd_kafka_topic_partition_list_reset_offsets ::
    "rd_kafka_topic_partition_list \<Rightarrow> int \<Rightarrow> rd_kafka_topic_partition_list" where
  "rd_kafka_topic_partition_list_reset_offsets l offset = l\<lparr>elems := map (\<lambda>par. par\<lparr>par_offset := offset\<rparr>) (elems l)\<rparr>"

text \<open>The element with the offset to use, read from the partition object or defaulted.\<close>

definition offset_to_set :: "toppars \<Rightarrow> bool \<Rightarrow> int \<Rightarrow> rd_kafka_topic_partition \<Rightarrow> rd_kafka_topic_partition res" where
  "offset_to_set tps from_rktp def_value par =
     (if from_rktp then
        bindR (derefR Null_Deref (par_private par)) (\<lambda>p.
        bindR (derefR Use_After_Free (tps p)) (\<lambda>tp.
        Inr (if tp_stored_offset tp > tp_committed_offset tp then par\<lparr>par_offset := tp_stored_offset tp\<rparr>
             else par\<lparr>par_offset := RD_KAFKA_OFFSET_INVALID\<rparr>)))
      else if RD_KAFKA_OFFSET_IS_LOGICAL (par_offset par) then Inr (par\<lparr>par_offset := def_value\<rparr>)
      else Inr par)"

fun set_offsets_loop ::
    "toppars \<Rightarrow> bool \<Rightarrow> int \<Rightarrow> rd_kafka_topic_partition list \<Rightarrow> int \<Rightarrow> (rd_kafka_topic_partition list \<times> int) res" where
  "set_offsets_loop tps from_rktp def_value [] valid_cnt = Inr ([], valid_cnt)"
| "set_offsets_loop tps from_rktp def_value (par # pars) valid_cnt =
     bindR (offset_to_set tps from_rktp def_value par) (\<lambda>par.
     bindR (set_offsets_loop tps from_rktp def_value pars
              (if \<not> RD_KAFKA_OFFSET_IS_LOGICAL (par_offset par) then valid_cnt + 1 else valid_cnt)) (\<lambda>(pars, cnt).
     Inr (par # pars, cnt)))"

definition rd_kafka_topic_partition_list_set_offsets ::
    "toppars \<Rightarrow> rd_kafka_topic_partition_list \<Rightarrow> bool \<Rightarrow> int \<Rightarrow> (rd_kafka_topic_partition_list \<times> int) res" where
  "rd_kafka_topic_partition_list_set_offsets tps l from_rktp def_value =
     bindR (set_offsets_loop tps from_rktp def_value (elems l) 0) (\<lambda>(pars, valid_cnt). Inr (l\<lparr>elems := pars\<rparr>, valid_cnt))"

fun count_abs :: "rd_kafka_topic_partition list \<Rightarrow> int \<Rightarrow> int" where
  "count_abs [] valid_cnt = valid_cnt"
| "count_abs (par # pars) valid_cnt =
     count_abs pars (if \<not> RD_KAFKA_OFFSET_IS_LOGICAL (par_offset par) then valid_cnt + 1 else valid_cnt)"

definition rd_kafka_topic_partition_list_count_abs_offsets :: "rd_kafka_topic_partition_list \<Rightarrow> int" where
  "rd_kafka_topic_partition_list_count_abs_offsets l = count_abs (elems l) 0"

definition update_elem :: "rd_kafka_topic_partition_list \<Rightarrow> rd_kafka_topic_partition \<Rightarrow> rd_kafka_topic_partition" where
  "update_elem src d =
     (case rd_kafka_topic_partition_list_find src (par_topic d) (par_partition d) of
        None \<Rightarrow> d
      | Some i \<Rightarrow> d\<lparr>par_offset := par_offset (elems src ! i), par_err := par_err (elems src ! i)\<rparr>)"

definition rd_kafka_topic_partition_list_update ::
    "rd_kafka_topic_partition_list \<Rightarrow> rd_kafka_topic_partition_list \<Rightarrow> rd_kafka_topic_partition_list" where
  "rd_kafka_topic_partition_list_update dst src = dst\<lparr>elems := map (update_elem src) (elems dst)\<rparr>"

fun sum_loop :: "(rd_kafka_topic_partition \<Rightarrow> 64 word) \<Rightarrow> rd_kafka_topic_partition list \<Rightarrow> 64 word \<Rightarrow> 64 word" where
  "sum_loop cb [] acc = acc"
| "sum_loop cb (par # pars) acc = sum_loop cb pars (acc + cb par)"

definition rd_kafka_topic_partition_list_sum :: "rd_kafka_topic_partition_list \<Rightarrow> (rd_kafka_topic_partition \<Rightarrow> 64 word) \<Rightarrow> 64 word" where
  "rd_kafka_topic_partition_list_sum l cb = sum_loop cb (elems l) 0"

definition rd_kafka_topic_partition_list_set_err :: "rd_kafka_topic_partition_list \<Rightarrow> int \<Rightarrow> rd_kafka_topic_partition_list" where
  "rd_kafka_topic_partition_list_set_err l err = l\<lparr>elems := map (\<lambda>par. par\<lparr>par_err := err\<rparr>) (elems l)\<rparr>"

fun regex_cnt :: "rd_kafka_topic_partition list \<Rightarrow> int \<Rightarrow> int" where
  "regex_cnt [] cnt = cnt"
| "regex_cnt (par # pars) cnt = regex_cnt pars (cnt + (if is_regex_topic (par_topic par) then 1 else 0))"

definition rd_kafka_topic_partition_list_regex_cnt :: "rd_kafka_topic_partition_list \<Rightarrow> int" where
  "rd_kafka_topic_partition_list_regex_cnt l = regex_cnt (elems l) 0"

fun topic_names_loop ::
    "rd_kafka_topic_partition list \<Rightarrow> (string, unit) rd_list \<Rightarrow> bool \<Rightarrow> int \<Rightarrow> ((string, unit) rd_list \<times> int) res" where
  "topic_names_loop [] topics include_regex cnt = Inr (topics, cnt)"
| "topic_names_loop (par # pars) topics include_regex cnt =
     (if \<not> include_regex \<and> is_regex_topic (par_topic par) then topic_names_loop pars topics include_regex cnt
      else
        bindR (bindR (rd_list_find topics (par_topic par) strcmp) (\<lambda>r.
               if r = None then bindR (rd_list_add topics (Some (par_topic par))) (\<lambda>(topics, s). Inr (topics, True))
               else Inr (topics, False))) (\<lambda>(topics, added).
        topic_names_loop pars topics include_regex (if added then cnt + 1 else cnt)))"

definition rd_kafka_topic_partition_list_get_topic_names ::
    "rd_kafka_topic_partition_list \<Rightarrow> (string, unit) rd_list \<Rightarrow> bool \<Rightarrow> ((string, unit) rd_list \<times> int) res" where
  "rd_kafka_topic_partition_list_get_topic_names l topics include_regex = topic_names_loop (elems l) topics include_regex 0"

section \<open>Lookup\<close>

abbreviation par_key :: "rd_kafka_topic_partition \<Rightarrow> string \<times> int" where
  "par_key par \<equiv> (par_topic par, par_partition par)"

text \<open>Partition numbers are 32-bit integers.\<close>

definition list_typed :: "rd_kafka_topic_partition_list \<Rightarrow> bool" where
  "list_typed l \<longleftrightarrow> (\<forall>par\<in>set (elems l). in_range 32 (par_partition par))"

lemma s32_eq_0: "in_range 32 a \<Longrightarrow> in_range 32 b \<Longrightarrow> s32 (a - b) = 0 \<longleftrightarrow> a = b"
proof -
  assume "in_range 32 a" "in_range 32 b"
  then have r: "- 4294967296 < a - b" "a - b < 4294967296" by (simp_all add: in_range_def)
  have "s32 (a - b) = 0 \<longleftrightarrow> (a - b + 2147483648) mod 4294967296 = 2147483648" by (simp add: swrap_def)
  also have "\<dots> \<longleftrightarrow> a - b = 0"
  proof
    assume "(a - b + 2147483648) mod 4294967296 = 2147483648"
    moreover have "a - b + 2147483648 = 4294967296 * ((a - b + 2147483648) div 4294967296) + (a - b + 2147483648) mod 4294967296"
      by (rule mult_div_mod_eq [symmetric])
    ultimately obtain k where k: "a - b = 4294967296 * k" by auto
    then have "k = 0" using r by simp
    then show "a - b = 0" using k by simp
  qed simp
  finally show ?thesis by simp
qed

lemma cmp_eq_0:
  "in_range 32 (par_partition a) \<Longrightarrow> in_range 32 (par_partition b) \<Longrightarrow>
   rd_kafka_topic_partition_cmp a b = 0 \<longleftrightarrow> par_key a = par_key b"
  by (auto simp: rd_kafka_topic_partition_cmp_def Let_def strcmp_eq_0 s32_eq_0)

lemma find0_loop_spec:
  assumes "\<forall>par\<in>set pars. in_range 32 (par_partition par)" "in_range 32 (par_partition skel)"
  shows "find0_loop skel i pars =
    (if par_key skel \<in> par_key ` set pars then i + int (length (takeWhile (\<lambda>par. par_key par \<noteq> par_key skel) pars)) else -1)"
  using assms(1)
proof (induction pars arbitrary: i)
  case (Cons par pars)
  then show ?case using cmp_eq_0 [of skel par] assms(2) by auto
qed simp

lemma find_spec:
  assumes "list_typed l" "in_range 32 part"
  shows "rd_kafka_topic_partition_list_find l topic part =
    (if (topic, part) \<in> par_key ` set (elems l)
     then Some (length (takeWhile (\<lambda>par. par_key par \<noteq> (topic, part)) (elems l))) else None)"
proof -
  let ?skel = "rd_kafka_topic_partition_new topic part"
  have k: "par_key ?skel = (topic, part)" by (simp add: rd_kafka_topic_partition_new_def)
  have "find0_loop ?skel 0 (elems l) = (if (topic, part) \<in> par_key ` set (elems l)
      then 0 + int (length (takeWhile (\<lambda>par. par_key par \<noteq> (topic, part)) (elems l))) else -1)"
    using find0_loop_spec [of "elems l" ?skel 0] assms unfolding k list_typed_def
    by (simp add: rd_kafka_topic_partition_new_def)
  then show ?thesis
    by (simp add: rd_kafka_topic_partition_list_find_def rd_kafka_topic_partition_list_find0_def Let_def)
qed

lemma position_of_member:
  "k \<in> f ` set xs \<Longrightarrow> length (takeWhile (\<lambda>x. f x \<noteq> k) xs) < length xs \<and> f (xs ! length (takeWhile (\<lambda>x. f x \<noteq> k) xs)) = k"
  by (induction xs) auto

lemma find_Some:
  assumes "list_typed l" "in_range 32 part" "rd_kafka_topic_partition_list_find l topic part = Some i"
  shows "i < length (elems l) \<and> par_key (elems l ! i) = (topic, part)"
  using assms(3) position_of_member [of "(topic, part)" par_key "elems l"] find_spec [OF assms(1,2), of topic] by (simp split: if_splits)

section \<open>Capacity\<close>

text \<open>The array is as large as the list says, and far from the limits of its counters.\<close>

definition list_ok :: "rd_kafka_topic_partition_list \<Rightarrow> bool" where
  "list_ok l \<longleftrightarrow> list_cnt l \<le> list_size l \<and> list_size l \<le> 2 ^ 30"

lemma list_new_ok: "0 \<le> n \<Longrightarrow> n \<le> 2 ^ 29 \<Longrightarrow> list_ok (rd_kafka_topic_partition_list_new n) \<and> elems (rd_kafka_topic_partition_list_new n) = []"
  by (auto simp: rd_kafka_topic_partition_list_new_def rd_kafka_topic_partition_list_grow_def list_ok_def Let_def s32_id)

lemma add0_ok:
  assumes "list_ok l" "length (elems l) < 2 ^ 29"
  shows "\<exists>n. rd_kafka_topic_partition_list_add0 l topic part private = Inr (l\<lparr>list_size := n,
      elems := elems l @ [(rd_kafka_topic_partition_new topic part)\<lparr>par_offset := RD_KAFKA_OFFSET_INVALID, par_private := private\<rparr>]\<rparr>) \<and>
    int (length (elems l)) + 1 \<le> n \<and> n \<le> 2 ^ 30"
proof (cases "list_cnt l = list_size l")
  case True
  let ?add = "if 1 < list_size l then max (list_size l) 32 else 1"
  have "list_cnt l < 536870912" using assms(2) by simp
  then have sz: "0 \<le> list_size l" "list_size l < 536870912" using True by linarith+
  then have "s32 (list_size l + ?add) = list_size l + ?add" by (intro s32_id) (simp_all add: max_def)
  then have g: "rd_kafka_topic_partition_list_grow l 1 = l\<lparr>list_size := list_size l + ?add\<rparr>"
    by (simp add: rd_kafka_topic_partition_list_grow_def Let_def)
  have "int (length (elems l)) + 1 \<le> list_size l + ?add" "list_size l + ?add \<le> 2 ^ 30"
    using True sz by (simp_all add: max_def)
  then show ?thesis using True g
    by (intro exI [of _ "list_size l + ?add"]) (simp add: rd_kafka_topic_partition_list_add0_def Let_def)
next
  case False
  then show ?thesis using assms
    by (intro exI [of _ "list_size l"]) (simp add: rd_kafka_topic_partition_list_add0_def Let_def list_ok_def)
qed

lemma add_ok:
  assumes "list_ok l" "length (elems l) < 2 ^ 29"
  shows "\<exists>l'. rd_kafka_topic_partition_list_add l topic part = Inr l' \<and> list_ok l' \<and>
    elems l' = elems l @ [(rd_kafka_topic_partition_new topic part)\<lparr>par_offset := RD_KAFKA_OFFSET_INVALID\<rparr>]"
  using add0_ok [OF assms, of topic part None]
  by (auto simp: rd_kafka_topic_partition_list_add_def list_ok_def rd_kafka_topic_partition_new_def)

text \<open>What the elements of a range look like.\<close>

abbreviation fresh_par :: "string \<Rightarrow> int \<Rightarrow> rd_kafka_topic_partition" where
  "fresh_par topic part \<equiv> (rd_kafka_topic_partition_new topic part)\<lparr>par_offset := RD_KAFKA_OFFSET_INVALID\<rparr>"

lemma add_range_ok:
  assumes "list_ok l" "int (length (elems l)) + max 0 (stop + 1 - start) \<le> 2 ^ 29" "stop < 2147483647"
  shows "\<exists>l'. rd_kafka_topic_partition_list_add_range l topic start stop = Inr l' \<and> list_ok l' \<and>
    elems l' = elems l @ map (fresh_par topic) [start..stop]"
  using assms
proof (induction l topic start stop rule: rd_kafka_topic_partition_list_add_range.induct)
  case (1 l topic start stop)
  show ?case
  proof (cases "start \<le> stop")
    case False
    then show ?thesis using 1(2) by (subst rd_kafka_topic_partition_list_add_range.simps) simp
  next
    case True
    have "length (elems l) < 2 ^ 29" using 1(3) True by simp
    then obtain l1 where l1: "rd_kafka_topic_partition_list_add l topic start = Inr l1" "list_ok l1" "elems l1 = elems l @ [fresh_par topic start]"
      using add_ok [OF 1(2)] by blast
    have lt: "start < 2147483647" using True 1(4) by simp
    have len: "int (length (elems l1)) + max 0 (stop + 1 - (start + 1)) \<le> 2 ^ 29" using 1(3) l1(3) True by simp
    obtain l2 where "rd_kafka_topic_partition_list_add_range l1 topic (start + 1) stop = Inr l2" "list_ok l2"
        "elems l2 = elems l1 @ map (fresh_par topic) [start + 1..stop]"
      using 1(1) [OF True l1(1) _ l1(2) len 1(4)] lt by auto
    then show ?thesis using True l1 lt
      by (subst rd_kafka_topic_partition_list_add_range.simps) (simp add: upto_rec1)
  qed
qed

section \<open>Copies and references\<close>

text \<open>How many elements hold a reference on a partition object.\<close>

definition refs :: "rd_kafka_topic_partition list \<Rightarrow> nat \<Rightarrow> int" where
  "refs pars p = int (length (filter (\<lambda>par. par_private par = Some p) pars))"

definition add_refs :: "toppars \<Rightarrow> (nat \<Rightarrow> int) \<Rightarrow> toppars" where
  "add_refs tps f = (\<lambda>p. map_option (\<lambda>tp. tp\<lparr>tp_refcnt := tp_refcnt tp + f p\<rparr>) (tps p))"

text \<open>Every object that an element points to is alive.\<close>

definition pars_alive :: "toppars \<Rightarrow> rd_kafka_topic_partition list \<Rightarrow> bool" where
  "pars_alive tps pars \<longleftrightarrow> (\<forall>par\<in>set pars. \<forall>p. par_private par = Some p \<longrightarrow> tps p \<noteq> None)"

definition counts_positive :: "toppars \<Rightarrow> bool" where
  "counts_positive tps \<longleftrightarrow> (\<forall>p tp. tps p = Some tp \<longrightarrow> 0 < tp_refcnt tp)"

lemma add_refs_dom [simp]: "add_refs tps f p = None \<longleftrightarrow> tps p = None"
  by (simp add: add_refs_def)

lemma add_refs_zero [simp]: "add_refs tps (\<lambda>p. 0) = tps"
  by (rule ext) (simp add: add_refs_def option.map_ident)

lemma add_refs_add: "add_refs (add_refs tps f) g = add_refs tps (\<lambda>p. f p + g p)"
  by (rule ext) (simp add: add_refs_def option.map_comp comp_def add.assoc)

lemma refs_Nil [simp]: "refs [] p = 0"
  by (simp add: refs_def)

lemma refs_Cons: "refs (par # pars) p = (if par_private par = Some p then 1 else 0) + refs pars p"
  by (simp add: refs_def)

lemma refs_nonneg: "0 \<le> refs pars p"
  by (simp add: refs_def)

lemma keep_add_refs:
  "pars_alive tps [par] \<Longrightarrow>
   (case par_private par of None \<Rightarrow> Inr tps | Some p \<Rightarrow> rd_kafka_toppar_keep tps p) = Inr (add_refs tps (refs [par]))"
proof (cases "par_private par")
  case None
  then have "refs [par] = (\<lambda>p. 0)" by (simp add: refs_def fun_eq_iff)
  then show ?thesis using None by simp
next
  case (Some q)
  assume "pars_alive tps [par]"
  then obtain tp where tp: "tps q = Some tp" using Some by (auto simp: pars_alive_def)
  have "tps(q \<mapsto> tp\<lparr>tp_refcnt := tp_refcnt tp + 1\<rparr>) = add_refs tps (refs [par])"
    using tp Some by (auto simp: add_refs_def refs_def fun_eq_iff option.map_ident)
  then show ?thesis using tp Some by (simp add: rd_kafka_toppar_keep_def)
qed

lemma copy_one:
  assumes "list_ok l" "length (elems l) < 2 ^ 29" "pars_alive tps [par]"
  shows "\<exists>l'. rd_kafka_topic_partition_copy tps l par = Inr (add_refs tps (refs [par]), l') \<and> list_ok l' \<and> elems l' = elems l @ [par]"
proof -
  obtain n where "rd_kafka_topic_partition_list_add0 l (par_topic par) (par_partition par) (par_private par) = Inr (l\<lparr>list_size := n,
      elems := elems l @ [(rd_kafka_topic_partition_new (par_topic par) (par_partition par))\<lparr>par_offset := RD_KAFKA_OFFSET_INVALID, par_private := par_private par\<rparr>]\<rparr>)"
    "int (length (elems l)) + 1 \<le> n" "n \<le> 2 ^ 30" using add0_ok [OF assms(1,2)] by blast
  then show ?thesis
    by (simp add: rd_kafka_topic_partition_copy_def keep_add_refs [OF assms(3)] list_ok_def rd_kafka_topic_partition_new_def)
qed

lemma pars_alive_add_refs: "pars_alive (add_refs tps f) pars = pars_alive tps pars"
  by (simp add: pars_alive_def)

lemma copy_elems_ok:
  "list_ok l \<Longrightarrow> length (elems l) + length pars \<le> 2 ^ 29 \<Longrightarrow> pars_alive tps pars \<Longrightarrow>
   \<exists>l'. copy_elems tps l pars = Inr (add_refs tps (refs pars), l') \<and> list_ok l' \<and> elems l' = elems l @ pars"
proof (induction pars arbitrary: tps l)
  case Nil
  then show ?case by (simp add: refs_def)
next
  case (Cons par pars)
  have al: "pars_alive tps [par]" "pars_alive tps pars" using Cons.prems(3) by (auto simp: pars_alive_def)
  obtain l1 where l1: "rd_kafka_topic_partition_copy tps l par = Inr (add_refs tps (refs [par]), l1)" "list_ok l1" "elems l1 = elems l @ [par]"
    using copy_one [OF Cons.prems(1) _ al(1)] Cons.prems(2) by auto
  have eq: "(\<lambda>p. refs [par] p + refs pars p) = refs (par # pars)" by (simp add: refs_def fun_eq_iff)
  show ?case
    using Cons.IH [OF l1(2), of "add_refs tps (refs [par])"] Cons.prems(2) al(2) l1
    by (simp add: pars_alive_add_refs add_refs_add eq)
qed

lemma destroy_one:
  assumes "counts_positive tps" "pars_alive tps [par]" "\<And>p. 0 \<le> f p"
  shows "rd_kafka_topic_partition_destroy0 (add_refs tps (\<lambda>p. refs [par] p + f p)) par = Inr (add_refs tps f)"
proof (cases "par_private par")
  case None
  then show ?thesis by (simp add: rd_kafka_topic_partition_destroy0_def refs_def)
next
  case (Some q)
  then obtain tp where tp: "tps q = Some tp" "0 < tp_refcnt tp" using assms by (auto simp: pars_alive_def counts_positive_def)
  have "(add_refs tps (\<lambda>p. refs [par] p + f p))(q \<mapsto> tp\<lparr>tp_refcnt := tp_refcnt tp + f q\<rparr>) = add_refs tps f"
    using tp Some by (auto simp: add_refs_def refs_def fun_eq_iff)
  moreover have "add_refs tps (\<lambda>p. refs [par] p + f p) q = Some (tp\<lparr>tp_refcnt := tp_refcnt tp + (1 + f q)\<rparr>)"
    using tp Some by (simp add: add_refs_def refs_def)
  moreover have "0 < tp_refcnt tp + f q" using tp(2) assms(3) [of q] by simp
  ultimately show ?thesis using Some
    by (simp add: rd_kafka_topic_partition_destroy0_def rd_kafka_toppar_destroy_def)
qed

lemma destroy_elems_ok:
  "counts_positive tps \<Longrightarrow> pars_alive tps pars \<Longrightarrow> destroy_elems (add_refs tps (refs pars)) pars = Inr tps"
proof (induction pars)
  case Nil
  then show ?case by (simp add: refs_def)
next
  case (Cons par pars)
  have al: "pars_alive tps [par]" "pars_alive tps pars" using Cons.prems(2) by (auto simp: pars_alive_def)
  have eq: "refs (par # pars) = (\<lambda>p. refs [par] p + refs pars p)" by (simp add: refs_def fun_eq_iff)
  show ?case using destroy_one [OF Cons.prems(1) al(1) refs_nonneg] Cons.IH [OF Cons.prems(1) al(2)] by (simp add: eq)
qed

text \<open>A copy has the same elements and one more reference each; destroying it gives them back.\<close>

lemma list_copy_ok:
  assumes "list_ok l" "list_size l \<le> 2 ^ 29" "pars_alive tps (elems l)"
  shows "\<exists>l'. rd_kafka_topic_partition_list_copy tps l = Inr (add_refs tps (refs (elems l)), l') \<and> list_ok l' \<and> elems l' = elems l"
proof -
  have "0 \<le> list_size l" "length (elems l) \<le> 2 ^ 29" using assms(1,2) by (auto simp: list_ok_def)
  then show ?thesis
    using copy_elems_ok [of "rd_kafka_topic_partition_list_new (list_size l)" "elems l" tps] list_new_ok [of "list_size l"] assms
    by (simp add: rd_kafka_topic_partition_list_copy_def)
qed

lemma match_elems_ok:
  "list_ok l \<Longrightarrow> length (elems l) + length pars \<le> 2 ^ 29 \<Longrightarrow> pars_alive tps pars \<Longrightarrow>
   \<exists>l'. match_elems match tps l pars = Inr (add_refs tps (refs (filter match pars)), l') \<and> list_ok l' \<and>
     elems l' = elems l @ filter match pars"
proof -
  have "match_elems match tps l pars = copy_elems tps l (filter match pars)" for tps l
    by (induction pars arbitrary: tps l) auto
  moreover assume l: "list_ok l" and len: "length (elems l) + length pars \<le> 2 ^ 29" and al: "pars_alive tps pars"
  moreover have "length (elems l) + length (filter match pars) \<le> 2 ^ 29"
    by (rule order_trans [OF _ len]) simp
  moreover have "pars_alive tps (filter match pars)" using al by (auto simp: pars_alive_def)
  ultimately show ?thesis using copy_elems_ok [of l "filter match pars" tps] by simp
qed

section \<open>Order\<close>

text \<open>Without overflow of the difference of two partition numbers the comparator is a total preorder.\<close>

definition small_partition :: "rd_kafka_topic_partition \<Rightarrow> bool" where
  "small_partition par \<longleftrightarrow> - 1 \<le> par_partition par \<and> par_partition par < 2147483647"

lemma cmp_small:
  "small_partition a \<Longrightarrow> small_partition b \<Longrightarrow>
   rd_kafka_topic_partition_cmp a b \<le> 0 \<longleftrightarrow>
   strcmp (par_topic a) (par_topic b) < 0 \<or> par_topic a = par_topic b \<and> par_partition a \<le> par_partition b"
  using s32_id [of "par_partition a - par_partition b"] strcmp_eq_0 [of "par_topic a" "par_topic b"]
  by (auto simp: rd_kafka_topic_partition_cmp_def Let_def small_partition_def)

lemma partition_cmp_ok: "\<forall>par\<in>S. small_partition par \<Longrightarrow> cmp_ok rd_kafka_topic_partition_cmp S"
  unfolding cmp_ok_def
proof (intro conjI ballI impI)
  assume S: "\<forall>par\<in>S. small_partition par"
  fix x y
  assume xy: "x \<in> S" "y \<in> S"
  show "rd_kafka_topic_partition_cmp x y \<le> 0 \<or> rd_kafka_topic_partition_cmp y x \<le> 0"
    using S xy strcmp_flip [of "par_topic x" "par_topic y"] strcmp_eq_0 [of "par_topic x" "par_topic y"] by (auto simp: cmp_small)
  fix z
  assume "z \<in> S" "rd_kafka_topic_partition_cmp x y \<le> 0" "rd_kafka_topic_partition_cmp y z \<le> 0"
  then show "rd_kafka_topic_partition_cmp x z \<le> 0"
    using S xy strcmp_trans [of "par_topic x" "par_topic y" "par_topic z"] by (auto simp: cmp_small)
qed

lemma sort_by_topic_ok:
  assumes "c_qsort qs" "\<forall>par\<in>set (elems l). small_partition par"
  shows "mset (elems (rd_kafka_topic_partition_list_sort_by_topic qs l)) = mset (elems l) \<and>
    sorted_wrt (\<lambda>a b. strcmp (par_topic a) (par_topic b) < 0 \<or> par_topic a = par_topic b \<and> par_partition a \<le> par_partition b)
      (elems (rd_kafka_topic_partition_list_sort_by_topic qs l))"
proof -
  let ?xs = "qs rd_kafka_topic_partition_cmp (elems l)"
  have "sorted_wrt (\<lambda>x y. rd_kafka_topic_partition_cmp x y \<le> 0) ?xs"
    by (rule c_qsort.qs_sorted [OF assms(1) partition_cmp_ok [OF assms(2)]])
  then have "sorted_wrt (\<lambda>a b. strcmp (par_topic a) (par_topic b) < 0 \<or> par_topic a = par_topic b \<and> par_partition a \<le> par_partition b) ?xs"
    by (rule sorted_wrt_mono_rel [rotated]) (use assms(2) in \<open>auto simp: cmp_small c_qsort.qs_set [OF assms(1)]\<close>)
  then show ?thesis
    by (simp add: rd_kafka_topic_partition_list_sort_by_topic_def rd_kafka_topic_partition_list_sort_def c_qsort.qs_mset [OF assms(1)])
qed

text \<open>With the largest partition number the difference to the unassigned partition overflows.\<close>

lemma cmp_overflows:
  "rd_kafka_topic_partition_cmp (rd_kafka_topic_partition_new t 2147483647) (rd_kafka_topic_partition_new t (-1)) < 0"
  by (simp add: rd_kafka_topic_partition_cmp_def rd_kafka_topic_partition_new_def strcmp_eq_0 [THEN iffD2] swrap_def)

section \<open>Properties\<close>

text \<open>
  C34: Copying a list of partitions succeeds, gives equal elements in the same order, takes exactly one
  more reference on a partition object for every element that points to it, and destroying the copy
  gives exactly these references back: no object is freed early and none is leaked.
\<close>

theorem list_copy_keeps_references:
  assumes "list_ok l" "list_size l \<le> 2 ^ 29" "pars_alive tps (elems l)" "counts_positive tps"
  shows "\<exists>l'. rd_kafka_topic_partition_list_copy tps l = Inr (add_refs tps (refs (elems l)), l') \<and>
    elems l' = elems l \<and> rd_kafka_topic_partition_list_destroy (add_refs tps (refs (elems l))) l' = Inr tps"
  using list_copy_ok [OF assms(1-3)] destroy_elems_ok [OF assms(4,3)]
  by (auto simp: rd_kafka_topic_partition_list_destroy_def)

definition two_pars :: rd_kafka_topic_partition_list where
  "two_pars = \<lparr>elems = [(fresh_par ''feeds'' 0)\<lparr>par_private := Some 3\<rparr>, fresh_par ''feeds'' 1], list_size = 2\<rparr>"

definition one_toppar :: toppars where
  "one_toppar = [3 \<mapsto> \<lparr>tp_refcnt = 1, tp_stored_offset = 7, tp_committed_offset = 5\<rparr>]"

theorem list_copy_keeps_references_witness:
  "\<exists>l'. rd_kafka_topic_partition_list_copy one_toppar two_pars = Inr (add_refs one_toppar (refs (elems two_pars)), l') \<and>
    elems l' = elems two_pars \<and>
    rd_kafka_topic_partition_list_destroy (add_refs one_toppar (refs (elems two_pars))) l' = Inr one_toppar"
  by (rule list_copy_keeps_references)
    (simp_all add: two_pars_def one_toppar_def list_ok_def pars_alive_def counts_positive_def rd_kafka_topic_partition_new_def)

end
