(* ===== verification/Patterns.thy ===== *)
theory Patterns
  imports C_String
begin

text \<open>
  Lists of patterns, \<open>rdkafka_pattern.c\<close>, which hold the topic blacklist. The regular expression library
  is a parameter \<open>rc\<close>: it compiles a pattern, or fails; a compiled pattern is the set of strings that it
  matches.
\<close>

section \<open>State\<close>

record rd_kafka_pattern =
  rkpat_re :: "string \<Rightarrow> bool"
  rkpat_orig :: string

record rd_kafka_pattern_list =
  rkpl_head :: "rd_kafka_pattern list"
  rkpl_orig :: "string option"

type_synonym regcomp = "string \<Rightarrow> (string \<Rightarrow> bool) option"

section \<open>Operations\<close>

definition rd_kafka_pattern_new :: "regcomp \<Rightarrow> string \<Rightarrow> rd_kafka_pattern option" where
  "rd_kafka_pattern_new rc pat =
     (case rc pat of None \<Rightarrow> None | Some re \<Rightarrow> Some \<lparr>rkpat_re = re, rkpat_orig = pat\<rparr>)"

definition rd_kafka_pattern_add :: "rd_kafka_pattern_list \<Rightarrow> rd_kafka_pattern \<Rightarrow> rd_kafka_pattern_list" where
  "rd_kafka_pattern_add plist rkpat = plist\<lparr>rkpl_head := rkpl_head plist @ [rkpat]\<rparr>"

fun match_loop :: "rd_kafka_pattern list \<Rightarrow> string \<Rightarrow> bool" where
  "match_loop [] str = False"
| "match_loop (rkpat # rest) str = (if rkpat_re rkpat str then True else match_loop rest str)"

definition rd_kafka_pattern_match :: "rd_kafka_pattern_list \<Rightarrow> string \<Rightarrow> bool" where
  "rd_kafka_pattern_match plist str = match_loop (rkpl_head plist) str"

text \<open>\<open>None\<close> when the pattern does not compile.\<close>

definition rd_kafka_pattern_list_append :: "regcomp \<Rightarrow> rd_kafka_pattern_list \<Rightarrow> string \<Rightarrow> rd_kafka_pattern_list option" where
  "rd_kafka_pattern_list_append rc plist pat =
     (case rd_kafka_pattern_new rc pat of None \<Rightarrow> None | Some rkpat \<Rightarrow> Some (rd_kafka_pattern_add plist rkpat))"

fun remove_loop :: "rd_kafka_pattern list \<Rightarrow> string \<Rightarrow> rd_kafka_pattern list \<times> int" where
  "remove_loop [] pat = ([], 0)"
| "remove_loop (rkpat # rest) pat =
     (let (rest, cnt) = remove_loop rest pat
      in if strcmp (rkpat_orig rkpat) pat = 0 then (rest, cnt + 1) else (rkpat # rest, cnt))"

definition rd_kafka_pattern_list_remove :: "rd_kafka_pattern_list \<Rightarrow> string \<Rightarrow> rd_kafka_pattern_list \<times> int" where
  "rd_kafka_pattern_list_remove plist pat =
     (let (head, cnt) = remove_loop (rkpl_head plist) pat in (plist\<lparr>rkpl_head := head\<rparr>, cnt))"

definition rd_kafka_pattern_list_clear :: "rd_kafka_pattern_list \<Rightarrow> rd_kafka_pattern_list" where
  "rd_kafka_pattern_list_clear plist = plist\<lparr>rkpl_head := [], rkpl_orig := None\<rparr>"

subsection \<open>Parsing\<close>

text \<open>The copy of the pattern list is an array of characters; \<open>strchr\<close> looks for a comma up to the next NUL.\<close>

abbreviation NUL :: char where "NUL \<equiv> CHR 0x00"
abbreviation comma :: char where "comma \<equiv> CHR '',''"

function strchr_comma :: "string \<Rightarrow> nat \<Rightarrow> nat option res" where
  "strchr_comma buf t =
     (if t < length buf then
        if buf ! t = comma then Inr (Some t)
        else if buf ! t = NUL then Inr None
        else strchr_comma buf (t + 1)
      else Inl Out_Of_Bounds)"
  by pat_completeness auto
termination by (relation "measure (\<lambda>(buf, t). length buf - t)") auto

declare strchr_comma.simps [simp del]

lemma strchr_comma_bounds: "strchr_comma buf t = Inr (Some k) \<Longrightarrow> t \<le> k \<and> k < length buf \<and> buf ! k = comma"
proof (induction buf t rule: strchr_comma.induct)
  case (1 buf t)
  from "1.prems" show ?case
    by (subst (asm) strchr_comma.simps) (auto split: if_splits dest: "1.IH")
qed

text \<open>
  The search for the separator of the pattern at \<open>s\<close>, from \<open>t\<close>: the array and the position behind the
  separator, if there is one. \<open>memmove\<close> shifts the rest of the string, NUL included, by one to the left
  and leaves the last character of the array where it was.
\<close>

function find_separator :: "string \<Rightarrow> nat \<Rightarrow> nat \<Rightarrow> (string \<times> nat option) res" where
  "find_separator buf s t =
     (case strchr_comma buf t of
        Inl e \<Rightarrow> Inl e
      | Inr None \<Rightarrow> Inr (buf, None)
      | Inr (Some k) \<Rightarrow>
          if k > s \<and> buf ! (k - 1) = comma
          then find_separator (take (k - 1) buf @ drop k buf @ [last buf]) s (k + 1)
          else Inr (buf[k := NUL], Some (k + 1)))"
  by pat_completeness auto
termination
  by (relation "measure (\<lambda>(buf, s, t). length buf - t)") (auto dest!: strchr_comma_bounds)

declare find_separator.simps [simp del]

definition c_string_at :: "string \<Rightarrow> nat \<Rightarrow> string" where
  "c_string_at buf s = takeWhile (\<lambda>c. c \<noteq> NUL) (drop s buf)"

lemma find_separator_bounds: "find_separator buf s t = Inr (buf', Some t') \<Longrightarrow> t < t' \<and> length buf' = length buf \<and> t' \<le> length buf"
proof (induction buf s t rule: find_separator.induct)
  case (1 buf s t)
  show ?case
  proof (cases "strchr_comma buf t")
    case (Inr r)
    then show ?thesis
    proof (cases r)
      case (Some k)
      note b = strchr_comma_bounds [OF Inr [unfolded Some]]
      show ?thesis
      proof (cases "k > s \<and> buf ! (k - 1) = comma")
        case True
        then have "find_separator (take (k - 1) buf @ drop k buf @ [last buf]) s (k + 1) = Inr (buf', Some t')"
          using "1.prems" Inr Some by (subst (asm) find_separator.simps) simp
        from "1.IH" [OF Inr Some True this] show ?thesis using b True by auto
      next
        case False
        then show ?thesis using "1.prems" Inr Some b by (subst (asm) find_separator.simps) auto
      qed
    qed (use "1.prems" in \<open>subst (asm) find_separator.simps; simp\<close>)
  qed (use "1.prems" in \<open>subst (asm) find_separator.simps; simp\<close>)
qed

text \<open>The list and whether the parsing succeeded.\<close>

function parse_loop :: "regcomp \<Rightarrow> rd_kafka_pattern_list \<Rightarrow> string \<Rightarrow> nat option \<Rightarrow> (rd_kafka_pattern_list \<times> bool) res" where
  "parse_loop rc plist buf None = Inr (plist, True)"
| "parse_loop rc plist buf (Some s) =
     (if s < length buf then
        if buf ! s = NUL then Inr (plist, True)
        else
          (case find_separator buf s s of
             Inl e \<Rightarrow> Inl e
           | Inr (buf, t) \<Rightarrow>
               (case rd_kafka_pattern_list_append rc plist (c_string_at buf s) of
                  None \<Rightarrow> Inr (rd_kafka_pattern_list_clear plist, False)
                | Some plist \<Rightarrow> parse_loop rc plist buf t))
      else Inl Out_Of_Bounds)"
  by pat_completeness auto
termination
  by (relation "measure (\<lambda>(rc, plist, buf, s). case s of None \<Rightarrow> 0 | Some s \<Rightarrow> Suc (length buf - s))")
    (auto split: option.split dest!: find_separator_bounds)

declare parse_loop.simps [simp del]

definition rd_kafka_pattern_list_parse :: "regcomp \<Rightarrow> rd_kafka_pattern_list \<Rightarrow> string \<Rightarrow> (rd_kafka_pattern_list \<times> bool) res" where
  "rd_kafka_pattern_list_parse rc plist patternlist = parse_loop rc plist (patternlist @ [NUL]) (Some 0)"

definition rd_kafka_pattern_list_init ::
    "regcomp \<Rightarrow> rd_kafka_pattern_list \<Rightarrow> string option \<Rightarrow> (rd_kafka_pattern_list \<times> bool) res" where
  "rd_kafka_pattern_list_init rc plist patternlist =
     (let plist = plist\<lparr>rkpl_head := []\<rparr>
      in case patternlist of
           Some pl \<Rightarrow>
             bindR (rd_kafka_pattern_list_parse rc plist pl) (\<lambda>(plist, ok).
             Inr (if ok then (plist\<lparr>rkpl_orig := Some pl\<rparr>, True) else (plist, False)))
         | None \<Rightarrow> Inr (plist\<lparr>rkpl_orig := None\<rparr>, True))"

definition rd_kafka_pattern_list_new :: "regcomp \<Rightarrow> string option \<Rightarrow> rd_kafka_pattern_list option res" where
  "rd_kafka_pattern_list_new rc patternlist =
     bindR (rd_kafka_pattern_list_init rc \<lparr>rkpl_head = [], rkpl_orig = None\<rparr> patternlist) (\<lambda>(plist, ok).
     Inr (if ok then Some plist else None))"

section \<open>What is parsed\<close>

text \<open>The pieces between the commas, without an empty last one.\<close>

lemma drop_separator_shorter: "s \<noteq> [] \<Longrightarrow> length (drop 1 (dropWhile P s)) < length s"
  using length_dropWhile_le [of P s] by (cases s) auto

function pieces :: "string \<Rightarrow> string list" where
  "pieces s =
     (if s = [] then []
      else takeWhile (\<lambda>c. c \<noteq> comma) s # pieces (drop 1 (dropWhile (\<lambda>c. c \<noteq> comma) s)))"
  by pat_completeness auto
termination
  by (relation "measure length") (use drop_separator_shorter in auto)

declare pieces.simps [simp del]

lemma pieces_Nil [simp]: "pieces [] = []"
  by (simp add: pieces.simps)

lemma pieces_step:
  "s \<noteq> [] \<Longrightarrow> pieces s = takeWhile (\<lambda>c. c \<noteq> comma) s # pieces (drop 1 (dropWhile (\<lambda>c. c \<noteq> comma) s))"
  by (subst pieces.simps) simp

text \<open>All of the patterns compiled, or nothing.\<close>

fun compile :: "regcomp \<Rightarrow> string list \<Rightarrow> rd_kafka_pattern list option" where
  "compile rc [] = Some []"
| "compile rc (p # ps) =
     (case rc p of
        None \<Rightarrow> None
      | Some re \<Rightarrow> map_option (\<lambda>rest. \<lparr>rkpat_re = re, rkpat_orig = p\<rparr> # rest) (compile rc ps))"

lemma strchr_comma_at:
  "NUL \<notin> set rest \<Longrightarrow> strchr_comma (pre @ rest @ [NUL]) (length pre) =
     Inr (if comma \<in> set rest then Some (length pre + length (takeWhile (\<lambda>c. c \<noteq> comma) rest)) else None)"
proof (induction rest arbitrary: pre)
  case Nil
  then show ?case by (subst strchr_comma.simps) simp
next
  case (Cons c rest)
  show ?case
  proof (cases "c = comma")
    case True
    then show ?thesis by (subst strchr_comma.simps) (simp add: nth_append)
  next
    case False
    have "strchr_comma (pre @ (c # rest) @ [NUL]) (length pre) = strchr_comma ((pre @ [c]) @ rest @ [NUL]) (length (pre @ [c]))"
      using False Cons.prems by (subst strchr_comma.simps) (auto simp: nth_append)
    then show ?thesis using Cons.IH [of "pre @ [c]"] Cons.prems False by simp
  qed
qed

text \<open>The comma found first never follows another comma of the same pattern: nothing is ever unescaped.\<close>

lemma find_separator_at:
  assumes "NUL \<notin> set rest"
  shows "find_separator (pre @ rest @ [NUL]) (length pre) (length pre) =
    (let p = takeWhile (\<lambda>c. c \<noteq> comma) rest
     in if comma \<in> set rest
        then Inr (pre @ p @ NUL # drop 1 (dropWhile (\<lambda>c. c \<noteq> comma) rest) @ [NUL], Some (length pre + length p + 1))
        else Inr (pre @ rest @ [NUL], None))"
proof (cases "comma \<in> set rest")
  case True
  then obtain p q where rest: "rest = p @ comma # q" and p: "comma \<notin> set p" by (meson split_list_first)
  have tw: "takeWhile (\<lambda>c. c \<noteq> comma) rest = p" "drop 1 (dropWhile (\<lambda>c. c \<noteq> comma) rest) = q"
    using rest p by (auto simp: takeWhile_tail dropWhile_append3 takeWhile_append dropWhile_append)
  let ?buf = "pre @ rest @ [NUL]" and ?k = "length pre + length p"
  have k: "strchr_comma ?buf (length pre) = Inr (Some ?k)" using True strchr_comma_at [OF assms, of pre] tw(1) by simp
  have "?buf ! (?k - 1) \<noteq> comma" if "length p > 0"
  proof -
    have "?k - 1 = length pre + (length p - 1)" using that by linarith
    then have "?buf ! (?k - 1) = p ! (length p - 1)" using that by (simp only: rest append_assoc nth_append_length_plus) (simp add: nth_append)
    moreover have "p ! (length p - 1) \<in> set p" using that by (intro nth_mem) simp
    ultimately show ?thesis using p by metis
  qed
  then have cond: "(?k > length pre \<and> ?buf ! (?k - 1) = comma) = False" by auto
  have upd: "?buf[?k := NUL] = pre @ p @ NUL # q @ [NUL]" by (simp add: rest list_update_append)
  have "find_separator ?buf (length pre) (length pre) = Inr (pre @ p @ NUL # q @ [NUL], Some (?k + 1))"
    by (subst find_separator.simps) (simp only: k sum.case option.case cond if_False upd)
  then show ?thesis using True by (simp only: Let_def tw if_True)
next
  case False
  then show ?thesis using strchr_comma_at [OF assms, of pre] by (subst find_separator.simps) simp
qed

lemma parse_loop_step:
  assumes "s < length buf" "buf ! s \<noteq> NUL" "find_separator buf s s = Inr (buf', t)"
  shows "parse_loop rc plist buf (Some s) =
    (case rc (c_string_at buf' s) of
       None \<Rightarrow> Inr (rd_kafka_pattern_list_clear plist, False)
     | Some re \<Rightarrow>
         parse_loop rc (plist\<lparr>rkpl_head := rkpl_head plist @ [\<lparr>rkpat_re = re, rkpat_orig = c_string_at buf' s\<rparr>]\<rparr>) buf' t)"
  using assms
  by (subst parse_loop.simps)
    (simp add: rd_kafka_pattern_list_append_def rd_kafka_pattern_new_def rd_kafka_pattern_add_def split: option.splits)

lemma c_string_prefix: "NUL \<notin> set p \<Longrightarrow> c_string_at (pre @ p @ NUL # x) (length pre) = p"
proof -
  assume "NUL \<notin> set p"
  then have "takeWhile (\<lambda>c. c \<noteq> NUL) (p @ NUL # x) = p" by (induction p) auto
  then show ?thesis by (simp add: c_string_at_def)
qed

lemma parse_loop_pieces:
  assumes "NUL \<notin> set rest"
  shows "parse_loop rc plist (pre @ rest @ [NUL]) (Some (length pre)) =
    Inr (case compile rc (pieces rest) of
           None \<Rightarrow> (rd_kafka_pattern_list_clear plist, False)
         | Some ps \<Rightarrow> (plist\<lparr>rkpl_head := rkpl_head plist @ ps\<rparr>, True))"
  using assms
proof (induction rest arbitrary: pre plist rule: pieces.induct)
  case (1 rest)
  show ?case
  proof (cases "rest = []")
    case True
    then show ?thesis by (subst parse_loop.simps) simp
  next
    case False
    let ?p = "takeWhile (\<lambda>c. c \<noteq> comma) rest" and ?q = "drop 1 (dropWhile (\<lambda>c. c \<noteq> comma) rest)"
    have hd: "(pre @ rest @ [NUL]) ! length pre \<noteq> NUL" using False "1.prems" by (cases rest) auto
    have len: "length pre < length (pre @ rest @ [NUL])" by simp
    have nul: "NUL \<notin> set ?p" "NUL \<notin> set ?q" using "1.prems" by (auto dest: set_takeWhileD in_set_dropD set_dropWhileD)
    note sep = find_separator_at [OF "1.prems", of pre]
    show ?thesis
    proof (cases "comma \<in> set rest")
      case True
      let ?buf = "(pre @ ?p @ [NUL]) @ ?q @ [NUL]"
      have f: "find_separator (pre @ rest @ [NUL]) (length pre) (length pre) = Inr (?buf, Some (length (pre @ ?p @ [NUL])))"
        using sep True by (simp add: Let_def)
      have c: "c_string_at ?buf (length pre) = ?p" using c_string_prefix [OF nul(1), of pre "?q @ [NUL]"] by simp
      show ?thesis unfolding parse_loop_step [OF len hd f] c pieces_step [OF False] "1.IH" [OF False nul(2)]
        by (auto simp: rd_kafka_pattern_list_clear_def split: option.splits)
    next
      case no: False
      have p: "?p = rest" using no by (simp add: takeWhile_eq_all_conv) blast
      have "dropWhile (\<lambda>c. c \<noteq> comma) rest = []" using no by (simp add: dropWhile_eq_Nil_conv) blast
      then have q: "pieces ?q = []" by (simp only: drop_Nil pieces_Nil)
      have f: "find_separator (pre @ rest @ [NUL]) (length pre) (length pre) = Inr (pre @ rest @ [NUL], None)"
        using sep no by (simp only: Let_def if_False)
      have c: "c_string_at (pre @ rest @ [NUL]) (length pre) = rest" using c_string_prefix [OF "1.prems", of pre "[]"] .
      show ?thesis unfolding parse_loop_step [OF len hd f] c pieces_step [OF False] q p parse_loop.simps(1)
        by (auto split: option.splits)
    qed
  qed
qed

text \<open>A new list holds a pattern for every piece, in order, and remembers the text; or there is none.\<close>

lemma pattern_list_new_pieces:
  "NUL \<notin> set pl \<Longrightarrow> rd_kafka_pattern_list_new rc (Some pl) =
     Inr (map_option (\<lambda>ps. \<lparr>rkpl_head = ps, rkpl_orig = Some pl\<rparr>) (compile rc (pieces pl)))"
  using parse_loop_pieces [of pl rc "\<lparr>rkpl_head = [], rkpl_orig = None\<rparr>" "[]"]
  by (auto simp: rd_kafka_pattern_list_new_def rd_kafka_pattern_list_init_def rd_kafka_pattern_list_parse_def split: option.splits)

lemma pattern_match_any: "rd_kafka_pattern_match plist str \<longleftrightarrow> (\<exists>rkpat\<in>set (rkpl_head plist). rkpat_re rkpat str)"
proof -
  have "match_loop ps str \<longleftrightarrow> (\<exists>rkpat\<in>set ps. rkpat_re rkpat str)" for ps by (induction ps) auto
  then show ?thesis by (simp add: rd_kafka_pattern_match_def)
qed

lemma pattern_list_remove_filter:
  "rd_kafka_pattern_list_remove plist pat =
     (plist\<lparr>rkpl_head := filter (\<lambda>p. rkpat_orig p \<noteq> pat) (rkpl_head plist)\<rparr>,
      int (length (filter (\<lambda>p. rkpat_orig p = pat) (rkpl_head plist))))"
proof -
  have "remove_loop ps pat = (filter (\<lambda>p. rkpat_orig p \<noteq> pat) ps, int (length (filter (\<lambda>p. rkpat_orig p = pat) ps)))" for ps
    by (induction ps) (auto simp: strcmp_eq_0)
  then show ?thesis by (simp add: rd_kafka_pattern_list_remove_def)
qed

text \<open>A doubled comma, meant as an escaped one, gives an empty pattern between two others.\<close>

lemma doubled_comma_gives_empty_pattern: "pieces ''a,,b'' = [''a'', '''', ''b'']"
  by (simp add: pieces_step)

end
