(* ===== verification/Assignors.thy ===== *)
theory Assignors
  imports Topic_Partitions Patterns "HOL-Library.Signed_Division"
begin

unbundle bit_operations_syntax

text \<open>
  Assignment of partitions to the members of a consumer group: \<open>rdkafka_assignor.c\<close> with the list of
  configured assignors, the mapping of topics to subscribing members and the run of an assignor,
  \<open>rdkafka_range_assignor.c\<close> and \<open>rdkafka_roundrobin_assignor.c\<close>. The regular expression library and
  the sorting routines of the C library are parameters.
\<close>

section \<open>State\<close>

definition RD_KAFKA_RESP_ERR__UNKNOWN_PROTOCOL :: int where "RD_KAFKA_RESP_ERR__UNKNOWN_PROTOCOL = - 171"
definition RD_KAFKA_RESP_ERR__CONFLICT :: int where "RD_KAFKA_RESP_ERR__CONFLICT = - 173"

record rd_kafka_metadata_topic =
  mt_topic :: string
  mt_partition_cnt :: int

text \<open>A pointer to a topic of the metadata is its number, a pointer to a member its index in the array.\<close>

record rd_kafka_group_member =
  rkgm_subscription :: rd_kafka_topic_partition_list
  rkgm_assignment :: rd_kafka_topic_partition_list
  rkgm_eligible :: "(nat, unit) rd_list"
  rkgm_member_id :: string

record rd_kafka_assignor_topic =
  at_metadata :: rd_kafka_metadata_topic
  at_members :: "(nat, unit) rd_list"

section \<open>Comparison\<close>

text \<open>The sign of \<open>memcmp\<close> is that of the first bytes that differ.\<close>

definition memcmp :: "string \<Rightarrow> string \<Rightarrow> nat \<Rightarrow> int" where
  "memcmp a b n = strcmp (take n a) (take n b)"

definition rd_kafkap_str_cmp :: "string \<Rightarrow> string \<Rightarrow> int" where
  "rd_kafkap_str_cmp a b =
     (let r = memcmp a b (min (length a) (length b))
      in if r \<noteq> 0 then r else int (length a) - int (length b))"

definition rd_kafka_group_member_cmp :: "rd_kafka_group_member \<Rightarrow> rd_kafka_group_member \<Rightarrow> int" where
  "rd_kafka_group_member_cmp a b = rd_kafkap_str_cmp (rkgm_member_id a) (rkgm_member_id b)"

definition rd_kafka_assignor_topic_cmp :: "rd_kafka_assignor_topic \<Rightarrow> rd_kafka_assignor_topic \<Rightarrow> int" where
  "rd_kafka_assignor_topic_cmp a b =
     (if strcmp (mt_topic (at_metadata a)) (mt_topic (at_metadata b)) = 0 then 1 else 0)"

section \<open>Subscriptions\<close>

fun find_subscription_loop :: "regex \<Rightarrow> rd_kafka_topic_partition list \<Rightarrow> string \<Rightarrow> bool" where
  "find_subscription_loop rx [] topic = False"
| "find_subscription_loop rx (par # pars) topic =
     (if rd_kafka_topic_partition_match rx par topic \<noteq> No_Match then True
      else find_subscription_loop rx pars topic)"

definition rd_kafka_group_member_find_subscription :: "regex \<Rightarrow> rd_kafka_group_member \<Rightarrow> string \<Rightarrow> bool" where
  "rd_kafka_group_member_find_subscription rx rkgm topic =
     find_subscription_loop rx (elems (rkgm_subscription rkgm)) topic"

text \<open>The topics eligible so far, and how many elements matched the topic, by name and by expression.\<close>

fun subscription_loop ::
    "regex \<Rightarrow> nat \<Rightarrow> string \<Rightarrow> rd_kafka_topic_partition list \<Rightarrow> (nat, unit) rd_list \<Rightarrow> int \<Rightarrow> int \<Rightarrow>
     ((nat, unit) rd_list \<times> int \<times> int) res" where
  "subscription_loop rx ti topic [] eligible matched has_regex = Inr (eligible, matched, has_regex)"
| "subscription_loop rx ti topic (par # pars) eligible matched has_regex =
     (let m = rd_kafka_topic_partition_match rx par topic
      in if m \<noteq> No_Match then
           bindR (rd_list_add eligible (Some ti)) (\<lambda>(eligible, s).
           subscription_loop rx ti topic pars eligible (matched + 1) (has_regex + (if m = By_Regex then 1 else 0)))
         else subscription_loop rx ti topic pars eligible matched has_regex)"

definition rd_kafka_member_subscription_match ::
    "regex \<Rightarrow> nat \<Rightarrow> string \<Rightarrow> nat \<Rightarrow> rd_kafka_group_member \<Rightarrow> (nat, unit) rd_list \<Rightarrow>
     (rd_kafka_group_member \<times> (nat, unit) rd_list \<times> bool) res" where
  "rd_kafka_member_subscription_match rx ti topic i rkgm members =
     bindR (subscription_loop rx ti topic (elems (rkgm_subscription rkgm)) (rkgm_eligible rkgm) 0 0)
       (\<lambda>(eligible, matched, has_regex).
     bindR (if matched \<noteq> 0 then bindR (rd_list_add members (Some i)) (\<lambda>(members, s). Inr members) else Inr members)
       (\<lambda>members.
     Inr (rkgm\<lparr>rkgm_eligible := eligible\<rparr>, members,
          has_regex = 0 \<and> rd_list_cnt eligible = list_cnt (rkgm_subscription rkgm))))"

fun match_members ::
    "regex \<Rightarrow> nat \<Rightarrow> string \<Rightarrow> nat \<Rightarrow> rd_kafka_group_member list \<Rightarrow> (nat, unit) rd_list \<Rightarrow> int \<Rightarrow>
     (rd_kafka_group_member list \<times> (nat, unit) rd_list \<times> int) res" where
  "match_members rx ti topic i [] members complete_cnt = Inr ([], members, complete_cnt)"
| "match_members rx ti topic i (rkgm # rkgms) members complete_cnt =
     bindR (rd_kafka_member_subscription_match rx ti topic i rkgm members) (\<lambda>(rkgm, members, complete).
     bindR (match_members rx ti topic (Suc i) rkgms members (if complete then complete_cnt + 1 else complete_cnt))
       (\<lambda>(rkgms, members, complete_cnt).
     Inr (rkgm # rkgms, members, complete_cnt)))"

definition blacklisted :: "rd_kafka_pattern_list option \<Rightarrow> string \<Rightarrow> bool" where
  "blacklisted plist topic = (case plist of None \<Rightarrow> False | Some plist \<Rightarrow> rd_kafka_pattern_match plist topic)"

fun topics_loop ::
    "regex \<Rightarrow> rd_kafka_pattern_list option \<Rightarrow> nat \<Rightarrow> rd_kafka_metadata_topic list \<Rightarrow> rd_kafka_group_member list \<Rightarrow>
     (rd_kafka_assignor_topic, unit) rd_list \<Rightarrow> (rd_kafka_group_member list \<times> (rd_kafka_assignor_topic, unit) rd_list) res" where
  "topics_loop rx plist ti [] rkgms eligible_topics = Inr (rkgms, eligible_topics)"
| "topics_loop rx plist ti (t # ts) rkgms eligible_topics =
     (if blacklisted plist (mt_topic t) then topics_loop rx plist (Suc ti) ts rkgms eligible_topics
      else
        bindR (rd_list_init (int (length rkgms)) False) (\<lambda>members.
        bindR (match_members rx ti (mt_topic t) 0 rkgms members 0) (\<lambda>(rkgms, members, complete_cnt).
        if rd_list_empty members then topics_loop rx plist (Suc ti) ts rkgms eligible_topics
        else
          bindR (rd_list_add eligible_topics (Some \<lparr>at_metadata = t, at_members = members\<rparr>)) (\<lambda>(eligible_topics, s).
          if complete_cnt = int (length rkgms) then Inr (rkgms, eligible_topics)
          else topics_loop rx plist (Suc ti) ts rkgms eligible_topics))))"

definition rd_kafka_member_subscriptions_map ::
    "regex \<Rightarrow> rd_kafka_pattern_list option \<Rightarrow> rd_kafka_metadata_topic list \<Rightarrow> rd_kafka_group_member list \<Rightarrow>
     (rd_kafka_group_member list \<times> (rd_kafka_assignor_topic, unit) rd_list) res" where
  "rd_kafka_member_subscriptions_map rx plist metadata rkgms =
     bindR (rd_list_init (min (int (length metadata)) 10) True) (\<lambda>eligible_topics.
     topics_loop rx plist 0 metadata rkgms eligible_topics)"

section \<open>The range assignor\<close>

text \<open>Appending partitions to the assignment of the member at an index.\<close>

definition assign_range :: "rd_kafka_group_member list \<Rightarrow> nat \<Rightarrow> string \<Rightarrow> int \<Rightarrow> int \<Rightarrow> rd_kafka_group_member list res" where
  "assign_range rkgms m topic start stop =
     bindR (check Out_Of_Bounds (m < length rkgms)) (\<lambda>_.
     bindR (rd_kafka_topic_partition_list_add_range (rkgm_assignment (rkgms ! m)) topic start stop) (\<lambda>l.
     Inr (rkgms[m := (rkgms ! m)\<lparr>rkgm_assignment := l\<rparr>])))"

function range_loop ::
    "rd_kafka_group_member list \<Rightarrow> (nat, unit) rd_list \<Rightarrow> string \<Rightarrow> int \<Rightarrow> int \<Rightarrow> int \<Rightarrow> rd_kafka_group_member list res" where
  "range_loop rkgms members topic numPartitionsPerConsumer consumersWithExtraPartition i =
     (if i < rd_list_cnt members then
        bindR (bindR (rd_list_elem members i) (derefR Null_Deref)) (\<lambda>m.
        let start = numPartitionsPerConsumer * i + min i consumersWithExtraPartition;
            len = numPartitionsPerConsumer + (if i + 1 > consumersWithExtraPartition then 0 else 1)
        in bindR (if len = 0 then Inr rkgms else assign_range rkgms m topic start (start + len - 1)) (\<lambda>rkgms.
           range_loop rkgms members topic numPartitionsPerConsumer consumersWithExtraPartition (i + 1)))
      else Inr rkgms)"
  by pat_completeness auto
termination
  by (relation "measure (\<lambda>(rkgms, members, topic, n, e, i). nat (rd_list_cnt members - i))") auto

declare range_loop.simps [simp del]

type_synonym 'a sorter = "('a \<Rightarrow> 'a \<Rightarrow> int) \<Rightarrow> 'a list \<Rightarrow> 'a list"

text \<open>The comparator gets pointers to members.\<close>

definition range_topic :: "nat sorter \<Rightarrow> rd_kafka_group_member list \<Rightarrow> rd_kafka_assignor_topic \<Rightarrow> rd_kafka_group_member list res" where
  "range_topic qs rkgms et =
     bindR (rd_list_sort qs (at_members et) (\<lambda>a b. rd_kafka_group_member_cmp (rkgms ! a) (rkgms ! b))) (\<lambda>members.
     bindR (check Div_By_Zero (rd_list_cnt members \<noteq> 0)) (\<lambda>_.
     range_loop rkgms members (mt_topic (at_metadata et))
       (mt_partition_cnt (at_metadata et) sdiv rd_list_cnt members)
       (mt_partition_cnt (at_metadata et) smod rd_list_cnt members) 0))"

fun range_topics :: "nat sorter \<Rightarrow> rd_kafka_group_member list \<Rightarrow> rd_kafka_assignor_topic list \<Rightarrow> rd_kafka_group_member list res" where
  "range_topics qs rkgms [] = Inr rkgms"
| "range_topics qs rkgms (et # ets) = bindR (range_topic qs rkgms et) (\<lambda>rkgms. range_topics qs rkgms ets)"

text \<open>An assignment callback: the members and the eligible topics, to the members and the error code.\<close>

type_synonym assign_cb = "rd_kafka_group_member list \<Rightarrow> rd_kafka_assignor_topic list \<Rightarrow> (rd_kafka_group_member list \<times> int) res"

definition rd_kafka_range_assignor_assign_cb :: "nat sorter \<Rightarrow> assign_cb" where
  "rd_kafka_range_assignor_assign_cb qs rkgms eligible_topics =
     bindR (range_topics qs rkgms eligible_topics) (\<lambda>rkgms. Inr (rkgms, 0))"

section \<open>The round robin assignor\<close>

function next_subscriber :: "regex \<Rightarrow> rd_kafka_group_member list \<Rightarrow> string \<Rightarrow> nat \<Rightarrow> nat res" where
  "next_subscriber rx rkgms topic nx =
     (if nx < length rkgms then
        if \<not> rd_kafka_group_member_find_subscription rx (rkgms ! nx) topic then next_subscriber rx rkgms topic (nx + 1)
        else Inr nx
      else Inl Out_Of_Bounds)"
  by pat_completeness auto
termination by (relation "measure (\<lambda>(rx, rkgms, topic, nx). length rkgms - nx)") auto

declare next_subscriber.simps [simp del]

function roundrobin_partitions ::
    "regex \<Rightarrow> rd_kafka_group_member list \<Rightarrow> rd_kafka_assignor_topic \<Rightarrow> int \<Rightarrow> nat \<Rightarrow> (rd_kafka_group_member list \<times> nat) res" where
  "roundrobin_partitions rx rkgms et part nx =
     (if part < mt_partition_cnt (at_metadata et) then
        bindR (next_subscriber rx rkgms (mt_topic (at_metadata et)) nx) (\<lambda>nx.
        bindR (rd_kafka_topic_partition_list_add (rkgm_assignment (rkgms ! nx)) (mt_topic (at_metadata et)) part) (\<lambda>l.
        bindR (check Div_By_Zero (rd_list_cnt (at_members et) \<noteq> 0)) (\<lambda>_.
        roundrobin_partitions rx (rkgms[nx := (rkgms ! nx)\<lparr>rkgm_assignment := l\<rparr>]) et (part + 1)
          (nat (int (nx + 1) smod rd_list_cnt (at_members et))))))
      else Inr (rkgms, nx))"
  by pat_completeness auto
termination
  by (relation "measure (\<lambda>(rx, rkgms, et, part, nx). nat (mt_partition_cnt (at_metadata et) - part))") auto

declare roundrobin_partitions.simps [simp del]

fun roundrobin_topics ::
    "regex \<Rightarrow> rd_kafka_group_member list \<Rightarrow> rd_kafka_assignor_topic list \<Rightarrow> nat \<Rightarrow> rd_kafka_group_member list res" where
  "roundrobin_topics rx rkgms [] nx = Inr rkgms"
| "roundrobin_topics rx rkgms (et # ets) nx =
     bindR (roundrobin_partitions rx rkgms et 0 nx) (\<lambda>(rkgms, nx). roundrobin_topics rx rkgms ets nx)"

definition rd_kafka_roundrobin_assignor_assign_cb ::
    "regex \<Rightarrow> rd_kafka_assignor_topic sorter \<Rightarrow> rd_kafka_group_member sorter \<Rightarrow> assign_cb" where
  "rd_kafka_roundrobin_assignor_assign_cb rx qst qsm rkgms eligible_topics =
     bindR (roundrobin_topics rx (qsm rd_kafka_group_member_cmp rkgms) (qst rd_kafka_assignor_topic_cmp eligible_topics) 0)
       (\<lambda>rkgms. Inr (rkgms, 0))"

section \<open>Configured assignors\<close>

record rd_kafka_assignor =
  rkas_protocol_type :: string
  rkas_protocol_name :: string
  rkas_enabled :: bool
  rkas_assign_cb :: assign_cb

text \<open>The list of assignors, which is only appended to and scanned from the front.\<close>

record assignor_conf =
  group_protocol_type :: string
  partition_assignors :: "rd_kafka_assignor list"
  enabled_assignor_cnt :: int

definition rd_kafka_assignor_cmp_str :: "string \<Rightarrow> rd_kafka_assignor \<Rightarrow> int" where
  "rd_kafka_assignor_cmp_str a b = rd_kafkap_str_cmp a (rkas_protocol_name b)"

text \<open>The index of the first assignor with the name, or \<open>None\<close>.\<close>

fun assignor_scan :: "string \<Rightarrow> nat \<Rightarrow> rd_kafka_assignor list \<Rightarrow> nat option" where
  "assignor_scan protocol i [] = None"
| "assignor_scan protocol i (rkas # rest) =
     (if rd_kafka_assignor_cmp_str protocol rkas = 0 then Some i else assignor_scan protocol (Suc i) rest)"

definition rd_kafka_assignor_find :: "assignor_conf \<Rightarrow> string \<Rightarrow> nat option" where
  "rd_kafka_assignor_find conf protocol = assignor_scan protocol 0 (partition_assignors conf)"

text \<open>The configuration, the assignor pointed to afterwards, and the error code.\<close>

definition rd_kafka_assignor_add :: "assignor_conf \<Rightarrow> string \<Rightarrow> string \<Rightarrow> assign_cb \<Rightarrow> assignor_conf \<times> nat option \<times> int" where
  "rd_kafka_assignor_add conf protocol_type protocol_name assign_cb =
     (if rd_kafkap_str_cmp (group_protocol_type conf) protocol_type \<noteq> 0
      then (conf, None, RD_KAFKA_RESP_ERR__UNKNOWN_PROTOCOL)
      else
        case rd_kafka_assignor_find conf protocol_name of
          Some i \<Rightarrow> (conf, Some i, RD_KAFKA_RESP_ERR__CONFLICT)
        | None \<Rightarrow>
            (conf\<lparr>partition_assignors := partition_assignors conf @
               [\<lparr>rkas_protocol_type = protocol_type, rkas_protocol_name = protocol_name, rkas_enabled = False,
                 rkas_assign_cb = assign_cb\<rparr>]\<rparr>,
             Some (length (partition_assignors conf)), RD_KAFKA_RESP_ERR_NO_ERROR))"

text \<open>Reading a C string, whose end is a NUL character.\<close>

definition c_char :: "string \<Rightarrow> int \<Rightarrow> char" where
  "c_char s i = (if i < int (length s) then s ! nat i else CHR 0x00)"

definition isspace :: "char \<Rightarrow> bool" where
  "isspace c \<longleftrightarrow> c = CHR '' '' \<or> (9 \<le> (of_char c :: nat) \<and> (of_char c :: nat) \<le> 13)"

function rtrim_loop :: "string \<Rightarrow> int \<Rightarrow> int" where
  "rtrim_loop s e = (if 0 \<le> e \<and> isspace (c_char s e) then rtrim_loop s (e - 1) else e)"
  by pat_completeness auto
termination by (relation "measure (\<lambda>(s, e). nat (e + 1))") auto

declare rtrim_loop.simps [simp del]

text \<open>Writing the NUL before the start of the string is outside of it.\<close>

definition rtrim :: "string \<Rightarrow> string res" where
  "rtrim s =
     (if s = [] then Inr s
      else
        let e = rtrim_loop s (int (length s))
        in bindR (check Out_Of_Bounds (0 \<le> e)) (\<lambda>_. Inr (take (nat e) s)))"

definition enable :: "assignor_conf \<Rightarrow> nat option \<Rightarrow> assignor_conf" where
  "enable conf rkas =
     (case rkas of
        None \<Rightarrow> conf
      | Some i \<Rightarrow>
          if \<not> rkas_enabled (partition_assignors conf ! i) then
            conf\<lparr>partition_assignors := (partition_assignors conf)[i := (partition_assignors conf ! i)\<lparr>rkas_enabled := True\<rparr>],
                 enabled_assignor_cnt := enabled_assignor_cnt conf + 1\<rparr>
          else conf)"

lemma drop_comma_shorter:
  "s \<noteq> [] \<Longrightarrow> length (drop 1 (dropWhile P (dropWhile Q s))) < length s"
  by (rule le_less_trans [of _ "length s - 1"])
    (auto intro!: diff_le_mono order_trans [OF length_dropWhile_le length_dropWhile_le])

text \<open>\<open>None\<close> when the strategy is not supported; \<open>cbs\<close> are the two builtin callbacks.\<close>

function assignors_loop :: "assign_cb \<times> assign_cb \<Rightarrow> assignor_conf \<Rightarrow> string \<Rightarrow> assignor_conf option res" where
  "assignors_loop cbs conf s =
     (if s = [] then Inr (Some conf)
      else
        let w = dropWhile (\<lambda>c. c = CHR '' '' \<or> c = CHR '','') s;
            name = takeWhile (\<lambda>c. c \<noteq> CHR '','') w;
            t = drop 1 (dropWhile (\<lambda>c. c \<noteq> CHR '','') w)
        in bindR (rtrim name) (\<lambda>name.
           if strcmp name ''range'' = 0 then
             let (conf, rkas, err) = rd_kafka_assignor_add conf ''consumer'' ''range'' (fst cbs)
             in assignors_loop cbs (enable conf rkas) t
           else if strcmp name ''roundrobin'' = 0 then
             let (conf, rkas, err) = rd_kafka_assignor_add conf ''consumer'' ''roundrobin'' (snd cbs)
             in assignors_loop cbs (enable conf rkas) t
           else Inr None))"
  by pat_completeness auto
termination
  by (relation "measure (\<lambda>(cbs, conf, s). length s)") (use drop_comma_shorter in auto)

declare assignors_loop.simps [simp del]

definition rd_kafka_assignors_init :: "assign_cb \<times> assign_cb \<Rightarrow> assignor_conf \<Rightarrow> string \<Rightarrow> assignor_conf option res" where
  "rd_kafka_assignors_init cbs conf strategy =
     assignors_loop cbs (conf\<lparr>partition_assignors := []\<rparr>) strategy"

section \<open>Running an assignor\<close>

text \<open>The elements of a list, for a callee that gets the array.\<close>

definition list_elems :: "('a, 'm) rd_list \<Rightarrow> 'a list res" where
  "list_elems rl = read_elems (take (nat (rl_cnt rl)) (case rl_elems rl of None \<Rightarrow> [] | Some es \<Rightarrow> es))"

definition rd_kafka_assignor_run ::
    "regex \<Rightarrow> rd_kafka_pattern_list option \<Rightarrow> assignor_conf \<Rightarrow> string \<Rightarrow> rd_kafka_metadata_topic list \<Rightarrow>
     rd_kafka_group_member list \<Rightarrow> (rd_kafka_group_member list \<times> int) res" where
  "rd_kafka_assignor_run rx plist conf protocol_name metadata rkgms =
     (case rd_kafka_assignor_find conf protocol_name of
        None \<Rightarrow> Inr (rkgms, RD_KAFKA_RESP_ERR__UNKNOWN_PROTOCOL)
      | Some i \<Rightarrow>
          if \<not> rkas_enabled (partition_assignors conf ! i) then Inr (rkgms, RD_KAFKA_RESP_ERR__UNKNOWN_PROTOCOL)
          else
            bindR (rd_kafka_member_subscriptions_map rx plist metadata rkgms) (\<lambda>(rkgms, eligible_topics).
            bindR (list_elems eligible_topics) (\<lambda>ets.
            bindR (rkas_assign_cb (partition_assignors conf ! i) rkgms ets) (\<lambda>(rkgms, err).
            bindR (rd_list_destroy eligible_topics) (\<lambda>_.
            Inr (rkgms, err))))))"

end
