(* ===== verification/Range_Assignor.thy ===== *)
theory Range_Assignor
  imports Assignors
begin

text \<open>
  What the range assignor does: the partitions of a topic are cut into consecutive ranges, one for
  each subscribing member in the order of the member names, whose sizes differ by at most one.
\<close>

section \<open>Comparators\<close>

lemma strcmp_prefixes:
  "strcmp a b = (let r = strcmp (take (min (length a) (length b)) a) (take (min (length a) (length b)) b)
     in if r \<noteq> 0 then r else sgn (int (length a) - int (length b)))"
  by (induction a b rule: strcmp.induct) (auto simp: Let_def)

lemma sgn_strcmp: "sgn (strcmp a b) = strcmp a b"
  by (induction a b rule: strcmp.induct) auto

lemma rd_kafkap_str_cmp_sgn: "sgn (rd_kafkap_str_cmp a b) = strcmp a b"
  using strcmp_prefixes [of a b] sgn_strcmp by (auto simp: rd_kafkap_str_cmp_def memcmp_def Let_def)

lemma rd_kafkap_str_cmp_0: "rd_kafkap_str_cmp a b = 0 \<longleftrightarrow> a = b"
  using rd_kafkap_str_cmp_sgn [of a b] strcmp_eq_0 [of a b] by (metis sgn_0 sgn_0_0)

lemma rd_kafkap_str_cmp_le: "rd_kafkap_str_cmp a b \<le> 0 \<longleftrightarrow> strcmp a b \<le> 0"
  unfolding rd_kafkap_str_cmp_sgn [of a b, symmetric] by (simp add: sgn_if)

lemma member_cmp_ok: "cmp_ok (\<lambda>a b. rd_kafka_group_member_cmp (f a) (f b)) S"
  using strcmp_ok_key [of "\<lambda>x. rkgm_member_id (f x)" S]
  unfolding cmp_ok_def rd_kafka_group_member_cmp_def rd_kafkap_str_cmp_le .

section \<open>Shares\<close>

text \<open>Where the range of the \<open>i\<close>th of \<open>n\<close> members begins.\<close>

definition share_start :: "int \<Rightarrow> nat \<Rightarrow> nat \<Rightarrow> int" where
  "share_start cnt n i = cnt div int n * int i + min (int i) (cnt mod int n)"

lemma share_start_0 [simp]: "0 \<le> cnt \<Longrightarrow> 0 < n \<Longrightarrow> share_start cnt n 0 = 0"
  by (simp add: share_start_def)

lemma share_start_n [simp]: "0 < n \<Longrightarrow> share_start cnt n n = cnt"
proof -
  assume "0 < n"
  then have "cnt mod int n < int n" by simp
  then have "min (int n) (cnt mod int n) = cnt mod int n" by linarith
  then show ?thesis by (simp add: share_start_def mult.commute)
qed

lemma share_start_Suc:
  "share_start cnt n (Suc i) = share_start cnt n i + cnt div int n + (if int i < cnt mod int n then 1 else 0)"
  by (simp add: share_start_def algebra_simps)

lemma share_start_mono:
  assumes "0 \<le> cnt" "0 < n" "i \<le> j"
  shows "share_start cnt n i \<le> share_start cnt n j"
  using assms(3)
proof (induction rule: dec_induct)
  case (step k)
  have "0 \<le> cnt div int n" using assms by (simp add: pos_imp_zdiv_nonneg_iff)
  then show ?case using step by (simp add: share_start_Suc)
qed simp

text \<open>The partitions that the member \<open>j\<close> gets when the members \<open>ms\<close> are served from position \<open>i\<close> on.\<close>

fun share :: "int \<Rightarrow> nat \<Rightarrow> nat \<Rightarrow> nat list \<Rightarrow> nat \<Rightarrow> int list" where
  "share cnt n i [] j = []"
| "share cnt n i (m # ms) j =
     (if m = j then [share_start cnt n i..share_start cnt n (Suc i) - 1] else []) @ share cnt n (Suc i) ms j"

lemma share_bounds:
  "0 \<le> cnt \<Longrightarrow> 0 < n \<Longrightarrow> p \<in> set (share cnt n i ms j) \<Longrightarrow>
   share_start cnt n i \<le> p \<and> p < share_start cnt n (i + length ms)"
proof (induction ms arbitrary: i)
  case (Cons m ms)
  show ?case
  proof (cases "p \<in> set (share cnt n (Suc i) ms j)")
    case True
    then show ?thesis using Cons.IH [OF Cons.prems(1,2) True] share_start_mono [OF Cons.prems(1,2), of i "Suc i"] by simp
  next
    case False
    then show ?thesis using Cons.prems share_start_mono [OF Cons.prems(1,2), of "Suc i" "Suc (i + length ms)"]
      by (auto split: if_splits)
  qed
qed simp

lemma share_length_le:
  "0 \<le> cnt \<Longrightarrow> 0 < n \<Longrightarrow>
   int (length (share cnt n i ms j)) \<le> share_start cnt n (i + length ms) - share_start cnt n i"
proof (induction ms arbitrary: i)
  case (Cons m ms)
  show ?case using Cons.IH [OF Cons.prems, of "Suc i"] share_start_mono [OF Cons.prems, of i "Suc i"] by simp
qed simp

lemma count_list_distinct: "distinct xs \<Longrightarrow> count_list xs x = (if x \<in> set xs then 1 else 0)"
  by (induction xs) auto

text \<open>Every partition of the served range goes to exactly one member, once.\<close>

lemma share_count:
  assumes "0 \<le> cnt" "0 < n" "set ms \<subseteq> {..<N}"
  shows "(\<Sum>j<N. count_list (share cnt n i ms j) p) =
    (if share_start cnt n i \<le> p \<and> p < share_start cnt n (i + length ms) then 1 else 0)"
  using assms(3)
proof (induction ms arbitrary: i)
  case (Cons m ms)
  let ?h = "[share_start cnt n i..share_start cnt n (Suc i) - 1]"
  have m: "m < N" using Cons.prems by simp
  have le: "share_start cnt n i \<le> share_start cnt n (Suc i)" "share_start cnt n (Suc i) \<le> share_start cnt n (Suc i + length ms)"
    using assms(1,2) by (auto intro: share_start_mono)
  have "(\<Sum>j<N. count_list (if m = j then ?h else []) p) = (\<Sum>j<N. if m = j then count_list ?h p else 0)"
    by (rule sum.cong) auto
  also have "\<dots> = count_list ?h p" using m by simp
  also have "\<dots> = (if share_start cnt n i \<le> p \<and> p < share_start cnt n (Suc i) then 1 else 0)"
    by (simp add: count_list_distinct)
  finally have "(\<Sum>j<N. count_list (if m = j then ?h else []) p) =
      (if share_start cnt n i \<le> p \<and> p < share_start cnt n (Suc i) then 1 else 0)" .
  then show ?case using Cons.IH [of "Suc i"] Cons.prems le by (auto simp: sum.distrib count_list_append)
qed simp

text \<open>Members served once get \<open>cnt div n\<close> partitions or one more, the others none.\<close>

lemma share_none: "j \<notin> set ms \<Longrightarrow> share cnt n i ms j = []"
  by (induction ms arbitrary: i) auto

lemma share_size:
  "distinct ms \<Longrightarrow> j \<in> set ms \<Longrightarrow> 0 \<le> cnt \<Longrightarrow> 0 < n \<Longrightarrow>
   int (length (share cnt n i ms j)) \<in> {cnt div int n, cnt div int n + 1}"
proof (induction ms arbitrary: i)
  case (Cons m ms)
  have "0 \<le> cnt div int n" using Cons.prems by (simp add: pos_imp_zdiv_nonneg_iff)
  then show ?case using Cons by (auto simp: share_none share_start_Suc)
qed simp

section \<open>Members with longer assignments\<close>

abbreviation assigned :: "rd_kafka_group_member list \<Rightarrow> nat \<Rightarrow> rd_kafka_topic_partition list" where
  "assigned rkgms j \<equiv> elems (rkgm_assignment (rkgms ! j))"

definition extends :: "rd_kafka_group_member list \<Rightarrow> (nat \<Rightarrow> rd_kafka_topic_partition list) \<Rightarrow> rd_kafka_group_member list \<Rightarrow> bool" where
  "extends rkgms f rkgms' \<longleftrightarrow>
     length rkgms' = length rkgms \<and>
     (\<forall>j<length rkgms. list_ok (rkgm_assignment (rkgms' ! j)) \<and> assigned rkgms' j = assigned rkgms j @ f j \<and>
        rkgms' ! j = (rkgms ! j)\<lparr>rkgm_assignment := rkgm_assignment (rkgms' ! j)\<rparr>)"

definition members_ok :: "rd_kafka_group_member list \<Rightarrow> int \<Rightarrow> bool" where
  "members_ok rkgms room \<longleftrightarrow>
     (\<forall>j<length rkgms. list_ok (rkgm_assignment (rkgms ! j)) \<and> int (length (assigned rkgms j)) + room \<le> 2 ^ 29)"

lemma extends_refl: "members_ok rkgms room \<Longrightarrow> extends rkgms (\<lambda>j. []) rkgms"
  by (simp add: extends_def members_ok_def)

lemma extends_trans:
  assumes "extends rkgms f rkgms1" "extends rkgms1 g rkgms2"
  shows "extends rkgms (\<lambda>j. f j @ g j) rkgms2"
  unfolding extends_def
proof (intro conjI allI impI)
  show "length rkgms2 = length rkgms" using assms by (simp add: extends_def)
  fix j assume j: "j < length rkgms"
  have 1: "assigned rkgms1 j = assigned rkgms j @ f j" "rkgms1 ! j = (rkgms ! j)\<lparr>rkgm_assignment := rkgm_assignment (rkgms1 ! j)\<rparr>"
    using assms(1) j by (simp_all add: extends_def)
  have 2: "list_ok (rkgm_assignment (rkgms2 ! j))" "assigned rkgms2 j = assigned rkgms1 j @ g j"
      "rkgms2 ! j = (rkgms1 ! j)\<lparr>rkgm_assignment := rkgm_assignment (rkgms2 ! j)\<rparr>"
    using assms j by (simp_all add: extends_def)
  show "list_ok (rkgm_assignment (rkgms2 ! j))" by (rule 2(1))
  show "assigned rkgms2 j = assigned rkgms j @ f j @ g j" by (simp add: 1(1) 2(2))
  show "rkgms2 ! j = (rkgms ! j)\<lparr>rkgm_assignment := rkgm_assignment (rkgms2 ! j)\<rparr>"
    by (subst 2(3), subst 1(2)) simp
qed

lemma extends_ids: "extends rkgms f rkgms' \<Longrightarrow> j < length rkgms \<Longrightarrow> rkgm_member_id (rkgms' ! j) = rkgm_member_id (rkgms ! j)"
  by (metis extends_def rd_kafka_group_member.select_convs(4) rd_kafka_group_member.surjective rd_kafka_group_member.update_convs(2))

lemma extends_members_ok:
  assumes "extends rkgms f rkgms'" "members_ok rkgms room" "\<And>j. int (length (f j)) \<le> room - room'"
  shows "members_ok rkgms' room'"
  unfolding members_ok_def
proof (intro allI impI)
  fix j assume "j < length rkgms'"
  then have "int (length (assigned rkgms j)) + room \<le> 2 ^ 29" "assigned rkgms' j = assigned rkgms j @ f j" "list_ok (rkgm_assignment (rkgms' ! j))"
    using assms(1,2) by (simp_all add: extends_def members_ok_def)
  then show "list_ok (rkgm_assignment (rkgms' ! j)) \<and> int (length (assigned rkgms' j)) + room' \<le> 2 ^ 29"
    using assms(3) [of j] by simp
qed

lemma assign_range_extends:
  assumes "m < length rkgms" "members_ok rkgms (max 0 (b + 1 - a))" "b < 2147483647"
  shows "\<exists>rkgms'. assign_range rkgms m topic a b = Inr rkgms' \<and>
    extends rkgms (\<lambda>j. if j = m then map (fresh_par topic) [a..b] else []) rkgms'"
proof -
  have "list_ok (rkgm_assignment (rkgms ! m))" "int (length (assigned rkgms m)) + max 0 (b + 1 - a) \<le> 2 ^ 29"
    using assms(1,2) by (simp_all add: members_ok_def)
  from add_range_ok [OF this assms(3)] obtain l
    where l: "rd_kafka_topic_partition_list_add_range (rkgm_assignment (rkgms ! m)) topic a b = Inr l" "list_ok l"
      "elems l = assigned rkgms m @ map (fresh_par topic) [a..b]" by blast
  have "extends rkgms (\<lambda>j. if j = m then map (fresh_par topic) [a..b] else []) (rkgms[m := (rkgms ! m)\<lparr>rkgm_assignment := l\<rparr>])"
    using assms(1,2) l by (simp add: extends_def nth_list_update members_ok_def)
  then show ?thesis using assms(1) l by (simp add: assign_range_def)
qed

section \<open>One topic\<close>

lemma range_loop_step:
  assumes rep: "rl_rep members ms" and i: "i < length ms"
  shows "range_loop rkgms members topic q e (int i) =
    bindR (if q + (if int i + 1 > e then 0 else 1) = 0 then Inr rkgms
           else assign_range rkgms (ms ! i) topic (q * int i + min (int i) e)
             (q * int i + min (int i) e + (q + (if int i + 1 > e then 0 else 1)) - 1)) (\<lambda>rkgms.
    range_loop rkgms members topic q e (int i + 1))"
  using i rd_list_elem_rep [OF rep, of i]
  by (subst range_loop.simps) (simp only: rd_list_cnt_def rl_rep_cnt [OF rep] Let_def of_nat_less_iff if_True bindR_Inr derefR_Some)

lemma range_loop_extends:
  assumes rep: "rl_rep members ms" and ms: "ms \<noteq> []" "set ms \<subseteq> {..<length rkgms}" and cnt: "0 \<le> cnt" "cnt \<le> 2 ^ 29"
    and i: "i \<le> length ms" and ok: "members_ok rkgms (cnt - share_start cnt (length ms) i)"
  shows "\<exists>rkgms'. range_loop rkgms members topic (cnt div int (length ms)) (cnt mod int (length ms)) (int i) = Inr rkgms' \<and>
    extends rkgms (\<lambda>j. map (fresh_par topic) (share cnt (length ms) i (drop i ms) j)) rkgms'"
  using i ok ms(2)
proof (induction "length ms - i" arbitrary: i rkgms)
  case 0
  then show ?case using extends_refl rep
    by (subst range_loop.simps) (simp add: rd_list_cnt_def rl_rep_cnt)
next
  case (Suc k)
  let ?n = "length ms"
  let ?a = "share_start cnt ?n i" and ?b = "share_start cnt ?n (Suc i) - 1"
  have n: "0 < ?n" and i: "i < ?n" using Suc.hyps(2) ms(1) by simp_all
  have mono: "?a \<le> share_start cnt ?n (Suc i)" "share_start cnt ?n (Suc i) \<le> share_start cnt ?n ?n"
    by (rule share_start_mono; use i cnt n in simp)+
  have stop: "?b < 2147483647" using mono(2) n cnt(2) by simp
  have m: "ms ! i < length rkgms" using Suc.prems(3) i by (meson lessThan_iff nth_mem subsetD)
  let ?f = "\<lambda>j. if j = ms ! i then map (fresh_par topic) [?a..?b] else []"
  have len: "cnt div int ?n + (if int i + 1 > cnt mod int ?n then 0 else 1) = ?b + 1 - ?a"
    by (simp add: share_start_Suc)
  have start: "cnt div int ?n * int i + min (int i) (cnt mod int ?n) = ?a" by (simp add: share_start_def)
  have "\<exists>rkgms1. (if ?b + 1 - ?a = 0 then Inr rkgms else assign_range rkgms (ms ! i) topic ?a (?a + (?b + 1 - ?a) - 1)) = Inr rkgms1 \<and>
      extends rkgms ?f rkgms1"
  proof (cases "?b + 1 - ?a = 0")
    case True
    then have "?f = (\<lambda>j. [])" by auto
    then show ?thesis using True extends_refl [OF Suc.prems(2)] by simp
  next
    case False
    have "members_ok rkgms (max 0 (?b + 1 - ?a))"
      using Suc.prems(2) mono n by (fastforce simp: members_ok_def)
    then show ?thesis using False assign_range_extends [OF m _ stop, of ?a topic] by simp
  qed
  then obtain rkgms1 where r1: "(if ?b + 1 - ?a = 0 then Inr rkgms else assign_range rkgms (ms ! i) topic ?a (?a + (?b + 1 - ?a) - 1)) = Inr rkgms1"
      "extends rkgms ?f rkgms1" by blast
  have ok1: "members_ok rkgms1 (cnt - share_start cnt ?n (Suc i))"
    by (rule extends_members_ok [OF r1(2) Suc.prems(2)]) (use mono in auto)
  have sub: "set ms \<subseteq> {..<length rkgms1}" using Suc.prems(3) r1(2) by (simp add: extends_def)
  have k: "k = ?n - Suc i" using Suc.hyps(2) by simp
  obtain rkgms2 where r2: "range_loop rkgms1 members topic (cnt div int ?n) (cnt mod int ?n) (int i + 1) = Inr rkgms2"
      "extends rkgms1 (\<lambda>j. map (fresh_par topic) (share cnt ?n (Suc i) (drop (Suc i) ms) j)) rkgms2"
    using Suc.hyps(1) [OF k _ ok1 sub] i by (auto simp: add.commute)
  have "range_loop rkgms members topic (cnt div int ?n) (cnt mod int ?n) (int i) = Inr rkgms2"
    unfolding range_loop_step [OF rep i] start len r1(1) using r2(1) by simp
  moreover have "(\<lambda>j. ?f j @ map (fresh_par topic) (share cnt ?n (Suc i) (drop (Suc i) ms) j)) =
      (\<lambda>j. map (fresh_par topic) (share cnt ?n i (drop i ms) j))"
    using i by (auto simp: Cons_nth_drop_Suc [symmetric])
  ultimately show ?case using extends_trans [OF r1(2) r2(2)] by metis
qed

section \<open>All topics\<close>

abbreviation et_topic :: "rd_kafka_assignor_topic \<Rightarrow> string" where
  "et_topic et \<equiv> mt_topic (at_metadata et)"

abbreviation et_cnt :: "rd_kafka_assignor_topic \<Rightarrow> int" where
  "et_cnt et \<equiv> mt_partition_cnt (at_metadata et)"

text \<open>An eligible topic: a set of members, and a number of partitions.\<close>

definition et_ok :: "nat \<Rightarrow> rd_kafka_assignor_topic \<Rightarrow> bool" where
  "et_ok n et \<longleftrightarrow>
     (\<exists>ms. rl_rep (at_members et) ms \<and> ms \<noteq> [] \<and> distinct ms \<and> set ms \<subseteq> {..<n}) \<and> 0 \<le> et_cnt et \<and> et_cnt et \<le> 2 ^ 29"

text \<open>The members of the topic in the order of their names.\<close>

definition served :: "rd_kafka_group_member list \<Rightarrow> rd_kafka_assignor_topic \<Rightarrow> nat list \<Rightarrow> bool" where
  "served rkgms et ms \<longleftrightarrow>
     (\<exists>us. rl_rep (at_members et) us \<and> mset ms = mset us) \<and>
     sorted_wrt (\<lambda>a b. strcmp (rkgm_member_id (rkgms ! a)) (rkgm_member_id (rkgms ! b)) \<le> 0) ms"

abbreviation et_share :: "rd_kafka_assignor_topic \<Rightarrow> nat list \<Rightarrow> nat \<Rightarrow> rd_kafka_topic_partition list" where
  "et_share et ms j \<equiv> map (fresh_par (et_topic et)) (share (et_cnt et) (length ms) 0 ms j)"

lemma sdiv_nonneg: "0 \<le> a \<Longrightarrow> 0 \<le> b \<Longrightarrow> a sdiv b = a div b" "0 \<le> a \<Longrightarrow> 0 \<le> b \<Longrightarrow> a smod b = a mod (b :: int)"
  by (auto simp: signed_divide_int_def signed_modulo_int_def sgn_if)

lemma served_facts:
  assumes "served rkgms et ms" "et_ok n et"
  shows "ms \<noteq> [] \<and> distinct ms \<and> set ms \<subseteq> {..<n}"
proof -
  obtain us where us: "rl_rep (at_members et) us" "mset ms = mset us" using assms(1) by (auto simp: served_def)
  obtain vs where vs: "rl_rep (at_members et) vs" "vs \<noteq> []" "distinct vs" "set vs \<subseteq> {..<n}" using assms(2) by (auto simp: et_ok_def)
  have "us = vs" using us(1) vs(1) by (rule rl_rep_unique)
  then show ?thesis using us(2) vs by (metis mset_eq_imp_distinct_iff mset_eq_setD set_empty)
qed

lemma range_topic_extends:
  assumes "c_qsort qs" "et_ok (length rkgms) et" "members_ok rkgms (et_cnt et)"
  shows "\<exists>rkgms' ms. range_topic qs rkgms et = Inr rkgms' \<and> served rkgms et ms \<and> extends rkgms (et_share et ms) rkgms'"
proof -
  let ?cmp = "\<lambda>a b. rd_kafka_group_member_cmp (rkgms ! a) (rkgms ! b)"
  obtain us where us: "rl_rep (at_members et) us" "us \<noteq> []" "set us \<subseteq> {..<length rkgms}" and cnt: "0 \<le> et_cnt et" "et_cnt et \<le> 2 ^ 29"
    using assms(2) by (auto simp: et_ok_def)
  let ?ms = "qs ?cmp us"
  obtain members where mem: "rd_list_sort qs (at_members et) ?cmp = Inr members" "rl_rep members ?ms"
    using rd_list_sort_rep [OF assms(1) us(1)] by blast
  have ms: "?ms \<noteq> []" "set ?ms \<subseteq> {..<length rkgms}"
    using us c_qsort.qs_length [OF assms(1), of ?cmp us] c_qsort.qs_set [OF assms(1), of ?cmp us] by auto
  have "sorted_wrt (\<lambda>x y. ?cmp x y \<le> 0) ?ms" by (rule c_qsort.qs_sorted [OF assms(1) member_cmp_ok])
  then have "served rkgms et ?ms"
    using us(1) c_qsort.qs_mset [OF assms(1), of ?cmp us]
    by (auto simp: served_def rd_kafka_group_member_cmp_def rd_kafkap_str_cmp_le)
  moreover have "\<exists>rkgms'. range_loop rkgms members (et_topic et) (et_cnt et div int (length ?ms)) (et_cnt et mod int (length ?ms)) (int 0) = Inr rkgms' \<and>
      extends rkgms (et_share et ?ms) rkgms'"
    using range_loop_extends [OF mem(2) ms cnt, of 0 "et_topic et"] assms(3) cnt(1) ms(1) by simp
  ultimately show ?thesis
    using mem ms(1) cnt(1) by (auto simp: range_topic_def rd_list_cnt_def rl_rep_cnt [OF mem(2)] sdiv_nonneg)
qed

fun shares :: "rd_kafka_assignor_topic list \<Rightarrow> nat list list \<Rightarrow> nat \<Rightarrow> rd_kafka_topic_partition list" where
  "shares (et # ets) (ms # mss) j = et_share et ms j @ shares ets mss j"
| "shares ets mss j = []"

lemma et_share_length:
  assumes "served rkgms et ms" "et_ok n et"
  shows "int (length (et_share et ms j)) \<le> et_cnt et"
  using share_length_le [of "et_cnt et" "length ms" 0 ms j] served_facts [OF assms] assms(2) by (simp add: et_ok_def)

lemma served_cong:
  assumes "extends rkgms f rkgms'" "served rkgms' et ms" "et_ok (length rkgms) et"
  shows "served rkgms et ms"
proof -
  have "set ms \<subseteq> {..<length rkgms}" using served_facts [OF assms(2,3)] by simp
  then show ?thesis using assms(2) extends_ids [OF assms(1)]
    unfolding served_def by (auto elim!: sorted_wrt_mono_rel [rotated] simp: subset_iff)
qed

lemma range_topics_extends:
  assumes "c_qsort qs" "\<forall>et\<in>set ets. et_ok (length rkgms) et" "members_ok rkgms (sum_list (map et_cnt ets))"
  shows "\<exists>rkgms' mss. range_topics qs rkgms ets = Inr rkgms' \<and> list_all2 (served rkgms) ets mss \<and> extends rkgms (shares ets mss) rkgms'"
  using assms(2,3)
proof (induction ets arbitrary: rkgms)
  case Nil
  then show ?case using extends_refl by (auto intro!: exI [of _ "[]"])
next
  case (Cons et ets)
  have pos: "0 \<le> sum_list (map et_cnt ets)" using Cons.prems(1) by (auto intro!: sum_list_nonneg simp: et_ok_def)
  have et: "et_ok (length rkgms) et" using Cons.prems(1) by simp
  have "members_ok rkgms (et_cnt et)" using Cons.prems(2) pos by (fastforce simp: members_ok_def)
  then obtain rkgms1 ms where r1: "range_topic qs rkgms et = Inr rkgms1" "served rkgms et ms" "extends rkgms (et_share et ms) rkgms1"
    using range_topic_extends [OF assms(1) et] by blast
  have "members_ok rkgms1 (sum_list (map et_cnt ets))"
    by (rule extends_members_ok [OF r1(3) Cons.prems(2)]) (use et_share_length [OF r1(2) et] in simp)
  moreover have len: "length rkgms1 = length rkgms" using r1(3) by (simp add: extends_def)
  ultimately obtain rkgms2 mss where r2: "range_topics qs rkgms1 ets = Inr rkgms2" "list_all2 (served rkgms1) ets mss" "extends rkgms1 (shares ets mss) rkgms2"
    using Cons.IH [of rkgms1] Cons.prems(1) by auto
  have "list_all2 (served rkgms) ets mss"
    using r2(2) by (rule list.rel_mono_strong) (use served_cong [OF r1(3)] Cons.prems(1) in auto)
  then show ?case using r1 r2 extends_trans [OF r1(3) r2(3)]
    by (intro exI [of _ rkgms2] exI [of _ "ms # mss"]) simp
qed

section \<open>What a member owns\<close>

definition owned :: "rd_kafka_group_member list \<Rightarrow> nat \<Rightarrow> string \<Rightarrow> int list" where
  "owned rkgms j t = map par_partition (filter (\<lambda>par. par_topic par = t) (assigned rkgms j))"

lemma fresh_par_topic [simp]: "par_topic (rd_kafka_topic_partition_new u p) = u"
  and fresh_par_partition [simp]: "par_partition (rd_kafka_topic_partition_new u p) = p"
  by (simp_all add: rd_kafka_topic_partition_new_def)

lemma shares_topics: "par \<in> set (shares ets mss j) \<Longrightarrow> par_topic par \<in> et_topic ` set ets"
  by (induction ets mss j rule: shares.induct) auto

lemma filter_fresh: "filter (\<lambda>par. par_topic par = t) (map (fresh_par u) ps) = (if u = t then map (fresh_par u) ps else [])"
  by (induction ps) auto

lemma shares_of_topic:
  assumes "list_all2 (served rkgms) ets mss" "distinct (map et_topic ets)"
  shows "(\<exists>et\<in>set ets. \<exists>ms. et_topic et = t \<and> served rkgms et ms \<and>
            (\<forall>j. map par_partition (filter (\<lambda>par. par_topic par = t) (shares ets mss j)) = share (et_cnt et) (length ms) 0 ms j)) \<or>
         (t \<notin> et_topic ` set ets \<and> (\<forall>j. filter (\<lambda>par. par_topic par = t) (shares ets mss j) = []))"
  using assms
proof (induction rule: list_all2_induct)
  case (Cons et ets ms mss)
  show ?case
  proof (cases "et_topic et = t")
    case True
    have "filter (\<lambda>par. par_topic par = t) (shares ets mss j) = []" for j
    proof (rule filter_False, intro ballI notI)
      fix par assume "par \<in> set (shares ets mss j)" "par_topic par = t"
      then have "t \<in> et_topic ` set ets" using shares_topics by blast
      then show False using True Cons.prems by simp
    qed
    then show ?thesis using True Cons.hyps(1) by (auto simp: filter_fresh comp_def)
  next
    case False
    then show ?thesis using Cons.IH Cons.prems by (auto simp: filter_fresh)
  qed
qed simp

end
