(* ===== verification/Assignor_Run.thy ===== *)
theory Assignor_Run
  imports Range_Assignor
begin

text \<open>
  A run of the range assignor: which topics and members \<open>rd_kafka_member_subscriptions_map\<close> finds when
  the members subscribe by name, and that the assignment then covers every partition of the subscribed
  topics exactly once, in shares that differ by at most one.
\<close>

section \<open>Members that subscribe by name\<close>

definition by_name :: "rd_kafka_group_member \<Rightarrow> bool" where
  "by_name rkgm \<longleftrightarrow>
     distinct (map par_topic (elems (rkgm_subscription rkgm))) \<and>
     (\<forall>par\<in>set (elems (rkgm_subscription rkgm)). \<not> is_regex_topic (par_topic par))"

abbreviation sub_topics :: "rd_kafka_group_member \<Rightarrow> string set" where
  "sub_topics rkgm \<equiv> par_topic ` set (elems (rkgm_subscription rkgm))"

lemma match_by_name:
  "\<not> is_regex_topic (par_topic par) \<Longrightarrow> rd_kafka_topic_partition_match rx par topic = (if par_topic par = topic then By_Name else No_Match)"
  by (simp add: rd_kafka_topic_partition_match_def strcmp_eq_0)

lemma find_by_name: "by_name rkgm \<Longrightarrow> rd_kafka_group_member_find_subscription rx rkgm topic \<longleftrightarrow> topic \<in> sub_topics rkgm"
proof -
  have "\<forall>par\<in>set pars. \<not> is_regex_topic (par_topic par) \<Longrightarrow> find_subscription_loop rx pars topic \<longleftrightarrow> topic \<in> par_topic ` set pars" for pars
    by (induction pars) (auto simp: match_by_name)
  then show "by_name rkgm \<Longrightarrow> ?thesis" by (simp add: by_name_def rd_kafka_group_member_find_subscription_def)
qed

lemma subscription_loop_none:
  "\<forall>par\<in>set pars. \<not> is_regex_topic (par_topic par) \<Longrightarrow> topic \<notin> par_topic ` set pars \<Longrightarrow>
   subscription_loop rx ti topic pars el m h = Inr (el, m, h)"
  by (induction pars) (auto simp: match_by_name)

lemma subscription_loop_one:
  assumes "\<forall>par\<in>set pars. \<not> is_regex_topic (par_topic par)" "distinct (map par_topic pars)" "topic \<in> par_topic ` set pars"
  shows "subscription_loop rx ti topic pars el m h = bindR (rd_list_add el (Some ti)) (\<lambda>(el, s). Inr (el, m + 1, h))"
  using assms
proof (induction pars)
  case (Cons par pars)
  show ?case
  proof (cases "par_topic par = topic")
    case True
    then have "subscription_loop rx ti topic pars el m h = Inr (el, m, h)" for el m h
      using Cons.prems by (intro subscription_loop_none) auto
    then show ?thesis using Cons.prems True by (simp add: match_by_name)
  next
    case False
    then show ?thesis using Cons by (auto simp: match_by_name)
  qed
qed simp

lemma subscription_match:
  assumes "by_name rkgm" "rl_rep (rkgm_eligible rkgm) es" "rl_open (rkgm_eligible rkgm)" "length es < 2 ^ 27"
    and "rl_rep members ms" "rl_open members" "length ms < 2 ^ 27"
  shows "\<exists>el es' members'.
    rd_kafka_member_subscription_match rx ti topic i rkgm members =
      Inr (rkgm\<lparr>rkgm_eligible := el\<rparr>, members', length es' = length (elems (rkgm_subscription rkgm))) \<and>
    rl_rep el es' \<and> rl_open el \<and> length es' = length es + (if topic \<in> sub_topics rkgm then 1 else 0) \<and>
    rl_rep members' (ms @ (if topic \<in> sub_topics rkgm then [i] else [])) \<and> rl_open members'"
proof (cases "topic \<in> sub_topics rkgm")
  case True
  obtain el where el: "rd_list_add (rkgm_eligible rkgm) (Some ti) = Inr (el, Elem ti)" "rl_rep el (es @ [ti])" "rl_open el"
    using rd_list_add_open [OF assms(2-4), of ti] by blast
  obtain members' where m: "rd_list_add members (Some i) = Inr (members', Elem i)" "rl_rep members' (ms @ [i])" "rl_open members'"
    using rd_list_add_open [OF assms(5-7), of i] by blast
  have "subscription_loop rx ti topic (elems (rkgm_subscription rkgm)) (rkgm_eligible rkgm) 0 0 = Inr (el, 1, 0)"
    using subscription_loop_one [of "elems (rkgm_subscription rkgm)" topic rx ti "rkgm_eligible rkgm" 0 0] True assms(1) el(1)
    by (simp add: by_name_def)
  moreover have "(rl_cnt el = list_cnt (rkgm_subscription rkgm)) = (length (es @ [ti]) = length (elems (rkgm_subscription rkgm)))"
    unfolding rl_rep_cnt [OF el(2)] of_nat_eq_iff ..
  ultimately have "rd_kafka_member_subscription_match rx ti topic i rkgm members =
      Inr (rkgm\<lparr>rkgm_eligible := el\<rparr>, members', length (es @ [ti]) = length (elems (rkgm_subscription rkgm)))"
    by (simp add: rd_kafka_member_subscription_match_def rd_list_cnt_def m(1))
  then show ?thesis using True el(2,3) m(2,3) by fastforce
next
  case False
  have "subscription_loop rx ti topic (elems (rkgm_subscription rkgm)) (rkgm_eligible rkgm) 0 0 = Inr (rkgm_eligible rkgm, 0, 0)"
    using subscription_loop_none [of "elems (rkgm_subscription rkgm)" topic rx ti "rkgm_eligible rkgm" 0 0] False assms(1)
    by (simp add: by_name_def)
  then have "rd_kafka_member_subscription_match rx ti topic i rkgm members =
      Inr (rkgm\<lparr>rkgm_eligible := rkgm_eligible rkgm\<rparr>, members, length es = length (elems (rkgm_subscription rkgm)))"
    by (simp add: rd_kafka_member_subscription_match_def rd_list_cnt_def rl_rep_cnt [OF assms(2)])
  then show ?thesis using False assms(2,3,5,6) by fastforce
qed

section \<open>All members\<close>

text \<open>The member \<open>b\<close> is \<open>a\<close> after the topics \<open>ts\<close> were matched.\<close>

definition matched :: "string list \<Rightarrow> rd_kafka_group_member \<Rightarrow> rd_kafka_group_member \<Rightarrow> bool" where
  "matched ts a b \<longleftrightarrow>
     (\<exists>el es. b = a\<lparr>rkgm_eligible := el\<rparr> \<and> rl_rep el es \<and> rl_open el \<and>
        length es = length (filter (\<lambda>t. t \<in> sub_topics a) ts))"

definition seen_all :: "string list \<Rightarrow> rd_kafka_group_member \<Rightarrow> bool" where
  "seen_all ts a \<longleftrightarrow> length (filter (\<lambda>t. t \<in> sub_topics a) ts) = length (elems (rkgm_subscription a))"

lemma match_one:
  assumes "matched ts a b" "by_name a" "length ts < 2 ^ 27" "rl_rep members ms" "rl_open members" "length ms < 2 ^ 27"
  shows "\<exists>b' members'. rd_kafka_member_subscription_match rx ti t i b members = Inr (b', members', seen_all (ts @ [t]) a) \<and>
    matched (ts @ [t]) a b' \<and> rl_rep members' (ms @ (if t \<in> sub_topics a then [i] else [])) \<and> rl_open members'"
proof -
  obtain el es where b: "b = a\<lparr>rkgm_eligible := el\<rparr>" "rl_rep el es" "rl_open el" "length es = length (filter (\<lambda>t. t \<in> sub_topics a) ts)"
    using assms(1) by (auto simp: matched_def)
  have "length es < 2 ^ 27" using b(4) assms(3) le_less_trans [OF length_filter_le] by metis
  then obtain el' es' members' where r:
      "rd_kafka_member_subscription_match rx ti t i b members = Inr (b\<lparr>rkgm_eligible := el'\<rparr>, members', length es' = length (elems (rkgm_subscription b)))"
      "rl_rep el' es'" "rl_open el'" "length es' = length es + (if t \<in> sub_topics b then 1 else 0)"
      "rl_rep members' (ms @ (if t \<in> sub_topics b then [i] else []))" "rl_open members'"
    using subscription_match [of b es members ms rx ti t i] assms b by (auto simp: by_name_def)
  have sub: "rkgm_subscription b = rkgm_subscription a" by (simp add: b(1))
  have len: "length es' = length (filter (\<lambda>t. t \<in> sub_topics a) (ts @ [t]))" using r(4) b(4) by (simp add: sub)
  have "b\<lparr>rkgm_eligible := el'\<rparr> = a\<lparr>rkgm_eligible := el'\<rparr>" by (simp add: b(1))
  then have "matched (ts @ [t]) a (b\<lparr>rkgm_eligible := el'\<rparr>)" unfolding matched_def using r(2,3) len by blast
  moreover have "(length es' = length (elems (rkgm_subscription a))) = seen_all (ts @ [t]) a" unfolding seen_all_def len ..
  ultimately show ?thesis using r(1,5,6) unfolding sub by auto
qed

lemma match_members_matched:
  assumes "list_all2 (matched ts) as bs" "\<forall>a\<in>set as. by_name a" "length ts < 2 ^ 27"
    and "rl_rep members ms" "rl_open members" "length ms + length as \<le> 2 ^ 27"
  shows "\<exists>bs' members'. match_members rx ti t i bs members c =
      Inr (bs', members', c + int (length (filter (seen_all (ts @ [t])) as))) \<and>
    list_all2 (matched (ts @ [t])) as bs' \<and>
    rl_rep members' (ms @ map fst (filter (\<lambda>(j, a). t \<in> sub_topics a) (enumerate i as))) \<and> rl_open members'"
  using assms
proof (induction arbitrary: members ms c i rule: list_all2_induct)
  case (Cons a as b bs)
  obtain b' members1 where r1: "rd_kafka_member_subscription_match rx ti t i b members = Inr (b', members1, seen_all (ts @ [t]) a)"
      "matched (ts @ [t]) a b'" "rl_rep members1 (ms @ (if t \<in> sub_topics a then [i] else []))" "rl_open members1"
    using match_one [OF Cons.hyps(1), of members ms rx ti t i] Cons.prems by auto
  have room: "length (ms @ (if t \<in> sub_topics a then [i] else [])) + length as \<le> 2 ^ 27" using Cons.prems(5) by simp
  obtain bs' members2 where r2:
      "match_members rx ti t (Suc i) bs members1 (if seen_all (ts @ [t]) a then c + 1 else c) =
         Inr (bs', members2, (if seen_all (ts @ [t]) a then c + 1 else c) + int (length (filter (seen_all (ts @ [t])) as)))"
      "list_all2 (matched (ts @ [t])) as bs'"
      "rl_rep members2 ((ms @ (if t \<in> sub_topics a then [i] else [])) @ map fst (filter (\<lambda>(j, a). t \<in> sub_topics a) (enumerate (Suc i) as)))"
      "rl_open members2"
    using Cons.IH [OF _ Cons.prems(2) r1(3,4) room, of "Suc i" "if seen_all (ts @ [t]) a then c + 1 else c"] Cons.prems(1)
    by auto
  show ?case using r1(1,2) r2 by (intro exI [of _ "b' # bs'"] exI [of _ members2]) auto
qed simp

section \<open>All topics\<close>

definition subscribers :: "rd_kafka_group_member list \<Rightarrow> string \<Rightarrow> nat list" where
  "subscribers rkgms t = filter (\<lambda>j. t \<in> sub_topics (rkgms ! j)) [0..<length rkgms]"

lemma enumerate_subscribers: "map fst (filter (\<lambda>(j, a). t \<in> sub_topics a) (enumerate 0 as)) = subscribers as t"
proof -
  have "enumerate 0 as = map (\<lambda>j. (j, as ! j)) [0..<length as]"
    by (rule nth_equalityI) (auto simp: nth_enumerate_eq)
  then show ?thesis by (simp add: subscribers_def filter_map comp_def)
qed

definition wanted :: "rd_kafka_pattern_list option \<Rightarrow> rd_kafka_group_member list \<Rightarrow> rd_kafka_metadata_topic \<Rightarrow> bool" where
  "wanted plist rkgms t \<longleftrightarrow> \<not> blacklisted plist (mt_topic t) \<and> subscribers rkgms (mt_topic t) \<noteq> []"

definition found :: "rd_kafka_group_member list \<Rightarrow> rd_kafka_metadata_topic \<Rightarrow> rd_kafka_assignor_topic \<Rightarrow> bool" where
  "found rkgms t et \<longleftrightarrow> at_metadata et = t \<and> rl_rep (at_members et) (subscribers rkgms (mt_topic t))"

text \<open>A member whose subscriptions were all seen subscribes to no further topic.\<close>

lemma complete_no_more:
  assumes "by_name a" "seen_all ts a" "distinct ts" "t \<notin> set ts"
  shows "t \<notin> sub_topics a"
proof -
  have "card (set (filter (\<lambda>t. t \<in> sub_topics a) ts)) = card (sub_topics a)"
    using assms(1-3) distinct_card [of "filter (\<lambda>t. t \<in> sub_topics a) ts"] distinct_card [of "map par_topic (elems (rkgm_subscription a))"]
    by (simp add: seen_all_def by_name_def)
  moreover have "set (filter (\<lambda>t. t \<in> sub_topics a) ts) \<subseteq> sub_topics a" by auto
  ultimately have "set (filter (\<lambda>t. t \<in> sub_topics a) ts) = sub_topics a" by (simp add: card_subset_eq)
  then show ?thesis using assms(4) by auto
qed

lemma topics_loop_found:
  assumes "list_all2 (matched ds) as bs" "\<forall>a\<in>set as. by_name a" "length as < 2 ^ 27"
    and "distinct (ds @ map mt_topic ts)" "length ds + length ts < 2 ^ 27"
    and "rl_rep el es" "rl_open el" "length es + length ts < 2 ^ 27"
  shows "\<exists>ds' bs' el' ets. topics_loop rx plist ti ts bs el = Inr (bs', el') \<and> list_all2 (matched ds') as bs' \<and>
    rl_rep el' (es @ ets) \<and> list_all2 (found as) (filter (wanted plist as) ts) ets"
  using assms(1,4-)
proof (induction ts arbitrary: ti ds bs el es)
  case Nil
  then have "topics_loop rx plist ti [] bs el = Inr (bs, el) \<and> list_all2 (matched ds) as bs \<and> rl_rep el (es @ []) \<and>
      list_all2 (found as) (filter (wanted plist as) []) []" by simp
  then show ?case by blast
next
  case (Cons t ts)
  show ?case
  proof (cases "blacklisted plist (mt_topic t)")
    case True
    then show ?thesis using Cons.IH [OF Cons.prems(1), of el es "Suc ti"] Cons.prems by (auto simp: wanted_def)
  next
    case False
    have len: "length bs = length as" using Cons.prems(1) by (simp add: list_all2_lengthD)
    obtain members :: "(nat, unit) rd_list" where m0: "rd_list_init (int (length bs)) False = Inr members" "rl_rep members []" "rl_open members"
      using rd_list_init_open [of "int (length bs)" False] assms(3) len by auto
    obtain bs1 members1 where r1: "match_members rx ti (mt_topic t) 0 bs members 0 =
          Inr (bs1, members1, int (length (filter (seen_all (ds @ [mt_topic t])) as)))"
        "list_all2 (matched (ds @ [mt_topic t])) as bs1" "rl_rep members1 (subscribers as (mt_topic t))"
      using match_members_matched [OF Cons.prems(1) assms(2) _ m0(2,3), of rx ti "mt_topic t" 0 0] assms(3) Cons.prems(3)
      by (auto simp: enumerate_subscribers)
    have len1: "length bs1 = length as" using r1(2) by (simp add: list_all2_lengthD)
    have empty: "rd_list_empty members1 \<longleftrightarrow> subscribers as (mt_topic t) = []"
      using rl_rep_cnt [OF r1(3)] by (simp add: rd_list_empty_def rd_list_cnt_def)
    show ?thesis
    proof (cases "subscribers as (mt_topic t) = []")
      case True
      then show ?thesis using Cons.IH [OF r1(2), of el es "Suc ti"] Cons.prems False m0(1) r1(1) empty by (auto simp: wanted_def)
    next
      case sub: False
      let ?et = "\<lparr>at_metadata = t, at_members = members1\<rparr>"
      obtain el1 where e1: "rd_list_add el (Some ?et) = Inr (el1, Elem ?et)" "rl_rep el1 (es @ [?et])" "rl_open el1"
        using rd_list_add_open [OF Cons.prems(4,5), of ?et] Cons.prems(6) by auto
      have w: "wanted plist as t" "found as t ?et" using False sub r1(3) by (simp_all add: wanted_def found_def)
      show ?thesis
      proof (cases "length (filter (seen_all (ds @ [mt_topic t])) as) = length as")
        case True
        then have "\<forall>a\<in>set as. seen_all (ds @ [mt_topic t]) a" by (metis filter_id_conv length_filter_less less_irrefl)
        moreover have "distinct (ds @ [mt_topic t])" "mt_topic u \<notin> set (ds @ [mt_topic t])" if "u \<in> set ts" for u
          using Cons.prems(2) imageI [OF that, of mt_topic] by auto
        ultimately have "\<not> wanted plist as u" if "u \<in> set ts" for u
          using assms(2) that complete_no_more [of _ "ds @ [mt_topic t]" "mt_topic u"]
          by (fastforce simp: wanted_def subscribers_def filter_empty_conv)
        then have "filter (wanted plist as) ts = []" by (simp add: filter_empty_conv)
        then show ?thesis using True False m0(1) r1(1,2) empty sub e1 w len1
          by (intro exI [of _ "ds @ [mt_topic t]"] exI [of _ bs1] exI [of _ el1] exI [of _ "[?et]"]) simp
      next
        case more: False
        obtain ds' bs2 el2 ets where r2: "topics_loop rx plist (Suc ti) ts bs1 el1 = Inr (bs2, el2)" "list_all2 (matched ds') as bs2"
            "rl_rep el2 ((es @ [?et]) @ ets)" "list_all2 (found as) (filter (wanted plist as) ts) ets"
          using Cons.IH [OF r1(2) _ _ e1(2,3), of "Suc ti"] Cons.prems by auto
        show ?thesis using more False m0(1) r1(1) empty sub e1(1) w len1 r2
          by (intro exI [of _ ds'] exI [of _ bs2] exI [of _ el2] exI [of _ "?et # ets"]) simp
      qed
    qed
  qed
qed

section \<open>A run\<close>

text \<open>The group and the metadata that a run gets.\<close>

definition group_ok :: "rd_kafka_metadata_topic list \<Rightarrow> rd_kafka_group_member list \<Rightarrow> bool" where
  "group_ok metadata rkgms \<longleftrightarrow>
     length rkgms < 2 ^ 27 \<and> length metadata < 2 ^ 27 \<and> distinct (map mt_topic metadata) \<and>
     (\<forall>t\<in>set metadata. 0 \<le> mt_partition_cnt t) \<and> sum_list (map mt_partition_cnt metadata) \<le> 2 ^ 29 \<and>
     (\<forall>rkgm\<in>set rkgms. by_name rkgm \<and> rl_rep (rkgm_eligible rkgm) [] \<and> rl_open (rkgm_eligible rkgm) \<and>
        list_ok (rkgm_assignment rkgm) \<and> elems (rkgm_assignment rkgm) = [])"

lemma subscriptions_map_found:
  assumes "group_ok metadata rkgms"
  shows "\<exists>ds rkgms1 el ets. rd_kafka_member_subscriptions_map rx plist metadata rkgms = Inr (rkgms1, el) \<and>
    list_all2 (matched ds) rkgms rkgms1 \<and> rl_rep el ets \<and> list_all2 (found rkgms) (filter (wanted plist rkgms) metadata) ets"
proof -
  have g: "length rkgms < 2 ^ 27" "length metadata < 2 ^ 27" "distinct (map mt_topic metadata)"
      "\<forall>rkgm\<in>set rkgms. by_name rkgm \<and> rl_rep (rkgm_eligible rkgm) [] \<and> rl_open (rkgm_eligible rkgm)"
    using assms by (auto simp: group_ok_def)
  obtain el0 :: "(rd_kafka_assignor_topic, unit) rd_list"
    where el0: "rd_list_init (min (int (length metadata)) 10) True = Inr el0" "rl_rep el0 []" "rl_open el0"
    using rd_list_init_open [of "min (int (length metadata)) 10" True] by fastforce
  have "list_all2 (matched []) rkgms rkgms"
  proof (rule list.rel_refl_strong)
    fix a assume "a \<in> set rkgms"
    then have "a = a\<lparr>rkgm_eligible := rkgm_eligible a\<rparr> \<and> rl_rep (rkgm_eligible a) [] \<and> rl_open (rkgm_eligible a)" using g(4) by simp
    then show "matched [] a a" unfolding matched_def by fastforce
  qed
  then obtain ds rkgms1 el ets where "topics_loop rx plist 0 metadata rkgms el0 = Inr (rkgms1, el)" "list_all2 (matched ds) rkgms rkgms1"
      "rl_rep el ([] @ ets)" "list_all2 (found rkgms) (filter (wanted plist rkgms) metadata) ets"
    using topics_loop_found [of "[]" rkgms rkgms metadata el0 "[]" rx plist 0] g el0(2,3) by auto
  then show ?thesis using el0(1) by (auto simp: rd_kafka_member_subscriptions_map_def)
qed

lemma found_ets:
  assumes "list_all2 (found rkgms) ts ets"
  shows "map at_metadata ets = ts" "et \<in> set ets \<Longrightarrow> rl_rep (at_members et) (subscribers rkgms (et_topic et))"
proof -
  show "map at_metadata ets = ts" using assms by (induction rule: list_all2_induct) (auto simp: found_def)
  show "et \<in> set ets \<Longrightarrow> rl_rep (at_members et) (subscribers rkgms (et_topic et))"
    using assms by (induction rule: list_all2_induct) (auto simp: found_def)
qed

lemma subscribers_set [simp]: "set (subscribers rkgms t) = {j. j < length rkgms \<and> t \<in> sub_topics (rkgms ! j)}"
  by (auto simp: subscribers_def)

lemma subscribers_distinct [simp]: "distinct (subscribers rkgms t)"
  by (simp add: subscribers_def)

lemma member_count_le_sum: "\<forall>t\<in>set ts. 0 \<le> f t \<Longrightarrow> t \<in> set ts \<Longrightarrow> (f t :: int) \<le> sum_list (map f ts)"
proof (induction ts)
  case (Cons u ts)
  have "0 \<le> sum_list (map f ts)" using Cons.prems(1) by (intro sum_list_nonneg) auto
  then show ?case using Cons by fastforce
qed simp

lemma sum_filter_le: "\<forall>t\<in>set ts. 0 \<le> f t \<Longrightarrow> sum_list (map f (filter P ts)) \<le> sum_list (map (f :: _ \<Rightarrow> int) ts)"
  by (induction ts) auto

lemma list_elems_rep: "rl_rep rl xs \<Longrightarrow> list_elems rl = Inr xs"
  by (auto simp: list_elems_def rl_rep_def rl_slots_def read_elems_map split: option.splits)

text \<open>The default configuration enables the range assignor.\<close>

lemma range_enabled:
  assumes "group_protocol_type conf = ''consumer''"
    and "rd_kafka_assignors_init (cb, rr) conf ''range,roundrobin'' = Inr (Some conf')"
  shows "\<exists>i. rd_kafka_assignor_find conf' ''range'' = Some i \<and> rkas_enabled (partition_assignors conf' ! i) \<and>
    rkas_assign_cb (partition_assignors conf' ! i) = cb"
  using assms
  by (auto simp: rd_kafka_assignors_init_def assignors_loop.simps rtrim_def rtrim_loop.simps c_char_def isspace_def Let_def
      rd_kafka_assignor_add_def rd_kafka_assignor_find_def enable_def rd_kafka_assignor_cmp_str_def rd_kafkap_str_cmp_def memcmp_def)

lemma range_run:
  assumes qs: "c_qsort qs" and ok: "group_ok metadata rkgms"
    and find: "rd_kafka_assignor_find conf ''range'' = Some i" "rkas_enabled (partition_assignors conf ! i)"
      "rkas_assign_cb (partition_assignors conf ! i) = rd_kafka_range_assignor_assign_cb qs"
  shows "\<exists>rkgms' ets mss. rd_kafka_assignor_run rx plist conf ''range'' metadata rkgms = Inr (rkgms', RD_KAFKA_RESP_ERR_NO_ERROR) \<and>
    length rkgms' = length rkgms \<and>
    map at_metadata ets = filter (wanted plist rkgms) metadata \<and> list_all2 (served rkgms) ets mss \<and>
    (\<forall>et\<in>set ets. rl_rep (at_members et) (subscribers rkgms (et_topic et)) \<and> et_ok (length rkgms) et) \<and>
    (\<forall>j<length rkgms. assigned rkgms' j = shares ets mss j)"
proof -
  obtain ds rkgms1 el ets where r1: "rd_kafka_member_subscriptions_map rx plist metadata rkgms = Inr (rkgms1, el)"
      "list_all2 (matched ds) rkgms rkgms1" "rl_rep el ets" "list_all2 (found rkgms) (filter (wanted plist rkgms) metadata) ets"
    using subscriptions_map_found [OF ok] by blast
  have len: "length rkgms1 = length rkgms" using r1(2) by (simp add: list_all2_lengthD)
  have same: "rkgm_assignment (rkgms1 ! j) = rkgm_assignment (rkgms ! j)" "rkgm_member_id (rkgms1 ! j) = rkgm_member_id (rkgms ! j)"
    if "j < length rkgms" for j
    using list_all2_nthD [OF r1(2) that] by (auto simp: matched_def)
  have cnt: "\<forall>t\<in>set metadata. 0 \<le> mt_partition_cnt t" "sum_list (map mt_partition_cnt metadata) \<le> 2 ^ 29"
    using ok by (auto simp: group_ok_def)
  have meta: "map at_metadata ets = filter (wanted plist rkgms) metadata"
    and members: "\<And>et. et \<in> set ets \<Longrightarrow> rl_rep (at_members et) (subscribers rkgms (et_topic et))"
    using found_ets [OF r1(4)] by blast+
  have in_meta: "at_metadata et \<in> set metadata \<and> wanted plist rkgms (at_metadata et)" if "et \<in> set ets" for et
    using arg_cong [OF meta, of set] that by auto
  have et: "et_ok (length rkgms) et" if "et \<in> set ets" for et
    unfolding et_ok_def using members [OF that] in_meta [OF that] cnt member_count_le_sum [of metadata mt_partition_cnt "at_metadata et"]
    by (auto simp: wanted_def intro!: exI [of _ "subscribers rkgms (et_topic et)"])
  have "sum_list (map et_cnt ets) = sum_list (map mt_partition_cnt (filter (wanted plist rkgms) metadata))"
    by (simp flip: meta add: comp_def)
  then have room: "sum_list (map et_cnt ets) \<le> 2 ^ 29" using sum_filter_le [OF cnt(1)] cnt(2) by (metis order_trans)
  have empty: "list_ok (rkgm_assignment (rkgms ! j)) \<and> assigned rkgms j = []" if "j < length rkgms" for j
    using ok that by (simp add: group_ok_def)
  have "members_ok rkgms1 (sum_list (map et_cnt ets))"
    using room same(1) empty len by (simp add: members_ok_def)
  then obtain rkgms2 mss where r2: "range_topics qs rkgms1 ets = Inr rkgms2" "list_all2 (served rkgms1) ets mss" "extends rkgms1 (shares ets mss) rkgms2"
    using range_topics_extends [OF qs, of ets rkgms1] et len by auto
  have "list_all2 (served rkgms) ets mss"
  proof (rule list.rel_mono_strong [OF r2(2)])
    fix e ms assume "e \<in> set ets" "served rkgms1 e ms"
    moreover have "extends rkgms1 (\<lambda>j. []) rkgms1" using \<open>members_ok rkgms1 _\<close> by (rule extends_refl)
    moreover from calculation have "set ms \<subseteq> {..<length rkgms}" using served_facts et by blast
    ultimately show "served rkgms e ms" using same(2)
      unfolding served_def by (auto elim!: sorted_wrt_mono_rel [rotated] simp: subset_iff)
  qed
  moreover have "assigned rkgms2 j = shares ets mss j" if "j < length rkgms" for j
    using r2(3) that same(1) empty len by (simp add: extends_def)
  moreover have "rd_kafka_assignor_run rx plist conf ''range'' metadata rkgms = Inr (rkgms2, RD_KAFKA_RESP_ERR_NO_ERROR)"
    using find r1(1) r2(1) list_elems_rep [OF r1(3)] rd_list_destroy_rep [OF r1(3)]
    by (simp add: rd_kafka_assignor_run_def rd_kafka_range_assignor_assign_cb_def RD_KAFKA_RESP_ERR_NO_ERROR_def)
  moreover have "length rkgms2 = length rkgms" using r2(3) len by (simp add: extends_def)
  ultimately show ?thesis using meta members et by blast
qed

text \<open>The partitions of one topic after a run.\<close>

lemma owned_share:
  assumes "list_all2 (served rkgms) ets mss" "distinct (map et_topic ets)"
    and et: "\<forall>et\<in>set ets. rl_rep (at_members et) (subscribers rkgms (et_topic et)) \<and> et_ok (length rkgms) et"
    and as: "\<forall>j<length rkgms. assigned rkgms' j = shares ets mss j"
  shows "(\<exists>et\<in>set ets. \<exists>ms. et_topic et = t \<and> distinct ms \<and> set ms = {j. j < length rkgms \<and> t \<in> sub_topics (rkgms ! j)} \<and>
            ms \<noteq> [] \<and> 0 \<le> et_cnt et \<and> (\<forall>j<length rkgms. owned rkgms' j t = share (et_cnt et) (length ms) 0 ms j)) \<or>
         (t \<notin> et_topic ` set ets \<and> (\<forall>j<length rkgms. owned rkgms' j t = []))"
proof -
  have sh: "owned rkgms' j t = map par_partition (filter (\<lambda>par. par_topic par = t) (shares ets mss j))" if "j < length rkgms" for j
    using as that by (simp add: owned_def)
  from shares_of_topic [OF assms(1,2), of t] show ?thesis
  proof (elim disjE bexE exE conjE)
    fix e ms assume e: "e \<in> set ets" "et_topic e = t" "served rkgms e ms"
      and "\<forall>j. map par_partition (filter (\<lambda>par. par_topic par = t) (shares ets mss j)) = share (et_cnt e) (length ms) 0 ms j"
    then have "\<forall>j<length rkgms. owned rkgms' j t = share (et_cnt e) (length ms) 0 ms j" using sh by simp
    moreover have "rl_rep (at_members e) (subscribers rkgms t)" "et_ok (length rkgms) e" using et e(1,2) by auto
    moreover from this have "mset ms = mset (subscribers rkgms t)" using e(3) rl_rep_unique by (fastforce simp: served_def)
    moreover from this have "set ms = {j. j < length rkgms \<and> t \<in> sub_topics (rkgms ! j)}" using mset_eq_setD subscribers_set by metis
    moreover have "ms \<noteq> [] \<and> distinct ms" using served_facts [OF e(3)] calculation(3) by blast
    moreover have "0 \<le> et_cnt e" using calculation(3) by (simp add: et_ok_def)
    ultimately show ?thesis using e(1,2) by blast
  next
    assume "t \<notin> et_topic ` set ets" "\<forall>j. filter (\<lambda>par. par_topic par = t) (shares ets mss j) = []"
    then show ?thesis using sh by simp
  qed
qed

lemma owned_facts:
  assumes "list_all2 (served rkgms) ets mss" "distinct (map mt_topic metadata)" "t \<in> set metadata"
    and meta: "map at_metadata ets = filter (wanted plist rkgms) metadata"
    and et: "\<forall>et\<in>set ets. rl_rep (at_members et) (subscribers rkgms (et_topic et)) \<and> et_ok (length rkgms) et"
    and as: "\<forall>j<length rkgms. assigned rkgms' j = shares ets mss j"
  shows "(wanted plist rkgms t \<and> (\<exists>ms. distinct ms \<and> set ms = {j. j < length rkgms \<and> mt_topic t \<in> sub_topics (rkgms ! j)} \<and>
            ms \<noteq> [] \<and> 0 \<le> mt_partition_cnt t \<and> (\<forall>j<length rkgms. owned rkgms' j (mt_topic t) = share (mt_partition_cnt t) (length ms) 0 ms j))) \<or>
         (\<not> wanted plist rkgms t \<and> (\<forall>j<length rkgms. owned rkgms' j (mt_topic t) = []))"
proof -
  have names: "map et_topic ets = map mt_topic (filter (wanted plist rkgms) metadata)" by (simp flip: meta add: comp_def)
  have d: "distinct (map et_topic ets)" unfolding names using assms(2) by (rule distinct_map_filter)
  have in_ets: "at_metadata e \<in> set metadata \<and> wanted plist rkgms (at_metadata e)" if "e \<in> set ets" for e
    using arg_cong [OF meta, of set] imageI [OF that, of at_metadata] by simp
  have inj: "u \<in> set metadata \<Longrightarrow> mt_topic u = mt_topic t \<Longrightarrow> u = t" for u
    using assms(2,3) by (auto simp: distinct_map inj_on_def)
  have out: "mt_topic t \<notin> et_topic ` set ets \<longleftrightarrow> \<not> wanted plist rkgms t"
  proof -
    have "et_topic ` set ets = mt_topic ` set (filter (wanted plist rkgms) metadata)" using arg_cong [OF names, of set] by simp
    moreover have "mt_topic t \<in> mt_topic ` set (filter (wanted plist rkgms) metadata) \<longleftrightarrow> wanted plist rkgms t"
    proof
      assume "mt_topic t \<in> mt_topic ` set (filter (wanted plist rkgms) metadata)"
      then obtain u where u: "u \<in> set (filter (wanted plist rkgms) metadata)" "mt_topic t = mt_topic u" by (rule imageE)
      then have "u = t" using inj [of u] by simp
      then show "wanted plist rkgms t" using u(1) by simp
    next
      assume "wanted plist rkgms t"
      then have "t \<in> set (filter (wanted plist rkgms) metadata)" using assms(3) by simp
      then show "mt_topic t \<in> mt_topic ` set (filter (wanted plist rkgms) metadata)" by (rule imageI)
    qed
    ultimately show ?thesis by simp
  qed
  from owned_share [OF assms(1) d et as, of "mt_topic t"] show ?thesis
  proof (elim disjE bexE exE conjE)
    fix e ms assume e: "e \<in> set ets" "et_topic e = mt_topic t"
      and *: "distinct ms" "set ms = {j. j < length rkgms \<and> mt_topic t \<in> sub_topics (rkgms ! j)}" "ms \<noteq> []" "0 \<le> et_cnt e"
        "\<forall>j<length rkgms. owned rkgms' j (mt_topic t) = share (et_cnt e) (length ms) 0 ms j"
    have "at_metadata e = t" using in_ets [OF e(1)] inj e(2) by blast
    moreover from this have "wanted plist rkgms t" using in_ets [OF e(1)] by simp
    ultimately show ?thesis using * by blast
  next
    assume "mt_topic t \<notin> et_topic ` set ets" "\<forall>j<length rkgms. owned rkgms' j (mt_topic t) = []"
    then show ?thesis using out by simp
  qed
qed

text \<open>The partitions of a topic are assigned once each, to subscribers, in shares that differ by at most one.\<close>

definition topic_assigned ::
    "regex \<Rightarrow> rd_kafka_pattern_list option \<Rightarrow> rd_kafka_group_member list \<Rightarrow> rd_kafka_group_member list \<Rightarrow> rd_kafka_metadata_topic \<Rightarrow> bool" where
  "topic_assigned rx plist rkgms rkgms' t \<longleftrightarrow>
     (\<forall>p. (\<Sum>j<length rkgms. count_list (owned rkgms' j (mt_topic t)) p) =
        (if 0 \<le> p \<and> p < mt_partition_cnt t \<and> \<not> blacklisted plist (mt_topic t) \<and>
            (\<exists>rkgm\<in>set rkgms. rd_kafka_group_member_find_subscription rx rkgm (mt_topic t)) then 1 else 0)) \<and>
     (\<forall>j<length rkgms. \<not> rd_kafka_group_member_find_subscription rx (rkgms ! j) (mt_topic t) \<longrightarrow> owned rkgms' j (mt_topic t) = []) \<and>
     (\<forall>j<length rkgms. \<forall>k<length rkgms.
        rd_kafka_group_member_find_subscription rx (rkgms ! j) (mt_topic t) \<longrightarrow>
        rd_kafka_group_member_find_subscription rx (rkgms ! k) (mt_topic t) \<longrightarrow>
        length (owned rkgms' j (mt_topic t)) \<le> length (owned rkgms' k (mt_topic t)) + 1)"

lemma wanted_find:
  "\<forall>rkgm\<in>set rkgms. by_name rkgm \<Longrightarrow>
   wanted plist rkgms t \<longleftrightarrow> \<not> blacklisted plist (mt_topic t) \<and> (\<exists>rkgm\<in>set rkgms. rd_kafka_group_member_find_subscription rx rkgm (mt_topic t))"
proof -
  assume names: "\<forall>rkgm\<in>set rkgms. by_name rkgm"
  have "subscribers rkgms (mt_topic t) \<noteq> [] \<longleftrightarrow> (\<exists>rkgm\<in>set rkgms. mt_topic t \<in> sub_topics rkgm)"
    unfolding set_empty [symmetric] subscribers_set by (metis (mono_tags, lifting) empty_Collect_eq in_set_conv_nth)
  then show ?thesis using names by (simp add: wanted_def find_by_name)
qed

lemma owned_topic_assigned:
  assumes facts: "(wanted plist rkgms t \<and> (\<exists>ms. distinct ms \<and> set ms = {j. j < length rkgms \<and> mt_topic t \<in> sub_topics (rkgms ! j)} \<and>
            ms \<noteq> [] \<and> 0 \<le> mt_partition_cnt t \<and> (\<forall>j<length rkgms. owned rkgms' j (mt_topic t) = share (mt_partition_cnt t) (length ms) 0 ms j))) \<or>
         (\<not> wanted plist rkgms t \<and> (\<forall>j<length rkgms. owned rkgms' j (mt_topic t) = []))"
    and names: "\<forall>rkgm\<in>set rkgms. by_name rkgm"
  shows "topic_assigned rx plist rkgms rkgms' t"
  using facts
proof (elim disjE exE conjE)
  fix ms assume w: "wanted plist rkgms t" and ms: "distinct ms" "set ms = {j. j < length rkgms \<and> mt_topic t \<in> sub_topics (rkgms ! j)}" "ms \<noteq> []"
    and cnt: "0 \<le> mt_partition_cnt t" and own: "\<forall>j<length rkgms. owned rkgms' j (mt_topic t) = share (mt_partition_cnt t) (length ms) 0 ms j"
  have sub: "rd_kafka_group_member_find_subscription rx (rkgms ! j) (mt_topic t) \<longleftrightarrow> j \<in> set ms" if "j < length rkgms" for j
    using find_by_name [of "rkgms ! j" rx "mt_topic t"] names that ms(2) by simp
  have n: "0 < length ms" "set ms \<subseteq> {..<length rkgms}" using ms(2,3) by auto
  have "(\<Sum>j<length rkgms. count_list (owned rkgms' j (mt_topic t)) p) = (if 0 \<le> p \<and> p < mt_partition_cnt t then 1 else 0)" for p
    using share_count [OF cnt n, of 0 p] own cnt n(1) by simp
  moreover have size: "int (length (owned rkgms' j (mt_topic t))) \<in> {mt_partition_cnt t div int (length ms), mt_partition_cnt t div int (length ms) + 1}"
    if "j < length rkgms" "j \<in> set ms" for j
    using share_size [OF ms(1) that(2) cnt n(1), of 0] own that(1) by simp
  moreover have "length (owned rkgms' j (mt_topic t)) \<le> length (owned rkgms' k (mt_topic t)) + 1"
    if "j < length rkgms" "k < length rkgms" "j \<in> set ms" "k \<in> set ms" for j k
    using size [OF that(1,3)] size [OF that(2,4)] by auto
  ultimately show ?thesis using w sub own share_none unfolding topic_assigned_def wanted_find [OF names, of plist t rx] by auto
next
  assume "\<not> wanted plist rkgms t" "\<forall>j<length rkgms. owned rkgms' j (mt_topic t) = []"
  then show ?thesis unfolding topic_assigned_def wanted_find [OF names, of plist t rx] by auto
qed

section \<open>Property\<close>

text \<open>
  C35: with the default assignors, a run of the range assignor for members that subscribe by name
  succeeds, and afterwards, for every topic of the metadata: each partition of a topic that is not
  blacklisted and has a subscriber is assigned to exactly one member, once, and no other partition is
  assigned; only subscribers get partitions; and what two subscribers get differs by at most one.
\<close>

theorem range_assigns_every_partition_once:
  assumes "c_qsort qs" and "group_ok metadata rkgms"
    and "group_protocol_type conf = ''consumer''"
    and "rd_kafka_assignors_init (rd_kafka_range_assignor_assign_cb qs, rr) conf ''range,roundrobin'' = Inr (Some conf')"
  shows "\<exists>rkgms'. rd_kafka_assignor_run rx plist conf' ''range'' metadata rkgms = Inr (rkgms', RD_KAFKA_RESP_ERR_NO_ERROR) \<and>
    length rkgms' = length rkgms \<and>
    (\<forall>t\<in>set metadata. topic_assigned rx plist rkgms rkgms' t)"
proof -
  obtain i where find: "rd_kafka_assignor_find conf' ''range'' = Some i" "rkas_enabled (partition_assignors conf' ! i)"
      "rkas_assign_cb (partition_assignors conf' ! i) = rd_kafka_range_assignor_assign_cb qs"
    using range_enabled [OF assms(3,4)] by blast
  obtain rkgms' ets mss where r: "rd_kafka_assignor_run rx plist conf' ''range'' metadata rkgms = Inr (rkgms', RD_KAFKA_RESP_ERR_NO_ERROR)"
      "length rkgms' = length rkgms" and sh: "map at_metadata ets = filter (wanted plist rkgms) metadata" "list_all2 (served rkgms) ets mss"
      "\<forall>et\<in>set ets. rl_rep (at_members et) (subscribers rkgms (et_topic et)) \<and> et_ok (length rkgms) et"
      "\<forall>j<length rkgms. assigned rkgms' j = shares ets mss j"
    using range_run [OF assms(1,2) find, of rx plist] by blast
  have d: "distinct (map mt_topic metadata)" and names: "\<forall>rkgm\<in>set rkgms. by_name rkgm" using assms(2) by (auto simp: group_ok_def)
  have "topic_assigned rx plist rkgms rkgms' t" if "t \<in> set metadata" for t
    by (rule owned_topic_assigned [OF owned_facts [OF sh(2) d that sh(1,3,4)] names])
  then show ?thesis using r by blast
qed

text \<open>A group of two: both subscribe to \<open>a\<close>, one of them to \<open>b\<close> and nobody to \<open>c\<close>.\<close>

definition sub_list :: "string list \<Rightarrow> rd_kafka_topic_partition_list" where
  "sub_list ts = \<lparr>elems = map (\<lambda>t. rd_kafka_topic_partition_new t (- 1)) ts, list_size = int (length ts)\<rparr>"

definition new_member :: "string \<Rightarrow> string list \<Rightarrow> rd_kafka_group_member" where
  "new_member i ts =
     \<lparr>rkgm_subscription = sub_list ts, rkgm_assignment = \<lparr>elems = [], list_size = 0\<rparr>,
      rkgm_eligible = \<lparr>rl_size = 0, rl_cnt = 0, rl_elems = None, rl_free_cb = False, rl_flags = 0, rl_elemsize = 0, rl_p = []\<rparr>,
      rkgm_member_id = i\<rparr>"

definition two_members :: "rd_kafka_group_member list" where
  "two_members = [new_member ''m2'' [''a'', ''b''], new_member ''m1'' [''a'']]"

definition three_topics :: "rd_kafka_metadata_topic list" where
  "three_topics = [\<lparr>mt_topic = ''a'', mt_partition_cnt = 3\<rparr>, \<lparr>mt_topic = ''b'', mt_partition_cnt = 1\<rparr>, \<lparr>mt_topic = ''c'', mt_partition_cnt = 2\<rparr>]"

definition consumer_conf :: assignor_conf where
  "consumer_conf = \<lparr>group_protocol_type = ''consumer'', partition_assignors = [], enabled_assignor_cnt = 0\<rparr>"

lemma default_assignors:
  "group_protocol_type conf = ''consumer'' \<Longrightarrow> \<exists>conf'. rd_kafka_assignors_init (cb, rr) conf ''range,roundrobin'' = Inr (Some conf')"
  by (auto simp: rd_kafka_assignors_init_def assignors_loop.simps rtrim_def rtrim_loop.simps c_char_def isspace_def Let_def
      rd_kafka_assignor_add_def rd_kafka_assignor_find_def enable_def rd_kafka_assignor_cmp_str_def rd_kafkap_str_cmp_def memcmp_def)

lemma two_members_ok: "group_ok three_topics two_members"
  by (auto simp: group_ok_def three_topics_def two_members_def new_member_def sub_list_def by_name_def is_regex_topic_def
      rd_kafka_topic_partition_new_def rl_rep_def rl_slots_def rl_open_def list_ok_def)

theorem range_assigns_every_partition_once_witness:
  "\<exists>conf'. rd_kafka_assignors_init (rd_kafka_range_assignor_assign_cb qsort, rd_kafka_range_assignor_assign_cb qsort)
       consumer_conf ''range,roundrobin'' = Inr (Some conf') \<and>
     (\<exists>rkgms'. rd_kafka_assignor_run (\<lambda>re s. None) None conf' ''range'' three_topics two_members = Inr (rkgms', RD_KAFKA_RESP_ERR_NO_ERROR) \<and>
        length rkgms' = length two_members \<and>
        (\<forall>t\<in>set three_topics. topic_assigned (\<lambda>re s. None) None two_members rkgms' t))"
proof -
  have c: "group_protocol_type consumer_conf = ''consumer''" by (simp add: consumer_conf_def)
  from default_assignors [OF c, of "rd_kafka_range_assignor_assign_cb qsort" "rd_kafka_range_assignor_assign_cb qsort"]
  obtain conf' where conf': "rd_kafka_assignors_init (rd_kafka_range_assignor_assign_cb qsort, rd_kafka_range_assignor_assign_cb qsort)
       consumer_conf ''range,roundrobin'' = Inr (Some conf')" by blast
  then show ?thesis
    using range_assigns_every_partition_once [OF glibc.c_qsort_axioms two_members_ok c conf', of "\<lambda>re s. None" None] by blast
qed

section \<open>Corner cases\<close>

text \<open>The right trim starts at the terminating character and stops there, so a blank before a comma is kept.\<close>

lemma blank_before_comma_refused: "rd_kafka_assignors_init cbs consumer_conf ''range , roundrobin'' = Inr None"
  by (simp add: rd_kafka_assignors_init_def consumer_conf_def assignors_loop.simps rtrim_def rtrim_loop.simps c_char_def isspace_def Let_def)

lemma blank_after_comma_accepted:
  "map_sum id (map_option (map rkas_protocol_name \<circ> partition_assignors)) (rd_kafka_assignors_init cbs consumer_conf ''range, roundrobin'') =
     Inr (Some [''range'', ''roundrobin''])"
  by code_simp

text \<open>
  A member with a regular expression is taken as complete at a topic that the expression does not match,
  and the topics after it are dropped: \<open>ac\<close> matches \<open>^a\<close> and is not eligible.
\<close>

lemma regex_member_loses_topic:
  "map_sum id (\<lambda>(rkgms, el). map_sum id (map et_topic) (list_elems el))
     (rd_kafka_member_subscriptions_map (\<lambda>re s. Some (take 1 s = ''a'')) None
       (map (\<lambda>t. \<lparr>mt_topic = t, mt_partition_cnt = 1\<rparr>) [''ab'', ''zz'', ''ac''])
       [new_member ''m1'' [''^a''], new_member ''m2'' [''zz'']]) = Inr (Inr [''ab'', ''zz''])"
  by code_simp

end
