(* ===== verification/Roundrobin_Assignor.thy ===== *)
theory Roundrobin_Assignor
  imports Assignor_Run
begin

text \<open>
  The round robin assignor: the partitions go to the members in turn when all members subscribe to all
  eligible topics; when they do not, the search for the next subscriber can leave the array of members.
\<close>

section \<open>Partitions in turn\<close>

definition uniform :: "regex \<Rightarrow> rd_kafka_group_member list \<Rightarrow> rd_kafka_assignor_topic \<Rightarrow> bool" where
  "uniform rx rkgms et \<longleftrightarrow>
     rd_list_cnt (at_members et) = int (length rkgms) \<and> 0 \<le> et_cnt et \<and>
     (\<forall>rkgm\<in>set rkgms. rd_kafka_group_member_find_subscription rx rkgm (et_topic et))"

text \<open>The partitions whose turn it is for the member \<open>j\<close> of \<open>n\<close>, when the first is for \<open>nx\<close>.\<close>

definition turns :: "nat \<Rightarrow> nat \<Rightarrow> 'a list \<Rightarrow> nat \<Rightarrow> 'a list" where
  "turns n nx ps j = nths ps {k. (nx + k) mod n = j}"

lemma turns_Nil [simp]: "turns n nx [] j = []"
  by (simp add: turns_def)

lemma turns_Cons: "nx < n \<Longrightarrow> turns n nx (p # ps) j = (if j = nx then [p] else []) @ turns n (Suc nx mod n) ps j"
  by (auto simp: turns_def nths_Cons mod_simps)

lemma turns_append: "turns n nx (ps @ qs) j = turns n nx ps j @ turns n ((nx + length ps) mod n) qs j"
  by (simp add: turns_def nths_append mod_simps add.assoc add.commute add.left_commute)

lemma turns_length_le: "length (turns n nx ps j) \<le> length ps"
proof -
  have "card {i. i < length ps \<and> i \<in> {k. (nx + k) mod n = j}} \<le> card {..<length ps}" by (rule card_mono) auto
  then show ?thesis by (simp add: turns_def length_nths)
qed

lemma extends_subscription:
  assumes "extends rkgms f rkgms'" "j < length rkgms"
  shows "rd_kafka_group_member_find_subscription rx (rkgms' ! j) topic = rd_kafka_group_member_find_subscription rx (rkgms ! j) topic"
proof -
  have "rkgms' ! j = (rkgms ! j)\<lparr>rkgm_assignment := rkgm_assignment (rkgms' ! j)\<rparr>" using assms by (simp add: extends_def)
  then have "rkgm_subscription (rkgms' ! j) = rkgm_subscription (rkgms ! j)" by (metis rd_kafka_group_member.select_convs(1) rd_kafka_group_member.surjective rd_kafka_group_member.update_convs(2))
  then show ?thesis by (simp add: rd_kafka_group_member_find_subscription_def)
qed

lemma extends_uniform:
  assumes "extends rkgms f rkgms'" "uniform rx rkgms et"
  shows "uniform rx rkgms' et"
proof -
  have "length rkgms' = length rkgms" using assms(1) by (simp add: extends_def)
  then show ?thesis using assms(2) extends_subscription [OF assms(1)] by (auto simp: uniform_def all_set_conv_all_nth)
qed

lemma assign_one:
  assumes "nx < length rkgms" "members_ok rkgms 1"
  shows "\<exists>l. rd_kafka_topic_partition_list_add (rkgm_assignment (rkgms ! nx)) topic part = Inr l \<and>
    extends rkgms (\<lambda>j. if j = nx then [fresh_par topic part] else []) (rkgms[nx := (rkgms ! nx)\<lparr>rkgm_assignment := l\<rparr>])"
proof -
  have "list_ok (rkgm_assignment (rkgms ! nx))" "int (length (assigned rkgms nx)) + 1 \<le> 2 ^ 29"
    using assms by (simp_all add: members_ok_def)
  then obtain l where "rd_kafka_topic_partition_list_add (rkgm_assignment (rkgms ! nx)) topic part = Inr l" "list_ok l"
      "elems l = assigned rkgms nx @ [fresh_par topic part]"
    using add_ok [of "rkgm_assignment (rkgms ! nx)" topic part] by auto
  then show ?thesis using assms by (intro exI [of _ l]) (simp add: extends_def nth_list_update members_ok_def)
qed

lemma roundrobin_partitions_turns:
  assumes "uniform rx rkgms et" "nx < length rkgms" "members_ok rkgms (et_cnt et - part)" "part \<le> et_cnt et"
  shows "\<exists>rkgms'. roundrobin_partitions rx rkgms et part nx = Inr (rkgms', (nx + nat (et_cnt et - part)) mod length rkgms) \<and>
    extends rkgms (turns (length rkgms) nx (map (fresh_par (et_topic et)) [part..et_cnt et - 1])) rkgms'"
  using assms
proof (induction "nat (et_cnt et - part)" arbitrary: rkgms part nx)
  case 0
  then have "extends rkgms (\<lambda>j. []) rkgms" by (intro extends_refl)
  moreover have "turns (length rkgms) nx (map (fresh_par (et_topic et)) [part..et_cnt et - 1]) = (\<lambda>j. [])" using 0 by auto
  ultimately show ?case using 0 by (subst roundrobin_partitions.simps) auto
next
  case (Suc k)
  let ?n = "length rkgms" and ?t = "et_topic et"
  have part: "part < et_cnt et" using Suc.hyps(2) by simp
  have ok1: "members_ok rkgms 1" using Suc.prems(3) part by (fastforce simp: members_ok_def)
  obtain l where l: "rd_kafka_topic_partition_list_add (rkgm_assignment (rkgms ! nx)) ?t part = Inr l"
      and e1: "extends rkgms (\<lambda>j. if j = nx then [fresh_par ?t part] else []) (rkgms[nx := (rkgms ! nx)\<lparr>rkgm_assignment := l\<rparr>])"
    using assign_one [OF Suc.prems(2) ok1] by blast
  let ?rkgms1 = "rkgms[nx := (rkgms ! nx)\<lparr>rkgm_assignment := l\<rparr>]"
  have sub: "next_subscriber rx rkgms ?t nx = Inr nx"
    using Suc.prems(1,2) by (subst next_subscriber.simps) (simp add: uniform_def)
  have nx1: "nat (int (nx + 1) smod rd_list_cnt (at_members et)) = Suc nx mod ?n"
    using Suc.prems(1) by (simp add: uniform_def sdiv_nonneg nat_mod_distrib flip: of_nat_Suc)
  have ok: "members_ok ?rkgms1 (et_cnt et - (part + 1))" by (rule extends_members_ok [OF e1 Suc.prems(3)]) simp
  have "0 < ?n" using Suc.prems(2) by linarith
  then have ne: "rd_list_cnt (at_members et) \<noteq> 0" using Suc.prems(1) by (simp add: uniform_def)
  from \<open>0 < ?n\<close> have "Suc nx mod ?n < length ?rkgms1" by simp
  moreover have "k = nat (et_cnt et - (part + 1))" using Suc.hyps(2) by simp
  ultimately obtain rkgms2 where r2:
      "roundrobin_partitions rx ?rkgms1 et (part + 1) (Suc nx mod ?n) = Inr (rkgms2, (Suc nx mod ?n + nat (et_cnt et - (part + 1))) mod ?n)"
      "extends ?rkgms1 (turns ?n (Suc nx mod ?n) (map (fresh_par ?t) [part + 1..et_cnt et - 1])) rkgms2"
    using Suc.hyps(1) [OF _ extends_uniform [OF e1 Suc.prems(1)] _ ok] part by (metis length_list_update zless_imp_add1_zle)
  have "(Suc nx mod ?n + nat (et_cnt et - (part + 1))) mod ?n = (nx + nat (et_cnt et - part)) mod ?n"
    using part by (simp add: mod_simps flip: Suc.hyps(2)) (simp add: mod_simps nat_diff_distrib' \<open>k = _\<close> [symmetric])
  moreover have "roundrobin_partitions rx rkgms et part nx = roundrobin_partitions rx ?rkgms1 et (part + 1) (Suc nx mod ?n)"
    by (subst roundrobin_partitions.simps) (simp only: part sub l ne nx1 bindR_Inr if_True not_False_eq_True check_True)
  moreover have "(\<lambda>j. (if j = nx then [fresh_par ?t part] else []) @ turns ?n (Suc nx mod ?n) (map (fresh_par ?t) [part + 1..et_cnt et - 1]) j) =
      turns ?n nx (map (fresh_par ?t) [part..et_cnt et - 1])"
    using part by (intro ext) (simp add: upto_rec1 [of part] turns_Cons [OF Suc.prems(2)])
  ultimately show ?case using r2(1) extends_trans [OF e1 r2(2)] by simp
qed

section \<open>All topics\<close>

definition all_partitions :: "rd_kafka_assignor_topic list \<Rightarrow> rd_kafka_topic_partition list" where
  "all_partitions ets = concat (map (\<lambda>et. map (fresh_par (et_topic et)) [0..et_cnt et - 1]) ets)"

lemma roundrobin_topics_turns:
  assumes "\<forall>et\<in>set ets. uniform rx rkgms et" "nx < length rkgms" "members_ok rkgms (sum_list (map et_cnt ets))"
  shows "\<exists>rkgms'. roundrobin_topics rx rkgms ets nx = Inr rkgms' \<and> extends rkgms (turns (length rkgms) nx (all_partitions ets)) rkgms'"
  using assms
proof (induction ets arbitrary: rkgms nx)
  case Nil
  have "turns (length rkgms) nx (all_partitions []) = (\<lambda>j. [])" by (auto simp: all_partitions_def)
  then show ?case using extends_refl [OF Nil.prems(3)] by simp
next
  case (Cons et ets)
  let ?n = "length rkgms" and ?ps = "map (fresh_par (et_topic et)) [0..et_cnt et - 1]"
  have u: "uniform rx rkgms et" using Cons.prems(1) by simp
  then have cnt: "0 \<le> et_cnt et" by (simp add: uniform_def)
  have pos: "0 \<le> sum_list (map et_cnt ets)" using Cons.prems(1) by (auto intro!: sum_list_nonneg simp: uniform_def)
  have "members_ok rkgms (et_cnt et - 0)" using Cons.prems(3) pos by (fastforce simp: members_ok_def)
  from roundrobin_partitions_turns [OF u Cons.prems(2) this cnt] obtain rkgms1
    where r1: "roundrobin_partitions rx rkgms et 0 nx = Inr (rkgms1, (nx + nat (et_cnt et)) mod ?n)" "extends rkgms (turns ?n nx ?ps) rkgms1"
    by auto
  have len: "length rkgms1 = ?n" using r1(2) by (simp add: extends_def)
  have "int (length (turns ?n nx ?ps j)) \<le> sum_list (map et_cnt (et # ets)) - sum_list (map et_cnt ets)" for j
    using turns_length_le [of ?n nx ?ps j] cnt by simp
  then have ok: "members_ok rkgms1 (sum_list (map et_cnt ets))" by (rule extends_members_ok [OF r1(2) Cons.prems(3)])
  have "0 < ?n" using Cons.prems(2) by linarith
  then have "(nx + nat (et_cnt et)) mod ?n < length rkgms1" using len by simp
  from Cons.IH [OF _ this ok] obtain rkgms2 where r2: "roundrobin_topics rx rkgms1 ets ((nx + nat (et_cnt et)) mod ?n) = Inr rkgms2"
      "extends rkgms1 (turns ?n ((nx + nat (et_cnt et)) mod ?n) (all_partitions ets)) rkgms2"
    using Cons.prems(1) extends_uniform [OF r1(2)] len by auto
  have "(\<lambda>j. turns ?n nx ?ps j @ turns ?n ((nx + nat (et_cnt et)) mod ?n) (all_partitions ets) j) = turns ?n nx (all_partitions (et # ets))"
    by (auto simp: all_partitions_def turns_append)
  then show ?case using r1(1) r2(1) extends_trans [OF r1(2) r2(2)] by simp
qed

section \<open>A search that leaves the array\<close>

definition none_from :: "regex \<Rightarrow> rd_kafka_group_member list \<Rightarrow> string \<Rightarrow> nat \<Rightarrow> bool" where
  "none_from rx rkgms topic nx \<longleftrightarrow> (\<forall>rkgm \<in> set (drop nx rkgms). \<not> rd_kafka_group_member_find_subscription rx rkgm topic)"

lemma none_from_nth:
  "none_from rx rkgms topic nx \<longleftrightarrow> (\<forall>j. nx \<le> j \<and> j < length rkgms \<longrightarrow> \<not> rd_kafka_group_member_find_subscription rx (rkgms ! j) topic)"
proof
  assume none: "none_from rx rkgms topic nx"
  show "\<forall>j. nx \<le> j \<and> j < length rkgms \<longrightarrow> \<not> rd_kafka_group_member_find_subscription rx (rkgms ! j) topic"
  proof (intro allI impI)
    fix j assume j: "nx \<le> j \<and> j < length rkgms"
    then have "drop nx rkgms ! (j - nx) = rkgms ! j" "j - nx < length (drop nx rkgms)" by (simp, simp, linarith)
    then show "\<not> rd_kafka_group_member_find_subscription rx (rkgms ! j) topic" using none nth_mem unfolding none_from_def by metis
  qed
qed (auto simp: none_from_def in_set_conv_nth)

lemma next_subscriber_leaves: "next_subscriber rx rkgms topic nx = Inl Out_Of_Bounds \<longleftrightarrow> none_from rx rkgms topic nx"
proof (induction rx rkgms topic nx rule: next_subscriber.induct)
  case (1 rx rkgms topic nx)
  show ?case
  proof (cases "nx < length rkgms")
    case True
    then have "drop nx rkgms = rkgms ! nx # drop (nx + 1) rkgms" by (simp add: Cons_nth_drop_Suc)
    then show ?thesis using 1 True by (subst next_subscriber.simps) (auto simp: none_from_def)
  qed (subst next_subscriber.simps, simp add: none_from_def)
qed

lemma roundrobin_topics_leaves:
  assumes "\<forall>u\<in>set us. uniform rx rkgms u" "nx < length rkgms" "members_ok rkgms (sum_list (map et_cnt us))"
    and "0 < et_cnt et" "none_from rx rkgms (et_topic et) ((nx + nat (sum_list (map et_cnt us))) mod length rkgms)"
  shows "roundrobin_topics rx rkgms (us @ et # ets) nx = Inl Out_Of_Bounds"
  using assms
proof (induction us arbitrary: rkgms nx)
  case Nil
  then have "next_subscriber rx rkgms (et_topic et) nx = Inl Out_Of_Bounds" by (simp add: next_subscriber_leaves)
  then show ?case using Nil.prems(4) by (simp add: roundrobin_partitions.simps [of _ _ _ 0])
next
  case (Cons u us)
  let ?n = "length rkgms" and ?ps = "map (fresh_par (et_topic u)) [0..et_cnt u - 1]"
  have u: "uniform rx rkgms u" "0 \<le> et_cnt u" using Cons.prems(1) by (simp_all add: uniform_def)
  have pos: "0 \<le> sum_list (map et_cnt us)" using Cons.prems(1) by (auto intro!: sum_list_nonneg simp: uniform_def)
  have "members_ok rkgms (et_cnt u - 0)" using Cons.prems(3) pos by (fastforce simp: members_ok_def)
  from roundrobin_partitions_turns [OF u(1) Cons.prems(2) this u(2)] obtain rkgms1
    where r1: "roundrobin_partitions rx rkgms u 0 nx = Inr (rkgms1, (nx + nat (et_cnt u)) mod ?n)" "extends rkgms (turns ?n nx ?ps) rkgms1"
    by auto
  have len: "length rkgms1 = ?n" using r1(2) by (simp add: extends_def)
  have "int (length (turns ?n nx ?ps j)) \<le> sum_list (map et_cnt (u # us)) - sum_list (map et_cnt us)" for j
    using turns_length_le [of ?n nx ?ps j] u(2) by simp
  then have ok: "members_ok rkgms1 (sum_list (map et_cnt us))" by (rule extends_members_ok [OF r1(2) Cons.prems(3)])
  have "(nx + nat (sum_list (map et_cnt (u # us)))) mod ?n = ((nx + nat (et_cnt u)) mod ?n + nat (sum_list (map et_cnt us))) mod ?n"
    using u(2) pos by (simp add: nat_add_distrib mod_simps add.assoc)
  then have "none_from rx rkgms1 (et_topic et) (((nx + nat (et_cnt u)) mod length rkgms1 + nat (sum_list (map et_cnt us))) mod length rkgms1)"
    using Cons.prems(5) extends_subscription [OF r1(2)] len by (simp add: none_from_nth)
  moreover have "0 < ?n" using Cons.prems(2) by linarith
  then have "(nx + nat (et_cnt u)) mod ?n < length rkgms1" using len by simp
  moreover have "\<forall>u\<in>set us. uniform rx rkgms1 u" using Cons.prems(1) extends_uniform [OF r1(2)] by auto
  ultimately have "roundrobin_topics rx rkgms1 (us @ et # ets) ((nx + nat (et_cnt u)) mod ?n) = Inl Out_Of_Bounds"
    using Cons.IH [OF _ _ ok Cons.prems(4)] len by metis
  then show ?case using r1(1) by simp
qed

section \<open>Properties\<close>

text \<open>
  C36: when all members subscribe to all eligible topics, the round robin assignor sorts the members by
  name, puts the topics in some order, and gives the partition number \<open>k\<close> of their sequence to the
  member number \<open>k mod n\<close>.
\<close>

theorem roundrobin_takes_turns:
  assumes "c_qsort qsm" "c_qsort qst" "rkgms \<noteq> []"
    and "\<forall>et\<in>set ets. uniform rx rkgms et" "sum_list (map et_cnt ets) \<le> 2 ^ 29"
    and "\<forall>rkgm\<in>set rkgms. list_ok (rkgm_assignment rkgm) \<and> elems (rkgm_assignment rkgm) = []"
  shows "\<exists>rkgms' ets'. rd_kafka_roundrobin_assignor_assign_cb rx qst qsm rkgms ets = Inr (rkgms', 0) \<and>
    mset ets' = mset ets \<and> mset (map rkgm_member_id rkgms') = mset (map rkgm_member_id rkgms) \<and>
    sorted_wrt (\<lambda>a b. strcmp a b \<le> 0) (map rkgm_member_id rkgms') \<and>
    (\<forall>j<length rkgms. assigned rkgms' j = nths (all_partitions ets') {k. k mod length rkgms = j})"
proof -
  let ?ms = "qsm rd_kafka_group_member_cmp rkgms" and ?ets = "qst rd_kafka_assignor_topic_cmp ets"
  have ms: "mset ?ms = mset rkgms" "set ?ms = set rkgms" "length ?ms = length rkgms"
    by (rule c_qsort.qs_mset [OF assms(1)] c_qsort.qs_set [OF assms(1)] c_qsort.qs_length [OF assms(1)])+
  have ets: "mset ?ets = mset ets" "set ?ets = set ets" by (rule c_qsort.qs_mset [OF assms(2)] c_qsort.qs_set [OF assms(2)])+
  have "sum_list (map et_cnt ?ets) = sum_list (map et_cnt ets)" by (simp add: ets(1) flip: sum_mset_sum_list)
  moreover have "list_ok (rkgm_assignment (?ms ! j)) \<and> assigned ?ms j = []" if "j < length ?ms" for j
    using assms(6) ms(2) nth_mem [OF that] by simp
  ultimately have ok: "members_ok ?ms (sum_list (map et_cnt ?ets))" and none: "\<And>j. j < length rkgms \<Longrightarrow> assigned ?ms j = []"
    using assms(5) ms(3) by (auto simp: members_ok_def)
  have "\<forall>et\<in>set ?ets. uniform rx ?ms et" using assms(4) ets(2) ms by (simp add: uniform_def)
  from roundrobin_topics_turns [OF this _ ok, of 0] obtain rkgms' where
      r: "roundrobin_topics rx ?ms ?ets 0 = Inr rkgms'" "extends ?ms (turns (length ?ms) 0 (all_partitions ?ets)) rkgms'"
    using assms(3) ms(3) by auto
  have ids: "map rkgm_member_id rkgms' = map rkgm_member_id ?ms"
    using r(2) extends_ids [OF r(2)] by (intro nth_equalityI) (auto simp: extends_def)
  have "sorted_wrt (\<lambda>a b. rd_kafka_group_member_cmp a b \<le> 0) ?ms"
    by (rule c_qsort.qs_sorted [OF assms(1) member_cmp_ok [where f = "\<lambda>x. x"]])
  then have "sorted_wrt (\<lambda>a b. strcmp a b \<le> 0) (map rkgm_member_id rkgms')"
    unfolding ids by (simp add: sorted_wrt_map rd_kafka_group_member_cmp_def rd_kafkap_str_cmp_le)
  moreover have "mset (map rkgm_member_id rkgms') = mset (map rkgm_member_id rkgms)" unfolding ids by (simp add: ms(1))
  moreover have "assigned rkgms' j = nths (all_partitions ?ets) {k. k mod length rkgms = j}" if "j < length rkgms" for j
    using r(2) none [OF that] that ms(3) by (simp add: extends_def turns_def)
  moreover have "rd_kafka_roundrobin_assignor_assign_cb rx qst qsm rkgms ets = Inr (rkgms', 0)"
    using r(1) by (simp add: rd_kafka_roundrobin_assignor_assign_cb_def)
  ultimately show ?thesis using ets(1) by blast
qed

definition both_members :: "rd_kafka_group_member list" where
  "both_members = [new_member ''m2'' [''a''], new_member ''m1'' [''a'']]"

definition topic_of_both :: rd_kafka_assignor_topic where
  "topic_of_both = \<lparr>at_metadata = \<lparr>mt_topic = ''a'', mt_partition_cnt = 3\<rparr>,
     at_members = \<lparr>rl_size = 2, rl_cnt = 2, rl_elems = Some [Elem 0, Elem 1], rl_free_cb = False, rl_flags = 0, rl_elemsize = 0, rl_p = []\<rparr>\<rparr>"

theorem roundrobin_takes_turns_witness:
  "\<exists>rkgms' ets'. rd_kafka_roundrobin_assignor_assign_cb (\<lambda>re s. None) qsort qsort both_members [topic_of_both] = Inr (rkgms', 0) \<and>
    mset ets' = mset [topic_of_both] \<and> mset (map rkgm_member_id rkgms') = mset (map rkgm_member_id both_members) \<and>
    sorted_wrt (\<lambda>a b. strcmp a b \<le> 0) (map rkgm_member_id rkgms') \<and>
    (\<forall>j<length both_members. assigned rkgms' j = nths (all_partitions ets') {k. k mod length both_members = j})"
  by (rule roundrobin_takes_turns [OF glibc.c_qsort_axioms glibc.c_qsort_axioms])
    (auto simp: both_members_def topic_of_both_def new_member_def sub_list_def uniform_def rd_list_cnt_def list_ok_def
      rd_kafka_group_member_find_subscription_def rd_kafka_topic_partition_match_def is_regex_topic_def)

text \<open>
  C37: the search for the next subscriber of a topic goes forward only and never wraps around. If all
  members subscribe to the topics that the sorting function puts first, and to the topic after them,
  which has a partition, no member subscribes at or behind the position where the turn is by then, the
  round robin assignor reads behind the end of the array of members: even if a member before that
  position subscribes to the topic.
\<close>

theorem roundrobin_leaves_members:
  assumes "c_qsort qsm" "c_qsort qst" "rkgms \<noteq> []"
    and "qst rd_kafka_assignor_topic_cmp ets = us @ et # rest"
    and "\<forall>u\<in>set us. uniform rx rkgms u" "sum_list (map et_cnt us) \<le> 2 ^ 29" "0 < et_cnt et"
    and "\<forall>rkgm\<in>set rkgms. list_ok (rkgm_assignment rkgm) \<and> elems (rkgm_assignment rkgm) = []"
    and "\<forall>rkgm\<in>set (drop (nat (sum_list (map et_cnt us)) mod length rkgms) (qsm rd_kafka_group_member_cmp rkgms)).
      \<not> rd_kafka_group_member_find_subscription rx rkgm (et_topic et)"
  shows "rd_kafka_roundrobin_assignor_assign_cb rx qst qsm rkgms ets = Inl Out_Of_Bounds"
proof -
  let ?ms = "qsm rd_kafka_group_member_cmp rkgms"
  have ms: "mset ?ms = mset rkgms" "set ?ms = set rkgms" "length ?ms = length rkgms"
    by (rule c_qsort.qs_mset [OF assms(1)] c_qsort.qs_set [OF assms(1)] c_qsort.qs_length [OF assms(1)])+
  have "list_ok (rkgm_assignment (?ms ! j)) \<and> assigned ?ms j = []" if "j < length ?ms" for j
    using assms(8) ms(2) nth_mem [OF that] by simp
  then have ok: "members_ok ?ms (sum_list (map et_cnt us))" using assms(6) ms(3) by (auto simp: members_ok_def)
  have "\<forall>u\<in>set us. uniform rx ?ms u" using assms(5) ms by (simp add: uniform_def)
  from roundrobin_topics_leaves [OF this _ ok assms(7), of 0 rest] show ?thesis
    using assms(3,4,9) ms(3) by (simp add: rd_kafka_roundrobin_assignor_assign_cb_def none_from_def)
qed

definition one_partition :: "string \<Rightarrow> nat list \<Rightarrow> rd_kafka_assignor_topic" where
  "one_partition topic ms = \<lparr>at_metadata = \<lparr>mt_topic = topic, mt_partition_cnt = 1\<rparr>,
     at_members = \<lparr>rl_size = int (length ms), rl_cnt = int (length ms), rl_elems = Some (map Elem ms), rl_free_cb = False, rl_flags = 0,
       rl_elemsize = 0, rl_p = []\<rparr>\<rparr>"

theorem roundrobin_leaves_members_witness:
  "rd_kafka_roundrobin_assignor_assign_cb (\<lambda>re s. None) qsort qsort [new_member ''m1'' [''a'', ''b''], new_member ''m2'' [''a'']]
     [one_partition ''a'' [0, 1], one_partition ''b'' [0]] = Inl Out_Of_Bounds"
proof -
  let ?ms = "[new_member ''m1'' [''a'', ''b''], new_member ''m2'' [''a'']]" and ?ets = "[one_partition ''a'' [0, 1], one_partition ''b'' [0]]"
  have ets: "qsort rd_kafka_assignor_topic_cmp ?ets = [one_partition ''a'' [0, 1]] @ one_partition ''b'' [0] # []" by code_simp
  have ms: "qsort rd_kafka_group_member_cmp ?ms = ?ms" by code_simp
  show ?thesis
    by (rule roundrobin_leaves_members [OF glibc.c_qsort_axioms glibc.c_qsort_axioms _ ets], unfold ms)
      (auto simp: one_partition_def new_member_def sub_list_def uniform_def rd_list_cnt_def list_ok_def
        rd_kafka_group_member_find_subscription_def rd_kafka_topic_partition_match_def is_regex_topic_def)
qed

text \<open>
  The same from the configured assignor and the metadata: two members, the first subscribed to the topics
  \<open>a\<close> and \<open>b\<close>, the second to \<open>a\<close> only, each topic with one partition.
\<close>

definition roundrobin_conf :: "regex \<Rightarrow> assignor_conf option res" where
  "roundrobin_conf rx =
     rd_kafka_assignors_init (rd_kafka_range_assignor_assign_cb qsort, rd_kafka_roundrobin_assignor_assign_cb rx qsort qsort)
       consumer_conf ''roundrobin''"

lemma roundrobin_run_leaves_members:
  "bindR (roundrobin_conf (\<lambda>re s. None)) (\<lambda>conf. bindR (derefR Null_Deref conf) (\<lambda>conf.
     rd_kafka_assignor_run (\<lambda>re s. None) None conf ''roundrobin''
       [\<lparr>mt_topic = ''a'', mt_partition_cnt = 1\<rparr>, \<lparr>mt_topic = ''b'', mt_partition_cnt = 1\<rparr>]
       [new_member ''m1'' [''a'', ''b''], new_member ''m2'' [''a'']])) = Inl Out_Of_Bounds"
  by code_simp

end
