(* ===== verification/Timers.thy ===== *)
theory Timers
  imports Olog_Prelude "HOL-Library.Multiset"
begin

text \<open>
  The timers of the client, \<open>rdkafka_timer.c\<close>: a queue of scheduled timers in the order of their times.
  The clock is a parameter \<open>clk\<close>, the value of each reading by its number; a callback is a number whose
  effect is a parameter, and so is what other threads do while the lock is released for waiting. The
  lock is held otherwise and has no effect of its own.
\<close>

section \<open>State\<close>

record rd_kafka_timer =
  rtmr_next :: int
  rtmr_interval :: int
  rtmr_oneshot :: bool
  rtmr_callback :: nat
  rtmr_arg :: nat

text \<open>\<open>rkts_mem\<close> is the memory of all timers by address, \<open>rkts_reads\<close> the number of readings of the clock.\<close>

record rd_kafka_timers =
  rkts_timers :: "nat list"
  rkts_enabled :: bool
  rkts_mem :: "nat \<rightharpoonup> rd_kafka_timer"
  rkts_reads :: nat

type_synonym clock = "nat \<Rightarrow> int"

definition RD_POLL_NOWAIT :: int where "RD_POLL_NOWAIT = 0"

definition rd_clock :: "clock \<Rightarrow> rd_kafka_timers \<Rightarrow> int \<times> rd_kafka_timers" where
  "rd_clock clk rkts = (clk (rkts_reads rkts), rkts\<lparr>rkts_reads := Suc (rkts_reads rkts)\<rparr>)"

definition timer_at :: "rd_kafka_timers \<Rightarrow> nat \<Rightarrow> rd_kafka_timer res" where
  "timer_at rkts r = derefR Use_After_Free (rkts_mem rkts r)"

definition timer_put :: "rd_kafka_timers \<Rightarrow> nat \<Rightarrow> rd_kafka_timer \<Rightarrow> rd_kafka_timers" where
  "timer_put rkts r rtmr = rkts\<lparr>rkts_mem := (rkts_mem rkts)(r \<mapsto> rtmr)\<rparr>"

section \<open>Operations\<close>

definition rd_kafka_timer_started :: "rd_kafka_timer \<Rightarrow> bool" where
  "rd_kafka_timer_started rtmr \<longleftrightarrow> rtmr_interval rtmr \<noteq> 0"

definition rd_kafka_timer_scheduled :: "rd_kafka_timer \<Rightarrow> bool" where
  "rd_kafka_timer_scheduled rtmr \<longleftrightarrow> rtmr_next rtmr \<noteq> 0"

text \<open>The difference of two times is converted to a 32 bit integer.\<close>

definition rd_kafka_timer_cmp :: "rd_kafka_timer \<Rightarrow> rd_kafka_timer \<Rightarrow> int" where
  "rd_kafka_timer_cmp a b = s32 (rtmr_next a - rtmr_next b)"

definition rd_kafka_timer_unschedule :: "rd_kafka_timers \<Rightarrow> nat \<Rightarrow> rd_kafka_timers res" where
  "rd_kafka_timer_unschedule rkts r =
     (let rkts = rkts\<lparr>rkts_timers := remove1 r (rkts_timers rkts)\<rparr>
      in bindR (timer_at rkts r) (\<lambda>rtmr. Inr (timer_put rkts r (rtmr\<lparr>rtmr_next := 0\<rparr>))))"

fun timer_insert_sorted :: "(nat \<rightharpoonup> rd_kafka_timer) \<Rightarrow> nat \<Rightarrow> nat list \<Rightarrow> nat list res" where
  "timer_insert_sorted mem r [] = Inr [r]"
| "timer_insert_sorted mem r (x # xs) =
     bindR (derefR Use_After_Free (mem r)) (\<lambda>rtmr.
     bindR (derefR Use_After_Free (mem x)) (\<lambda>tmp.
     if rd_kafka_timer_cmp rtmr tmp < 0 then Inr (r # x # xs)
     else if xs = [] then Inr [x, r]
     else bindR (timer_insert_sorted mem r xs) (\<lambda>ys. Inr (x # ys))))"

definition rd_kafka_timer_schedule :: "clock \<Rightarrow> rd_kafka_timers \<Rightarrow> nat \<Rightarrow> int \<Rightarrow> rd_kafka_timers res" where
  "rd_kafka_timer_schedule clk rkts r extra_us =
     bindR (timer_at rkts r) (\<lambda>rtmr.
     if rtmr_interval rtmr = 0 then Inr rkts
     else if \<not> rkts_enabled rkts then Inr rkts
     else
       let (now, rkts) = rd_clock clk rkts;
           rtmr = rtmr\<lparr>rtmr_next := s64 (now + rtmr_interval rtmr + extra_us)\<rparr>;
           rkts = timer_put rkts r rtmr
       in case rkts_timers rkts of
            [] \<Rightarrow> Inr (rkts\<lparr>rkts_timers := [r]\<rparr>)
          | first # _ \<Rightarrow>
              bindR (timer_at rkts first) (\<lambda>f.
              if rtmr_next f > rtmr_next rtmr then Inr (rkts\<lparr>rkts_timers := r # rkts_timers rkts\<rparr>)
              else
                bindR (timer_insert_sorted (rkts_mem rkts) r (rkts_timers rkts)) (\<lambda>timers.
                Inr (rkts\<lparr>rkts_timers := timers\<rparr>))))"

text \<open>The return value is whether the timer was started.\<close>

definition rd_kafka_timer_stop :: "rd_kafka_timers \<Rightarrow> nat \<Rightarrow> (rd_kafka_timers \<times> int) res" where
  "rd_kafka_timer_stop rkts r =
     bindR (timer_at rkts r) (\<lambda>rtmr.
     if \<not> rd_kafka_timer_started rtmr then Inr (rkts, 0)
     else
       bindR (if rd_kafka_timer_scheduled rtmr then rd_kafka_timer_unschedule rkts r else Inr rkts) (\<lambda>rkts.
       bindR (timer_at rkts r) (\<lambda>rtmr.
       Inr (timer_put rkts r (rtmr\<lparr>rtmr_interval := 0\<rparr>), 1))))"

definition rd_kafka_timer_start0 ::
    "clock \<Rightarrow> rd_kafka_timers \<Rightarrow> nat \<Rightarrow> int \<Rightarrow> bool \<Rightarrow> nat \<Rightarrow> nat \<Rightarrow> rd_kafka_timers res" where
  "rd_kafka_timer_start0 clk rkts r interval oneshot callback arg =
     bindR (rd_kafka_timer_stop rkts r) (\<lambda>(rkts, _).
     bindR (timer_at rkts r) (\<lambda>rtmr.
     let rkts = timer_put rkts r
           (rtmr\<lparr>rtmr_interval := interval, rtmr_callback := callback, rtmr_arg := arg, rtmr_oneshot := oneshot\<rparr>)
     in rd_kafka_timer_schedule clk rkts r 0))"

definition rd_kafka_timer_backoff :: "clock \<Rightarrow> rd_kafka_timers \<Rightarrow> nat \<Rightarrow> int \<Rightarrow> rd_kafka_timers res" where
  "rd_kafka_timer_backoff clk rkts r backoff_us =
     bindR (timer_at rkts r) (\<lambda>rtmr.
     bindR (if rd_kafka_timer_scheduled rtmr then rd_kafka_timer_unschedule rkts r else Inr rkts) (\<lambda>rkts.
     rd_kafka_timer_schedule clk rkts r backoff_us))"

definition rd_kafka_timer_next :: "clock \<Rightarrow> rd_kafka_timers \<Rightarrow> nat \<Rightarrow> (rd_kafka_timers \<times> int) res" where
  "rd_kafka_timer_next clk rkts r =
     (let (now, rkts) = rd_clock clk rkts
      in bindR (timer_at rkts r) (\<lambda>rtmr.
         Inr (rkts, if rd_kafka_timer_scheduled rtmr then max 0 (rtmr_next rtmr - now) else - 1)))"

definition rd_kafka_timers_next :: "clock \<Rightarrow> rd_kafka_timers \<Rightarrow> int \<Rightarrow> (rd_kafka_timers \<times> int) res" where
  "rd_kafka_timers_next clk rkts timeout_us =
     (let (now, rkts) = rd_clock clk rkts
      in case rkts_timers rkts of
           [] \<Rightarrow> Inr (rkts, timeout_us)
         | r # _ \<Rightarrow>
             bindR (timer_at rkts r) (\<lambda>rtmr.
             let sleeptime = rtmr_next rtmr - now
             in Inr (rkts, if sleeptime < 0 then 0 else if sleeptime > timeout_us then timeout_us else sleeptime)))"

section \<open>Dispatch\<close>

text \<open>The rest of the program is a state \<open>'w\<close>; a callback acts on it and on the timers.\<close>

type_synonym 'w callback = "nat \<Rightarrow> nat \<Rightarrow> 'w \<times> rd_kafka_timers \<Rightarrow> ('w \<times> rd_kafka_timers) res"

definition fire :: "clock \<Rightarrow> 'w callback \<Rightarrow> nat \<Rightarrow> 'w \<times> rd_kafka_timers \<Rightarrow> ('w \<times> rd_kafka_timers) res" where
  "fire clk call r s =
     bindR (rd_kafka_timer_unschedule (snd s) r) (\<lambda>rkts.
     bindR (timer_at rkts r) (\<lambda>rtmr.
     let rkts = if rtmr_oneshot rtmr then timer_put rkts r (rtmr\<lparr>rtmr_interval := 0\<rparr>) else rkts
     in bindR (call (rtmr_callback rtmr) (rtmr_arg rtmr) (fst s, rkts)) (\<lambda>(w, rkts).
        bindR (timer_at rkts r) (\<lambda>rtmr.
        if rd_kafka_timer_started rtmr \<and> \<not> rd_kafka_timer_scheduled rtmr
        then bindR (rd_kafka_timer_schedule clk rkts r 0) (\<lambda>rkts. Inr (w, rkts))
        else Inr (w, rkts)))))"

text \<open>A callback may start timers that are due at once, so that the loop need not end.\<close>

partial_function (option) fire_loop ::
    "clock \<Rightarrow> 'w callback \<Rightarrow> int \<Rightarrow> 'w \<times> rd_kafka_timers \<Rightarrow> ('w \<times> rd_kafka_timers) res option" where
  "fire_loop clk call now s =
     (case rkts_timers (snd s) of
        [] \<Rightarrow> Some (Inr s)
      | r # _ \<Rightarrow>
          (case timer_at (snd s) r of
             Inl e \<Rightarrow> Some (Inl e)
           | Inr rtmr \<Rightarrow>
               if rtmr_next rtmr \<le> now then
                 (case fire clk call r s of Inl e \<Rightarrow> Some (Inl e) | Inr s \<Rightarrow> fire_loop clk call now s)
               else Some (Inr s)))"

text \<open>\<open>wait ms\<close> is what happens while the condition variable is waited for.\<close>

definition wait_next ::
    "clock \<Rightarrow> (int \<Rightarrow> 'w \<times> rd_kafka_timers \<Rightarrow> 'w \<times> rd_kafka_timers) \<Rightarrow> int \<Rightarrow> 'w \<times> rd_kafka_timers \<Rightarrow> ('w \<times> rd_kafka_timers) res" where
  "wait_next clk wait timeout_us s =
     (if timeout_us \<noteq> RD_POLL_NOWAIT then
        bindR (rd_kafka_timers_next clk (snd s) timeout_us) (\<lambda>(rkts, sleeptime).
        Inr (if sleeptime > 0 then wait (sleeptime div 1000) (fst s, rkts) else (fst s, rkts)))
      else Inr s)"

partial_function (option) run_loop ::
    "clock \<Rightarrow> 'w callback \<Rightarrow> ('w \<Rightarrow> bool) \<Rightarrow> (int \<Rightarrow> 'w \<times> rd_kafka_timers \<Rightarrow> 'w \<times> rd_kafka_timers) \<Rightarrow>
     int \<Rightarrow> int \<Rightarrow> int \<Rightarrow> 'w \<times> rd_kafka_timers \<Rightarrow> ('w \<times> rd_kafka_timers) res option" where
  "run_loop clk call terminating wait timeout_us stop now s =
     (if \<not> terminating (fst s) \<and> now \<le> stop then
        (case wait_next clk wait timeout_us s of
           Inl e \<Rightarrow> Some (Inl e)
         | Inr s \<Rightarrow>
             (case fire_loop clk call (fst (rd_clock clk (snd s))) (fst s, snd (rd_clock clk (snd s))) of
                None \<Rightarrow> None
              | Some (Inl e) \<Rightarrow> Some (Inl e)
              | Some (Inr s') \<Rightarrow>
                  if timeout_us = RD_POLL_NOWAIT then Some (Inr s')
                  else run_loop clk call terminating wait timeout_us stop (fst (rd_clock clk (snd s))) s'))
      else Some (Inr s))"

definition rd_kafka_timers_run ::
    "clock \<Rightarrow> 'w callback \<Rightarrow> ('w \<Rightarrow> bool) \<Rightarrow> (int \<Rightarrow> 'w \<times> rd_kafka_timers \<Rightarrow> 'w \<times> rd_kafka_timers) \<Rightarrow>
     int \<Rightarrow> 'w \<times> rd_kafka_timers \<Rightarrow> ('w \<times> rd_kafka_timers) res option" where
  "rd_kafka_timers_run clk call terminating wait timeout_us s =
     (let (now, rkts) = rd_clock clk (snd s)
      in run_loop clk call terminating wait timeout_us (now + timeout_us) now (fst s, rkts))"

section \<open>Initialisation and destruction\<close>

definition rd_kafka_timers_init :: "(nat \<rightharpoonup> rd_kafka_timer) \<Rightarrow> nat \<Rightarrow> rd_kafka_timers" where
  "rd_kafka_timers_init mem reads = \<lparr>rkts_timers = [], rkts_enabled = True, rkts_mem = mem, rkts_reads = reads\<rparr>"

partial_function (option) stop_loop :: "rd_kafka_timers \<Rightarrow> rd_kafka_timers res option" where
  "stop_loop rkts =
     (case rkts_timers rkts of
        [] \<Rightarrow> Some (Inr rkts)
      | r # _ \<Rightarrow> (case rd_kafka_timer_stop rkts r of Inl e \<Rightarrow> Some (Inl e) | Inr (rkts, _) \<Rightarrow> stop_loop rkts))"

definition rd_kafka_timers_destroy :: "rd_kafka_timers \<Rightarrow> rd_kafka_timers res option" where
  "rd_kafka_timers_destroy rkts =
     map_option (\<lambda>m. bindR m (\<lambda>rkts. bindR (check Assert_Failed (rkts_timers rkts = [])) (\<lambda>_. Inr rkts)))
       (stop_loop (rkts\<lparr>rkts_enabled := False\<rparr>))"

section \<open>Invariant\<close>

abbreviation next_of :: "rd_kafka_timers \<Rightarrow> nat \<Rightarrow> int" where
  "next_of rkts r \<equiv> rtmr_next (the (rkts_mem rkts r))"

text \<open>The queue holds exactly the scheduled timers, which are started, in the order of their times.\<close>

definition timers_wf :: "rd_kafka_timers \<Rightarrow> bool" where
  "timers_wf rkts \<longleftrightarrow>
     distinct (rkts_timers rkts) \<and> sorted (map (next_of rkts) (rkts_timers rkts)) \<and>
     (\<forall>r\<in>set (rkts_timers rkts). \<exists>t. rkts_mem rkts r = Some t \<and> rtmr_next t \<noteq> 0 \<and> 0 < rtmr_interval t) \<and>
     (\<forall>r t. rkts_mem rkts r = Some t \<longrightarrow> r \<notin> set (rkts_timers rkts) \<longrightarrow> rtmr_next t = 0)"

text \<open>A time that is less than 2147 seconds away from all times in the queue.\<close>

definition near :: "rd_kafka_timers \<Rightarrow> int \<Rightarrow> bool" where
  "near rkts n \<longleftrightarrow> 0 < n \<and> n < 2 ^ 63 \<and> (\<forall>r\<in>set (rkts_timers rkts). \<bar>n - next_of rkts r\<bar> < 2 ^ 31)"

lemma timers_init_wf: "\<forall>r t. mem r = Some t \<longrightarrow> rtmr_next t = 0 \<Longrightarrow> timers_wf (rd_kafka_timers_init mem reads)"
  by (simp add: timers_wf_def rd_kafka_timers_init_def)

lemma insert_sorted_insort:
  assumes "mem r = Some t" "\<forall>x\<in>set xs. \<exists>u. mem x = Some u \<and> \<bar>rtmr_next t - rtmr_next u\<bar> < 2 ^ 31"
  shows "\<exists>as bs. xs = as @ bs \<and> timer_insert_sorted mem r xs = Inr (as @ r # bs) \<and>
    (\<forall>x\<in>set as. rtmr_next (the (mem x)) \<le> rtmr_next t) \<and> (bs \<noteq> [] \<longrightarrow> rtmr_next t < rtmr_next (the (mem (hd bs))))"
  using assms(2)
proof (induction xs)
  case (Cons x xs)
  obtain u where u: "mem x = Some u" "\<bar>rtmr_next t - rtmr_next u\<bar> < 2 ^ 31" using Cons.prems by auto
  have cmp: "rd_kafka_timer_cmp t u < 0 \<longleftrightarrow> rtmr_next t < rtmr_next u"
    using u(2) by (simp add: rd_kafka_timer_cmp_def s32_id in_range_def)
  show ?case
  proof (cases "rtmr_next t < rtmr_next u")
    case True
    then show ?thesis using assms(1) u(1) cmp by (intro exI [of _ "[]"] exI [of _ "x # xs"]) simp
  next
    case False
    obtain as bs where r: "xs = as @ bs" "timer_insert_sorted mem r xs = Inr (as @ r # bs)"
        "\<forall>x\<in>set as. rtmr_next (the (mem x)) \<le> rtmr_next t" "bs \<noteq> [] \<longrightarrow> rtmr_next t < rtmr_next (the (mem (hd bs)))"
      using Cons by auto
    show ?thesis using False assms(1) u(1) cmp r
      by (intro exI [of _ "x # as"] exI [of _ bs]) (cases xs; auto)
  qed
qed simp

lemma sorted_insert:
  assumes "sorted (map f (as @ bs))" "\<forall>x\<in>set as. f x \<le> f r" "bs \<noteq> [] \<longrightarrow> f r < (f (hd bs) :: int)"
  shows "sorted (map f (as @ r # bs))"
  using assms by (cases bs) (auto simp: sorted_append)

lemma timer_schedule_ok:
  assumes wf: "timers_wf rkts" and mem: "rkts_mem rkts r = Some t" "r \<notin> set (rkts_timers rkts)"
    and t: "0 < rtmr_interval t" and en: "rkts_enabled rkts"
    and n: "n = clk (rkts_reads rkts) + rtmr_interval t + extra_us" "near rkts n"
  shows "\<exists>as bs. rkts_timers rkts = as @ bs \<and> rd_kafka_timer_schedule clk rkts r extra_us =
      Inr (rkts\<lparr>rkts_timers := as @ r # bs, rkts_mem := (rkts_mem rkts)(r \<mapsto> t\<lparr>rtmr_next := n\<rparr>), rkts_reads := Suc (rkts_reads rkts)\<rparr>) \<and>
    timers_wf (rkts\<lparr>rkts_timers := as @ r # bs, rkts_mem := (rkts_mem rkts)(r \<mapsto> t\<lparr>rtmr_next := n\<rparr>), rkts_reads := Suc (rkts_reads rkts)\<rparr>)"
proof -
  let ?mem = "(rkts_mem rkts)(r \<mapsto> t\<lparr>rtmr_next := n\<rparr>)" and ?q = "rkts_timers rkts"
  have n64: "s64 n = n" using n(2) by (simp add: near_def s64_id in_range_def)
  have dist: "distinct ?q" and sorted: "sorted (map (next_of rkts) ?q)"
    and alive: "\<forall>x\<in>set ?q. \<exists>u. rkts_mem rkts x = Some u \<and> rtmr_next u \<noteq> 0 \<and> 0 < rtmr_interval u"
    and rest: "\<forall>x u. rkts_mem rkts x = Some u \<longrightarrow> x \<notin> set ?q \<longrightarrow> rtmr_next u = 0"
    using wf by (auto simp: timers_wf_def)
  have same: "?mem x = rkts_mem rkts x" if "x \<in> set ?q" for x using that mem(2) by auto
  have near: "\<forall>x\<in>set ?q. \<exists>u. ?mem x = Some u \<and> \<bar>rtmr_next (t\<lparr>rtmr_next := n\<rparr>) - rtmr_next u\<bar> < 2 ^ 31"
    using n(2) alive same by (fastforce simp: near_def)
  have mr: "?mem r = Some (t\<lparr>rtmr_next := n\<rparr>)" and nt: "rtmr_next (t\<lparr>rtmr_next := n\<rparr>) = n" by simp_all
  from insert_sorted_insort [OF mr near, unfolded nt] obtain as bs where ins: "?q = as @ bs" "timer_insert_sorted ?mem r ?q = Inr (as @ r # bs)"
      "\<forall>x\<in>set as. rtmr_next (the (?mem x)) \<le> n" "bs \<noteq> [] \<longrightarrow> n < rtmr_next (the (?mem (hd bs)))"
    by blast
  have sched: "rd_kafka_timer_schedule clk rkts r extra_us =
      Inr (rkts\<lparr>rkts_timers := as @ r # bs, rkts_mem := ?mem, rkts_reads := Suc (rkts_reads rkts)\<rparr>)"
  proof (cases ?q)
    case Nil
    then show ?thesis using ins(1) mem(1) t en n(1) n64
      by (simp add: rd_kafka_timer_schedule_def timer_at_def rd_clock_def timer_put_def Let_def)
  next
    case (Cons first q')
    obtain u where u: "rkts_mem rkts first = Some u" "first \<noteq> r" using alive Cons mem(2) by auto
    show ?thesis
    proof (cases "rtmr_next u > n")
      case True
      have "as = []"
      proof (rule ccontr)
        assume "as \<noteq> []"
        then have "first \<in> set as" using ins(1) Cons by (cases as) auto
        then show False using ins(3) u True by auto
      qed
      then have "as = []" "bs = first # q'" using ins(1) Cons by auto
      then show ?thesis using True Cons u mem(1) t en n(1) n64
        by (simp add: rd_kafka_timer_schedule_def timer_at_def rd_clock_def timer_put_def Let_def)
    next
      case False
      then show ?thesis using Cons u mem(1) t en n(1) n64 ins(2)
        by (simp add: rd_kafka_timer_schedule_def timer_at_def rd_clock_def timer_put_def Let_def)
    qed
  qed
  moreover have "timers_wf (rkts\<lparr>rkts_timers := as @ r # bs, rkts_mem := ?mem, rkts_reads := Suc (rkts_reads rkts)\<rparr>)"
  proof -
    have eq: "map (\<lambda>x. rtmr_next (the (?mem x))) (as @ bs) = map (next_of rkts) (as @ bs)" using same ins(1) by (intro map_cong) auto
    have "sorted (map (\<lambda>x. rtmr_next (the (?mem x))) (as @ bs))" unfolding eq using sorted ins(1) by simp
    then have "sorted (map (\<lambda>x. rtmr_next (the (?mem x))) (as @ r # bs))"
      by (rule sorted_insert) (use ins(3,4) in \<open>simp_all only: mr nt option.sel\<close>)
    moreover have "0 < n" using n(2) by (simp add: near_def)
    ultimately show ?thesis using dist alive rest mem(2) t ins(1) by (auto simp: timers_wf_def)
  qed
  ultimately show ?thesis using ins(1) by blast
qed

lemma timer_unschedule_ok:
  assumes wf: "timers_wf rkts" and q: "rkts_timers rkts = as @ r # bs" and mem: "rkts_mem rkts r = Some t"
  shows "rd_kafka_timer_unschedule rkts r =
      Inr (rkts\<lparr>rkts_timers := as @ bs, rkts_mem := (rkts_mem rkts)(r \<mapsto> t\<lparr>rtmr_next := 0\<rparr>)\<rparr>)"
    and "timers_wf (rkts\<lparr>rkts_timers := as @ bs, rkts_mem := (rkts_mem rkts)(r \<mapsto> t\<lparr>rtmr_next := 0, rtmr_interval := i\<rparr>)\<rparr>)"
proof -
  have r: "r \<notin> set as" "r \<notin> set bs" using wf q by (auto simp: timers_wf_def)
  then show "rd_kafka_timer_unschedule rkts r =
      Inr (rkts\<lparr>rkts_timers := as @ bs, rkts_mem := (rkts_mem rkts)(r \<mapsto> t\<lparr>rtmr_next := 0\<rparr>)\<rparr>)"
    using q mem by (simp add: rd_kafka_timer_unschedule_def timer_at_def timer_put_def remove1_append Let_def)
  let ?mem = "(rkts_mem rkts)(r \<mapsto> t\<lparr>rtmr_next := 0, rtmr_interval := i\<rparr>)"
  have eq: "map (\<lambda>x. rtmr_next (the (?mem x))) (as @ bs) = map (next_of rkts) (as @ bs)" using r by (intro map_cong) auto
  have "sorted (map (\<lambda>x. rtmr_next (the (?mem x))) (as @ bs))" unfolding eq using wf q by (auto simp: timers_wf_def sorted_append)
  then show "timers_wf (rkts\<lparr>rkts_timers := as @ bs, rkts_mem := ?mem\<rparr>)"
    using wf q r unfolding timers_wf_def by (auto split: if_splits)
qed

section \<open>Firing\<close>

text \<open>Callbacks that leave the timers alone.\<close>

definition inert :: "(nat \<Rightarrow> nat \<Rightarrow> 'w \<Rightarrow> 'w) \<Rightarrow> 'w callback" where
  "inert upd k a s = Inr (upd k a (fst s), snd s)"

lemma fire_oneshot:
  assumes wf: "timers_wf rkts" and q: "rkts_timers rkts = r # q" and mem: "rkts_mem rkts r = Some t" "rtmr_oneshot t"
  shows "fire clk (inert upd) r (w, rkts) = Inr (upd (rtmr_callback t) (rtmr_arg t) w,
      rkts\<lparr>rkts_timers := q, rkts_mem := (rkts_mem rkts)(r \<mapsto> t\<lparr>rtmr_next := 0, rtmr_interval := 0\<rparr>)\<rparr>)"
  using timer_unschedule_ok(1) [OF wf, of "[]" r q t] q mem
  by (simp add: fire_def inert_def timer_at_def timer_put_def Let_def rd_kafka_timer_started_def)

lemma fire_periodic:
  assumes wf: "timers_wf rkts" and q: "rkts_timers rkts = r # q" and mem: "rkts_mem rkts r = Some t" "\<not> rtmr_oneshot t"
    and en: "rkts_enabled rkts" and n: "n = clk (rkts_reads rkts) + rtmr_interval t" "0 < n" "n < 2 ^ 63"
    and near: "\<forall>x\<in>set q. \<bar>n - next_of rkts x\<bar> < 2 ^ 31"
  shows "\<exists>as bs rkts'. q = as @ bs \<and> fire clk (inert upd) r (w, rkts) = Inr (upd (rtmr_callback t) (rtmr_arg t) w, rkts') \<and>
    rkts' = rkts\<lparr>rkts_timers := as @ r # bs, rkts_mem := (rkts_mem rkts)(r \<mapsto> t\<lparr>rtmr_next := n\<rparr>), rkts_reads := Suc (rkts_reads rkts)\<rparr> \<and>
    timers_wf rkts'"
proof -
  let ?t0 = "t\<lparr>rtmr_next := 0\<rparr>"
  let ?rkts = "rkts\<lparr>rkts_timers := q, rkts_mem := (rkts_mem rkts)(r \<mapsto> ?t0)\<rparr>"
  have r: "r \<notin> set q" "0 < rtmr_interval t" using wf q mem(1) by (auto simp: timers_wf_def)
  have un: "rd_kafka_timer_unschedule rkts r = Inr ?rkts" using timer_unschedule_ok(1) [OF wf, of "[]" r q t] q mem(1) by simp
  have wf': "timers_wf ?rkts" using timer_unschedule_ok(2) [OF wf, of "[]" r q t "rtmr_interval t"] q mem(1) by simp
  have "near ?rkts n" using n near r(1) by (auto simp: near_def)
  then obtain as bs where s: "q = as @ bs" "rd_kafka_timer_schedule clk ?rkts r 0 =
        Inr (?rkts\<lparr>rkts_timers := as @ r # bs, rkts_mem := (rkts_mem ?rkts)(r \<mapsto> ?t0\<lparr>rtmr_next := n\<rparr>), rkts_reads := Suc (rkts_reads ?rkts)\<rparr>)"
      "timers_wf (?rkts\<lparr>rkts_timers := as @ r # bs, rkts_mem := (rkts_mem ?rkts)(r \<mapsto> ?t0\<lparr>rtmr_next := n\<rparr>), rkts_reads := Suc (rkts_reads ?rkts)\<rparr>)"
    using timer_schedule_ok [OF wf', of r ?t0 n clk 0] r en n(1) by auto
  have "fire clk (inert upd) r (w, rkts) = bindR (rd_kafka_timer_schedule clk ?rkts r 0) (\<lambda>rkts. Inr (upd (rtmr_callback t) (rtmr_arg t) w, rkts))"
    using un r(2) mem(2)
    by (simp add: fire_def inert_def timer_at_def Let_def rd_kafka_timer_started_def rd_kafka_timer_scheduled_def)
  then have "fire clk (inert upd) r (w, rkts) = Inr (upd (rtmr_callback t) (rtmr_arg t) w,
      rkts\<lparr>rkts_timers := as @ r # bs, rkts_mem := (rkts_mem rkts)(r \<mapsto> t\<lparr>rtmr_next := n\<rparr>), rkts_reads := Suc (rkts_reads rkts)\<rparr>)"
    using s(2) by simp
  moreover have "timers_wf (rkts\<lparr>rkts_timers := as @ r # bs, rkts_mem := (rkts_mem rkts)(r \<mapsto> t\<lparr>rtmr_next := n\<rparr>), rkts_reads := Suc (rkts_reads rkts)\<rparr>)"
    using s(3) by simp
  ultimately show ?thesis using s(1) by blast
qed

text \<open>
  Before a dispatch at \<open>now\<close>: the clock does not run backwards, and all times that are in the queue or
  will be given out fit a window of 2147 seconds.
\<close>

definition ready :: "clock \<Rightarrow> int \<Rightarrow> int \<Rightarrow> rd_kafka_timers \<Rightarrow> bool" where
  "ready clk now lo rkts \<longleftrightarrow>
     timers_wf rkts \<and> rkts_enabled rkts \<and> 0 \<le> now \<and> lo + 2 ^ 31 \<le> 2 ^ 63 \<and> (\<forall>k\<ge>rkts_reads rkts. now \<le> clk k) \<and>
     (\<forall>r\<in>set (rkts_timers rkts). lo \<le> next_of rkts r \<and> next_of rkts r < lo + 2 ^ 31 \<and>
        (\<forall>k\<ge>rkts_reads rkts. clk k + rtmr_interval (the (rkts_mem rkts r)) < lo + 2 ^ 31))"

definition due :: "int \<Rightarrow> rd_kafka_timers \<Rightarrow> nat list" where
  "due now rkts = filter (\<lambda>r. next_of rkts r \<le> now) (rkts_timers rkts)"

abbreviation run_callback :: "(nat \<Rightarrow> nat \<Rightarrow> 'w \<Rightarrow> 'w) \<Rightarrow> rd_kafka_timers \<Rightarrow> nat \<Rightarrow> 'w \<Rightarrow> 'w" where
  "run_callback upd rkts r w \<equiv> upd (rtmr_callback (the (rkts_mem rkts r))) (rtmr_arg (the (rkts_mem rkts r))) w"

text \<open>The queue with the head taken out and possibly put back at a later time.\<close>

lemma fire_step:
  assumes ready: "ready clk now lo rkts" and q: "rkts_timers rkts = r # q" and now: "next_of rkts r \<le> now"
  shows "\<exists>rkts'. fire clk (inert upd) r (w, rkts) = Inr (run_callback upd rkts r w, rkts') \<and> ready clk now lo rkts' \<and>
    due now rkts' = filter (\<lambda>x. next_of rkts x \<le> now) q \<and>
    (\<forall>x\<in>set q. rkts_mem rkts' x = rkts_mem rkts x) \<and>
    set (rkts_timers rkts') = (if rtmr_oneshot (the (rkts_mem rkts r)) then set q else insert r (set q))"
proof -
  have wf: "timers_wf rkts" and en: "rkts_enabled rkts" using ready by (simp_all add: ready_def)
  obtain t where t: "rkts_mem rkts r = Some t" "0 < rtmr_interval t" using wf q by (auto simp: timers_wf_def)
  have r: "r \<notin> set q" using wf q by (simp add: timers_wf_def)
  have win: "\<forall>x\<in>set q. lo \<le> next_of rkts x \<and> next_of rkts x < lo + 2 ^ 31 \<and>
      (\<forall>k\<ge>rkts_reads rkts. clk k + rtmr_interval (the (rkts_mem rkts x)) < lo + 2 ^ 31)"
    and wr: "lo \<le> next_of rkts r" "\<forall>k\<ge>rkts_reads rkts. clk k + rtmr_interval t < lo + 2 ^ 31"
    and g: "0 \<le> now" "lo + 2 ^ 31 \<le> 2 ^ 63" "\<forall>k\<ge>rkts_reads rkts. now \<le> clk k"
    using ready q t(1) by (auto simp: ready_def)
  show ?thesis
  proof (cases "rtmr_oneshot t")
    case True
    let ?rkts = "rkts\<lparr>rkts_timers := q, rkts_mem := (rkts_mem rkts)(r \<mapsto> t\<lparr>rtmr_next := 0, rtmr_interval := 0\<rparr>)\<rparr>"
    have "timers_wf ?rkts" using timer_unschedule_ok(2) [OF wf, of "[]" r q t 0] q t(1) by simp
    moreover have "\<forall>x\<in>set q. rkts_mem ?rkts x = rkts_mem rkts x" using r by auto
    ultimately have "ready clk now lo ?rkts" using win g en by (simp add: ready_def)
    moreover have "due now ?rkts = filter (\<lambda>x. next_of rkts x \<le> now) q" using r by (auto simp: due_def intro!: filter_cong)
    ultimately show ?thesis using fire_oneshot [OF wf q t(1) True, of clk upd w] True t(1) r by (intro exI [of _ ?rkts]) auto
  next
    case False
    define n where "n = clk (rkts_reads rkts) + rtmr_interval t"
    have n: "now < n" "lo \<le> n" "n < lo + 2 ^ 31" using g(3) wr now t(2) by (auto simp: n_def)
    have near: "\<forall>x\<in>set q. \<bar>n - next_of rkts x\<bar> < 2 ^ 31" using win n by fastforce
    have "0 < n" "n < 2 ^ 63" using n g by auto
    with fire_periodic [where clk = clk, OF wf q t(1) False en n_def _ _ near, of upd w] obtain as bs rkts' where f: "q = as @ bs"
        "fire clk (inert upd) r (w, rkts) = Inr (upd (rtmr_callback t) (rtmr_arg t) w, rkts')"
        "rkts' = rkts\<lparr>rkts_timers := as @ r # bs, rkts_mem := (rkts_mem rkts)(r \<mapsto> t\<lparr>rtmr_next := n\<rparr>), rkts_reads := Suc (rkts_reads rkts)\<rparr>"
        "timers_wf rkts'" by blast
    have same: "\<forall>x\<in>set q. rkts_mem rkts' x = rkts_mem rkts x" using r f(3) by auto
    have "ready clk now lo rkts'" unfolding ready_def
    proof (intro conjI ballI)
      fix x assume "x \<in> set (rkts_timers rkts')"
      then have x: "x = r \<or> x \<in> set q" using f(1,3) by auto
      have m: "rkts_mem rkts' r = Some (t\<lparr>rtmr_next := n\<rparr>)" "rkts_reads rkts' = Suc (rkts_reads rkts)" using f(3) by simp_all
      show "lo \<le> next_of rkts' x" using x m same win n by auto
      show "next_of rkts' x < lo + 2 ^ 31" using x m same win n by auto
      show "\<forall>k\<ge>rkts_reads rkts'. clk k + rtmr_interval (the (rkts_mem rkts' x)) < lo + 2 ^ 31" using x m same win wr by auto
    qed (use f(3,4) en g in auto)
    moreover have "due now rkts' = filter (\<lambda>x. next_of rkts x \<le> now) q"
    proof -
      have "filter (\<lambda>x. next_of rkts' x \<le> now) as = filter (\<lambda>x. next_of rkts x \<le> now) as"
        "filter (\<lambda>x. next_of rkts' x \<le> now) bs = filter (\<lambda>x. next_of rkts x \<le> now) bs"
        using same f(1) by (auto intro!: filter_cong)
      then show ?thesis using f(1,3) n(1) by (simp add: due_def)
    qed
    ultimately show ?thesis using f same False t(1) by (intro exI [of _ rkts']) auto
  qed
qed

lemma fire_loop_due:
  assumes "ready clk now lo rkts"
  shows "\<exists>rkts'. fire_loop clk (inert upd) now (w, rkts) = Some (Inr (fold (run_callback upd rkts) (due now rkts) w, rkts')) \<and>
    ready clk now lo rkts' \<and> due now rkts' = [] \<and>
    set (rkts_timers rkts') = {r \<in> set (rkts_timers rkts). \<not> (next_of rkts r \<le> now \<and> rtmr_oneshot (the (rkts_mem rkts r)))}"
  using assms
proof (induction "length (due now rkts)" arbitrary: rkts w)
  case 0
  then have d: "due now rkts = []" by simp
  have "fire_loop clk (inert upd) now (w, rkts) = Some (Inr (w, rkts))"
  proof (cases "rkts_timers rkts")
    case (Cons r q)
    obtain t where "rkts_mem rkts r = Some t" using 0(2) Cons by (auto simp: ready_def timers_wf_def)
    then show ?thesis using d Cons by (subst fire_loop.simps) (auto simp: due_def timer_at_def split: if_splits)
  qed (subst fire_loop.simps, simp)
  then show ?case using 0(2) d by (auto simp: due_def filter_empty_conv)
next
  case (Suc k)
  have wf: "timers_wf rkts" using Suc.prems by (simp add: ready_def)
  obtain r q where q: "rkts_timers rkts = r # q" using Suc.hyps(2) by (cases "rkts_timers rkts") (auto simp: due_def)
  obtain t where t: "rkts_mem rkts r = Some t" using wf q by (auto simp: timers_wf_def)
  have now: "next_of rkts r \<le> now"
  proof (rule ccontr)
    assume "\<not> next_of rkts r \<le> now"
    then have "due now rkts = []" using wf q by (auto simp: due_def timers_wf_def filter_empty_conv)
    then show False using Suc.hyps(2) by simp
  qed
  obtain rkts1 where f: "fire clk (inert upd) r (w, rkts) = Inr (run_callback upd rkts r w, rkts1)" "ready clk now lo rkts1"
      "due now rkts1 = filter (\<lambda>x. next_of rkts x \<le> now) q" "\<forall>x\<in>set q. rkts_mem rkts1 x = rkts_mem rkts x"
      "set (rkts_timers rkts1) = (if rtmr_oneshot (the (rkts_mem rkts r)) then set q else insert r (set q))"
    using fire_step [OF Suc.prems q now, of upd w] by blast
  have d: "due now rkts = r # due now rkts1" using q now f(3) by (simp add: due_def)
  then have "k = length (due now rkts1)" using Suc.hyps(2) by simp
  from Suc.hyps(1) [OF this f(2), of "run_callback upd rkts r w"] obtain rkts2 where g:
      "fire_loop clk (inert upd) now (run_callback upd rkts r w, rkts1) =
         Some (Inr (fold (run_callback upd rkts1) (due now rkts1) (run_callback upd rkts r w), rkts2))"
      "ready clk now lo rkts2" "due now rkts2 = []"
      "set (rkts_timers rkts2) = {r \<in> set (rkts_timers rkts1). \<not> (next_of rkts1 r \<le> now \<and> rtmr_oneshot (the (rkts_mem rkts1 r)))}"
    by blast
  have "fold (run_callback upd rkts1) (due now rkts1) w' = fold (run_callback upd rkts) (due now rkts1) w'" for w'
    using f(3,4) by (intro fold_cong) auto
  then have "fire_loop clk (inert upd) now (w, rkts) = Some (Inr (fold (run_callback upd rkts) (due now rkts) w, rkts2))"
    using q t now f(1) g(1) d by (subst fire_loop.simps) (simp add: timer_at_def)
  moreover have "next_of rkts1 r > now" if "r \<in> set (rkts_timers rkts1)"
  proof (rule ccontr)
    assume "\<not> next_of rkts1 r > now"
    then have "r \<in> set (due now rkts1)" using that by (simp add: due_def)
    then show False using f(3) wf q by (auto simp: timers_wf_def)
  qed
  then have "set (rkts_timers rkts2) = {r \<in> set (rkts_timers rkts). \<not> (next_of rkts r \<le> now \<and> rtmr_oneshot (the (rkts_mem rkts r)))}"
    using g(4) f(4,5) q now wf by (auto simp: timers_wf_def)
  ultimately show ?case using g(2,3) by blast
qed

section \<open>Stopping\<close>

lemma timers_wf_put:
  assumes "timers_wf rkts" "r \<notin> set (rkts_timers rkts)" "rtmr_next t = 0"
  shows "timers_wf (rkts\<lparr>rkts_mem := (rkts_mem rkts)(r \<mapsto> t)\<rparr>)"
proof -
  let ?rkts = "rkts\<lparr>rkts_mem := (rkts_mem rkts)(r \<mapsto> t)\<rparr>"
  have eq: "map (next_of ?rkts) (rkts_timers rkts) = map (next_of rkts) (rkts_timers rkts)"
    using assms(2) by (intro map_cong) auto
  have "sorted (map (next_of ?rkts) (rkts_timers rkts))" unfolding eq using assms(1) by (simp add: timers_wf_def)
  then show ?thesis using assms by (auto simp: timers_wf_def)
qed

lemma timer_stop_ok:
  assumes wf: "timers_wf rkts" and mem: "rkts_mem rkts r = Some t"
  shows "\<exists>rkts' ret. rd_kafka_timer_stop rkts r = Inr (rkts', ret) \<and> timers_wf rkts' \<and>
    rkts_timers rkts' = remove1 r (rkts_timers rkts) \<and> (\<exists>t'. rkts_mem rkts' r = Some t' \<and> rtmr_interval t' = 0 \<and> rtmr_next t' = 0) \<and>
    rkts_enabled rkts' = rkts_enabled rkts \<and> rkts_reads rkts' = rkts_reads rkts \<and> (\<forall>x. x \<noteq> r \<longrightarrow> rkts_mem rkts' x = rkts_mem rkts x)"
proof (cases "r \<in> set (rkts_timers rkts)")
  case True
  then obtain as bs where q: "rkts_timers rkts = as @ r # bs" by (meson split_list)
  have t: "rtmr_next t \<noteq> 0" "rtmr_interval t \<noteq> 0" and r: "r \<notin> set as" using wf True mem q by (auto simp: timers_wf_def)
  have "rd_kafka_timer_stop rkts r =
      Inr (rkts\<lparr>rkts_timers := as @ bs, rkts_mem := (rkts_mem rkts)(r \<mapsto> t\<lparr>rtmr_next := 0, rtmr_interval := 0\<rparr>)\<rparr>, 1)"
    using t mem timer_unschedule_ok(1) [OF wf q mem]
    by (simp add: rd_kafka_timer_stop_def timer_at_def timer_put_def rd_kafka_timer_started_def rd_kafka_timer_scheduled_def)
  then show ?thesis using timer_unschedule_ok(2) [OF wf q mem, of 0] q r by (simp add: remove1_append)
next
  case False
  then have n: "rtmr_next t = 0" using wf mem by (auto simp: timers_wf_def)
  have "timers_wf (rkts\<lparr>rkts_mem := (rkts_mem rkts)(r \<mapsto> t\<lparr>rtmr_interval := 0\<rparr>)\<rparr>)"
    using timers_wf_put [OF wf False] n by simp
  then show ?thesis using wf mem False n
    by (auto simp: rd_kafka_timer_stop_def timer_at_def timer_put_def rd_kafka_timer_started_def rd_kafka_timer_scheduled_def remove1_idem)
qed

lemma timer_start_ok:
  assumes wf: "timers_wf rkts" and mem: "rkts_mem rkts r = Some t" and en: "rkts_enabled rkts" and i: "0 < interval"
    and n: "n = clk (rkts_reads rkts) + interval" "near (rkts\<lparr>rkts_timers := remove1 r (rkts_timers rkts)\<rparr>) n"
  shows "\<exists>rkts'. rd_kafka_timer_start0 clk rkts r interval oneshot callback arg = Inr rkts' \<and> timers_wf rkts' \<and>
    mset (rkts_timers rkts') = add_mset r (mset (remove1 r (rkts_timers rkts))) \<and> next_of rkts' r = n"
proof -
  obtain rkts1 ret t1 where s: "rd_kafka_timer_stop rkts r = Inr (rkts1, ret)" "timers_wf rkts1" "rkts_timers rkts1 = remove1 r (rkts_timers rkts)"
      "rkts_mem rkts1 r = Some t1" "rtmr_interval t1 = 0" "rtmr_next t1 = 0" "rkts_enabled rkts1 = rkts_enabled rkts"
      "rkts_reads rkts1 = rkts_reads rkts" "\<forall>x. x \<noteq> r \<longrightarrow> rkts_mem rkts1 x = rkts_mem rkts x"
    using timer_stop_ok [OF wf mem] by auto
  define t2 where "t2 = t1\<lparr>rtmr_interval := interval, rtmr_callback := callback, rtmr_arg := arg, rtmr_oneshot := oneshot\<rparr>"
  define rkts2 where "rkts2 = timer_put rkts1 r t2"
  have r: "r \<notin> set (rkts_timers rkts1)" using wf s(3) by (simp add: timers_wf_def)
  have "timers_wf rkts2" unfolding rkts2_def timer_put_def
    by (rule timers_wf_put [OF s(2) r]) (simp add: t2_def s(6))
  moreover have "near rkts2 n"
    using n(2) s(3,9) r unfolding near_def rkts2_def timer_put_def by auto
  moreover have "rkts_mem rkts2 r = Some t2" "r \<notin> set (rkts_timers rkts2)" "0 < rtmr_interval t2" "rkts_enabled rkts2"
      "n = clk (rkts_reads rkts2) + rtmr_interval t2 + 0"
    using r i en s(7,8) n(1) by (simp_all add: rkts2_def timer_put_def t2_def)
  ultimately obtain as bs where z: "rkts_timers rkts2 = as @ bs" "rd_kafka_timer_schedule clk rkts2 r 0 =
        Inr (rkts2\<lparr>rkts_timers := as @ r # bs, rkts_mem := (rkts_mem rkts2)(r \<mapsto> t2\<lparr>rtmr_next := n\<rparr>), rkts_reads := Suc (rkts_reads rkts2)\<rparr>)"
      "timers_wf (rkts2\<lparr>rkts_timers := as @ r # bs, rkts_mem := (rkts_mem rkts2)(r \<mapsto> t2\<lparr>rtmr_next := n\<rparr>), rkts_reads := Suc (rkts_reads rkts2)\<rparr>)"
    using timer_schedule_ok [where clk = clk and extra_us = 0] by blast
  have "rd_kafka_timer_start0 clk rkts r interval oneshot callback arg = rd_kafka_timer_schedule clk rkts2 r 0"
    using s(1,4) by (simp add: rd_kafka_timer_start0_def timer_at_def Let_def rkts2_def t2_def)
  moreover have "remove1 r (rkts_timers rkts) = as @ bs" using z(1) s(3) by (simp add: rkts2_def timer_put_def)
  ultimately show ?thesis using z(2,3) by auto
qed

text \<open>Destruction stops every timer and ends with an empty queue.\<close>

lemma stop_loop_ok:
  assumes "timers_wf rkts"
  shows "\<exists>rkts'. stop_loop rkts = Some (Inr rkts') \<and> timers_wf rkts' \<and> rkts_timers rkts' = []"
  using assms
proof (induction "length (rkts_timers rkts)" arbitrary: rkts)
  case 0
  then show ?case by (subst stop_loop.simps) simp
next
  case (Suc k)
  then obtain r q where q: "rkts_timers rkts = r # q" by (cases "rkts_timers rkts") auto
  then obtain t where "rkts_mem rkts r = Some t" using Suc.prems by (auto simp: timers_wf_def)
  from timer_stop_ok [OF Suc.prems this] obtain rkts1 ret where s: "rd_kafka_timer_stop rkts r = Inr (rkts1, ret)"
      "timers_wf rkts1" "rkts_timers rkts1 = q" using q by auto
  have "k = length (rkts_timers rkts1)" using Suc.hyps(2) q s(3) by simp
  from Suc.hyps(1) [OF this s(2)] show ?case using q s(1) by (subst stop_loop.simps) simp
qed

lemma timers_destroy_ok:
  "timers_wf rkts \<Longrightarrow> \<exists>rkts'. rd_kafka_timers_destroy rkts = Some (Inr rkts') \<and> rkts_timers rkts' = []"
  using stop_loop_ok [of "rkts\<lparr>rkts_enabled := False\<rparr>"] by (auto simp: rd_kafka_timers_destroy_def timers_wf_def)

section \<open>Properties\<close>

text \<open>
  C38: a dispatch without waiting returns and calls the callbacks of exactly the timers whose time has come,
  once each, in the order of their times; afterwards the queue is in order, no timer in it is due, and
  exactly the fired oneshot timers have left it. The times in the queue and those given out lie within
  2147 seconds, and the callbacks leave the timers alone.
\<close>

theorem timers_run_fires_due:
  assumes "timers_wf rkts" and "rkts_enabled rkts" and "mono clk" and "0 \<le> clk 0" and "lo + 2 ^ 31 \<le> 2 ^ 63"
    and "\<forall>r\<in>set (rkts_timers rkts). lo \<le> next_of rkts r \<and> next_of rkts r < lo + 2 ^ 31 \<and>
           (\<forall>k. clk k + rtmr_interval (the (rkts_mem rkts r)) < lo + 2 ^ 31)"
    and "\<not> terminating w" and "now = clk (Suc (rkts_reads rkts))"
  shows "\<exists>rkts'. rd_kafka_timers_run clk (inert upd) terminating wait RD_POLL_NOWAIT (w, rkts) =
      Some (Inr (fold (run_callback upd rkts) (due now rkts) w, rkts')) \<and>
    timers_wf rkts' \<and> due now rkts' = [] \<and>
    set (rkts_timers rkts') = {r \<in> set (rkts_timers rkts). \<not> (next_of rkts r \<le> now \<and> rtmr_oneshot (the (rkts_mem rkts r)))}"
proof -
  let ?rkts = "rkts\<lparr>rkts_reads := Suc (Suc (rkts_reads rkts))\<rparr>"
  have wf: "timers_wf ?rkts" using assms(1) by (simp add: timers_wf_def)
  have "0 \<le> now" using assms(3,4,8) monoD [OF assms(3), of 0 "Suc (rkts_reads rkts)"] by simp
  moreover have "\<forall>k\<ge>Suc (Suc (rkts_reads rkts)). now \<le> clk k" using assms(8) monoD [OF assms(3)] by simp
  ultimately have "ready clk now lo ?rkts" using wf assms(2,5,6) by (simp add: ready_def)
  from fire_loop_due [OF this, of upd w] obtain rkts' where f:
      "fire_loop clk (inert upd) now (w, ?rkts) = Some (Inr (fold (run_callback upd ?rkts) (due now ?rkts) w, rkts'))"
      "ready clk now lo rkts'" "due now rkts' = []"
      "set (rkts_timers rkts') = {r \<in> set (rkts_timers ?rkts). \<not> (next_of ?rkts r \<le> now \<and> rtmr_oneshot (the (rkts_mem ?rkts r)))}"
    by blast
  have "rd_kafka_timers_run clk (inert upd) terminating wait RD_POLL_NOWAIT (w, rkts) =
      Some (Inr (fold (run_callback upd rkts) (due now rkts) w, rkts'))"
    unfolding rd_kafka_timers_run_def using f(1) assms(7,8)
    by (simp add: rd_clock_def) (subst run_loop.simps, simp add: wait_next_def rd_clock_def RD_POLL_NOWAIT_def due_def)
  then show ?thesis using f(2-4) by (auto simp: ready_def)
qed

definition stopped_timer :: rd_kafka_timer where
  "stopped_timer = \<lparr>rtmr_next = 0, rtmr_interval = 0, rtmr_oneshot = False, rtmr_callback = 0, rtmr_arg = 0\<rparr>"

definition two_timers :: rd_kafka_timers where
  "two_timers = \<lparr>rkts_timers = [1, 0], rkts_enabled = True,
     rkts_mem = [0 \<mapsto> stopped_timer\<lparr>rtmr_next := 20, rtmr_interval := 10\<rparr>,
                 1 \<mapsto> stopped_timer\<lparr>rtmr_next := 5, rtmr_interval := 10, rtmr_oneshot := True, rtmr_callback := 7\<rparr>],
     rkts_reads = 0\<rparr>"

theorem timers_run_fires_due_witness:
  "\<exists>rkts'. rd_kafka_timers_run (\<lambda>k. 8) (inert (\<lambda>k a w. w @ [k])) (\<lambda>w. False) (\<lambda>ms s. s) RD_POLL_NOWAIT ([], two_timers) =
      Some (Inr ([7], rkts')) \<and> timers_wf rkts' \<and> set (rkts_timers rkts') = {0}"
proof -
  have "timers_wf two_timers" by (auto simp: timers_wf_def two_timers_def stopped_timer_def split: if_splits)
  from timers_run_fires_due [where lo = 0 and clk = "\<lambda>k. 8" and upd = "\<lambda>k a w. w @ [k]" and terminating = "\<lambda>w. False"
      and wait = "\<lambda>ms s. s" and w = "[]" and now = 8, OF this]
  obtain rkts' where r: "rd_kafka_timers_run (\<lambda>k. 8) (inert (\<lambda>k a w. w @ [k])) (\<lambda>w. False) (\<lambda>ms s. s) RD_POLL_NOWAIT ([], two_timers) =
      Some (Inr (fold (run_callback (\<lambda>k a w. w @ [k]) two_timers) (due 8 two_timers) [], rkts'))" "timers_wf rkts'"
      "set (rkts_timers rkts') = {r \<in> set (rkts_timers two_timers). \<not> (next_of two_timers r \<le> 8 \<and> rtmr_oneshot (the (rkts_mem two_timers r)))}"
    by (auto simp: two_timers_def stopped_timer_def monoI)
  have "due 8 two_timers = [1]" by (simp add: due_def two_timers_def stopped_timer_def)
  then show ?thesis using r by (auto simp: two_timers_def stopped_timer_def)
qed

text \<open>
  C39: a timer of one second is started and then one of an hour, at the same time: the comparison of the
  two times overflows, the long one is put before the short one, and until the hour has passed a dispatch
  fires nothing.
\<close>

theorem long_interval_blocks_timers:
  assumes "now < 3601000000"
  shows "\<exists>rkts1 rkts.
    rd_kafka_timer_start0 (\<lambda>k. 1000000) (rd_kafka_timers_init [0 \<mapsto> stopped_timer, 1 \<mapsto> stopped_timer] 0) 0 1000000 False cb0 a0 = Inr rkts1 \<and>
    rd_kafka_timer_start0 (\<lambda>k. 1000000) rkts1 1 3600000000 False cb1 a1 = Inr rkts \<and>
    next_of rkts 0 = 2000000 \<and> fire_loop clk call now (w, rkts) = Some (Inr (w, rkts))"
proof -
  let ?t0 = "\<lparr>rtmr_next = 2000000, rtmr_interval = 1000000, rtmr_oneshot = False, rtmr_callback = cb0, rtmr_arg = a0\<rparr>"
  let ?t1 = "\<lparr>rtmr_next = 3601000000, rtmr_interval = 3600000000, rtmr_oneshot = False, rtmr_callback = cb1, rtmr_arg = a1\<rparr>"
  let ?rkts1 = "\<lparr>rkts_timers = [0], rkts_enabled = True, rkts_mem = [0 \<mapsto> ?t0, 1 \<mapsto> stopped_timer], rkts_reads = 1\<rparr>"
  let ?rkts = "\<lparr>rkts_timers = [1, 0], rkts_enabled = True, rkts_mem = [0 \<mapsto> ?t0, 1 \<mapsto> ?t1], rkts_reads = 2\<rparr>"
  have n: "s64 2000000 = 2000000" "s64 3601000000 = 3601000000" "s32 3599000000 = - 695967296"
    by (simp_all add: swrap_def)
  have 1: "rd_kafka_timer_start0 (\<lambda>k. 1000000) (rd_kafka_timers_init [0 \<mapsto> stopped_timer, 1 \<mapsto> stopped_timer] 0) 0 1000000 False cb0 a0 = Inr ?rkts1"
    by (simp add: rd_kafka_timer_start0_def rd_kafka_timer_stop_def rd_kafka_timers_init_def timer_at_def timer_put_def stopped_timer_def
        rd_kafka_timer_started_def rd_kafka_timer_schedule_def rd_clock_def Let_def n fun_upd_twist)
  have 2: "rd_kafka_timer_start0 (\<lambda>k. 1000000) ?rkts1 1 3600000000 False cb1 a1 = Inr ?rkts"
    by (simp add: rd_kafka_timer_start0_def rd_kafka_timer_stop_def timer_at_def timer_put_def stopped_timer_def rd_kafka_timer_cmp_def
        rd_kafka_timer_started_def rd_kafka_timer_schedule_def rd_clock_def Let_def n)
  have "fire_loop clk call now (w, ?rkts) = Some (Inr (w, ?rkts))"
    using assms by (subst fire_loop.simps) (simp add: timer_at_def)
  then show ?thesis using 1 2 by (intro exI [of _ ?rkts1] exI [of _ ?rkts]) simp
qed

theorem long_interval_blocks_timers_witness:
  "\<exists>rkts1 rkts.
    rd_kafka_timer_start0 (\<lambda>k. 1000000) (rd_kafka_timers_init [0 \<mapsto> stopped_timer, 1 \<mapsto> stopped_timer] 0) 0 1000000 False 7 0 = Inr rkts1 \<and>
    rd_kafka_timer_start0 (\<lambda>k. 1000000) rkts1 1 3600000000 False 8 0 = Inr rkts \<and>
    next_of rkts 0 = 2000000 \<and> fire_loop (\<lambda>k. 3000000) (inert (\<lambda>k a w. w @ [k])) 3000000 ([], rkts) = Some (Inr ([], rkts))"
  by (rule long_interval_blocks_timers) simp

end
