(* ===== verification/Headers.thy ===== *)
theory Headers
  imports Rdlist Rdvarint
begin

unbundle bit_operations_syntax

text \<open>
  Message headers, \<open>rdkafka_header.c\<close>: a list of names with values, with the size that they take on the
  wire. A header is one immutable allocation, so its pointer is its contents. The headers refine a list
  of pairs.
\<close>

section \<open>State\<close>

definition RD_KAFKA_RESP_ERR__NOENT :: int where "RD_KAFKA_RESP_ERR__NOENT = - 156"

record rd_kafka_header =
  rkhdr_ser_size :: nat
  rkhdr_value_size :: nat
  rkhdr_name_size :: nat
  rkhdr_value :: "string option"
  rkhdr_name :: string

record rd_kafka_headers =
  rkhdrs_list :: "(rd_kafka_header, unit) rd_list"
  rkhdrs_ser_size :: nat

text \<open>Reading memory that the caller passes: up to a terminating character, or a number of bytes.\<close>

definition strlen :: "string \<Rightarrow> int res" where
  "strlen mem = (if CHR 0x00 \<in> set mem then Inr (int (length (takeWhile (\<lambda>c. c \<noteq> CHR 0x00) mem))) else Inl Out_Of_Bounds)"

definition memcpy :: "string \<Rightarrow> int \<Rightarrow> string res" where
  "memcpy mem n = bindR (check Out_Of_Bounds (0 \<le> n \<and> n \<le> int (length mem))) (\<lambda>_. Inr (take (nat n) mem))"

section \<open>Operations\<close>

definition rd_kafka_headers_destroy :: "rd_kafka_headers \<Rightarrow> rd_kafka_header list res" where
  "rd_kafka_headers_destroy hdrs = bindR (rd_list_destroy (rkhdrs_list hdrs)) (\<lambda>(freed, r). Inr freed)"

definition rd_kafka_headers_new :: "nat \<Rightarrow> rd_kafka_headers res" where
  "rd_kafka_headers_new initial_count =
     bindR (rd_list_init (s32 (int initial_count)) True) (\<lambda>rl. Inr \<lparr>rkhdrs_list = rl, rkhdrs_ser_size = 0\<rparr>)"

text \<open>The size of a variable length number, encoded into a local array.\<close>

definition varint_size :: "int \<Rightarrow> nat res" where
  "varint_size n =
     bindR (rd_uvarint_enc_i64 (replicate (RD_UVARINT_ENC_SIZEOF 4) 0) (RD_UVARINT_ENC_SIZEOF 4) (word_of_int n))
       (\<lambda>(dst, r). Inr r)"

definition rd_kafka_header_add ::
    "rd_kafka_headers \<Rightarrow> string \<Rightarrow> int \<Rightarrow> string option \<Rightarrow> int \<Rightarrow> rd_kafka_headers res" where
  "rd_kafka_header_add hdrs name name_size val value_size =
     bindR (if name_size = - 1 then strlen name else Inr name_size) (\<lambda>name_size.
     bindR (if value_size = - 1 then (case val of Some v \<Rightarrow> strlen v | None \<Rightarrow> Inr 0)
            else if val = None then Inr 0 else Inr value_size) (\<lambda>value_size.
     bindR (memcpy name name_size) (\<lambda>nm.
     bindR (case val of Some v \<Rightarrow> bindR (memcpy v value_size) (\<lambda>v. Inr (Some v)) | None \<Rightarrow> Inr None) (\<lambda>vl.
     bindR (varint_size name_size) (\<lambda>a.
     bindR (varint_size value_size) (\<lambda>b.
     let hdr = \<lparr>rkhdr_ser_size = nat name_size + nat value_size + a + b,
                rkhdr_value_size = (if vl = None then 0 else nat value_size), rkhdr_name_size = nat name_size,
                rkhdr_value = vl, rkhdr_name = nm\<rparr>
     in bindR (rd_list_add (rkhdrs_list hdrs) (Some hdr)) (\<lambda>(rl, s).
        Inr \<lparr>rkhdrs_list = rl, rkhdrs_ser_size = rkhdrs_ser_size hdrs + rkhdr_ser_size hdr\<rparr>)))))))"

text \<open>
  The copy callback returns the code of \<open>rd_kafka_header_add\<close> as the pointer that is to be appended; it is
  zero, a null pointer, and nothing is appended a second time.
\<close>

definition rd_kafka_header_copy :: "rd_kafka_headers \<Rightarrow> rd_kafka_header \<Rightarrow> (rd_kafka_headers \<times> rd_kafka_header option) res" where
  "rd_kafka_header_copy hdrs src =
     bindR (rd_kafka_header_add hdrs (rkhdr_name src @ [CHR 0x00]) (int (rkhdr_name_size src))
              (map_option (\<lambda>v. v @ [CHR 0x00]) (rkhdr_value src)) (int (rkhdr_value_size src))) (\<lambda>hdrs.
     Inr (hdrs, None))"

function headers_copy_loop :: "rd_kafka_headers \<Rightarrow> (rd_kafka_header, unit) rd_list \<Rightarrow> int \<Rightarrow> rd_kafka_headers res" where
  "headers_copy_loop dst src i =
     bindR (rd_list_elem src i) (\<lambda>elem.
     case elem of
       None \<Rightarrow> Inr dst
     | Some hdr \<Rightarrow>
         bindR (rd_kafka_header_copy dst hdr) (\<lambda>(dst, p).
         bindR (case p of
                  None \<Rightarrow> Inr dst
                | Some h \<Rightarrow> bindR (rd_list_add (rkhdrs_list dst) (Some h)) (\<lambda>(rl, s). Inr (dst\<lparr>rkhdrs_list := rl\<rparr>))) (\<lambda>dst.
         headers_copy_loop dst src (i + 1))))"
  by pat_completeness auto
termination
  by (relation "measure (\<lambda>(dst, src, i). nat (rl_cnt src - i))") (auto simp: rd_list_elem_def split: if_splits)

declare headers_copy_loop.simps [simp del]

definition rd_kafka_headers_copy :: "rd_kafka_headers \<Rightarrow> rd_kafka_headers res" where
  "rd_kafka_headers_copy src =
     bindR (rd_list_init (rd_list_cnt (rkhdrs_list src)) True) (\<lambda>rl.
     headers_copy_loop \<lparr>rkhdrs_list = rl, rkhdrs_ser_size = 0\<rparr> (rkhdrs_list src) 0)"

text \<open>Names are compared as C strings.\<close>

definition c_prefix :: "string \<Rightarrow> string" where
  "c_prefix s = takeWhile (\<lambda>c. c \<noteq> CHR 0x00) s"

definition rd_kafka_header_cmp_str :: "rd_kafka_header \<Rightarrow> string \<Rightarrow> int" where
  "rd_kafka_header_cmp_str a b = strcmp (c_prefix (rkhdr_name a)) b"

function header_remove_loop ::
    "(rd_kafka_header, unit) rd_list \<Rightarrow> string \<Rightarrow> int \<Rightarrow> nat \<Rightarrow> ((rd_kafka_header, unit) rd_list \<times> nat) res" where
  "header_remove_loop rl name i ser_size =
     (if i < 0 then Inr (rl, ser_size)
      else
        bindR (rd_list_elem rl i) (\<lambda>elem.
        case elem of
          None \<Rightarrow> Inr (rl, ser_size)
        | Some hdr \<Rightarrow>
            if rd_kafka_header_cmp_str hdr name \<noteq> 0 then header_remove_loop rl name (i - 1) ser_size
            else
              bindR (rd_list_remove_elem rl i) (\<lambda>rl.
              header_remove_loop rl name (i - 1) (ser_size + rkhdr_ser_size hdr))))"
  by pat_completeness auto
termination by (relation "measure (\<lambda>(rl, name, i, ser). nat (i + 1))") auto

declare header_remove_loop.simps [simp del]

definition rd_kafka_header_remove :: "rd_kafka_headers \<Rightarrow> string \<Rightarrow> (rd_kafka_headers \<times> int) res" where
  "rd_kafka_header_remove hdrs name =
     bindR (header_remove_loop (rkhdrs_list hdrs) name (rl_cnt (rkhdrs_list hdrs) - 1) 0) (\<lambda>(rl, ser_size).
     if ser_size = 0 then Inr (hdrs\<lparr>rkhdrs_list := rl\<rparr>, RD_KAFKA_RESP_ERR__NOENT)
     else
       bindR (check Assert_Failed (ser_size \<le> rkhdrs_ser_size hdrs)) (\<lambda>_.
       Inr (\<lparr>rkhdrs_list = rl, rkhdrs_ser_size = rkhdrs_ser_size hdrs - ser_size\<rparr>, 0)))"

definition name_matches :: "rd_kafka_header \<Rightarrow> string \<Rightarrow> bool" where
  "name_matches hdr name \<longleftrightarrow>
     rkhdr_name_size hdr = length name \<and> strcmp (c_prefix (rkhdr_name hdr)) name = 0"

text \<open>The value and its size, or \<open>None\<close> for the error code \<open>RD_KAFKA_RESP_ERR__NOENT\<close>.\<close>

function get_last_loop :: "(rd_kafka_header, unit) rd_list \<Rightarrow> string \<Rightarrow> int \<Rightarrow> (string option \<times> nat) option res" where
  "get_last_loop rl name i =
     (if i < 0 then Inr None
      else
        bindR (rd_list_elem rl i) (\<lambda>elem.
        case elem of
          None \<Rightarrow> Inr None
        | Some hdr \<Rightarrow>
            if name_matches hdr name then Inr (Some (rkhdr_value hdr, rkhdr_value_size hdr))
            else get_last_loop rl name (i - 1)))"
  by pat_completeness auto
termination by (relation "measure (\<lambda>(rl, name, i). nat (i + 1))") auto

declare get_last_loop.simps [simp del]

definition rd_kafka_header_get_last :: "rd_kafka_headers \<Rightarrow> string \<Rightarrow> (string option \<times> nat) option res" where
  "rd_kafka_header_get_last hdrs name = get_last_loop (rkhdrs_list hdrs) name (rl_cnt (rkhdrs_list hdrs) - 1)"

function get_loop :: "(rd_kafka_header, unit) rd_list \<Rightarrow> nat \<Rightarrow> string \<Rightarrow> nat \<Rightarrow> int \<Rightarrow> (string option \<times> nat) option res" where
  "get_loop rl idx name mi i =
     bindR (rd_list_elem rl i) (\<lambda>elem.
     case elem of
       None \<Rightarrow> Inr None
     | Some hdr \<Rightarrow>
         if name_matches hdr name then
           if mi = idx then Inr (Some (rkhdr_value hdr, rkhdr_value_size hdr))
           else get_loop rl idx name (mi + 1) (i + 1)
         else get_loop rl idx name mi (i + 1))"
  by pat_completeness auto
termination
  by (relation "measure (\<lambda>(rl, idx, name, mi, i). nat (rl_cnt rl - i))") (auto simp: rd_list_elem_def split: if_splits)

declare get_loop.simps [simp del]

definition rd_kafka_header_get :: "rd_kafka_headers \<Rightarrow> nat \<Rightarrow> string \<Rightarrow> (string option \<times> nat) option res" where
  "rd_kafka_header_get hdrs idx name = get_loop (rkhdrs_list hdrs) idx name 0 0"

definition rd_kafka_header_get_all :: "rd_kafka_headers \<Rightarrow> nat \<Rightarrow> (string \<times> string option \<times> nat) option res" where
  "rd_kafka_header_get_all hdrs idx =
     bindR (rd_list_elem (rkhdrs_list hdrs) (s32 (int idx))) (\<lambda>elem.
     Inr (map_option (\<lambda>hdr. (rkhdr_name hdr, rkhdr_value hdr, rkhdr_value_size hdr)) elem))"

definition rd_kafka_header_cnt :: "rd_kafka_headers \<Rightarrow> int" where
  "rd_kafka_header_cnt hdrs = rd_list_cnt (rkhdrs_list hdrs)"

section \<open>Headers as a list of pairs\<close>

text \<open>The bytes of a pair in a message: both lengths as signed variable length numbers, name and value.\<close>

definition val_size :: "string option \<Rightarrow> nat" where
  "val_size v = (case v of None \<Rightarrow> 0 | Some v \<Rightarrow> length v)"

definition wire_size :: "string \<times> string option \<Rightarrow> nat" where
  "wire_size p = length (groups (2 * length (fst p))) + length (fst p) + length (groups (2 * val_size (snd p))) + val_size (snd p)"

definition header_of :: "string \<times> string option \<Rightarrow> rd_kafka_header" where
  "header_of p =
     \<lparr>rkhdr_ser_size = wire_size p, rkhdr_value_size = val_size (snd p), rkhdr_name_size = length (fst p),
      rkhdr_value = snd p, rkhdr_name = fst p\<rparr>"

definition hdrs_rep :: "rd_kafka_headers \<Rightarrow> (string \<times> string option) list \<Rightarrow> bool" where
  "hdrs_rep hdrs ps \<longleftrightarrow>
     rl_rep (rkhdrs_list hdrs) (map header_of ps) \<and> rl_open (rkhdrs_list hdrs) \<and>
     rkhdrs_ser_size hdrs = sum_list (map wire_size ps)"

text \<open>Names without a NUL, and names and values within the 32 bit lengths of the format.\<close>

definition pair_ok :: "string \<times> string option \<Rightarrow> bool" where
  "pair_ok p \<longleftrightarrow> CHR 0x00 \<notin> set (fst p) \<and> length (fst p) < 2 ^ 31 \<and> val_size (snd p) < 2 ^ 31"

lemma groups_pos: "0 < length (groups n)"
  by (subst groups.simps) simp

lemma wire_size_pos: "0 < wire_size p"
  using groups_pos [of "2 * length (fst p)"] by (simp add: wire_size_def)

lemma zigzag_small:
  assumes "m < 2 ^ 31"
  shows "push_bit 1 (word_of_nat m :: 64 word) XOR signed_drop_bit 63 (word_of_nat m) = word_of_nat (2 * m)"
proof -
  have u: "unat (word_of_nat m :: 64 word) = m" using assms by (simp add: unat_of_nat_small)
  have "\<not> bit (word_of_nat m :: 64 word) 63"
    using assms u bit_unat_iff [of "word_of_nat m :: 64 word" 63] by (simp add: bit_iff_odd)
  then have "signed_drop_bit 63 (word_of_nat m :: 64 word) = 0"
    by (intro bit_word_eqI) (auto simp: bit_signed_drop_bit_iff Suc_le_eq)
  moreover have "push_bit 1 (word_of_nat m :: 64 word) = word_of_nat (2 * m)"
    by (simp add: push_bit_eq_mult mult.commute)
  ultimately show ?thesis by simp
qed

lemma varint_size_small: "m < 2 ^ 31 \<Longrightarrow> varint_size (int m) = Inr (length (groups (2 * m)))"
proof -
  assume m: "m < 2 ^ 31"
  have u: "unat (word_of_nat (2 * m) :: 64 word) = 2 * m" using m by (subst unat_of_nat_small) simp_all
  have len: "length (groups (2 * m)) \<le> 5" using m by (intro length_groups) simp_all
  then show ?thesis using enc_loop_fits [of "replicate 5 0" 5 0 "word_of_nat (2 * m)"] zigzag_small [OF m] u
    by (simp add: varint_size_def RD_UVARINT_ENC_SIZEOF_def rd_uvarint_enc_i64_def rd_uvarint_enc_u64_def)
qed

lemma header_add_ok:
  assumes rep: "hdrs_rep hdrs ps" and ok: "pair_ok (name, val)" and len: "length ps < 2 ^ 27"
    and n: "name_size = int (length name) \<or> name_size = - 1"
    and v: "value_size = int (val_size val) \<or> value_size = - 1 \<and> (\<forall>v. val = Some v \<longrightarrow> CHR 0x00 \<notin> set v)"
  shows "\<exists>hdrs'. rd_kafka_header_add hdrs (name @ [CHR 0x00]) name_size (map_option (\<lambda>v. v @ [CHR 0x00]) val) value_size = Inr hdrs' \<and>
    hdrs_rep hdrs' (ps @ [(name, val)])"
proof -
  have tw: "CHR 0x00 \<notin> set s \<Longrightarrow> strlen (s @ [CHR 0x00]) = Inr (int (length s))" for s
  proof -
    assume "CHR 0x00 \<notin> set s"
    then have "takeWhile (\<lambda>c. c \<noteq> CHR 0x00) (s @ [CHR 0x00]) = s" by (induction s) auto
    then show ?thesis by (simp add: strlen_def)
  qed
  have nm: "(if name_size = - 1 then strlen (name @ [CHR 0x00]) else Inr name_size) = Inr (int (length name))"
    using n ok tw by (auto simp: pair_ok_def)
  have vs: "(if value_size = - 1 then (case map_option (\<lambda>v. v @ [CHR 0x00]) val of Some v \<Rightarrow> strlen v | None \<Rightarrow> Inr 0)
      else if map_option (\<lambda>v. v @ [CHR 0x00]) val = None then Inr 0 else Inr value_size) = Inr (int (val_size val))"
    using v tw by (auto simp: val_size_def split: option.splits)
  have sz: "varint_size (int (length name)) = Inr (length (groups (2 * length name)))" "varint_size (int (val_size val)) = Inr (length (groups (2 * val_size val)))"
    using ok varint_size_small by (simp_all add: pair_ok_def)
  have cp: "memcpy (name @ [CHR 0x00]) (int (length name)) = Inr name" by (simp add: memcpy_def)
  have cv: "(case map_option (\<lambda>v. v @ [CHR 0x00]) val of Some v \<Rightarrow> bindR (memcpy v (int (val_size val))) (\<lambda>v. Inr (Some v)) | None \<Rightarrow> Inr None) = Inr val"
    by (cases val) (simp_all add: memcpy_def val_size_def)
  obtain rl' where rl: "rd_list_add (rkhdrs_list hdrs) (Some (header_of (name, val))) = Inr (rl', Elem (header_of (name, val)))"
      "rl_rep rl' (map header_of ps @ [header_of (name, val)])" "rl_open rl'"
    using rd_list_add_open [of "rkhdrs_list hdrs" "map header_of ps" "header_of (name, val)"] rep len by (auto simp: hdrs_rep_def)
  have hdr: "\<lparr>rkhdr_ser_size = length name + val_size val + length (groups (2 * length name)) + length (groups (2 * val_size val)),
      rkhdr_value_size = if val = None then 0 else val_size val, rkhdr_name_size = length name, rkhdr_value = val, rkhdr_name = name\<rparr> = header_of (name, val)"
    by (simp add: header_of_def wire_size_def val_size_def)
  have "rd_kafka_header_add hdrs (name @ [CHR 0x00]) name_size (map_option (\<lambda>v. v @ [CHR 0x00]) val) value_size =
      Inr \<lparr>rkhdrs_list = rl', rkhdrs_ser_size = rkhdrs_ser_size hdrs + wire_size (name, val)\<rparr>"
    unfolding rd_kafka_header_add_def nm bindR_Inr vs cp cv sz Let_def nat_int hdr rl(1) by (simp add: header_of_def)
  then show ?thesis using rl(2,3) rep by (auto simp: hdrs_rep_def)
qed

lemma headers_new_ok:
  assumes "n < 2 ^ 29"
  shows "\<exists>hdrs. rd_kafka_headers_new n = Inr hdrs \<and> hdrs_rep hdrs []"
proof -
  have "s32 (int n) = int n" using assms by (simp add: swrap_def)
  then obtain rl :: "(rd_kafka_header, unit) rd_list" where "rd_list_init (s32 (int n)) True = Inr rl" "rl_rep rl []" "rl_open rl"
    using rd_list_init_open [of "int n" True] assms by auto
  then show ?thesis by (simp add: rd_kafka_headers_new_def hdrs_rep_def)
qed

text \<open>Destroying the list frees all its headers.\<close>

lemma headers_destroy_ok:
  assumes "hdrs_rep hdrs ps" "rl_free_cb (rkhdrs_list hdrs)"
  shows "rd_kafka_headers_destroy hdrs = Inr (map header_of ps)"
  using assms rd_list_destroy_rep [of "rkhdrs_list hdrs" "map header_of ps"] by (auto simp: rd_kafka_headers_destroy_def hdrs_rep_def)

lemma header_get_all_ok:
  assumes rep: "hdrs_rep hdrs ps" and idx: "idx < 2 ^ 31"
  shows "rd_kafka_header_get_all hdrs idx =
    Inr (if idx < length ps then Some (fst (ps ! idx), snd (ps ! idx), val_size (snd (ps ! idx))) else None)"
proof -
  have rl: "rl_rep (rkhdrs_list hdrs) (map header_of ps)" using rep by (simp add: hdrs_rep_def)
  have "s32 (int idx) = int idx" using idx by (simp add: swrap_def)
  then show ?thesis using rd_list_elem_rep [OF rl, of idx] by (simp add: rd_kafka_header_get_all_def header_of_def)
qed

lemma header_cnt_ok: "hdrs_rep hdrs ps \<Longrightarrow> rd_kafka_header_cnt hdrs = int (length ps)"
  using rl_rep_cnt by (fastforce simp: hdrs_rep_def rd_kafka_header_cnt_def rd_list_cnt_def)

lemma header_remove_loop_rep:
  assumes "rl_rep rl xs" "rl_open rl" "k \<le> length xs"
  shows "\<exists>rl'. header_remove_loop rl name (int k - 1) ser =
      Inr (rl', ser + sum_list (map rkhdr_ser_size (filter (\<lambda>h. rd_kafka_header_cmp_str h name = 0) (take k xs)))) \<and>
    rl_rep rl' (filter (\<lambda>h. rd_kafka_header_cmp_str h name \<noteq> 0) (take k xs) @ drop k xs) \<and> rl_open rl'"
  using assms
proof (induction k arbitrary: rl xs ser)
  case 0
  then show ?case by (subst header_remove_loop.simps) simp
next
  case (Suc k)
  have k: "k < length xs" using Suc.prems(3) by simp
  have el: "rd_list_elem rl (int k) = Inr (Some (xs ! k))" using rd_list_elem_rep [OF Suc.prems(1), of k] k by simp
  have tk: "take (Suc k) xs = take k xs @ [xs ! k]" using k by (simp add: take_Suc_conv_app_nth)
  show ?case
  proof (cases "rd_kafka_header_cmp_str (xs ! k) name = 0")
    case True
    obtain rl1 where rl1: "rd_list_remove_elem rl (int k) = Inr rl1" "rl_rep rl1 (take k xs @ drop (Suc k) xs)"
      using rd_list_remove_elem_rep [OF Suc.prems(1) k] by blast
    have "rl_open rl1" using rd_list_remove_elem_open [OF rl1(1)] Suc.prems(2) by simp
    from Suc.IH [OF rl1(2) this, of "ser + rkhdr_ser_size (xs ! k)"] k True el rl1(1) show ?thesis
      by (subst header_remove_loop.simps) (simp add: tk algebra_simps)
  next
    case False
    from Suc.IH [OF Suc.prems(1,2), of ser] k False el show ?thesis
      by (subst header_remove_loop.simps) (simp add: tk Cons_nth_drop_Suc)
  qed
qed

lemma cmp_header_of: "pair_ok p \<Longrightarrow> rd_kafka_header_cmp_str (header_of p) name = 0 \<longleftrightarrow> fst p = name"
proof -
  assume "pair_ok p"
  then have "c_prefix (fst p) = fst p" by (auto simp: pair_ok_def c_prefix_def intro!: takeWhile_eq_all_conv [THEN iffD2])
  then show ?thesis by (simp add: rd_kafka_header_cmp_str_def header_of_def strcmp_eq_0)
qed

lemma matches_header_of: "pair_ok p \<Longrightarrow> name_matches (header_of p) name \<longleftrightarrow> fst p = name"
  using cmp_header_of [of p name] by (auto simp: name_matches_def rd_kafka_header_cmp_str_def header_of_def)

lemma filter_headers:
  assumes "\<forall>p\<in>set ps. pair_ok p"
  shows "filter (\<lambda>h. rd_kafka_header_cmp_str h name \<noteq> 0) (map header_of ps) = map header_of (filter (\<lambda>p. fst p \<noteq> name) ps)"
    and "filter (\<lambda>h. rd_kafka_header_cmp_str h name = 0) (map header_of ps) = map header_of (filter (\<lambda>p. fst p = name) ps)"
    and "filter (\<lambda>h. name_matches h name) (map header_of ps) = map header_of (filter (\<lambda>p. fst p = name) ps)"
  using assms by (induction ps) (auto simp: cmp_header_of matches_header_of)

lemma sum_list_partition: "sum_list (map f xs) = sum_list (map f (filter P xs)) + (sum_list (map f (filter (\<lambda>x. \<not> P x) xs)) :: nat)"
  by (induction xs) auto

lemma header_remove_ok:
  assumes rep: "hdrs_rep hdrs ps" and ok: "\<forall>p\<in>set ps. pair_ok p"
  shows "\<exists>hdrs'. rd_kafka_header_remove hdrs name = Inr (hdrs', if name \<in> fst ` set ps then 0 else RD_KAFKA_RESP_ERR__NOENT) \<and>
    hdrs_rep hdrs' (filter (\<lambda>p. fst p \<noteq> name) ps)"
proof -
  let ?gone = "filter (\<lambda>p. fst p = name) ps" and ?kept = "filter (\<lambda>p. fst p \<noteq> name) ps"
  have rl: "rl_rep (rkhdrs_list hdrs) (map header_of ps)" "rl_open (rkhdrs_list hdrs)" and ser: "rkhdrs_ser_size hdrs = sum_list (map wire_size ps)"
    using rep by (simp_all add: hdrs_rep_def)
  have cnt: "rl_cnt (rkhdrs_list hdrs) = int (length ps)" using rl_rep_cnt [OF rl(1)] by simp
  have sz: "map rkhdr_ser_size (map header_of qs) = map wire_size qs" for qs by (simp add: header_of_def)
  obtain rl' where loop: "header_remove_loop (rkhdrs_list hdrs) name (int (length ps) - 1) 0 = Inr (rl', sum_list (map wire_size ?gone))"
      "rl_rep rl' (map header_of ?kept)" "rl_open rl'"
    using header_remove_loop_rep [OF rl, of "length ps" name 0] unfolding filter_headers(2) [OF ok] sz
    by (auto simp: filter_headers [OF ok] simp del: filter_map map_map) (metis sz)
  have total: "sum_list (map wire_size ps) = sum_list (map wire_size ?gone) + sum_list (map wire_size ?kept)"
    by (rule sum_list_partition)
  have zero: "sum_list (map wire_size ?gone) = 0 \<longleftrightarrow> name \<notin> fst ` set ps"
    by (force simp: sum_list_eq_0_iff wire_size_pos [THEN less_imp_neq, symmetric])
  show ?thesis
  proof (cases "name \<in> fst ` set ps")
    case True
    then show ?thesis using loop cnt ser total zero by (simp add: rd_kafka_header_remove_def hdrs_rep_def del: sum_list_eq_0_iff)
  next
    case False
    then show ?thesis using loop cnt ser total zero by (simp add: rd_kafka_header_remove_def hdrs_rep_def del: sum_list_eq_0_iff)
  qed
qed

lemma get_last_loop_rep:
  assumes "rl_rep rl xs" "k \<le> length xs"
  shows "get_last_loop rl name (int k - 1) =
    Inr (case filter (\<lambda>h. name_matches h name) (take k xs) of
           [] \<Rightarrow> None
         | hs \<Rightarrow> Some (rkhdr_value (last hs), rkhdr_value_size (last hs)))"
  using assms(2)
proof (induction k)
  case 0
  then show ?case by (subst get_last_loop.simps) simp
next
  case (Suc k)
  have k: "k < length xs" using Suc.prems by simp
  have el: "rd_list_elem rl (int k) = Inr (Some (xs ! k))" using rd_list_elem_rep [OF assms(1), of k] k by simp
  have tk: "take (Suc k) xs = take k xs @ [xs ! k]" using k by (simp add: take_Suc_conv_app_nth)
  show ?case using Suc.IH k el by (subst get_last_loop.simps) (auto simp: tk split: list.splits)
qed

definition last_value :: "(string \<times> string option) list \<Rightarrow> string \<Rightarrow> (string option \<times> nat) option" where
  "last_value ps name =
     (case filter (\<lambda>p. fst p = name) ps of [] \<Rightarrow> None | qs \<Rightarrow> Some (snd (last qs), val_size (snd (last qs))))"

lemma header_get_last_ok:
  assumes rep: "hdrs_rep hdrs ps" and ok: "\<forall>p\<in>set ps. pair_ok p"
  shows "rd_kafka_header_get_last hdrs name = Inr (last_value ps name)"
proof -
  have rl: "rl_rep (rkhdrs_list hdrs) (map header_of ps)" using rep by (simp add: hdrs_rep_def)
  have "rd_kafka_header_get_last hdrs name = get_last_loop (rkhdrs_list hdrs) name (int (length ps) - 1)"
    using rl_rep_cnt [OF rl] by (simp add: rd_kafka_header_get_last_def)
  also have "\<dots> = Inr (case map header_of (filter (\<lambda>p. fst p = name) ps) of
      [] \<Rightarrow> None | hs \<Rightarrow> Some (rkhdr_value (last hs), rkhdr_value_size (last hs)))"
    using get_last_loop_rep [OF rl, of "length ps" name] filter_headers(3) [OF ok] by simp
  also have "\<dots> = Inr (last_value ps name)"
    by (cases "filter (\<lambda>p. fst p = name) ps") (simp_all add: last_value_def last_map header_of_def)
  finally show ?thesis .
qed

lemma get_loop_rep:
  assumes "rl_rep rl xs" "i \<le> length xs" "mi \<le> idx"
  shows "get_loop rl idx name mi (int i) =
    (let hs = filter (\<lambda>h. name_matches h name) (drop i xs)
     in Inr (if idx - mi < length hs then Some (rkhdr_value (hs ! (idx - mi)), rkhdr_value_size (hs ! (idx - mi))) else None))"
  using assms(2,3)
proof (induction "length xs - i" arbitrary: i mi)
  case 0
  then show ?case using rd_list_elem_rep [OF assms(1), of i] by (subst get_loop.simps) simp
next
  case (Suc n)
  then have i: "i < length xs" by simp
  have el: "rd_list_elem rl (int i) = Inr (Some (xs ! i))" using rd_list_elem_rep [OF assms(1), of i] i by simp
  have n: "n = length xs - Suc i" using Suc.hyps(2) by simp
  have d: "drop i xs = xs ! i # drop (Suc i) xs" using i by (simp add: Cons_nth_drop_Suc)
  show ?case
  proof (cases "name_matches (xs ! i) name")
    case True
    show ?thesis
    proof (cases "mi = idx")
      case eq: True
      then show ?thesis using True el d by (subst get_loop.simps) simp
    next
      case False
      then obtain j where j: "idx - mi = Suc j" "idx - Suc mi = j" using Suc.prems(2) by (cases "idx - mi") auto
      show ?thesis using Suc.hyps(1) [OF n, of "Suc mi"] False True el d i j Suc.prems(2)
        by (subst get_loop.simps) (simp add: add.commute Let_def)
    qed
  next
    case False
    then show ?thesis using Suc.hyps(1) [OF n _ Suc.prems(2)] el d i by (subst get_loop.simps) (simp add: add.commute Let_def)
  qed
qed

lemma header_get_ok:
  assumes rep: "hdrs_rep hdrs ps" and ok: "\<forall>p\<in>set ps. pair_ok p"
  shows "rd_kafka_header_get hdrs idx name =
    (let qs = filter (\<lambda>p. fst p = name) ps in Inr (if idx < length qs then Some (snd (qs ! idx), val_size (snd (qs ! idx))) else None))"
proof -
  have rl: "rl_rep (rkhdrs_list hdrs) (map header_of ps)" using rep by (simp add: hdrs_rep_def)
  show ?thesis using get_loop_rep [OF rl, of 0 0 idx name] filter_headers(3) [OF ok, of name]
    by (simp add: rd_kafka_header_get_def Let_def header_of_def)
qed

lemma headers_copy_loop_ok:
  assumes src: "rl_rep src (map header_of ps)" and ok: "\<forall>p\<in>set ps. pair_ok p"
    and "hdrs_rep dst qs" "i \<le> length ps" "length qs + (length ps - i) \<le> 2 ^ 27"
  shows "\<exists>dst'. headers_copy_loop dst src (int i) = Inr dst' \<and> hdrs_rep dst' (qs @ drop i ps)"
  using assms(3-)
proof (induction "length ps - i" arbitrary: i dst qs)
  case 0
  then show ?case using rd_list_elem_rep [OF src, of i] by (subst headers_copy_loop.simps) simp
next
  case (Suc n)
  then have i: "i < length ps" by simp
  obtain name val where p: "ps ! i = (name, val)" by (cases "ps ! i")
  have okp: "pair_ok (name, val)" using ok i p by (metis nth_mem)
  have el: "rd_list_elem src (int i) = Inr (Some (header_of (name, val)))" using rd_list_elem_rep [OF src, of i] i p by simp
  have len: "length qs < 2 ^ 27" using Suc.prems(3) i by linarith
  obtain dst1 where d: "rd_kafka_header_add dst (name @ [CHR 0x00]) (int (length name)) (map_option (\<lambda>v. v @ [CHR 0x00]) val) (int (val_size val)) = Inr dst1"
      "hdrs_rep dst1 (qs @ [(name, val)])"
    using header_add_ok [OF Suc.prems(1) okp len] by blast
  have c: "rd_kafka_header_copy dst (header_of (name, val)) = Inr (dst1, None)"
    using d(1) by (simp add: rd_kafka_header_copy_def header_of_def)
  have n: "n = length ps - Suc i" using Suc.hyps(2) by simp
  have fit: "length (qs @ [(name, val)]) + (length ps - Suc i) \<le> 2 ^ 27" using Suc.prems(3) i by simp
  obtain dst' where "headers_copy_loop dst1 src (int (Suc i)) = Inr dst'" "hdrs_rep dst' ((qs @ [(name, val)]) @ drop (Suc i) ps)"
    using Suc.hyps(1) [OF n d(2)] fit i by force
  moreover have "drop i ps = (name, val) # drop (Suc i) ps" using i p by (simp add: Cons_nth_drop_Suc [symmetric])
  ultimately show ?case using el c by (subst headers_copy_loop.simps) (simp add: add.commute)
qed

lemma headers_copy_ok:
  assumes "hdrs_rep hdrs ps" "\<forall>p\<in>set ps. pair_ok p" "length ps \<le> 2 ^ 27"
  shows "\<exists>dst. rd_kafka_headers_copy hdrs = Inr dst \<and> hdrs_rep dst ps"
proof -
  have rl: "rl_rep (rkhdrs_list hdrs) (map header_of ps)" using assms(1) by (simp add: hdrs_rep_def)
  obtain r :: "(rd_kafka_header, unit) rd_list" where r: "rd_list_init (rd_list_cnt (rkhdrs_list hdrs)) True = Inr r" "rl_rep r []" "rl_open r"
    using rd_list_init_open [of "rd_list_cnt (rkhdrs_list hdrs)" True] rl_rep_cnt [OF rl] assms(3) by (auto simp: rd_list_cnt_def)
  have "hdrs_rep \<lparr>rkhdrs_list = r, rkhdrs_ser_size = 0\<rparr> []" using r by (simp add: hdrs_rep_def)
  from headers_copy_loop_ok [OF rl assms(2) this, of 0] show ?thesis using r(1) assms(3) by (simp add: rd_kafka_headers_copy_def)
qed

section \<open>Property\<close>

text \<open>
  C40: headers behave as a list of names and values. Adding appends, with given or computed lengths;
  removing takes out all headers of a name, and nothing else, and reports when there was none; the last
  value of a name is found; a copy holds the same headers. Throughout, the recorded size is the number of
  bytes that the headers take in a message.
\<close>

theorem headers_are_pairs:
  assumes rep: "hdrs_rep hdrs ps" and ok: "\<forall>p\<in>set ps. pair_ok p" and len: "length ps < 2 ^ 27" and new: "pair_ok (name, val)"
    and n: "name_size = int (length name) \<or> name_size = - 1"
    and v: "value_size = int (val_size val) \<or> value_size = - 1 \<and> (\<forall>v. val = Some v \<longrightarrow> CHR 0x00 \<notin> set v)"
  shows "(\<exists>hdrs'. rd_kafka_header_add hdrs (name @ [CHR 0x00]) name_size (map_option (\<lambda>v. v @ [CHR 0x00]) val) value_size = Inr hdrs' \<and>
            hdrs_rep hdrs' (ps @ [(name, val)])) \<and>
         (\<exists>hdrs'. rd_kafka_header_remove hdrs name = Inr (hdrs', if name \<in> fst ` set ps then 0 else RD_KAFKA_RESP_ERR__NOENT) \<and>
            hdrs_rep hdrs' (filter (\<lambda>p. fst p \<noteq> name) ps)) \<and>
         rd_kafka_header_get_last hdrs name = Inr (last_value ps name) \<and>
         (\<exists>hdrs'. rd_kafka_headers_copy hdrs = Inr hdrs' \<and> hdrs_rep hdrs' ps)"
proof -
  have "length ps \<le> 2 ^ 27" using len by simp
  then show ?thesis
    using header_add_ok [OF rep new len n v] header_remove_ok [OF rep ok] header_get_last_ok [OF rep ok] headers_copy_ok [OF rep ok] by blast
qed

text \<open>A list with the headers \<open>k = v\<close> and \<open>n\<close>, the second without a value.\<close>

definition two_headers :: rd_kafka_headers where
  "two_headers = \<lparr>rkhdrs_list = \<lparr>rl_size = 2, rl_cnt = 2, rl_elems = Some (map Elem (map header_of [(''k'', Some ''v''), (''n'', None)])),
       rl_free_cb = True, rl_flags = 0, rl_elemsize = 0, rl_p = []\<rparr>, rkhdrs_ser_size = 7\<rparr>"

theorem headers_are_pairs_witness:
  "(\<exists>hdrs'. rd_kafka_header_add two_headers (''k'' @ [CHR 0x00]) (- 1) (Some (''w'' @ [CHR 0x00])) 1 = Inr hdrs' \<and>
      hdrs_rep hdrs' [(''k'', Some ''v''), (''n'', None), (''k'', Some ''w'')]) \<and>
   (\<exists>hdrs'. rd_kafka_header_remove two_headers ''k'' = Inr (hdrs', 0) \<and> hdrs_rep hdrs' [(''n'', None)]) \<and>
   rd_kafka_header_get_last two_headers ''k'' = Inr (Some (Some ''v'', 1))"
proof -
  have rep: "hdrs_rep two_headers [(''k'', Some ''v''), (''n'', None)]"
    by (simp add: hdrs_rep_def two_headers_def rl_rep_def rl_slots_def rl_open_def wire_size_def val_size_def groups.simps)
  show ?thesis
    using headers_are_pairs [OF rep, of "''k''" "Some ''w''" "- 1" 1]
    by (auto simp: pair_ok_def val_size_def last_value_def)
qed

end
