(* ===== verification/Spec2Isabelle.thy ===== *)
theory Spec2Isabelle
  imports Monitor_Properties Rdavl Rdvarint Producer Rdbuf_Memory Rdslice Roundrobin_Assignor Timers Headers
begin

text \<open>
  \<^bold>\<open>O-Log: a verification development.\<close>

  O-Log watches market data that passes through Kafka. Its programs are the stream monitor in the
  directory \<open>rdkafka\<close>, a modified copy of the Kafka client librdkafka that the monitor is linked with
  (\<open>rdkafka/librdkafka-PrintPoint\<close>), a demonstration of Kafka Streams (\<open>kafka-stream\<close>) and scripts and
  configurations that generate and collect data. This development models the whole data path of the
  monitor and the data structures and algorithms of the client that the path rests on.

  \<^bold>\<open>The program and how its parts interact.\<close>

  The monitor (\<open>main.cpp\<close>) runs two threads. The event loop (\<open>EventLoop.cpp\<close>) takes a message from the
  consumer (\<open>myConsumer.cpp\<close>), wraps it with its parsed feed (\<open>myMessage.cpp\<close>, \<open>utils.cpp\<close>), appends it to
  the queue of its partition and shows it to the processors. The deficiency check
  (\<open>DeficiencyProcessor.cpp\<close>) expects a statistics feed of every feedcode each half second; it keeps one
  context per feedcode (\<open>Context.cpp\<close>, \<open>ContextMap.cpp\<close>) with the expected time and a priority queue of
  feeds that came early, and holds the message of a waiting feed alive by a counter. The validity check
  (\<open>ValidityProcessor.cpp\<close>) looks at the prices of a price feed. Reports go to a producer. The second
  thread (\<open>Backuper.cpp\<close>) regularly prints the contexts to a file and releases, partition by partition,
  the messages at the front of the queues that nobody holds, committing the offset of the last one.

  The client stores messages in counted queues per partition (\<open>rdkafka_msg.c\<close>, \<open>rdkafka_partition.c\<close>),
  which the producer fills under a limit, choosing the partition by hashes of the key (\<open>rdcrc32.c\<close>,
  \<open>rdmurmur2.c\<close>). Requests are written to segmented buffers and responses are read from slices of them
  (\<open>rdbuf.c\<close>), with variable length integers (\<open>rdvarint.h\<close>) and checksums (\<open>rdcrc32.c\<close>, \<open>crc32c.c\<close>).
  Metadata is cached in an AVL tree (\<open>rdavl.c\<close>). Lists of pointers (\<open>rdlist.c\<close>) and of topic partitions
  (\<open>rdkafka_partition.c\<close>) carry subscriptions and assignments, which the leader of a consumer group
  computes with an assignor (\<open>rdkafka_assignor.c\<close>, \<open>rdkafka_range_assignor.c\<close>,
  \<open>rdkafka_roundrobin_assignor.c\<close>), leaving out topics that a pattern list excludes (\<open>rdkafka_pattern.c\<close>).
  Messages carry headers (\<open>rdkafka_header.c\<close>), and periodic work is dispatched by timers
  (\<open>rdkafka_timer.c\<close>).

  \<^bold>\<open>Conventions.\<close>

  A C or C++ operation that can go wrong has a result in \<open>'a res\<close> of \<open>Olog_Prelude\<close>: \<open>Inl\<close> a fault (use
  after free, null dereference, access out of bounds, unassigned variable, failed assertion, division by
  zero, undefined shift or overflow), or \<open>Inr\<close> the value. Every dereference, index and assertion of the
  source is a check of the model, so a theorem whose conclusion is \<open>Inr\<close> is also a proof of memory safety
  on that path. Signed integers are \<open>int\<close> with \<open>s32\<close> and \<open>s64\<close> for wrap-around where it matters, hashes,
  checksums, flags and counters that wrap are machine words, doubles are the rational numbers they
  denote. Records have the fields of the structs. Objects on the heap that are shared live in explicit
  maps from addresses to values, so that aliasing and reference counts can be stated. Loops are
  recursive functions with a termination proof; those whose end is not visible in the code, balancing in
  \<open>rdavl.c\<close>, the loops over segments in \<open>rdbuf.c\<close> and \<open>rdvarint.c\<close> and the dispatch of timers, are \<open>partial_function (option)\<close>, where
  \<open>None\<close> is not returning, and that they return is proved (or, for one case of writing, that they do
  not).

  Code outside the repository is a parameter: the JSON reader, the regular expression library, the
  \<open>crc32\<close> instruction, the pseudo-random numbers, the clock, the addresses that the allocator returns. What
  is assumed of \<open>qsort\<close> is the locale \<open>c_qsort\<close>, which the merge sort of \<open>C_Stdlib\<close> satisfies: it permutes
  the array, and orders it if the comparison is a total preorder. The text
  functions of the C and C++ libraries, including rounding of decimal numbers, are defined in \<open>Cxx_Text\<close>
  and \<open>C_String\<close>.

  \<^bold>\<open>The monitor.\<close>

  \<^item> \<open>Feeds\<close>: \<open>StatisticsFeed\<close>, \<open>PriceFeed\<close> of \<open>utils.h\<close> and their \<open>build\<close> from a comma separated body. A
    printed feed is read back field by field (\<open>StatisticsFeed_build_body\<close>). The locale \<open>extractor\<close> is what
    the four stream extractions have in common.
  \<^item> \<open>Messages\<close>: \<open>MyMessage\<close> with the life counter (\<open>live\<close>, \<open>kill\<close>, \<open>free\<close>); \<open>heap\<close> maps a message
    pointer to its object, and deleting removes it. A message without payload is a null pointer that the
    constructor makes a string of.
  \<^item> \<open>Contexts\<close>: \<open>Context\<close>, the priority queue (locale \<open>keyed_queue\<close>), \<open>ContextMap\<close> over \<open>std::map\<close> (locale
    \<open>ordered_map\<close>) and the text of a backup. A mutex is a flag, and unlocking a free one is counted.
  \<^item> \<open>Deficiency\<close>: the whole of \<open>DeficiencyProcessor::exec\<close> with every branch. \<open>Deficiency_Invariant\<close> has
    the invariant \<open>deficiency_inv\<close> (counters agree with registrations, queues hold live messages of their
    own feedcode in order, the numbers of a context are assigned) and its preservation;
    \<open>Deficiency_Behaviour\<close> has the exact result of each branch and the refinement of the drain loop to a
    function on timestamps.
  \<^item> \<open>Validity\<close>: \<open>ValidityProcessor::exec\<close>.
  \<^item> \<open>Event_Loop\<close>: \<open>EventLoop::run\<close> one message at a time, split into \<open>receive\<close> and \<open>process\<close> so that a backup
    can be put between them; \<open>store_offset\<close>; \<open>msg_consume\<close> with its error codes; \<open>backup\<close>. Commits and
    produced strings are recorded in the state.
  \<^item> \<open>Monitor_Safety\<close>, \<open>Monitor_Runs\<close>, \<open>Monitor_Properties\<close>: the invariant \<open>monitor_inv\<close>, runs as lists of
    actions of both threads, and the properties C1 to C11, C13 and C14. No run over acceptable messages
    faults; commits are a subsequence of arrivals per partition; the drain loop stops at the first gap;
    \<open>store_offset\<close> releases exactly the finished prefix; a backup of a quiet monitor releases everything.
    Further properties prove defects: a delayed feed is never released and blocks its partition, a backup
    between arrival and processing frees the message in use exactly when all older messages of its
    partition are finished, a context is unlocked twice, a long feedcode
    overflows a report, a payload that is no JSON reads an unassigned member.

  \<^bold>\<open>The client library.\<close>

  \<^item> \<open>Rdavl\<close>: insertion, removal, lookup and balancing. Under the locale \<open>rd_avl_order\<close>, interpreted with
    the comparator of the metadata cache, lookups after insertions and removals are those of a map;
    balancing returns; and new leaves of height zero let a chain of three stay unbalanced.
  \<^item> \<open>Rdvarint\<close>: round trip of signed numbers, bounds of the encoder, and the undefined shift that an
    overlong number causes in the decoder.
  \<^item> \<open>Crc_Bits\<close>, \<open>Rdcrc32\<close>, \<open>Crc32c\<close>: the table driven CRC-32, and slicing by eight and the three lane
    instruction based CRC-32C with the construction of all tables, are the bitwise CRC; CRC-32 detects bursts
    of up to four bytes.
  \<^item> \<open>Rdmurmur2\<close>: the hash, and that it separates keys that differ in one aligned word.
  \<^item> \<open>Msgq\<close>: message queues with their counters, sorted insertion, insertion of a whole queue as a
    block and retries under either order (locale \<open>msg_order\<close>), ageing. A queue inserted into another leaves
    it in order exactly when no message of the destination falls into its range.
  \<^item> \<open>Producer\<close>: accounting, message creation, partitioners, \<open>produce\<close> and \<open>produce_batch\<close>. Every message is
    in exactly one queue or nothing has changed, with exact counters; messages with one key
    go to the queue of one partition, in all states of a topic with the same number of partitions; an unknown partition in a batch is a null dereference.
  \<^item> \<open>Rdbuf\<close>, \<open>Rdbuf_Memory\<close>, \<open>Rdslice\<close>: a segmented buffer is one array of bytes under all writing
    operations; the calls of free functions in any sequence of operations are exactly one per heap block
    and one per payload pushed with a free function; slices read exactly
    the written bytes, and checksums by segment are those of the whole range; a write after
    \<open>rd_buf_write_ensure_contig\<close> can fail to return, and a write after a push that found a segment allocated
    ahead stands before the memory pushed (\<open>write_after_push_reordered\<close>).
  \<^item> \<open>C_Stdlib\<close>, \<open>Rdlist\<close>: \<open>qsort\<close> and \<open>bsearch\<close>, and the list of pointers as a sequence (\<open>rl_rep\<close>) under
    appending, removal, sorting, lookup, copying and preallocation, with the locale \<open>pointer_list\<close> for
    its clients. Lemmas at the end show a lookup that misses an element set into a sorted list, and two
    elements that share memory in a preallocated one.
  \<^item> \<open>Topic_Partitions\<close>: lists of topic partitions. A copy takes one reference per partition object it
    points to and destroying it gives exactly these back; adding ranges, lookup, deletion, sorting.
  \<^item> \<open>Patterns\<close>: pattern lists. Parsing gives one pattern for each piece between commas, in order, or no
    list when one does not compile; a doubled comma is never an escaped one.
  \<^item> \<open>Assignors\<close>: subscriptions, the mapping of topics to subscribing members, the configuration of
    assignors and the two assignment callbacks. \<open>Range_Assignor\<close> has the arithmetic of shares and the
    callback; \<open>Assignor_Run\<close> composes configuration, mapping and callback: each partition of each
    subscribed topic goes to exactly one member, to subscribers only, in shares that differ by at most
    one. \<open>Roundrobin_Assignor\<close> shows that uniform members take turns, and that the search
    for the next member leaves the array when no member from the position of the turn on subscribes.
  \<^item> \<open>Timers\<close>: timers in a queue ordered by time, over a memory of timers, with clock, callbacks and the
    wait as parameters. A dispatch returns and fires exactly the due timers once each in order; starting,
    stopping and destroying keep the queue well formed; times that are more than 2147 seconds apart compare
    the wrong way round, so that an hour long timer holds up a short one.
  \<^item> \<open>Headers\<close>: message headers refine a list of pairs of name and value (\<open>hdrs_rep\<close>), with the size on the
    wire computed by the encoder of \<open>Rdvarint\<close>.

  \<^bold>\<open>Bounds.\<close>

  Reports are printed into arrays of 200 characters; messages are acceptable when their feedcode has at
  most 16 characters and their numbers print within that (\<open>modest\<close>), which covers the exchange data, and
  a feedcode of 71 characters is proved to overflow. Lists of pointers are assumed to stay below
  \<open>2 ^ 27\<close> elements and lists of partitions below \<open>2 ^ 29\<close>, so that the capacity, which is tripled or doubled
  on growth, stays a 32 bit integer. The times in a queue of timers lie within \<open>2 ^ 31\<close> microseconds in the
  positive property, the range of their comparison. Names and values of headers are shorter than \<open>2 ^ 31\<close>. No fuel is used anywhere.

  \<^bold>\<open>Not modelled.\<close>

  \<^item> Input and output: sockets, brokers, TLS and SASL, files, threads, locks as such, signals, logging,
    statistics and debug messages. The interleavings that matter in the monitor are sequences of
    \<open>receive\<close>, \<open>process\<close> and \<open>backup\<close>; a data race inside one of these steps is not expressible.
  \<^item> The protocol state machines of the client (broker and group coordinator threads, operations and
    queues between threads, offsets, admin requests, metadata requests): they are driven by
    replies of the cluster and by concurrent threads, and no fragment of them is a closed computation. The
    request and response encodings and the message set reader and writer stand on \<open>Rdbuf\<close> and \<open>Rdslice\<close> but
    are macros that jump out of the enclosing function on errors, tied to broker state.
  \<^item> Third party code vendored into the client (LZ4, Snappy, xxHash, the histogram, the regular
    expression engine, TinyCThread) and into the monitor (the JSON and XML readers), the C++ wrapper,
    which forwards calls, tests and examples.
  \<^item> \<open>confLoader.cpp\<close> and \<open>myProducer.cpp\<close>, which copy XML attributes into setters of the client; the
    demonstration programs, the Kafka Streams classes, and the Python and shell scripts.
\<close>

end
